(* ===== verification/Go_Prelude.thy ===== *)
theory Go_Prelude
  imports Main "HOL-Library.Word"
begin

text \<open>
  What the components share of the Go language and its standard library: bytes and
  byte strings, the 64-bit \<open>int\<close> with its wrap-around, the functions of \<open>strings\<close>,
  \<open>bytes\<close>, \<open>strconv\<close>, \<open>fmt\<close>, \<open>bufio\<close> and \<open>hash/crc32\<close> that the sources call, and
  the lemmas about them that the component theories use.
  \<^item> A Go \<open>byte\<close> is an \<open>8 word\<close>; a \<open>string\<close> or \<open>[]byte\<close> is a list of them
    (\<open>str ''abc''\<close> is the literal).
  \<^item> A Go \<open>int\<close> or \<open>int64\<close> is an HOL \<open>int\<close>; where the code's arithmetic can leave the
    64-bit range the model applies \<open>i64\<close>, the two's complement wrap-around.
  \<^item> A Go \<open>uint32\<close> or \<open>uint64\<close> is a \<open>32 word\<close> or a \<open>64 word\<close>.
\<close>

unbundle bit_operations_syntax

named_theorems go_simps \<open>evaluation rules for the Go library functions\<close>
named_theorems i64_simps \<open>when 64-bit arithmetic does not wrap\<close>

type_synonym byte = "8 word"
type_synonym bytes = "8 word list"
type_synonym uint16 = "16 word"
type_synonym uint32 = "32 word"
type_synonym uint64 = "64 word"

section \<open>String literals\<close>

definition str :: "string \<Rightarrow> bytes" where
  "str s = map of_char s"

lemma str_Nil [simp]: "str [] = []"
  by (simp add: str_def)

lemma str_Cons [simp]: "str (c # cs) = of_char c # str cs"
  by (simp add: str_def)

lemma length_str [simp]: "length (str s) = length s"
  by (simp add: str_def)

section \<open>64-bit signed integers\<close>

definition i64 :: "int \<Rightarrow> int" where
  "i64 x = (x + 2 ^ 63) mod 2 ^ 64 - 2 ^ 63"

definition in_i64 :: "int \<Rightarrow> bool" where
  "in_i64 x \<longleftrightarrow> - (2 ^ 63) \<le> x \<and> x < 2 ^ 63"

abbreviation max_i64 :: int where
  "max_i64 \<equiv> 9223372036854775807"

lemma in_i64_bounds: "in_i64 x \<longleftrightarrow> - 9223372036854775808 \<le> x \<and> x \<le> max_i64"
  by (auto simp: in_i64_def)

lemma i64_id [i64_simps]: "in_i64 x \<Longrightarrow> i64 x = x"
  by (simp add: i64_def in_i64_def)

lemma i64_in [simp]: "in_i64 (i64 x)"
proof -
  have "0 \<le> (x + 2 ^ 63) mod 2 ^ 64" "(x + 2 ^ 63) mod 2 ^ 64 < 2 ^ 64"
    by simp_all
  then show ?thesis unfolding i64_def in_i64_def by simp
qed

lemma i64_nonneg [i64_simps]: "0 \<le> x \<Longrightarrow> x \<le> max_i64 \<Longrightarrow> i64 x = x"
  by (simp add: i64_id in_i64_bounds)

lemma i64_sint: "i64 (uint w) = sint (w :: 64 word)"
proof -
  have "sint w = signed_take_bit 63 (uint w)"
    by (simp add: sint_uint)
  also have "\<dots> = (uint w + 2 ^ 63) mod 2 ^ 64 - 2 ^ 63"
    by (simp add: signed_take_bit_eq_take_bit_shift take_bit_eq_mod)
  finally show ?thesis by (simp add: i64_def)
qed

lemma sint_in_i64 [simp]: "in_i64 (sint (w :: 64 word))"
  by (metis i64_in i64_sint)

section \<open>The functions of \<open>strings\<close> and \<open>bytes\<close>\<close>

definition HasPrefix :: "bytes \<Rightarrow> bytes \<Rightarrow> bool" where
  "HasPrefix s p \<longleftrightarrow> length p \<le> length s \<and> take (length p) s = p"

definition HasSuffix :: "bytes \<Rightarrow> bytes \<Rightarrow> bool" where
  "HasSuffix s p \<longleftrightarrow> length p \<le> length s \<and> drop (length s - length p) s = p"

definition CutPrefix :: "bytes \<Rightarrow> bytes \<Rightarrow> bytes option" where
  "CutPrefix s p = (if HasPrefix s p then Some (drop (length p) s) else None)"

definition TrimSuffix :: "bytes \<Rightarrow> bytes \<Rightarrow> bytes" where
  "TrimSuffix s p = (if HasSuffix s p then take (length s - length p) s else s)"

lemma HasPrefix_Nil [simp, go_simps]: "HasPrefix s []"
  by (simp add: HasPrefix_def)

lemma HasPrefix_Nil2 [simp, go_simps]: "HasPrefix [] (x # p) = False"
  by (simp add: HasPrefix_def)

lemma HasPrefix_Cons [simp, go_simps]: "HasPrefix (y # s) (x # p) \<longleftrightarrow> y = x \<and> HasPrefix s p"
  by (auto simp: HasPrefix_def)

lemma HasPrefix_append [simp]: "HasPrefix (p @ s) p"
  by (simp add: HasPrefix_def)

lemma HasPrefix_iff: "HasPrefix s p \<longleftrightarrow> (\<exists>r. s = p @ r)"
proof
  assume "HasPrefix s p"
  then have "s = p @ drop (length p) s"
    by (metis HasPrefix_def append_take_drop_id)
  then show "\<exists>r. s = p @ r" ..
qed auto

lemma CutPrefix_append [simp]: "CutPrefix (p @ s) p = Some s"
  by (simp add: CutPrefix_def)

text \<open>\<open>strings.Index\<close>: the first position at which \<open>sub\<close> occurs, \<open>None\<close> for -1.\<close>

fun Index :: "bytes \<Rightarrow> bytes \<Rightarrow> nat option" where
  "Index [] sub = (if sub = [] then Some 0 else None)"
| "Index (x # xs) sub =
     (if HasPrefix (x # xs) sub then Some 0 else map_option Suc (Index xs sub))"

lemma Index_bound: "Index s sub = Some i \<Longrightarrow> i + length sub \<le> length s"
proof (induction s sub arbitrary: i rule: Index.induct)
  case (2 x xs sub)
  then show ?case
    by (auto simp: HasPrefix_def split: if_splits)
qed (auto split: if_splits)

text \<open>\<open>bytes.IndexByte\<close>.\<close>

fun IndexByte :: "bytes \<Rightarrow> byte \<Rightarrow> nat option" where
  "IndexByte [] c = None"
| "IndexByte (x # xs) c = (if x = c then Some 0 else map_option Suc (IndexByte xs c))"

lemma IndexByte_None: "IndexByte xs c = None \<longleftrightarrow> c \<notin> set xs"
  by (induction xs) auto

lemma IndexByte_Some:
  "IndexByte xs c = Some i \<Longrightarrow> i < length xs \<and> xs ! i = c \<and> c \<notin> set (take i xs)"
  by (induction xs arbitrary: i) (auto split: if_splits)

lemma IndexByte_append:
  "IndexByte (xs @ ys) c = (case IndexByte xs c of Some i \<Rightarrow> Some i
     | None \<Rightarrow> map_option (\<lambda>i. length xs + i) (IndexByte ys c))"
  by (cases "IndexByte ys c"; induction xs) (auto split: option.splits)

text \<open>
  \<open>strings.TrimSpace\<close>: the bytes of a white-space character at either end are dropped. The
  ASCII ones take one byte; the UTF-8 encodings of the others of \<open>unicode.IsSpace\<close> are
  listed in \<open>space_seqs\<close>.
\<close>

definition space_seqs :: "bytes list" where
  "space_seqs =
     [[9], [10], [11], [12], [13], [32], [0xC2, 0x85], [0xC2, 0xA0], [0xE1, 0x9A, 0x80]]
     @ map (\<lambda>k. [0xE2, 0x80, 0x80 + of_nat k]) [0..<11]
     @ [[0xE2, 0x80, 0xA8], [0xE2, 0x80, 0xA9], [0xE2, 0x80, 0xAF], [0xE2, 0x81, 0x9F],
        [0xE3, 0x80, 0x80]]"

function trim_front :: "bytes list \<Rightarrow> bytes \<Rightarrow> bytes" where
  "trim_front seqs s =
     (case find (\<lambda>q. q \<noteq> [] \<and> HasPrefix s q) seqs of
        None \<Rightarrow> s
      | Some q \<Rightarrow> trim_front seqs (drop (length q) s))"
  by pat_completeness auto
termination
proof (relation "measure (\<lambda>(seqs, s). length s)", goal_cases)
  case (2 seqs s q)
  then have "q \<noteq> []" "HasPrefix s q"
    by (auto simp: find_Some_iff)
  then show ?case by (cases s; cases q) (auto simp: HasPrefix_def)
qed simp

declare trim_front.simps [simp del]

definition TrimSpace :: "bytes \<Rightarrow> bytes" where
  "TrimSpace s = rev (trim_front (map rev space_seqs) (rev (trim_front space_seqs s)))"

text \<open>A string that neither begins nor ends with a white-space character.\<close>

definition trimmed :: "bytes \<Rightarrow> bool" where
  "trimmed s \<longleftrightarrow> find (\<lambda>q. q \<noteq> [] \<and> HasPrefix s q) space_seqs = None \<and>
     find (\<lambda>q. q \<noteq> [] \<and> HasPrefix (rev s) q) (map rev space_seqs) = None"

lemma TrimSpace_trimmed [simp]: "trimmed s \<Longrightarrow> TrimSpace s = s"
  unfolding TrimSpace_def trimmed_def
  by (simp add: trim_front.simps [of space_seqs s]
      trim_front.simps [of "map rev space_seqs" "rev s"])

definition is_blank :: "byte \<Rightarrow> bool" where
  \<comment> \<open>the cutset \<open>" \t"\<close>\<close>
  "is_blank c \<longleftrightarrow> c = 32 \<or> c = 9"

lemma is_blank_32 [simp]: "is_blank 32" and is_blank_9 [simp]: "is_blank 9"
  by (simp_all add: is_blank_def)

section \<open>The functions of \<open>strconv\<close>\<close>

datatype num_error = ErrSyntax | ErrRange

text \<open>The value of one digit, letters of either case counting from 10.\<close>

definition digit_val :: "byte \<Rightarrow> int option" where
  "digit_val c =
     (if 48 \<le> c \<and> c \<le> 57 then Some (uint (c - 48))
      else let l = c OR 32 in
        if 97 \<le> l \<and> l \<le> 122 then Some (uint (l - 97) + 10) else None)"

fun parse_digits :: "int \<Rightarrow> int \<Rightarrow> int \<Rightarrow> bytes \<Rightarrow> int \<times> num_error option" where
  "parse_digits base maxv n [] = (n, None)"
| "parse_digits base maxv n (c # cs) =
     (case digit_val c of
        None \<Rightarrow> (0, Some ErrSyntax)
      | Some d \<Rightarrow>
          if base \<le> d then (0, Some ErrSyntax)
          else if maxv < n * base + d then (maxv, Some ErrRange)
          else parse_digits base maxv (n * base + d) cs)"

definition ParseUint :: "bytes \<Rightarrow> int \<Rightarrow> nat \<Rightarrow> int \<times> num_error option" where
  "ParseUint s base bits =
     (if s = [] then (0, Some ErrSyntax) else parse_digits base (2 ^ bits - 1) 0 s)"

definition signed_result :: "bool \<Rightarrow> int \<times> num_error option \<Rightarrow> int \<times> num_error option" where
  "signed_result neg r =
     (case r of
        (un, Some ErrSyntax) \<Rightarrow> (0, Some ErrSyntax)
      | (un, _) \<Rightarrow>
          if \<not> neg \<and> 2 ^ 63 \<le> un then (2 ^ 63 - 1, Some ErrRange)
          else if neg \<and> 2 ^ 63 < un then (- (2 ^ 63), Some ErrRange)
          else (if neg then - un else un, None))"

definition ParseInt10 :: "bytes \<Rightarrow> int \<times> num_error option" where
  \<comment> \<open>\<open>strconv.ParseInt(s, 10, 64)\<close>; the result is clamped when out of range\<close>
  "ParseInt10 s =
     (if s = [] then (0, Some ErrSyntax)
      else signed_result (hd s = 45) (ParseUint (if hd s = 45 \<or> hd s = 43 then tl s else s) 10 64))"

definition Atoi :: "bytes \<Rightarrow> int \<times> num_error option" where
  "Atoi s = ParseInt10 s"

section \<open>The \<open>%d\<close>, \<open>%s\<close> and \<open>%08x\<close> verbs of \<open>fmt\<close>\<close>

function show_dec :: "int \<Rightarrow> bytes" where
  "show_dec n =
     (if n < 10 then [48 + of_int n] else show_dec (n div 10) @ [48 + of_int (n mod 10)])"
  by pat_completeness auto
termination
  by (relation "measure nat") auto

declare show_dec.simps [simp del]

definition show_int :: "int \<Rightarrow> bytes" where
  "show_int i = (if i < 0 then 45 # show_dec (- i) else show_dec i)"

definition hex_digit :: "int \<Rightarrow> byte" where
  "hex_digit d = (if d < 10 then 48 + of_int d else 87 + of_int d)"

fun show_hex :: "nat \<Rightarrow> int \<Rightarrow> bytes" where
  "show_hex 0 n = []"
| "show_hex (Suc k) n = show_hex k (n div 16) @ [hex_digit (n mod 16)]"

definition show_hex08 :: "uint32 \<Rightarrow> bytes" where
  "show_hex08 w = show_hex 8 (uint w)"

lemma less_10_cases:
  "0 \<le> (d :: int) \<Longrightarrow> d < 10 \<Longrightarrow>
   d = 0 \<or> d = 1 \<or> d = 2 \<or> d = 3 \<or> d = 4 \<or> d = 5 \<or> d = 6 \<or> d = 7 \<or> d = 8 \<or> d = 9"
  by arith

lemma less_16_cases:
  "0 \<le> (d :: int) \<Longrightarrow> d < 16 \<Longrightarrow>
   (0 \<le> d \<and> d < 10) \<or> d = 10 \<or> d = 11 \<or> d = 12 \<or> d = 13 \<or> d = 14 \<or> d = 15"
  by arith

text \<open>The characters \<open>show_dec\<close> and \<open>show_hex08\<close> produce.\<close>

definition is_dec_byte :: "byte \<Rightarrow> bool" where
  "is_dec_byte c \<longleftrightarrow> 48 \<le> c \<and> c \<le> 57"

lemma digit_val_dec [simp]: "0 \<le> d \<Longrightarrow> d < 10 \<Longrightarrow> digit_val (48 + of_int d) = Some d"
  by (drule (1) less_10_cases) (elim disjE; simp add: digit_val_def)

lemma is_dec_byte_dec: "0 \<le> d \<Longrightarrow> d < 10 \<Longrightarrow> is_dec_byte (48 + of_int d)"
  by (drule (1) less_10_cases) (elim disjE; simp add: is_dec_byte_def)

lemma digit_val_hex [simp]: "0 \<le> d \<Longrightarrow> d < 16 \<Longrightarrow> digit_val (hex_digit d) = Some d"
  by (drule (1) less_16_cases) (elim disjE; simp add: hex_digit_def; simp add: digit_val_def)

lemma show_dec_dec: "0 \<le> n \<Longrightarrow> \<forall>c \<in> set (show_dec n). is_dec_byte c"
proof (induction n rule: show_dec.induct)
  case (1 n)
  then show ?case
    by (subst show_dec.simps) (auto simp: is_dec_byte_dec)
qed

lemma show_dec_nonempty [simp]: "show_dec n \<noteq> []"
  by (subst show_dec.simps) simp

lemma dec_byte_not_blank: "is_dec_byte c \<Longrightarrow> \<not> is_blank c"
  by (auto simp: is_dec_byte_def is_blank_def)

lemma dec_byte_not_break:
  "is_dec_byte c \<Longrightarrow> c \<noteq> 10 \<and> c \<noteq> 13 \<and> c \<noteq> 61 \<and> c \<noteq> 45 \<and> c \<noteq> 43 \<and> c \<noteq> 110"
  by (auto simp: is_dec_byte_def)

lemma parse_digits_append:
  "parse_digits base maxv n (xs @ ys) =
     (case parse_digits base maxv n xs of
        (m, None) \<Rightarrow> parse_digits base maxv m ys | (m, Some e) \<Rightarrow> (m, Some e))"
  by (induction base maxv n xs rule: parse_digits.induct) (auto split: option.splits)

lemma parse_digits_show_dec:
  "0 \<le> n \<Longrightarrow> n \<le> maxv \<Longrightarrow> parse_digits 10 maxv 0 (show_dec n) = (n, None)"
proof (induction n rule: show_dec.induct)
  case (1 n)
  show ?case
  proof (cases "n < 10")
    case True
    with "1.prems" show ?thesis
      by (subst show_dec.simps) simp
  next
    case False
    with 1 have "parse_digits 10 maxv 0 (show_dec (n div 10)) = (n div 10, None)"
      by simp
    with False "1.prems" show ?thesis
      by (subst show_dec.simps) (simp add: parse_digits_append del: digit_val_dec, simp)
  qed
qed

lemma ParseUint_show_dec: "0 \<le> n \<Longrightarrow> n < 2 ^ bits \<Longrightarrow> ParseUint (show_dec n) 10 bits = (n, None)"
  by (simp add: ParseUint_def parse_digits_show_dec)

lemma show_dec_hd: "0 \<le> n \<Longrightarrow> hd (show_dec n) \<noteq> 45 \<and> hd (show_dec n) \<noteq> 43"
  using show_dec_dec [of n] dec_byte_not_break [of "hd (show_dec n)"] by simp

lemma show_int_nonneg: "0 \<le> i \<Longrightarrow> show_int i = show_dec i"
  by (simp add: show_int_def)

lemma ParseInt10_show_int: "0 \<le> i \<Longrightarrow> i \<le> max_i64 \<Longrightarrow> ParseInt10 (show_int i) = (i, None)"
  using show_dec_hd [of i] ParseUint_show_dec [of i 64]
  by (simp add: ParseInt10_def signed_result_def show_int_nonneg)

text \<open>What is parsed is never negative, and a parsed \<open>int\<close> has 64 bits.\<close>

lemma digit_val_nonneg: "digit_val c = Some d \<Longrightarrow> 0 \<le> d"
  by (auto simp: digit_val_def Let_def split: if_splits)

lemma parse_digits_nonneg:
  "0 \<le> base \<Longrightarrow> 0 \<le> maxv \<Longrightarrow> 0 \<le> n \<Longrightarrow> 0 \<le> fst (parse_digits base maxv n cs)"
proof (induction cs arbitrary: n)
  case (Cons c cs)
  show ?case
  proof (cases "digit_val c")
    case (Some d)
    then have "0 \<le> n * base + d"
      using Cons.prems digit_val_nonneg by simp
    from Cons.IH [OF Cons.prems(1,2) this] show ?thesis
      using Some Cons.prems by simp
  qed simp
qed simp

lemma ParseUint_nonneg: "0 \<le> base \<Longrightarrow> 0 \<le> fst (ParseUint s base bits)"
  by (simp add: ParseUint_def parse_digits_nonneg)

lemma in_i64_signed_result: "0 \<le> fst r \<Longrightarrow> in_i64 (fst (signed_result neg r))"
  by (cases r) (auto simp: signed_result_def in_i64_def split: option.split num_error.split)

lemma in_i64_ParseInt10: "in_i64 (fst (ParseInt10 s))"
  by (simp add: ParseInt10_def in_i64_signed_result ParseUint_nonneg) (simp add: in_i64_def)

text \<open>Hexadecimal digits, most significant first.\<close>

lemma parse_digits_show_hex:
  "0 \<le> n \<Longrightarrow> n < 16 ^ k \<Longrightarrow> n \<le> maxv \<Longrightarrow> parse_digits 16 maxv 0 (show_hex k n) = (n, None)"
proof (induction k arbitrary: n)
  case (Suc k)
  have "n div 16 < 16 ^ k"
    using Suc.prems(2) by (simp add: div_less_iff_less_mult mult.commute)
  moreover have "n div 16 \<le> maxv" "0 \<le> n div 16"
    using Suc.prems(1,3) by auto
  ultimately have "parse_digits 16 maxv 0 (show_hex k (n div 16)) = (n div 16, None)"
    by (intro Suc.IH)
  with Suc.prems(3) show ?case by (simp add: parse_digits_append)
qed simp

lemma length_show_hex [simp]: "length (show_hex k n) = k"
  by (induction k arbitrary: n) auto

lemma length_show_hex08 [simp]: "length (show_hex08 w) = 8"
  by (simp add: show_hex08_def)

lemma ParseUint_show_hex08: "ParseUint (show_hex08 w) 16 32 = (uint w, None)"
proof -
  have "uint w < 2 ^ 32"
    using unsigned_less [of w] by simp
  then have "parse_digits 16 (2 ^ 32 - 1) 0 (show_hex 8 (uint w)) = (uint w, None)"
    by (intro parse_digits_show_hex) simp_all
  moreover have "show_hex 8 (uint w) \<noteq> []"
    by (metis length_show_hex list.size(3) zero_neq_numeral)
  ultimately show ?thesis by (simp add: ParseUint_def show_hex08_def)
qed

lemma hex_digit_not_blank:
  "0 \<le> d \<Longrightarrow> d < 16 \<Longrightarrow> \<not> is_blank (hex_digit d) \<and> hex_digit d \<noteq> 10 \<and> hex_digit d \<noteq> 13"
  by (drule (1) less_16_cases, elim disjE)
    (simp_all add: hex_digit_def is_blank_def, drule conjE [OF _ less_10_cases], assumption+, elim disjE, simp_all)

lemma show_hex_bytes: "c \<in> set (show_hex k n) \<Longrightarrow> \<not> is_blank c \<and> c \<noteq> 10 \<and> c \<noteq> 13"
  by (induction k arbitrary: n) (auto simp: hex_digit_not_blank)

section \<open>Sums\<close>

lemma sum_list_upd:
  fixes f :: "'a \<Rightarrow> int"
  shows "i < length xs \<Longrightarrow> sum_list (map f (xs[i := y])) = sum_list (map f xs) - f (xs ! i) + f y"
proof (induction xs arbitrary: i)
  case (Cons x xs)
  then show ?case by (cases i) auto
qed simp

lemma sum_list_map_le:
  fixes f g :: "'a \<Rightarrow> int"
  shows "(\<And>x. x \<in> set xs \<Longrightarrow> f x \<le> g x) \<Longrightarrow> sum_list (map f xs) \<le> sum_list (map g xs)"
  by (induction xs) (auto intro: add_mono)

section \<open>Slices\<close>

text \<open>\<open>s[i:j]\<close> for \<open>0 \<le> i \<le> j \<le> len(s)\<close>.\<close>

definition slice :: "'a list \<Rightarrow> nat \<Rightarrow> nat \<Rightarrow> 'a list" where
  "slice s i j = take (j - i) (drop i s)"

lemma slice_empty [simp]: "slice s i i = []"
  by (simp add: slice_def)

lemma length_slice [simp]: "j \<le> length s \<Longrightarrow> length (slice s i j) = j - i"
  by (simp add: slice_def)

lemma slice_Cons: "i < j \<Longrightarrow> j \<le> length s \<Longrightarrow> slice s i j = s ! i # slice s (Suc i) j"
  by (simp add: slice_def Cons_nth_drop_Suc [symmetric] Suc_diff_Suc [symmetric] del: Suc_diff_Suc)

lemma slice_update_before [simp]: "w < i \<Longrightarrow> slice (s[w := x]) i j = slice s i j"
  by (simp add: slice_def)

lemma slice_0 [simp]: "slice s 0 j = take j s"
  by (simp add: slice_def)

lemma take_snoc_update: "w < length s \<Longrightarrow> take (Suc w) (s[w := x]) = take w s @ [x]"
  by (simp add: take_Suc_conv_app_nth)

section \<open>Lines: \<open>bufio.Scanner\<close> with \<open>bufio.ScanLines\<close>\<close>

text \<open>The lines of a text that end in a line feed, and what follows the last one.\<close>

function split_nl :: "bytes \<Rightarrow> bytes list \<times> bytes" where
  "split_nl s =
     (case IndexByte s 10 of
        None \<Rightarrow> ([], s)
      | Some i \<Rightarrow> (case split_nl (drop (Suc i) s) of (ls, r) \<Rightarrow> (take i s # ls, r)))"
  by pat_completeness auto
termination
  by (relation "measure length") (auto dest: IndexByte_Some)

declare split_nl.simps [simp del]

definition raw_lines :: "bytes \<Rightarrow> bytes list" where
  "raw_lines s = (case split_nl s of (ls, r) \<Rightarrow> ls @ (if r = [] then [] else [r]))"

text \<open>One trailing carriage return is dropped from a line.\<close>

definition dropCR :: "bytes \<Rightarrow> bytes" where
  "dropCR l = (if l \<noteq> [] \<and> last l = 13 then butlast l else l)"

text \<open>
  The tokens of a scanner over an in-memory reader whose buffer may grow to \<open>m\<close> bytes, and
  whether it then stops with \<open>ErrTooLong\<close>: a line that does not fit the buffer together with
  its line feed ends the scan.
\<close>

definition scan_lines :: "nat \<Rightarrow> bytes \<Rightarrow> bytes list \<times> bool" where
  "scan_lines m s =
     (map dropCR (takeWhile (\<lambda>l. length l < m) (raw_lines s)),
      \<exists>l \<in> set (raw_lines s). m \<le> length l)"

lemma split_nl_None: "10 \<notin> set s \<Longrightarrow> split_nl s = ([], s)"
  by (subst split_nl.simps) (simp add: IndexByte_None [THEN iffD2])

lemma split_nl_Nil [simp]: "split_nl [] = ([], [])"
  by (simp add: split_nl_None)

lemma IndexByte_line: "c \<notin> set l \<Longrightarrow> IndexByte (l @ c # s) c = Some (length l)"
  by (induction l) auto

lemma split_nl_line:
  "10 \<notin> set l \<Longrightarrow> split_nl (l @ 10 # s) = (l # fst (split_nl s), snd (split_nl s))"
  by (subst split_nl.simps) (simp add: IndexByte_line case_prod_beta)

lemma split_nl_cases:
  obtains (none) "10 \<notin> set s" "split_nl s = ([], s)"
  | (line) l t where "s = l @ 10 # t" "10 \<notin> set l"
proof (cases "10 \<in> set s")
  case True
  then obtain l t where "s = l @ 10 # t" "10 \<notin> set l"
    by (metis split_list_first)
  then show thesis by (rule line)
next
  case False
  then show thesis by (intro none split_nl_None)
qed

lemma split_nl_append:
  "split_nl (xs @ ys) =
     (fst (split_nl xs) @ fst (split_nl (snd (split_nl xs) @ ys)),
      snd (split_nl (snd (split_nl xs) @ ys)))"
proof (induction "length xs" arbitrary: xs rule: less_induct)
  case less
  show ?case
  proof (cases xs rule: split_nl_cases)
    case none
    then show ?thesis by simp
  next
    case (line l t)
    then have "length t < length xs" by simp
    from less [OF this] line(2) show ?thesis
      by (simp add: line(1) split_nl_line)
  qed
qed

lemma split_nl_no_break:
  "10 \<notin> set (snd (split_nl s)) \<and> (\<forall>l \<in> set (fst (split_nl s)). 10 \<notin> set l)"
proof (induction "length s" arbitrary: s rule: less_induct)
  case less
  show ?case
  proof (cases s rule: split_nl_cases)
    case none
    then show ?thesis by simp
  next
    case (line l t)
    then have "length t < length s" by simp
    from less [OF this] line(2) show ?thesis
      by (simp add: line(1) split_nl_line)
  qed
qed

section \<open>\<open>crc32.ChecksumIEEE\<close>\<close>

fun crc32_bits :: "nat \<Rightarrow> uint32 \<Rightarrow> uint32" where
  "crc32_bits 0 c = c"
| "crc32_bits (Suc n) c =
     crc32_bits n (if c AND 1 = 1 then drop_bit 1 c XOR 0xEDB88320 else drop_bit 1 c)"

definition ChecksumIEEE :: "bytes \<Rightarrow> uint32" where
  "ChecksumIEEE bs = NOT (fold (\<lambda>b c. crc32_bits 8 (c XOR ucast b)) bs (NOT 0))"

end
