(* ===== verification/Yenc.thy ===== *)
theory Yenc
  imports Go_Prelude
begin

text \<open>
  The yEnc article codec, \<open>internal/usenet/yenc\<close>: the line-based \<open>Decode\<close>, the streaming
  \<open>InPlaceDecoder\<close> that decodes over its own input buffer, the \<open>envelope\<close> checks both share
  and the \<open>Encode\<close>r. The theorems are in \<open>Yenc_Props\<close>.
\<close>

section \<open>Parts and errors\<close>

record part =
  Name :: bytes
  Number :: int
  Total :: int
  Begin :: int
  End :: int
  Size :: int
  CRC32 :: uint32
  Data :: bytes

definition zero_part :: part where
  "zero_part = \<lparr>Name = [], Number = 0, Total = 0, Begin = 0, End = 0, Size = 0, CRC32 = 0, Data = []\<rparr>"

datatype yenc_error =
    NoBeginHeader
  | ReadError
  | MissingParam bytes
  | InvalidParam bytes
  | MissingTrailer
  | TrailerSizeDiffers
  | InvalidFileSize
  | FileSizeDiffers
  | InvalidMultipartBounds
  | InconsistentMultipartNumber
  | CRCMismatch uint32 uint32

section \<open>Header parameters\<close>

function paramValue :: "bytes \<Rightarrow> bytes \<Rightarrow> bytes option" where
  "paramValue line key =
     (if line = [] then None
      else
        let line1 = dropWhile is_blank line;
            field = takeWhile (\<lambda>c. \<not> is_blank c) line1;
            rest = dropWhile (\<lambda>c. \<not> is_blank c) line1
        in if HasPrefix field (str ''name='') then None
           else case CutPrefix field (key @ str ''='') of
                  Some value \<Rightarrow> Some value
                | None \<Rightarrow> paramValue rest key)"
  by pat_completeness auto
termination
proof (relation "measure (\<lambda>(line, key). length line)", goal_cases)
  case (2 line key line1 field rest)
  have "length rest < length line"
  proof (cases line1)
    case Nil
    with 2 show ?thesis by simp
  next
    case (Cons c cs)
    then have "\<not> is_blank c"
      using 2(2) by (metis hd_dropWhile list.distinct(1) list.sel(1))
    with Cons 2(2,4) have "length rest \<le> length cs"
      by (simp add: length_dropWhile_le)
    also have "length cs < length line1" using Cons by simp
    also have "length line1 \<le> length line" using 2(2) by (simp add: length_dropWhile_le)
    finally show ?thesis .
  qed
  then show ?case by simp
qed simp

declare paramValue.simps [simp del]

definition requiredDecimal :: "bytes \<Rightarrow> bytes \<Rightarrow> yenc_error + int" where
  "requiredDecimal line key =
     (case paramValue line key of
        None \<Rightarrow> Inl (MissingParam key)
      | Some value \<Rightarrow>
          if value = [] then Inl (MissingParam key)
          else if \<exists>b \<in> set value. b < 48 \<or> 57 < b then Inl (InvalidParam key)
          else (case ParseInt10 value of
                  (n, Some _) \<Rightarrow> Inl (InvalidParam key)
                | (n, None) \<Rightarrow> Inr n))"

definition getIntParam :: "bytes \<Rightarrow> bytes \<Rightarrow> int" where
  "getIntParam line key =
     (case paramValue line key of
        None \<Rightarrow> 0
      | Some value \<Rightarrow> fst (Atoi value))"

definition parseYBegin :: "part \<Rightarrow> bytes \<Rightarrow> part" where
  "parseYBegin p line =
     (let p1 = p\<lparr>Number := getIntParam line (str ''part''),
                 Total := getIntParam line (str ''total''),
                 Size := getIntParam line (str ''size'')\<rparr>
      in case Index line (str ''name='') of
           None \<Rightarrow> p1
         | Some idx \<Rightarrow> p1\<lparr>Name := TrimSpace (drop (idx + 5) line)\<rparr>)"

definition is_hex_byte :: "byte \<Rightarrow> bool" where
  "is_hex_byte c \<longleftrightarrow> (48 \<le> c \<and> c \<le> 57) \<or> (97 \<le> c \<and> c \<le> 102) \<or> (65 \<le> c \<and> c \<le> 70)"

definition hex_at :: "bytes \<Rightarrow> nat \<Rightarrow> uint32" where
  \<comment> \<open>the tail of \<open>getHexParam\<close>: the hexadecimal run that starts at \<open>start\<close>\<close>
  "hex_at line start =
     (let digits = takeWhile is_hex_byte (drop start line)
      in if digits = [] then 0
         else case ParseUint digits 16 32 of
                (v, Some _) \<Rightarrow> 0
              | (v, None) \<Rightarrow> of_int v)"

definition getHexParam :: "bytes \<Rightarrow> bytes \<Rightarrow> uint32" where
  "getHexParam line key =
     (let prefix = key @ str ''='' in
      case Index line prefix of
        None \<Rightarrow> 0
      | Some idx \<Rightarrow>
          if 0 < idx \<and> line ! (idx - 1) \<noteq> 32 \<and> line ! (idx - 1) \<noteq> 9 then
            (case Index (drop (idx + 1) line) prefix of
               None \<Rightarrow> 0
             | Some nextIdx \<Rightarrow>
                 let idx' = idx + 1 + nextIdx in
                 if 0 < idx' \<and> line ! (idx' - 1) \<noteq> 32 \<and> line ! (idx' - 1) \<noteq> 9 then 0
                 else hex_at line (idx' + length prefix))
          else hex_at line (idx + length prefix))"

section \<open>The envelope: what a complete article must satisfy\<close>

record envelope =
  env_ended :: bool
  checksumPresent :: bool
  hasRange :: bool
  env_length :: int
  env_number :: int
  env_err :: "yenc_error option"

definition zero_envelope :: envelope where
  "zero_envelope = \<lparr>env_ended = False, checksumPresent = False, hasRange = False,
     env_length = 0, env_number = 0, env_err = None\<rparr>"

fun begin_keys :: "envelope \<Rightarrow> bytes \<Rightarrow> bytes list \<Rightarrow> envelope" where
  "begin_keys e line [] = e"
| "begin_keys e line (key # keys) =
     (case paramValue line key of
        None \<Rightarrow> begin_keys e line keys
      | Some _ \<Rightarrow>
          (case requiredDecimal line key of
             Inl err \<Rightarrow> e\<lparr>env_err := Some err\<rparr>
           | Inr _ \<Rightarrow> begin_keys e line keys))"

definition envelope_begin :: "part \<Rightarrow> envelope \<Rightarrow> bytes \<Rightarrow> part \<times> envelope" where
  "envelope_begin p e line =
     (parseYBegin p line, begin_keys e line [str ''size'', str ''part'', str ''total''])"

definition envelope_part :: "part \<Rightarrow> envelope \<Rightarrow> bytes \<Rightarrow> part \<times> envelope" where
  "envelope_part p e line =
     (let e1 = e\<lparr>hasRange := True\<rparr> in
      case requiredDecimal line (str ''begin'') of
        Inl err \<Rightarrow> (p\<lparr>Begin := 0\<rparr>, e1\<lparr>env_err := Some err\<rparr>)
      | Inr b \<Rightarrow>
          (case requiredDecimal line (str ''end'') of
             Inl err \<Rightarrow> (p\<lparr>Begin := b, End := 0\<rparr>, e1\<lparr>env_err := Some err\<rparr>)
           | Inr n \<Rightarrow> (p\<lparr>Begin := b, End := n\<rparr>, e1)))"

fun trailer_crcs :: "part \<Rightarrow> envelope \<Rightarrow> bytes \<Rightarrow> bytes list \<Rightarrow> part \<times> envelope" where
  "trailer_crcs p e line [] = (p, e)"
| "trailer_crcs p e line (key # keys) =
     (case paramValue line key of
        None \<Rightarrow> trailer_crcs p e line keys
      | Some value \<Rightarrow>
          (case ParseUint value 16 32 of
             (crc, err) \<Rightarrow>
               if err \<noteq> None \<or> length value \<noteq> 8 then (p, e\<lparr>env_err := Some (InvalidParam key)\<rparr>)
               else if \<not> checksumPresent e \<and> (key = str ''pcrc32'' \<or> Total p \<le> 1)
               then trailer_crcs (p\<lparr>CRC32 := of_int crc\<rparr>) (e\<lparr>checksumPresent := True\<rparr>) line keys
               else trailer_crcs p e line keys))"

definition envelope_trailer :: "part \<Rightarrow> envelope \<Rightarrow> bytes \<Rightarrow> part \<times> envelope" where
  "envelope_trailer p e line =
     (let e1 = e\<lparr>env_ended := True\<rparr> in
      case requiredDecimal line (str ''size'') of
        Inl err \<Rightarrow> (p, e1\<lparr>env_length := 0, env_err := Some err\<rparr>)
      | Inr len \<Rightarrow>
          let e2 = e1\<lparr>env_length := len\<rparr> in
          if Number p \<noteq> 0 then
            (case requiredDecimal line (str ''part'') of
               Inl err \<Rightarrow> (p, e2\<lparr>env_err := Some err\<rparr>)
             | Inr n \<Rightarrow> trailer_crcs p (e2\<lparr>env_number := n\<rparr>) line [str ''pcrc32'', str ''crc32''])
          else trailer_crcs p e2 line [str ''pcrc32'', str ''crc32''])"

definition validateMultipart :: "envelope \<Rightarrow> part \<Rightarrow> yenc_error option" where
  "validateMultipart e p =
     (if \<not> hasRange e \<or> Begin p < 1 \<or> End p < Begin p \<or> Size p < End p \<or>
         i64 (i64 (End p - Begin p) + 1) \<noteq> env_length e
      then Some InvalidMultipartBounds
      else if Number p < 1 \<or> (0 < Total p \<and> Total p < Number p) \<or> env_number e \<noteq> Number p
      then Some InconsistentMultipartNumber
      else None)"

definition validateBounds :: "envelope \<Rightarrow> part \<Rightarrow> yenc_error option" where
  "validateBounds e p =
     (if Size p < 0 then Some InvalidFileSize
      else if Number p \<noteq> 0 \<or> 1 < Total p \<or> hasRange e then validateMultipart e p
      else if Size p \<noteq> 0 \<and> Size p \<noteq> env_length e then Some FileSizeDiffers
      else None)"

definition validate :: "envelope \<Rightarrow> part \<Rightarrow> yenc_error option" where
  "validate e p =
     (case env_err e of
        Some err \<Rightarrow> Some err
      | None \<Rightarrow>
          if \<not> env_ended e then Some MissingTrailer
          else if env_length e \<noteq> int (length (Data p)) then Some TrailerSizeDiffers
          else
            (case validateBounds e p of
               Some err \<Rightarrow> Some err
             | None \<Rightarrow>
                 if checksumPresent e \<and> ChecksumIEEE (Data p) \<noteq> CRC32 p
                 then Some (CRCMismatch (CRC32 p) (ChecksumIEEE (Data p)))
                 else None))"

definition normalizeSinglePart :: "part \<Rightarrow> part" where
  "normalizeSinglePart p =
     (if Begin p \<noteq> 0 \<or> End p \<noteq> 0 \<or> length (Data p) = 0 then p
      else
        let p1 = p\<lparr>Begin := 1, End := int (length (Data p))\<rparr>
        in if Size p1 = 0 then p1\<lparr>Size := End p1\<rparr> else p1)"

section \<open>\<open>Decode\<close>: line by line\<close>

fun decodeLine_loop :: "bool \<Rightarrow> bytes \<Rightarrow> bytes" where
  "decodeLine_loop escaped [] = []"
| "decodeLine_loop escaped (b # bs) =
     (if escaped then (b - 106) # decodeLine_loop False bs
      else if b = 61 then decodeLine_loop True bs
      else (b - 42) # decodeLine_loop False bs)"

definition decodeLine :: "bytes \<Rightarrow> bytes" where
  "decodeLine line = decodeLine_loop False line"

fun decode_phase1 :: "bytes list \<Rightarrow> part \<times> envelope \<times> bytes list" where
  "decode_phase1 [] = (zero_part, zero_envelope, [])"
| "decode_phase1 (line # lines) =
     (if HasPrefix line (str ''=ybegin '')
      then (case envelope_begin zero_part zero_envelope line of (p, e) \<Rightarrow> (p, e, lines))
      else decode_phase1 lines)"

definition decode_phase2 :: "part \<Rightarrow> envelope \<Rightarrow> bytes list \<Rightarrow> part \<times> envelope \<times> bytes list" where
  "decode_phase2 p e lines =
     (case lines of
        [] \<Rightarrow> (p, e, [])
      | line # rest \<Rightarrow>
          if HasPrefix line (str ''=ypart '')
          then (case envelope_part p e line of (p', e') \<Rightarrow> (p', e', rest))
          else if HasPrefix line (str ''=yend '')
          then (case envelope_trailer p e line of (p', e') \<Rightarrow> (p', e', rest))
          else (p\<lparr>Data := Data p @ decodeLine line\<rparr>, e, rest))"

text \<open>The data loop; the last component says whether the scanner ran out of lines.\<close>

fun decode_phase3 :: "part \<Rightarrow> envelope \<Rightarrow> bytes list \<Rightarrow> part \<times> envelope \<times> bool" where
  "decode_phase3 p e [] = (p, e, True)"
| "decode_phase3 p e (line # lines) =
     (if HasPrefix line (str ''=yend '')
      then (case envelope_trailer p e line of (p', e') \<Rightarrow> (p', e', False))
      else decode_phase3 (p\<lparr>Data := Data p @ decodeLine line\<rparr>) e lines)"

definition max_token :: nat where
  "max_token = 10 * 1024 * 1024"

definition Decode_lines :: "bytes list \<Rightarrow> bool \<Rightarrow> yenc_error + part" where
  \<comment> \<open>the body of \<open>Decode\<close> over the scanner's tokens; \<open>tooLong\<close> is its error at their end\<close>
  "Decode_lines lines tooLong =
     (case decode_phase1 lines of
        (p1, e1, rest1) \<Rightarrow>
          if Name p1 = [] \<and> Size p1 = 0 then Inl NoBeginHeader
          else
            (case decode_phase2 p1 e1 rest1 of
               (p2, e2, rest2) \<Rightarrow>
                 (case (if env_ended e2 then (p2, e2, False) else decode_phase3 p2 e2 rest2) of
                    (p3, e3, exhausted) \<Rightarrow>
                      if exhausted \<and> tooLong then Inl ReadError
                      else (case validate e3 p3 of
                              Some err \<Rightarrow> Inl err
                            | None \<Rightarrow> Inr (normalizeSinglePart p3)))))"

definition Decode :: "bytes \<Rightarrow> yenc_error + part" where
  "Decode r = (case scan_lines max_token r of (lines, tooLong) \<Rightarrow> Decode_lines lines tooLong)"

definition DecodeBytes :: "bytes \<Rightarrow> yenc_error + part" where
  "DecodeBytes data = Decode data"

section \<open>\<open>InPlaceDecoder\<close>: decoding over the input buffer\<close>

datatype decodePhase = seekingBegin | afterBegin | inData | ended | noHeader

record decoder =
  d_part :: part
  d_pos :: nat
  d_w :: nat
  d_phase :: decodePhase
  d_env :: envelope

definition zero_decoder :: decoder where
  "zero_decoder = \<lparr>d_part = zero_part, d_pos = 0, d_w = 0, d_phase = seekingBegin,
     d_env = zero_envelope\<rparr>"

text \<open>The loop reads each byte of the buffer when it comes to it, after the earlier writes.\<close>

function decodeLineInto_loop :: "bytes \<Rightarrow> nat \<Rightarrow> nat \<Rightarrow> nat \<Rightarrow> bool \<Rightarrow> bytes \<times> nat" where
  "decodeLineInto_loop buf w i n escaped =
     (if i < n then
        let b = buf ! i in
        if escaped then decodeLineInto_loop (buf[w := b - 106]) (w + 1) (i + 1) n False
        else if b = 61 then decodeLineInto_loop buf w (i + 1) n True
        else decodeLineInto_loop (buf[w := b - 42]) (w + 1) (i + 1) n False
      else (buf, w))"
  by pat_completeness auto
termination
  by (relation "measure (\<lambda>(buf, w, i, n, escaped). n - i)") auto

declare decodeLineInto_loop.simps [simp del]

definition decodeLineInto :: "bytes \<Rightarrow> nat \<Rightarrow> nat \<Rightarrow> nat \<Rightarrow> bytes \<times> nat" where
  "decodeLineInto buf w start n = decodeLineInto_loop buf w start n False"

definition decoder_line :: "decoder \<Rightarrow> bytes \<Rightarrow> nat \<Rightarrow> nat \<Rightarrow> decoder \<times> bytes" where
  "decoder_line d body start end0 =
     (let n = (if start < end0 \<and> body ! (end0 - 1) = 13 then end0 - 1 else end0);
          line = slice body start n
      in case d_phase d of
           seekingBegin \<Rightarrow>
             if HasPrefix line (str ''=ybegin '') then
               (case envelope_begin (d_part d) (d_env d) line of
                  (p, e) \<Rightarrow>
                    (d\<lparr>d_part := p, d_env := e,
                       d_phase := (if Name p = [] \<and> Size p = 0 then noHeader else afterBegin)\<rparr>,
                     body))
             else (d, body)
         | afterBegin \<Rightarrow>
             let d1 = d\<lparr>d_phase := inData\<rparr> in
             if HasPrefix line (str ''=ypart '') then
               (case envelope_part (d_part d) (d_env d) line of
                  (p, e) \<Rightarrow> (d1\<lparr>d_part := p, d_env := e\<rparr>, body))
             else if HasPrefix line (str ''=yend '') then
               (case envelope_trailer (d_part d) (d_env d) line of
                  (p, e) \<Rightarrow> (d1\<lparr>d_part := p, d_env := e, d_phase := ended\<rparr>, body))
             else
               (case decodeLineInto body (d_w d) start n of
                  (body', w') \<Rightarrow> (d1\<lparr>d_w := w'\<rparr>, body'))
         | inData \<Rightarrow>
             if HasPrefix line (str ''=yend '') then
               (case envelope_trailer (d_part d) (d_env d) line of
                  (p, e) \<Rightarrow> (d\<lparr>d_part := p, d_env := e, d_phase := ended\<rparr>, body))
             else
               (case decodeLineInto body (d_w d) start n of
                  (body', w') \<Rightarrow> (d\<lparr>d_w := w'\<rparr>, body'))
         | ended \<Rightarrow> (d, body)
         | noHeader \<Rightarrow> (d, body))"

lemma length_decodeLineInto_loop [simp]:
  "length (fst (decodeLineInto_loop buf w i n escaped)) = length buf"
proof (induction buf w i n escaped rule: decodeLineInto_loop.induct)
  case (1 buf w i n escaped)
  then show ?case
    by (subst decodeLineInto_loop.simps) (auto simp: Let_def)
qed

lemma length_decodeLineInto [simp]: "length (fst (decodeLineInto buf w i n)) = length buf"
  by (simp add: decodeLineInto_def)

lemma length_decoder_line [simp]: "length (snd (decoder_line d body i j)) = length body"
  by (cases "d_phase d") (simp_all add: decoder_line_def Let_def case_prod_beta)

function Feed :: "decoder \<Rightarrow> bytes \<Rightarrow> decoder \<times> bytes" where
  "Feed d body =
     (if d_pos d < length body then
        (case IndexByte (drop (d_pos d) body) 10 of
           None \<Rightarrow> (d, body)
         | Some i \<Rightarrow>
             (case decoder_line d body (d_pos d) (d_pos d + i) of
                (d', body') \<Rightarrow> Feed (d'\<lparr>d_pos := d_pos d + i + 1\<rparr>) body'))
      else (d, body))"
  by pat_completeness auto
termination
proof (relation "measure (\<lambda>(d, body). length body - d_pos d)", goal_cases)
  case (2 d body i d' body')
  then have "length body' = length body"
    by (metis length_decoder_line snd_conv)
  with 2(1) show ?case by simp
qed simp

declare Feed.simps [simp del]

definition Progress :: "decoder \<Rightarrow> int \<times> int \<times> nat \<times> bool" where
  "Progress d =
     (if d_phase d \<noteq> inData \<and> d_phase d \<noteq> ended then (0, 0, 0, False)
      else if Begin (d_part d) = 0 \<and> End (d_part d) = 0
      then (0, Size (d_part d), d_w d, True)
      else if Begin (d_part d) < 1 then (0, 0, 0, False)
      else (Begin (d_part d) - 1, End (d_part d), d_w d, True))"

definition Finish :: "decoder \<Rightarrow> bytes \<Rightarrow> yenc_error + part" where
  "Finish d0 body0 =
     (case Feed d0 body0 of
        (d1, body1) \<Rightarrow>
          (case (if d_pos d1 < length body1
                 then (case decoder_line d1 body1 (d_pos d1) (length body1) of
                         (d, body) \<Rightarrow> (d\<lparr>d_pos := length body1\<rparr>, body))
                 else (d1, body1)) of
             (d, body) \<Rightarrow>
               if d_phase d = seekingBegin \<or> d_phase d = noHeader then Inl NoBeginHeader
               else
                 let p = (d_part d)\<lparr>Data := take (d_w d) body\<rparr> in
                 (case validate (d_env d) p of
                    Some err \<Rightarrow> Inl err
                  | None \<Rightarrow> Inr (normalizeSinglePart p))))"

definition DecodeInPlace :: "bytes \<Rightarrow> yenc_error + part" where
  "DecodeInPlace buf = Finish zero_decoder buf"

section \<open>\<open>Encode\<close>\<close>

definition defaultLineLength :: nat where
  "defaultLineLength = 128"

definition encodeByte :: "byte \<Rightarrow> bytes" where
  \<comment> \<open>the bytes \<open>seq[:n]\<close>\<close>
  "encodeByte b =
     (let e = b + 42
      in if e = 0 \<or> e = 10 \<or> e = 13 \<or> e = 61 then [61, e + 64] else [e])"

fun writeEncodedData_loop :: "nat \<Rightarrow> nat \<Rightarrow> bytes \<Rightarrow> bytes" where
  "writeEncodedData_loop lineLen col [] = (if 0 < col then [13, 10] else [])"
| "writeEncodedData_loop lineLen col (b # bs) =
     (let seq = encodeByte b; n = length seq in
      if lineLen < col + n
      then [13, 10] @ seq @ writeEncodedData_loop lineLen n bs
      else seq @ writeEncodedData_loop lineLen (col + n) bs)"

definition writeEncodedData :: "bytes \<Rightarrow> nat \<Rightarrow> bytes" where
  "writeEncodedData data lineLen = writeEncodedData_loop lineLen 0 data"

definition Encode :: "bytes \<Rightarrow> int \<Rightarrow> int \<Rightarrow> int \<Rightarrow> int \<Rightarrow> int \<Rightarrow> bytes \<Rightarrow> bytes" where
  "Encode name partNum tot begin0 end0 fileSize data =
     (let multipart = (1 < tot);
          header =
            (if multipart then
               str ''=ybegin part='' @ show_int partNum @ str '' total='' @ show_int tot
               @ str '' line='' @ show_int (int defaultLineLength) @ str '' size='' @ show_int fileSize
               @ str '' name='' @ name @ [13, 10]
               @ str ''=ypart begin='' @ show_int begin0 @ str '' end='' @ show_int end0 @ [13, 10]
             else
               str ''=ybegin line='' @ show_int (int defaultLineLength) @ str '' size=''
               @ show_int fileSize @ str '' name='' @ name @ [13, 10]);
          crc = ChecksumIEEE data;
          trailer =
            (if multipart then
               str ''=yend size='' @ show_int (int (length data)) @ str '' part='' @ show_int partNum
               @ str '' pcrc32='' @ show_hex08 crc @ [13, 10]
             else
               str ''=yend size='' @ show_int (int (length data)) @ str '' crc32='' @ show_hex08 crc
               @ [13, 10])
      in header @ writeEncodedData data defaultLineLength @ trailer)"

end
