(* ===== verification/Yenc_Refine.thy ===== *)
theory Yenc_Refine
  imports Yenc
begin

text \<open>
  The two yEnc decoders against one specification. The specification is a machine that
  consumes lines and appends decoded data to a list of its own (\<open>spec_line\<close>,
  \<open>spec_result\<close>). \<open>Decode\<close> computes it on the scanner's tokens; the in-place decoder
  computes it while overwriting the buffer it reads from, fed in any number of steps
  (the locale \<open>incremental_decoder\<close>, interpreted on \<open>Feed\<close> and \<open>Finish\<close>).
\<close>

section \<open>The specification: a machine over lines\<close>

record spec_state =
  s_part :: part
  s_env :: envelope
  s_phase :: decodePhase
  s_data :: bytes

definition spec_init :: spec_state where
  "spec_init = \<lparr>s_part = zero_part, s_env = zero_envelope, s_phase = seekingBegin, s_data = []\<rparr>"

definition spec_line :: "bytes \<Rightarrow> spec_state \<Rightarrow> spec_state" where
  "spec_line line s =
     (case s_phase s of
        seekingBegin \<Rightarrow>
          if HasPrefix line (str ''=ybegin '') then
            (case envelope_begin (s_part s) (s_env s) line of
               (p, e) \<Rightarrow> s\<lparr>s_part := p, s_env := e,
                 s_phase := (if Name p = [] \<and> Size p = 0 then noHeader else afterBegin)\<rparr>)
          else s
      | afterBegin \<Rightarrow>
          if HasPrefix line (str ''=ypart '') then
            (case envelope_part (s_part s) (s_env s) line of
               (p, e) \<Rightarrow> s\<lparr>s_part := p, s_env := e, s_phase := inData\<rparr>)
          else if HasPrefix line (str ''=yend '') then
            (case envelope_trailer (s_part s) (s_env s) line of
               (p, e) \<Rightarrow> s\<lparr>s_part := p, s_env := e, s_phase := ended\<rparr>)
          else s\<lparr>s_phase := inData, s_data := s_data s @ decodeLine line\<rparr>
      | inData \<Rightarrow>
          if HasPrefix line (str ''=yend '') then
            (case envelope_trailer (s_part s) (s_env s) line of
               (p, e) \<Rightarrow> s\<lparr>s_part := p, s_env := e, s_phase := ended\<rparr>)
          else s\<lparr>s_data := s_data s @ decodeLine line\<rparr>
      | ended \<Rightarrow> s
      | noHeader \<Rightarrow> s)"

definition spec_result :: "spec_state \<Rightarrow> yenc_error + part" where
  "spec_result s =
     (if s_phase s = seekingBegin \<or> s_phase s = noHeader then Inl NoBeginHeader
      else
        let p = (s_part s)\<lparr>Data := s_data s\<rparr> in
        (case validate (s_env s) p of
           Some err \<Rightarrow> Inl err
         | None \<Rightarrow> Inr (normalizeSinglePart p)))"

definition spec_decode :: "bytes list \<Rightarrow> yenc_error + part" where
  "spec_decode lines = spec_result (fold spec_line lines spec_init)"

lemmas spec_splits = prod.splits decodePhase.splits

section \<open>The in-place loop computes \<open>decodeLine\<close>\<close>

lemma decodeLineInto_loop_correct:
  assumes "w \<le> i" "i \<le> n" "n \<le> length buf"
    and "decodeLineInto_loop buf w i n escaped = (buf', w')"
  shows "w \<le> w' \<and> w' \<le> n \<and> length buf' = length buf \<and> drop n buf' = drop n buf \<and>
    take w' buf' = take w buf @ decodeLine_loop escaped (slice buf i n)"
  using assms
proof (induction buf w i n escaped arbitrary: buf' w' rule: decodeLineInto_loop.induct)
  case (1 buf w i n escaped)
  show ?case
  proof (cases "i < n")
    case False
    with "1.prems"(2) have "i = n" by simp
    moreover from False "1.prems"(4) have "buf' = buf" "w' = w"
      by (simp_all add: decodeLineInto_loop.simps [of buf w i n escaped])
    ultimately show ?thesis using "1.prems"(1) by simp
  next
    case True
    then have sl: "slice buf i n = buf ! i # slice buf (i + 1) n"
      using "1.prems"(3) by (simp add: slice_Cons)
    note unfold1 = decodeLineInto_loop.simps [of buf w i n escaped] "1.prems"(4)
    consider (esc) "escaped" | (eq) "\<not> escaped" "buf ! i = 61" | (norm) "\<not> escaped" "buf ! i \<noteq> 61"
      by blast
    then show ?thesis
    proof cases
      case esc
      with True have "decodeLineInto_loop (buf[w := buf ! i - 106]) (w + 1) (i + 1) n False = (buf', w')"
        using unfold1 by (simp add: Let_def)
      from "1.IH"(1) [OF True refl esc _ _ _ this] True "1.prems"(1,3) esc
      show ?thesis by (auto simp: sl take_snoc_update)
    next
      case eq
      with True have "decodeLineInto_loop buf w (i + 1) n True = (buf', w')"
        using unfold1 by (simp add: Let_def)
      from "1.IH"(2) [OF True refl eq _ _ _ this] True "1.prems"(1,3) eq
      show ?thesis by (auto simp: sl)
    next
      case norm
      with True have "decodeLineInto_loop (buf[w := buf ! i - 42]) (w + 1) (i + 1) n False = (buf', w')"
        using unfold1 by (simp add: Let_def)
      from "1.IH"(3) [OF True refl norm _ _ _ this] True "1.prems"(1,3) norm
      show ?thesis by (auto simp: sl take_snoc_update)
    qed
  qed
qed

section \<open>The in-place decoder refines the specification\<close>

definition dec_inv :: "decoder \<Rightarrow> bytes \<Rightarrow> bool" where
  "dec_inv d body \<longleftrightarrow> d_w d \<le> d_pos d \<and> d_pos d \<le> length body"

definition dec_abs :: "decoder \<Rightarrow> bytes \<Rightarrow> spec_state" where
  "dec_abs d body = \<lparr>s_part = d_part d, s_env = d_env d, s_phase = d_phase d,
     s_data = take (d_w d) body\<rparr>"

lemma dec_inv_zero [simp]: "dec_inv zero_decoder body"
  by (simp add: dec_inv_def zero_decoder_def)

lemma dec_abs_zero [simp]: "dec_abs zero_decoder body = spec_init"
  by (simp add: dec_abs_def zero_decoder_def spec_init_def)

lemma dropCR_slice:
  assumes "i \<le> j" "j \<le> length body"
  shows "dropCR (slice body i j) =
    slice body i (if i < j \<and> body ! (j - 1) = 13 then j - 1 else j)"
proof (cases "i < j")
  case True
  then have ne: "slice body i j \<noteq> []"
    using assms by (simp add: slice_Cons)
  have "last (slice body i j) = body ! (j - 1)"
    using True assms ne by (simp add: last_conv_nth) (simp add: slice_def nth_append)
  moreover have "butlast (slice body i j) = slice body i (j - 1)"
    using assms by (simp add: butlast_conv_take) (simp add: slice_def)
  ultimately show ?thesis using True ne by (simp add: dropCR_def)
qed (use assms in \<open>simp add: dropCR_def slice_def\<close>)

lemma decodeLineInto_correct:
  assumes "w \<le> i" "i \<le> n" "n \<le> length buf" "decodeLineInto buf w i n = (buf', w')"
  shows "w' \<le> n \<and> drop n buf' = drop n buf \<and> take w' buf' = take w buf @ decodeLine (slice buf i n)"
  using decodeLineInto_loop_correct [of w i n buf False buf' w'] assms
  by (simp add: decodeLineInto_def decodeLine_def)

lemma drop_eq_mono: "drop n xs = drop n ys \<Longrightarrow> n \<le> m \<Longrightarrow> drop m xs = drop m ys"
  by (metis drop_drop le_add_diff_inverse2)

text \<open>One call of \<open>line\<close>, with the line it reads and the buffer end named.\<close>

lemma decoder_line_eq:
  assumes "line = slice body start n"
    and "n = (if start < e \<and> body ! (e - 1) = 13 then e - 1 else e)"
    and "decodeLineInto body (d_w d) start n = (buf, w')"
    and "take w' buf = take (d_w d) body @ decodeLine line"
  shows "dec_abs (fst (decoder_line d body start e)) (snd (decoder_line d body start e)) =
      spec_line line (dec_abs d body)"
    and "d_pos (fst (decoder_line d body start e)) = d_pos d"
    and "decoder_line d body start e = (d', body') \<Longrightarrow>
      d_w d' = d_w d \<and> body' = body \<or> d_w d' = w' \<and> body' = buf"
  unfolding decoder_line_def assms(1,2) [symmetric] Let_def assms(3)
  using assms(4)
  by (cases "d_phase d"; simp add: spec_line_def dec_abs_def case_prod_beta; fail)
    (cases "d_phase d"; simp add: case_prod_beta; fail |
     cases "d_phase d"; auto simp add: case_prod_beta split: if_splits; fail)+

lemma decoder_line_correct:
  assumes w: "d_w d \<le> start" and se: "start \<le> e" and eb: "e \<le> length body"
    and step: "decoder_line d body start e = (d', body')"
  shows "d_pos d' = d_pos d \<and> d_w d' \<le> e \<and> drop e body' = drop e body \<and>
    dec_abs d' body' = spec_line (dropCR (slice body start e)) (dec_abs d body)"
proof -
  define n where "n = (if start < e \<and> body ! (e - 1) = 13 then e - 1 else e)"
  have n: "start \<le> n" "n \<le> e" "n \<le> length body"
    using se eb by (auto simp: n_def)
  have line: "dropCR (slice body start e) = slice body start n"
    using dropCR_slice [OF se eb] by (simp add: n_def)
  obtain buf w' where into: "decodeLineInto body (d_w d) start n = (buf, w')"
    by fastforce
  from decodeLineInto_correct [OF w n(1) n(3) into]
  have into_ok: "w' \<le> e" "drop e buf = drop e body"
    "take w' buf = take (d_w d) body @ decodeLine (slice body start n)"
    using n(2) by (auto intro: drop_eq_mono)
  note eqs = decoder_line_eq [OF refl n_def into into_ok(3)]
  show ?thesis
    using eqs(1,2) eqs(3) [OF step] step into_ok(1,2) w se by (auto simp: line)
qed

text \<open>\<open>Feed\<close> consumes exactly the complete lines.\<close>

lemma Feed_correct:
  assumes "dec_inv d body" "Feed d body = (d', body')"
    and "split_nl (drop (d_pos d) body) = (ls, r)"
  shows "dec_inv d' body' \<and> length body' = length body \<and> drop (d_pos d') body' = r \<and>
    dec_abs d' body' = fold (spec_line \<circ> dropCR) ls (dec_abs d body)"
  using assms
proof (induction d body arbitrary: d' body' ls rule: Feed.induct)
  case (1 d body)
  show ?case
  proof (cases "d_pos d < length body")
    case False
    with "1.prems" show ?thesis
      by (auto simp: Feed.simps [of d body] split_nl.simps)
  next
    case True
    note here = True
    show ?thesis
    proof (cases "IndexByte (drop (d_pos d) body) 10")
      case None
      with here "1.prems" show ?thesis
        by (auto simp: Feed.simps [of d body] split_nl.simps)
    next
      case (Some i)
      let ?p = "d_pos d"
      let ?n = "?p + i"
      obtain d1 body1 where st: "decoder_line d body ?p ?n = (d1, body1)"
        by fastforce
      have i: "?n < length body"
        using IndexByte_Some [OF Some] by auto
      then have line: "take i (drop ?p body) = slice body ?p ?n"
        by (simp add: slice_def)
      have ok: "d_pos d1 = ?p \<and> d_w d1 \<le> ?n \<and> drop ?n body1 = drop ?n body \<and>
          dec_abs d1 body1 = spec_line (dropCR (slice body ?p ?n)) (dec_abs d body)"
        using decoder_line_correct [OF _ _ _ st] "1.prems"(1) i by (simp add: dec_inv_def)
      have len: "length body1 = length body"
        using length_decoder_line [of d body ?p ?n] st by simp
      have rest: "drop (Suc ?n) body1 = drop (Suc ?n) body"
        using ok by (auto intro: drop_eq_mono)
      obtain ls' where ls': "split_nl (drop (Suc ?n) body) = (ls', r)" "ls = take i (drop ?p body) # ls'"
        using "1.prems"(3) Some
        by (auto simp: split_nl.simps [of "drop ?p body"] ac_simps split: prod.splits)
      have fd: "Feed (d1\<lparr>d_pos := ?n + 1\<rparr>) body1 = (d', body')"
        using "1.prems"(2) here Some st by (simp add: Feed.simps [of d body])
      have "dec_inv (d1\<lparr>d_pos := ?n + 1\<rparr>) body1"
        using ok i len by (simp add: dec_inv_def)
      from "1.IH" [OF here Some st [symmetric] this fd, of ls'] ls'(1) rest len ok
      show ?thesis
        by (simp add: ls'(2) line dec_abs_def)
    qed
  qed
qed

lemma spec_result_dec_abs:
  "spec_result (dec_abs d body) =
     (if d_phase d = seekingBegin \<or> d_phase d = noHeader then Inl NoBeginHeader
      else case validate (d_env d) ((d_part d)\<lparr>Data := take (d_w d) body\<rparr>) of
        Some err \<Rightarrow> Inl err
      | None \<Rightarrow> Inr (normalizeSinglePart ((d_part d)\<lparr>Data := take (d_w d) body\<rparr>)))"
  by (simp add: spec_result_def dec_abs_def Let_def)

lemma Finish_spec:
  assumes "dec_inv d body"
  shows "Finish d body = spec_result (fold (spec_line \<circ> dropCR) (raw_lines (drop (d_pos d) body)) (dec_abs d body))"
proof -
  obtain d1 body1 where fd: "Feed d body = (d1, body1)" by fastforce
  obtain ls r where sp: "split_nl (drop (d_pos d) body) = (ls, r)" by fastforce
  from Feed_correct [OF assms fd sp]
  have inv1: "dec_inv d1 body1" and r: "drop (d_pos d1) body1 = r"
    and ab1: "dec_abs d1 body1 = fold (spec_line \<circ> dropCR) ls (dec_abs d body)"
    by auto
  have len: "length r = length body1 - d_pos d1"
    using r by (metis length_drop)
  show ?thesis
  proof (cases "d_pos d1 < length body1")
    case False
    with len have "r = []" by simp
    moreover have "Finish d body = spec_result (dec_abs d1 body1)"
      using False fd by (simp add: Finish_def spec_result_dec_abs Let_def)
    ultimately show ?thesis using sp by (simp add: raw_lines_def ab1)
  next
    case True
    obtain d2 body2 where st: "decoder_line d1 body1 (d_pos d1) (length body1) = (d2, body2)"
      by fastforce
    have sl: "slice body1 (d_pos d1) (length body1) = r"
      using r by (auto simp: slice_def)
    from True len have "r \<noteq> []" by auto
    moreover have "dec_abs d2 body2 = spec_line (dropCR r) (dec_abs d1 body1)"
      using decoder_line_correct [OF _ _ _ st] inv1 True sl by (simp add: dec_inv_def)
    moreover have "Finish d body = spec_result (dec_abs d2 body2)"
      using True fd st by (simp add: Finish_def spec_result_dec_abs Let_def)
    ultimately show ?thesis using sp by (simp add: raw_lines_def ab1)
  qed
qed

lemma DecodeInPlace_spec: "DecodeInPlace buf = spec_decode (map dropCR (raw_lines buf))"
  using Finish_spec [OF dec_inv_zero, of buf]
  by (simp add: DecodeInPlace_def spec_decode_def fold_map, simp add: zero_decoder_def)

section \<open>\<open>Decode\<close> computes the specification\<close>

lemma spec_line_stopped:
  "s_phase s = ended \<or> s_phase s = noHeader \<Longrightarrow> fold spec_line lines s = s"
  by (induction lines) (auto simp: spec_line_def)

definition spec_of :: "part \<Rightarrow> envelope \<Rightarrow> decodePhase \<Rightarrow> spec_state" where
  "spec_of p e ph = \<lparr>s_part = p\<lparr>Data := []\<rparr>, s_env = e, s_phase = ph, s_data = Data p\<rparr>"

text \<open>The envelope operations neither read nor write the decoded data.\<close>

lemma envelope_begin_Data:
  "envelope_begin (p\<lparr>Data := x\<rparr>) e line =
     ((fst (envelope_begin p e line))\<lparr>Data := x\<rparr>, snd (envelope_begin p e line))"
  by (simp add: envelope_begin_def parseYBegin_def Let_def split: option.split)

lemma envelope_part_Data:
  "envelope_part (p\<lparr>Data := x\<rparr>) e line =
     ((fst (envelope_part p e line))\<lparr>Data := x\<rparr>, snd (envelope_part p e line))"
  by (simp add: envelope_part_def Let_def split: sum.split)

lemma CRC32_Data_swap: "p\<lparr>Data := x, CRC32 := c\<rparr> = p\<lparr>CRC32 := c, Data := x\<rparr>"
  by simp

lemma trailer_crcs_Data:
  "trailer_crcs (p\<lparr>Data := x\<rparr>) e line keys =
     ((fst (trailer_crcs p e line keys))\<lparr>Data := x\<rparr>, snd (trailer_crcs p e line keys))"
  by (induction keys arbitrary: p e) (simp_all add: case_prod_beta CRC32_Data_swap split: option.split)

lemma envelope_trailer_Data:
  "envelope_trailer (p\<lparr>Data := x\<rparr>) e line =
     ((fst (envelope_trailer p e line))\<lparr>Data := x\<rparr>, snd (envelope_trailer p e line))"
  by (simp add: envelope_trailer_def Let_def trailer_crcs_Data del: trailer_crcs.simps split: sum.split)

lemma trailer_crcs_keeps:
  "Data (fst (trailer_crcs p e line keys)) = Data p \<and>
   env_ended (snd (trailer_crcs p e line keys)) = env_ended e"
  by (induction keys arbitrary: p e) (simp_all add: case_prod_beta split: option.split)

lemma envelope_keeps:
  "Data (fst (envelope_begin p e line)) = Data p"
  "Data (fst (envelope_part p e line)) = Data p"
  "Data (fst (envelope_trailer p e line)) = Data p"
  "env_ended (snd (envelope_part p e line)) = env_ended e"
  "env_ended (snd (envelope_trailer p e line))"
  by (auto simp: envelope_begin_def parseYBegin_def envelope_part_def envelope_trailer_def Let_def
      trailer_crcs_keeps simp del: trailer_crcs.simps split: option.split sum.split)

lemma begin_keys_ended [simp]: "env_ended (begin_keys e line keys) = env_ended e"
  by (induction e line keys rule: begin_keys.induct) (auto split: option.splits sum.splits)

lemma envelope_begin_ended: "env_ended (snd (envelope_begin p e line)) = env_ended e"
  by (simp add: envelope_begin_def del: begin_keys.simps)

lemma decode_phase3_spec:
  "Data p = [] \<Longrightarrow> \<not> env_ended e \<Longrightarrow>
   decode_phase3 (p\<lparr>Data := x\<rparr>) e lines = (p', e', exhausted) \<Longrightarrow>
   fold spec_line lines \<lparr>s_part = p, s_env = e, s_phase = inData, s_data = x\<rparr> =
     spec_of p' e' (if exhausted then inData else ended) \<and> env_ended e' = (\<not> exhausted)"
proof (induction lines arbitrary: x p')
  case Nil
  then show ?case by (auto simp: spec_of_def)
next
  case (Cons line lines)
  show ?case
  proof (cases "HasPrefix line (str ''=yend '')")
    case True
    then have step: "spec_line line \<lparr>s_part = p, s_env = e, s_phase = inData, s_data = x\<rparr> =
        \<lparr>s_part = fst (envelope_trailer p e line), s_env = snd (envelope_trailer p e line),
         s_phase = ended, s_data = x\<rparr>"
      by (simp add: spec_line_def case_prod_beta)
    from True Cons.prems have "p' = (fst (envelope_trailer p e line))\<lparr>Data := x\<rparr>"
      "e' = snd (envelope_trailer p e line)" "\<not> exhausted"
      by (auto simp: envelope_trailer_Data)
    with Cons.prems(1) show ?thesis
      by (simp add: step spec_line_stopped) (simp add: spec_of_def envelope_keeps)
  next
    case False
    then have "spec_line line \<lparr>s_part = p, s_env = e, s_phase = inData, s_data = x\<rparr> =
        \<lparr>s_part = p, s_env = e, s_phase = inData, s_data = x @ decodeLine line\<rparr>"
      by (simp add: spec_line_def)
    moreover from False Cons.prems have
      "decode_phase3 (p\<lparr>Data := x @ decodeLine line\<rparr>) e lines = (p', e', exhausted)"
      by simp
    ultimately show ?thesis using Cons.IH [of "x @ decodeLine line" p'] Cons.prems(1,2) by simp
  qed
qed

lemma decode_phase1_spec:
  assumes "decode_phase1 lines = (p, e, rest)"
  shows "if Name p = [] \<and> Size p = 0 then s_phase (fold spec_line lines spec_init) \<in> {seekingBegin, noHeader}
    else Data p = [] \<and> \<not> env_ended e \<and> fold spec_line lines spec_init =
      fold spec_line rest \<lparr>s_part = p, s_env = e, s_phase = afterBegin, s_data = []\<rparr>"
  using assms
proof (induction lines)
  case Nil
  then show ?case by (auto simp: zero_part_def spec_init_def)
next
  case (Cons line lines)
  show ?case
  proof (cases "HasPrefix line (str ''=ybegin '')")
    case True
    with Cons.prems have pe: "envelope_begin zero_part zero_envelope line = (p, e)" "rest = lines"
      by (auto split: prod.splits)
    with True have "spec_line line spec_init = \<lparr>s_part = p, s_env = e,
        s_phase = (if Name p = [] \<and> Size p = 0 then noHeader else afterBegin), s_data = []\<rparr>"
      by (simp add: spec_line_def spec_init_def)
    moreover have "Data p = []" "\<not> env_ended e"
      using envelope_keeps(1) [of zero_part zero_envelope line]
        envelope_begin_ended [of zero_part zero_envelope line] pe
      by (simp_all add: zero_part_def zero_envelope_def)
    ultimately show ?thesis by (simp add: pe(2) spec_line_stopped)
  next
    case False
    then have "spec_line line spec_init = spec_init"
      by (simp add: spec_line_def spec_init_def)
    with False Cons show ?thesis by (auto split: if_splits)
  qed
qed

lemma decode_phase2_spec:
  assumes "decode_phase2 p e (line # rest) = (p', e', rest')" "Data p = []" "\<not> env_ended e"
  shows "rest' = rest \<and> spec_line line \<lparr>s_part = p, s_env = e, s_phase = afterBegin, s_data = []\<rparr> =
    \<lparr>s_part = p'\<lparr>Data := []\<rparr>, s_env = e', s_phase = (if env_ended e' then ended else inData),
     s_data = Data p'\<rparr>"
proof -
  have keep: "q\<lparr>Data := []\<rparr> = q" if "Data q = []" for q :: part
    using that by simp
  consider (part) "HasPrefix line (str ''=ypart '')"
    | (trailer) "\<not> HasPrefix line (str ''=ypart '')" "HasPrefix line (str ''=yend '')"
    | (data) "\<not> HasPrefix line (str ''=ypart '')" "\<not> HasPrefix line (str ''=yend '')"
    by blast
  then show ?thesis
  proof cases
    case part
    moreover have "(p', e') = envelope_part p e line" "rest' = rest"
      using assms(1) part by (auto simp: decode_phase2_def split: prod.splits)
    ultimately show ?thesis
      using assms(2,3) envelope_keeps(2,4) [of p e line]
      by (simp add: spec_line_def case_prod_beta) (metis fst_conv keep snd_conv)
  next
    case trailer
    moreover have "(p', e') = envelope_trailer p e line" "rest' = rest"
      using assms(1) trailer by (auto simp: decode_phase2_def split: prod.splits)
    ultimately show ?thesis
      using assms(2,3) envelope_keeps(3,5) [of p e line]
      by (simp add: spec_line_def case_prod_beta) (metis fst_conv keep snd_conv)
  next
    case data
    moreover have "p' = p\<lparr>Data := decodeLine line\<rparr>" "e' = e" "rest' = rest"
      using assms(1,2) data by (auto simp: decode_phase2_def)
    ultimately show ?thesis
      using assms(2,3) by (simp add: spec_line_def)
  qed
qed

lemma spec_result_spec_of:
  "ph \<noteq> seekingBegin \<Longrightarrow> ph \<noteq> noHeader \<Longrightarrow>
   spec_result (spec_of p e ph) =
     (case validate e p of Some err \<Rightarrow> Inl err | None \<Rightarrow> Inr (normalizeSinglePart p))"
  by (simp add: spec_result_def spec_of_def Let_def)

lemma Decode_lines_spec: "Decode_lines lines False = spec_decode lines"
proof -
  obtain p1 e1 rest1 where ph1: "decode_phase1 lines = (p1, e1, rest1)"
    by (cases "decode_phase1 lines") auto
  note one = decode_phase1_spec [OF ph1]
  show ?thesis
  proof (cases "Name p1 = [] \<and> Size p1 = 0")
    case True
    with one show ?thesis
      by (auto simp: Decode_lines_def ph1 spec_decode_def spec_result_def)
  next
    case False
    with one have d1: "Data p1 = []" "\<not> env_ended e1" and f1: "fold spec_line lines spec_init =
        fold spec_line rest1 \<lparr>s_part = p1, s_env = e1, s_phase = afterBegin, s_data = []\<rparr>"
      by (simp_all split: if_splits)
    show ?thesis
    proof (cases rest1)
      case Nil
      have "spec_result \<lparr>s_part = p1, s_env = e1, s_phase = afterBegin, s_data = []\<rparr> =
          spec_result (spec_of p1 e1 afterBegin)"
        using d1 by (simp add: spec_of_def spec_result_def)
      with False Nil d1 show ?thesis
        by (auto simp: Decode_lines_def ph1 decode_phase2_def spec_decode_def f1
            spec_result_spec_of)
    next
      case (Cons line rest)
      obtain p2 e2 where ph2: "decode_phase2 p1 e1 rest1 = (p2, e2, rest)"
        using decode_phase2_spec [OF _ d1] Cons by (cases "decode_phase2 p1 e1 rest1") fastforce
      note two = decode_phase2_spec [OF ph2 [unfolded Cons] d1]
      show ?thesis
      proof (cases "env_ended e2")
        case True
        with two have "fold spec_line lines spec_init = spec_of p2 e2 ended"
          by (simp add: f1 Cons spec_of_def spec_line_stopped)
        with True False ph2 show ?thesis
          by (auto simp: Decode_lines_def ph1 spec_decode_def spec_result_spec_of)
      next
        case False
        obtain p3 e3 ex where ph3: "decode_phase3 p2 e2 rest = (p3, e3, ex)"
          by (cases "decode_phase3 p2 e2 rest") auto
        have "decode_phase3 (p2\<lparr>Data := [], Data := Data p2\<rparr>) e2 rest = (p3, e3, ex)"
          using ph3 by simp
        from decode_phase3_spec [OF _ False this] two False
        have "fold spec_line lines spec_init = spec_of p3 e3 (if ex then inData else ended)"
          by (simp add: f1 Cons)
        with False \<open>\<not> (Name p1 = [] \<and> Size p1 = 0)\<close> ph2 ph3 show ?thesis
          by (auto simp: Decode_lines_def ph1 spec_decode_def spec_result_spec_of)
      qed
    qed
  qed
qed

lemma Decode_spec:
  assumes "\<forall>l \<in> set (raw_lines r). length l < max_token"
  shows "Decode r = spec_decode (map dropCR (raw_lines r))"
proof -
  from assms have "takeWhile (\<lambda>l. length l < max_token) (raw_lines r) = raw_lines r"
    by (simp add: takeWhile_eq_all_conv)
  moreover from assms have "(\<exists>l \<in> set (raw_lines r). max_token \<le> length l) = False"
    by (auto simp: not_le)
  ultimately show ?thesis
    by (simp only: Decode_def scan_lines_def prod.case Decode_lines_spec)
qed

section \<open>Feeding in steps\<close>

text \<open>
  A decoder that is handed a growing buffer: each call may rewrite the buffer it is given, and
  the next call gets the rewritten buffer followed by more bytes. The law is that a call
  changes nothing about the result of finishing.
\<close>

fun feed_chunks :: "('d \<Rightarrow> bytes \<Rightarrow> 'd \<times> bytes) \<Rightarrow> 'd \<Rightarrow> bytes \<Rightarrow> bytes list \<Rightarrow> 'd \<times> bytes" where
  "feed_chunks feed d body [] = (d, body)"
| "feed_chunks feed d body (c # cs) =
     (case feed d (body @ c) of (d', body') \<Rightarrow> feed_chunks feed d' body' cs)"

locale incremental_decoder =
  fixes feed :: "'d \<Rightarrow> bytes \<Rightarrow> 'd \<times> bytes"
    and finish :: "'d \<Rightarrow> bytes \<Rightarrow> 'r"
    and inv :: "'d \<Rightarrow> bytes \<Rightarrow> bool"
  assumes inv_append: "inv d body \<Longrightarrow> inv d (body @ rest)"
    and feed_inv: "inv d body \<Longrightarrow> feed d body = (d', body') \<Longrightarrow> inv d' body'"
    and feed_length: "inv d body \<Longrightarrow> feed d body = (d', body') \<Longrightarrow> length body' = length body"
    and finish_feed: "inv d body \<Longrightarrow> feed d body = (d', body') \<Longrightarrow>
      finish d' (body' @ rest) = finish d (body @ rest)"
begin

lemma chunks_inv:
  "inv d body \<Longrightarrow> feed_chunks feed d body cs = (d', body') \<Longrightarrow>
   inv d' body' \<and> length body' = length body + length (concat cs)"
proof (induction cs arbitrary: d body)
  case (Cons c cs)
  obtain d1 b1 where fd: "feed d (body @ c) = (d1, b1)" by fastforce
  have inv: "inv d (body @ c)" by (rule inv_append) (rule Cons.prems)
  with Cons.IH [OF feed_inv [OF inv fd]] Cons.prems(2) fd feed_length [OF inv fd]
  show ?case by simp
qed simp

lemma chunk_independence:
  "inv d body \<Longrightarrow> feed_chunks feed d body cs = (d', body') \<Longrightarrow>
   finish d' (body' @ rest) = finish d (body @ concat cs @ rest)"
proof (induction cs arbitrary: d body)
  case (Cons c cs)
  obtain d1 b1 where fd: "feed d (body @ c) = (d1, b1)" by fastforce
  have inv: "inv d (body @ c)" by (rule inv_append) (rule Cons.prems)
  from Cons.IH [OF feed_inv [OF inv fd]] Cons.prems(2) fd
  have "finish d' (body' @ rest) = finish d1 (b1 @ concat cs @ rest)"
    by simp
  also have "\<dots> = finish d ((body @ c) @ concat cs @ rest)"
    by (rule finish_feed [OF inv fd])
  finally show ?case by simp
qed simp

end

lemma raw_lines_append:
  "raw_lines (xs @ ys) = fst (split_nl xs) @ raw_lines (snd (split_nl xs) @ ys)"
  by (simp add: raw_lines_def split_nl_append [of xs ys] case_prod_beta)

lemma Finish_Feed:
  assumes inv: "dec_inv d body" and fd: "Feed d body = (d', body')"
  shows "Finish d' (body' @ rest) = Finish d (body @ rest)"
proof -
  obtain ls r where sp: "split_nl (drop (d_pos d) body) = (ls, r)" by fastforce
  from Feed_correct [OF inv fd sp]
  have inv': "dec_inv d' body'" and r: "drop (d_pos d') body' = r"
    and ab: "dec_abs d' body' = fold (spec_line \<circ> dropCR) ls (dec_abs d body)"
    by auto
  have pos: "d_pos d \<le> length body" "d_pos d' \<le> length body'" "d_w d \<le> length body" "d_w d' \<le> length body'"
    using inv inv' by (auto simp: dec_inv_def)
  have abs_more: "dec_abs d (body @ rest) = dec_abs d body" "dec_abs d' (body' @ rest) = dec_abs d' body'"
    using pos by (simp_all add: dec_abs_def)
  have invs: "dec_inv d (body @ rest)" "dec_inv d' (body' @ rest)"
    using inv inv' by (auto simp: dec_inv_def)
  have "raw_lines (drop (d_pos d) body @ rest) = ls @ raw_lines (r @ rest)"
    using sp raw_lines_append [of "drop (d_pos d) body" rest] by simp
  moreover have "Finish d (body @ rest) =
      spec_result (fold (spec_line \<circ> dropCR) (raw_lines (drop (d_pos d) body @ rest)) (dec_abs d body))"
    using Finish_spec [OF invs(1)] pos(1) by (simp add: abs_more)
  moreover have "Finish d' (body' @ rest) =
      spec_result (fold (spec_line \<circ> dropCR) (raw_lines (r @ rest)) (dec_abs d' body'))"
    using Finish_spec [OF invs(2)] pos(2) by (simp add: abs_more r)
  ultimately show ?thesis by (simp add: ab)
qed

interpretation yenc_dec: incremental_decoder Feed Finish dec_inv
proof
  show "dec_inv d (body @ rest)" if "dec_inv d body" for d body rest
    using that by (auto simp: dec_inv_def)
  show "dec_inv d' body'" "length body' = length body"
    if "dec_inv d body" "Feed d body = (d', body')" for d body d' body'
    using Feed_correct [OF that, of "fst (split_nl (drop (d_pos d) body))"
        "snd (split_nl (drop (d_pos d) body))"] by auto
  show "Finish d' (body' @ rest) = Finish d (body @ rest)"
    if "dec_inv d body" "Feed d body = (d', body')" for d body d' body' rest
    using that by (rule Finish_Feed)
qed

end
