(* ===== verification/Yenc_Roundtrip.thy ===== *)
theory Yenc_Roundtrip
  imports Yenc_Refine
begin

text \<open>
  The lines an encoded article consists of, and what each of them makes of the decoder: the
  lemmas behind the round trip \<open>Decode (Encode \<dots>)\<close>.
\<close>

section \<open>Reading parameters off a header line\<close>

lemma takeWhile_field:
  "\<forall>c \<in> set f. \<not> is_blank c \<Longrightarrow> takeWhile (\<lambda>c. \<not> is_blank c) (f @ 32 # rest) = f"
  "\<forall>c \<in> set f. \<not> is_blank c \<Longrightarrow> dropWhile (\<lambda>c. \<not> is_blank c) (f @ 32 # rest) = 32 # rest"
  by (induction f) auto

lemma dropWhile_field: "f \<noteq> [] \<Longrightarrow> \<forall>c \<in> set f. \<not> is_blank c \<Longrightarrow> dropWhile is_blank (f @ rest) = f @ rest"
  by (cases f) auto

lemma paramValue_Nil [simp]: "paramValue [] key = None"
  by (simp add: paramValue.simps)

lemma paramValue_blank: "paramValue (32 # rest) key = paramValue rest key"
proof (cases "rest = []")
  case True
  then show ?thesis by (simp add: paramValue.simps [of "[32]"] CutPrefix_def HasPrefix_def)
next
  case False
  then show ?thesis by (simp add: paramValue.simps [of "32 # rest"] paramValue.simps [of rest])
qed

lemma paramValue_field:
  assumes "f \<noteq> []" "\<forall>c \<in> set f. \<not> is_blank c" "\<not> HasPrefix f (str ''name='')"
  shows "paramValue (f @ 32 # rest) key =
    (case CutPrefix f (key @ [61]) of Some v \<Rightarrow> Some v | None \<Rightarrow> paramValue rest key)"
  using assms
  by (simp add: paramValue.simps [of "f @ 32 # rest"] dropWhile_field takeWhile_field paramValue_blank
      split: option.split)

lemma paramValue_last:
  assumes "f \<noteq> []" "\<forall>c \<in> set f. \<not> is_blank c" "\<not> HasPrefix f (str ''name='')"
  shows "paramValue f key = CutPrefix f (key @ [61])"
proof -
  have field: "takeWhile (\<lambda>c. \<not> is_blank c) f = f" "dropWhile (\<lambda>c. \<not> is_blank c) f = []"
    "dropWhile is_blank f = f"
    using assms(1,2) dropWhile_field [of f "[]"]
    by (auto simp: takeWhile_eq_all_conv)
  from assms(1,3) show ?thesis
    by (simp add: paramValue.simps [of f] Let_def field split: option.split)
qed

lemma paramValue_name: "paramValue (str ''name='' @ rest) key = None"
  by (subst paramValue.simps) (simp add: is_blank_def)

text \<open>A line of blank-separated fields \<open>key=value\<close>, followed by a last part.\<close>

definition noblank :: "bytes \<Rightarrow> bool" where
  "noblank v \<longleftrightarrow> (\<forall>c \<in> set v. \<not> is_blank c)"

lemma noblank_simps [simp]:
  "noblank []" "noblank (c # v) \<longleftrightarrow> \<not> is_blank c \<and> noblank v"
  "noblank (u @ v) \<longleftrightarrow> noblank u \<and> noblank v"
  by (auto simp: noblank_def)

lemma noblank_show_dec [simp]: "0 \<le> n \<Longrightarrow> noblank (show_dec n)"
  using show_dec_dec dec_byte_not_blank by (auto simp: noblank_def)

lemma noblank_show_hex08 [simp]: "noblank (show_hex08 w)"
  by (auto simp: noblank_def show_hex08_def dest: show_hex_bytes)

abbreviation spaced :: "bytes list \<Rightarrow> bytes" where
  "spaced fs \<equiv> concat (map (\<lambda>f. f @ [32]) fs)"

fun find_field :: "bytes list \<Rightarrow> bytes \<Rightarrow> bytes option" where
  "find_field [] key = None"
| "find_field (f # fs) key =
     (case CutPrefix f (key @ [61]) of Some v \<Rightarrow> Some v | None \<Rightarrow> find_field fs key)"

definition field_ok :: "bytes \<Rightarrow> bool" where
  "field_ok f \<longleftrightarrow> f \<noteq> [] \<and> noblank f \<and> \<not> HasPrefix f (str ''name='')"

lemma paramValue_spaced:
  "list_all field_ok fs \<Longrightarrow>
   paramValue (spaced fs @ tail) key =
     (case find_field fs key of Some v \<Rightarrow> Some v | None \<Rightarrow> paramValue tail key)"
proof (induction fs)
  case (Cons f fs)
  then have "paramValue (f @ 32 # (spaced fs @ tail)) key =
      (case CutPrefix f (key @ [61]) of Some v \<Rightarrow> Some v | None \<Rightarrow> paramValue (spaced fs @ tail) key)"
    by (intro paramValue_field) (auto simp: field_ok_def noblank_def)
  with Cons show ?case by (simp split: option.split)
qed simp

lemma paramValue_spaced_last:
  "list_all field_ok fs \<Longrightarrow> field_ok f \<Longrightarrow>
   paramValue (spaced fs @ f) key = find_field (fs @ [f]) key"
proof -
  assume ok: "list_all field_ok fs" "field_ok f"
  then have "paramValue f key = CutPrefix f (key @ [61])"
    by (intro paramValue_last) (auto simp: field_ok_def noblank_def)
  moreover have "find_field (fs @ [f]) key =
      (case find_field fs key of Some v \<Rightarrow> Some v | None \<Rightarrow> CutPrefix f (key @ [61]))"
    by (induction fs) (simp_all split: option.split)
  ultimately show ?thesis using ok(1) by (simp add: paramValue_spaced split: option.split)
qed

lemma requiredDecimal_show:
  assumes "paramValue line key = Some (show_int i)" "0 \<le> i" "i \<le> max_i64"
  shows "requiredDecimal line key = Inr i"
proof -
  have "\<forall>b \<in> set (show_int i). 48 \<le> b \<and> b \<le> 57"
    using show_dec_dec [of i] assms(2) by (auto simp: show_int_nonneg is_dec_byte_def)
  moreover have "show_int i \<noteq> []"
    using assms(2) by (simp add: show_int_nonneg)
  ultimately show ?thesis
    using assms ParseInt10_show_int [of i]
    by (auto simp: requiredDecimal_def not_less [symmetric])
qed

lemma getIntParam_show:
  assumes "paramValue line key = Some (show_int i)" "0 \<le> i" "i \<le> max_i64"
  shows "getIntParam line key = i"
  using assms by (simp add: getIntParam_def Atoi_def ParseInt10_show_int)

section \<open>The header and trailer lines \<open>Encode\<close> writes\<close>

definition ybegin_multi :: "bytes \<Rightarrow> int \<Rightarrow> int \<Rightarrow> int \<Rightarrow> bytes" where
  "ybegin_multi name partNum tot fileSize =
     str ''=ybegin part='' @ show_int partNum @ str '' total='' @ show_int tot
     @ str '' line='' @ show_int (int defaultLineLength) @ str '' size='' @ show_int fileSize
     @ str '' name='' @ name"

definition ybegin_single :: "bytes \<Rightarrow> int \<Rightarrow> bytes" where
  "ybegin_single name fileSize =
     str ''=ybegin line='' @ show_int (int defaultLineLength) @ str '' size='' @ show_int fileSize
     @ str '' name='' @ name"

definition ypart_line :: "int \<Rightarrow> int \<Rightarrow> bytes" where
  "ypart_line begin0 end0 = str ''=ypart begin='' @ show_int begin0 @ str '' end='' @ show_int end0"

definition yend_multi :: "int \<Rightarrow> int \<Rightarrow> uint32 \<Rightarrow> bytes" where
  "yend_multi len partNum crc =
     str ''=yend size='' @ show_int len @ str '' part='' @ show_int partNum @ str '' pcrc32=''
     @ show_hex08 crc"

definition yend_single :: "int \<Rightarrow> uint32 \<Rightarrow> bytes" where
  "yend_single len crc = str ''=yend size='' @ show_int len @ str '' crc32='' @ show_hex08 crc"

text \<open>Each line as its fields.\<close>

lemma fields_ybegin_multi:
  "ybegin_multi name partNum tot fileSize =
     spaced [str ''=ybegin'', str ''part='' @ show_int partNum, str ''total='' @ show_int tot,
       str ''line='' @ show_int (int defaultLineLength), str ''size='' @ show_int fileSize]
     @ str ''name='' @ name"
  by (simp add: ybegin_multi_def)

lemma fields_ybegin_single:
  "ybegin_single name fileSize =
     spaced [str ''=ybegin'', str ''line='' @ show_int (int defaultLineLength),
       str ''size='' @ show_int fileSize]
     @ str ''name='' @ name"
  by (simp add: ybegin_single_def)

lemma fields_ypart:
  "ypart_line begin0 end0 =
     spaced [str ''=ypart'', str ''begin='' @ show_int begin0] @ (str ''end='' @ show_int end0)"
  by (simp add: ypart_line_def)

lemma fields_yend_multi:
  "yend_multi len partNum crc =
     spaced [str ''=yend'', str ''size='' @ show_int len, str ''part='' @ show_int partNum]
     @ (str ''pcrc32='' @ show_hex08 crc)"
  by (simp add: yend_multi_def)

lemma fields_yend_single:
  "yend_single len crc =
     spaced [str ''=yend'', str ''size='' @ show_int len] @ (str ''crc32='' @ show_hex08 crc)"
  by (simp add: yend_single_def)

lemmas field_eval = field_ok_def CutPrefix_def is_blank_def show_int_nonneg

lemma params_ybegin_multi:
  assumes "0 \<le> partNum" "0 \<le> tot" "0 \<le> fileSize"
  shows "paramValue (ybegin_multi name partNum tot fileSize) (str ''part'') = Some (show_int partNum)"
    and "paramValue (ybegin_multi name partNum tot fileSize) (str ''total'') = Some (show_int tot)"
    and "paramValue (ybegin_multi name partNum tot fileSize) (str ''size'') = Some (show_int fileSize)"
  unfolding fields_ybegin_multi
  using assms by (subst paramValue_spaced; simp add: field_eval)+

lemma params_ybegin_single:
  assumes "0 \<le> fileSize"
  shows "paramValue (ybegin_single name fileSize) (str ''part'') = None"
    and "paramValue (ybegin_single name fileSize) (str ''total'') = None"
    and "paramValue (ybegin_single name fileSize) (str ''size'') = Some (show_int fileSize)"
  unfolding fields_ybegin_single
  using assms paramValue_name [of name]
  by (subst paramValue_spaced; simp add: field_eval)+

lemma params_ypart:
  assumes "0 \<le> begin0" "0 \<le> end0"
  shows "paramValue (ypart_line begin0 end0) (str ''begin'') = Some (show_int begin0)"
    and "paramValue (ypart_line begin0 end0) (str ''end'') = Some (show_int end0)"
  unfolding fields_ypart
  using assms by (subst paramValue_spaced_last; simp add: field_eval)+

lemma params_yend_multi:
  assumes "0 \<le> len" "0 \<le> partNum"
  shows "paramValue (yend_multi len partNum crc) (str ''size'') = Some (show_int len)"
    and "paramValue (yend_multi len partNum crc) (str ''part'') = Some (show_int partNum)"
    and "paramValue (yend_multi len partNum crc) (str ''pcrc32'') = Some (show_hex08 crc)"
    and "paramValue (yend_multi len partNum crc) (str ''crc32'') = None"
  unfolding fields_yend_multi
  using assms by (subst paramValue_spaced_last; simp add: field_eval)+

lemma params_yend_single:
  assumes "0 \<le> len"
  shows "paramValue (yend_single len crc) (str ''size'') = Some (show_int len)"
    and "paramValue (yend_single len crc) (str ''pcrc32'') = None"
    and "paramValue (yend_single len crc) (str ''crc32'') = Some (show_hex08 crc)"
  unfolding fields_yend_single
  using assms by (subst paramValue_spaced_last; simp add: field_eval)+

text \<open>The name: everything after the first \<open>name=\<close>.\<close>

definition after :: "bytes \<Rightarrow> bytes \<Rightarrow> bytes option" where
  "after line sub = map_option (\<lambda>i. drop (i + length sub) line) (Index line sub)"

lemma after_Cons:
  "after (x # xs) sub = (if HasPrefix (x # xs) sub then Some (drop (length sub) (x # xs)) else after xs sub)"
  by (simp add: after_def option.map_comp comp_def)

lemma after_skip: "c \<notin> set ds \<Longrightarrow> after (ds @ rest) (c # sub) = after rest (c # sub)"
  by (induction ds) (auto simp: after_Cons)

lemma after_digits:
  assumes "0 \<le> n"
  shows "after (show_dec n @ rest) (str ''name='') = after rest (str ''name='')"
proof -
  have "110 \<notin> set (show_dec n)"
    using show_dec_dec [OF assms] dec_byte_not_break by blast
  then show ?thesis by (simp add: after_skip)
qed

lemma parseYBegin_after:
  "parseYBegin p line =
     (let p1 = p\<lparr>Number := getIntParam line (str ''part''), Total := getIntParam line (str ''total''),
                 Size := getIntParam line (str ''size'')\<rparr>
      in case after line (str ''name='') of None \<Rightarrow> p1 | Some nm \<Rightarrow> p1\<lparr>Name := TrimSpace nm\<rparr>)"
  by (cases "Index line (str ''name='')") (simp_all add: parseYBegin_def after_def Let_def eval_nat_numeral)

lemma after_ybegin_multi:
  assumes "0 \<le> partNum" "0 \<le> tot" "0 \<le> fileSize"
  shows "after (ybegin_multi name partNum tot fileSize) (str ''name='') = Some name"
  using assms after_digits by (simp add: ybegin_multi_def after_Cons show_int_nonneg)

lemma after_ybegin_single:
  assumes "0 \<le> fileSize"
  shows "after (ybegin_single name fileSize) (str ''name='') = Some name"
  using assms after_digits by (simp add: ybegin_single_def after_Cons show_int_nonneg)

section \<open>What each line makes of the decoder\<close>

lemma begin_keys_ok:
  assumes "\<And>key. key \<in> set keys \<Longrightarrow>
    paramValue line key = None \<or> (\<exists>i. paramValue line key = Some (show_int i) \<and> 0 \<le> i \<and> i \<le> max_i64)"
  shows "begin_keys e line keys = e"
  using assms
proof (induction keys)
  case (Cons key keys)
  then have "begin_keys e line keys = e" by simp
  with Cons.prems [of key] show ?case
    by (auto simp: requiredDecimal_show)
qed simp

lemma envelope_begin_multi:
  assumes "0 \<le> partNum" "partNum \<le> max_i64" "0 \<le> tot" "tot \<le> max_i64" "0 \<le> fileSize" "fileSize \<le> max_i64"
    and "trimmed name"
  shows "envelope_begin p e (ybegin_multi name partNum tot fileSize) =
    (p\<lparr>Name := name, Number := partNum, Total := tot, Size := fileSize\<rparr>, e)"
proof -
  note ps = params_ybegin_multi [OF assms(1,3,5), of name]
  have "begin_keys e (ybegin_multi name partNum tot fileSize) [str ''size'', str ''part'', str ''total''] = e"
    using ps assms by (intro begin_keys_ok) (auto simp del: str_Cons)
  moreover have "parseYBegin p (ybegin_multi name partNum tot fileSize) =
      p\<lparr>Name := name, Number := partNum, Total := tot, Size := fileSize\<rparr>"
    using assms
    by (simp add: parseYBegin_after after_ybegin_multi getIntParam_show [OF ps(1)]
        getIntParam_show [OF ps(2)] getIntParam_show [OF ps(3)] del: str_Cons)
  ultimately show ?thesis by (simp only: envelope_begin_def)
qed

lemma envelope_begin_single:
  assumes "0 \<le> fileSize" "fileSize \<le> max_i64" "trimmed name"
  shows "envelope_begin zero_part e (ybegin_single name fileSize) =
    (zero_part\<lparr>Name := name, Size := fileSize\<rparr>, e)"
proof -
  note ps = params_ybegin_single [OF assms(1), of name]
  have "begin_keys e (ybegin_single name fileSize) [str ''size'', str ''part'', str ''total''] = e"
    using ps assms by (intro begin_keys_ok) (auto simp del: str_Cons)
  moreover have "parseYBegin zero_part (ybegin_single name fileSize) =
      zero_part\<lparr>Name := name, Size := fileSize\<rparr>"
    using assms ps
    by (simp add: parseYBegin_after after_ybegin_single getIntParam_def Atoi_def
        ParseInt10_show_int zero_part_def del: str_Cons)
  ultimately show ?thesis by (simp only: envelope_begin_def)
qed

lemma envelope_part_line:
  assumes "0 \<le> begin0" "begin0 \<le> max_i64" "0 \<le> end0" "end0 \<le> max_i64"
  shows "envelope_part p e (ypart_line begin0 end0) =
    (p\<lparr>Begin := begin0, End := end0\<rparr>, e\<lparr>hasRange := True\<rparr>)"
  using assms params_ypart [OF assms(1,3)]
  by (simp add: envelope_part_def requiredDecimal_show del: str_Cons)

lemma envelope_trailer_multi:
  assumes "0 \<le> len" "len \<le> max_i64" "1 \<le> Number p" "Number p \<le> max_i64" "\<not> checksumPresent e"
  shows "envelope_trailer p e (yend_multi len (Number p) crc) =
    (p\<lparr>CRC32 := crc\<rparr>,
     e\<lparr>env_ended := True, env_length := len, env_number := Number p, checksumPresent := True\<rparr>)"
  using assms params_yend_multi [OF assms(1), of "Number p" crc]
  by (simp add: envelope_trailer_def requiredDecimal_show ParseUint_show_hex08 del: str_Cons)

lemma envelope_trailer_single:
  assumes "0 \<le> len" "len \<le> max_i64" "Number p = 0" "Total p \<le> 1" "\<not> checksumPresent e"
  shows "envelope_trailer p e (yend_single len crc) =
    (p\<lparr>CRC32 := crc\<rparr>, e\<lparr>env_ended := True, env_length := len, checksumPresent := True\<rparr>)"
  using assms params_yend_single [OF assms(1), of crc]
  by (simp add: envelope_trailer_def requiredDecimal_show ParseUint_show_hex08 del: str_Cons)

section \<open>The data lines\<close>

abbreviation enc :: "bytes \<Rightarrow> bytes" where
  "enc bs \<equiv> concat (map encodeByte bs)"

lemma decodeLine_enc: "decodeLine_loop False (enc bs @ rest) = bs @ decodeLine_loop False rest"
  by (induction bs) (auto simp: encodeByte_def Let_def)

lemma encodeByte_bytes: "c \<in> set (encodeByte b) \<Longrightarrow> c \<noteq> 10 \<and> c \<noteq> 13"
proof -
  have "c \<in> set (if e = 0 \<or> e = 10 \<or> e = 13 \<or> e = 61 then [61, e + 64] else [e]) \<Longrightarrow> c \<noteq> 10 \<and> c \<noteq> 13"
    for e :: byte
    by (auto split: if_splits)
  then show "c \<in> set (encodeByte b) \<Longrightarrow> c \<noteq> 10 \<and> c \<noteq> 13"
    unfolding encodeByte_def Let_def .
qed

lemma enc_no_break: "10 \<notin> set (enc bs)" "13 \<notin> set (enc bs)"
  using encodeByte_bytes by auto

lemma encodeByte_nonempty [simp]: "encodeByte b \<noteq> []" "0 < length (encodeByte b)"
  by (simp_all add: encodeByte_def Let_def)

lemma length_encodeByte: "length (encodeByte b) \<le> 2"
  by (simp add: encodeByte_def Let_def)

text \<open>An encoded line never looks like a control line: \<open>=\<close> is never followed by \<open>y\<close>.\<close>

lemma enc_not_control: "\<not> HasPrefix (enc bs) (61 # 121 # rest)"
  by (cases bs) (auto simp: encodeByte_def Let_def split: if_splits)

text \<open>How \<open>writeEncodedData\<close> cuts the data into lines; \<open>pre\<close> is on the current one.\<close>

fun line_chunks :: "nat \<Rightarrow> bytes \<Rightarrow> bytes \<Rightarrow> bytes list" where
  "line_chunks L pre [] = (if pre = [] then [] else [pre])"
| "line_chunks L pre (b # bs) =
     (if L < length (enc pre) + length (encodeByte b) then pre # line_chunks L [b] bs
      else line_chunks L (pre @ [b]) bs)"

lemma concat_line_chunks: "concat (line_chunks L pre bs) = pre @ bs"
  by (induction L pre bs rule: line_chunks.induct) auto

lemma length_line_chunks:
  "2 \<le> L \<Longrightarrow> length (enc pre) \<le> L \<Longrightarrow> c \<in> set (line_chunks L pre bs) \<Longrightarrow> length (enc c) \<le> L"
proof (induction L pre bs rule: line_chunks.induct)
  case (2 L pre b bs)
  then show ?case
    using length_encodeByte [of b] by (auto split: if_splits)
qed (auto split: if_splits)

lemma split_nl_data:
  "split_nl (enc pre @ writeEncodedData_loop L (length (enc pre)) bs @ rest) =
     (map (\<lambda>c. enc c @ [13]) (line_chunks L pre bs) @ fst (split_nl rest), snd (split_nl rest))"
proof (induction bs arbitrary: pre)
  case Nil
  have "split_nl ((enc pre @ [13]) @ 10 # rest) = ((enc pre @ [13]) # fst (split_nl rest), snd (split_nl rest))"
    using enc_no_break [of pre] by (intro split_nl_line) auto
  then show ?case by auto
next
  case (Cons b bs)
  show ?case
  proof (cases "L < length (enc pre) + length (encodeByte b)")
    case True
    let ?t = "encodeByte b @ writeEncodedData_loop L (length (encodeByte b)) bs @ rest"
    have "split_nl ((enc pre @ [13]) @ 10 # ?t) = ((enc pre @ [13]) # fst (split_nl ?t), snd (split_nl ?t))"
      using enc_no_break [of pre] by (intro split_nl_line) auto
    with True Cons.IH [of "[b]"] show ?thesis by (simp add: Let_def)
  next
    case False
    with Cons.IH [of "pre @ [b]"] show ?thesis by (simp add: Let_def)
  qed
qed

lemma dropCR_snoc [simp]: "dropCR (l @ [13]) = l"
  by (simp add: dropCR_def)

lemma spec_line_data:
  assumes "ph = afterBegin \<or> ph = inData"
  shows "spec_line (enc c) \<lparr>s_part = p, s_env = e, s_phase = ph, s_data = x\<rparr> =
    \<lparr>s_part = p, s_env = e, s_phase = inData, s_data = x @ c\<rparr>"
  using assms decodeLine_enc [of c "[]"] enc_not_control
  by (auto simp: spec_line_def decodeLine_def)

lemma fold_data_lines:
  assumes "ph = afterBegin \<or> ph = inData"
  shows "\<exists>ph'. (ph' = afterBegin \<or> ph' = inData) \<and> (ph = inData \<longrightarrow> ph' = inData) \<and>
    fold (spec_line \<circ> dropCR) (map (\<lambda>c. enc c @ [13]) cs)
      \<lparr>s_part = p, s_env = e, s_phase = ph, s_data = x\<rparr> =
    \<lparr>s_part = p, s_env = e, s_phase = ph', s_data = x @ concat cs\<rparr>"
  using assms
proof (induction cs arbitrary: ph x)
  case (Cons c cs)
  from Cons.IH [of inData "x @ c"] show ?case
    by (simp add: spec_line_data [OF Cons.prems])
qed auto

lemma spec_line_trailer:
  assumes "ph = afterBegin \<or> ph = inData" "HasPrefix line (str ''=yend '')"
    and "envelope_trailer p e line = (p', e')"
  shows "spec_line line \<lparr>s_part = p, s_env = e, s_phase = ph, s_data = x\<rparr> =
    \<lparr>s_part = p', s_env = e', s_phase = ended, s_data = x\<rparr>"
proof -
  have "\<not> HasPrefix line (str ''=ypart '')"
    using assms(2) by (cases line; cases "tl line"; cases "tl (tl line)") auto
  with assms show ?thesis by (auto simp: spec_line_def)
qed

end
