(* ===== verification/Go_Strings.thy ===== *)
theory Go_Strings
  imports Go_Prelude "HOL-Library.Multiset"
begin

text \<open>
  More of the Go standard library: case mapping, \<open>strings.ReplaceAll\<close> and
  \<open>strings.Contains\<close>, \<open>filepath.Ext\<close> and \<open>filepath.Base\<close> (with \<open>/\<close> as the path separator),
  and \<open>sort.Slice\<close>.
  \<^item> \<open>strings.ToLower\<close> maps an ASCII string byte by byte; on any other string it applies the
    Unicode case tables, which are the argument \<open>u\<close> of the model.
  \<^item> \<open>sort.Slice\<close> is not stable: what it does to elements of equal rank is unspecified. The
    model sorts a rearrangement \<open>shuffle xs\<close> of its input stably, so that every result the
    library may return is the result for some \<open>shuffle\<close>.
\<close>

section \<open>Case mapping\<close>

type_synonym unicode_lower = "bytes \<Rightarrow> bytes"

definition lower_byte :: "byte \<Rightarrow> byte" where
  "lower_byte b = (if 65 \<le> b \<and> b \<le> 90 then b + 32 else b)"

definition is_ascii :: "bytes \<Rightarrow> bool" where
  "is_ascii s \<longleftrightarrow> list_all (\<lambda>b. b < 128) s"

definition ToLower :: "unicode_lower \<Rightarrow> bytes \<Rightarrow> bytes" where
  "ToLower u s = (if is_ascii s then map lower_byte s else u s)"

text \<open>\<open>strings.EqualFold(s, t)\<close> for a \<open>t\<close> whose letters fold to no character outside ASCII
  (every letter but \<open>k\<close> and \<open>s\<close>).\<close>

definition EqualFold :: "bytes \<Rightarrow> bytes \<Rightarrow> bool" where
  "EqualFold s t \<longleftrightarrow> map lower_byte s = map lower_byte t"

lemma lower_byte_idem [simp]: "lower_byte (lower_byte b) = lower_byte b"
proof -
  have "\<not> (65 \<le> b + 32 \<and> b + 32 \<le> 90)" if "65 \<le> b" "b \<le> 90"
    using that by (auto simp: word_le_nat_alt unat_word_ariths)
  then show ?thesis by (auto simp: lower_byte_def)
qed

section \<open>Substrings\<close>

definition Contains :: "bytes \<Rightarrow> bytes \<Rightarrow> bool" where
  "Contains s sub \<longleftrightarrow> Index s sub \<noteq> None"

text \<open>\<open>strings.ReplaceAll\<close> for a non-empty \<open>old\<close>: the occurrences are replaced from left to
  right and do not overlap.\<close>

function ReplaceAll :: "bytes \<Rightarrow> bytes \<Rightarrow> bytes \<Rightarrow> bytes" where
  "ReplaceAll [] old new = []"
| "ReplaceAll (x # xs) old new =
     (if old \<noteq> [] \<and> HasPrefix (x # xs) old
      then new @ ReplaceAll (drop (length old) (x # xs)) old new
      else x # ReplaceAll xs old new)"
  by pat_completeness auto
termination
  by (relation "measure (\<lambda>(s, old, new). length s)") (auto simp: Suc_le_eq)

lemma ReplaceAll_byte: "ReplaceAll s [c] [d] = map (\<lambda>b. if b = c then d else b) s"
proof (induction s)
  case (Cons x xs)
  have "HasPrefix (x # xs) [c] \<longleftrightarrow> x = c" by simp
  with Cons show ?case by simp
qed simp

section \<open>File names\<close>

text \<open>\<open>filepath.Ext\<close>: from the last dot of the last path element on.\<close>

fun ext_rev :: "bytes \<Rightarrow> bytes \<Rightarrow> bytes" where
  "ext_rev acc [] = []"
| "ext_rev acc (c # cs) =
     (if c = 47 then [] else if c = 46 then c # acc else ext_rev (c # acc) cs)"

definition Ext :: "bytes \<Rightarrow> bytes" where
  "Ext path = ext_rev [] (rev path)"

text \<open>\<open>filepath.Base\<close>: the last element, after dropping trailing slashes.\<close>

definition Base :: "bytes \<Rightarrow> bytes" where
  "Base path =
     (if path = [] then [46]
      else let p = rev (dropWhile (\<lambda>c. c = 47) (rev path))
           in if p = [] then [47] else rev (takeWhile (\<lambda>c. c \<noteq> 47) (rev p)))"

lemma ext_rev_append: "\<exists>t. ext_rev acc cs \<noteq> [] \<longrightarrow> rev cs @ acc = t @ ext_rev acc cs"
proof (induction acc cs rule: ext_rev.induct)
  case (2 acc c cs)
  then show ?case by auto
qed simp

lemma Ext_suffix: "\<exists>t. path = t @ Ext path"
proof (cases "Ext path = []")
  case False
  then show ?thesis
    using ext_rev_append [of "[]" "rev path"] by (auto simp: Ext_def)
qed simp

lemma TrimSuffix_Ext: "TrimSuffix path (Ext path) @ Ext path = path"
proof -
  obtain t where "path = t @ Ext path"
    using Ext_suffix by blast
  then show ?thesis
    by (metis HasSuffix_def TrimSuffix_def append_eq_conv_conj append_take_drop_id diff_le_self
        length_append diff_add_inverse2 le_add2)
qed

lemma Base_no_slash: "Base path \<noteq> [47] \<Longrightarrow> 47 \<notin> set (Base path)"
  by (auto simp: Base_def Let_def split: if_splits dest: set_takeWhileD)

lemma Base_nonempty: "Base path \<noteq> []"
proof -
  have "takeWhile (\<lambda>c. c \<noteq> 47) (dropWhile (\<lambda>c. c = 47) xs) \<noteq> []"
    if "dropWhile (\<lambda>c. c = 47) xs \<noteq> []" for xs :: bytes
    using that hd_dropWhile [of "\<lambda>c. c = 47" xs] by (cases "dropWhile (\<lambda>c. c = 47) xs") auto
  then show ?thesis by (auto simp: Base_def Let_def)
qed

section \<open>\<open>sort.Slice\<close>\<close>

type_synonym 'a shuffle = "'a list \<Rightarrow> 'a list"

definition sort_Slice :: "'a shuffle \<Rightarrow> ('a \<Rightarrow> 'k::linorder) \<Rightarrow> 'a list \<Rightarrow> 'a list" where
  "sort_Slice shuffle key xs = sort_key key (shuffle xs)"

definition rearranges :: "'a shuffle \<Rightarrow> 'a list \<Rightarrow> bool" where
  "rearranges shuffle xs \<longleftrightarrow> mset (shuffle xs) = mset xs"

text \<open>What any implementation of \<open>sort.Slice\<close> promises.\<close>

locale slice_sort =
  fixes sortf :: "'a shuffle \<Rightarrow> ('a \<Rightarrow> 'k::linorder) \<Rightarrow> 'a list \<Rightarrow> 'a list"
  assumes sort_perm: "rearranges sh xs \<Longrightarrow> mset (sortf sh key xs) = mset xs"
    and sort_sorted: "sorted (map key (sortf sh key xs))"
begin

lemma sort_set: "rearranges sh xs \<Longrightarrow> set (sortf sh key xs) = set xs"
  using sort_perm by (metis set_mset_mset)

lemma sort_length: "rearranges sh xs \<Longrightarrow> length (sortf sh key xs) = length xs"
  using sort_perm by (metis size_mset)

text \<open>With distinct keys the result does not depend on the rearrangement.\<close>

lemma sort_unique:
  assumes "rearranges sh xs" "distinct (map key xs)"
  shows "sortf sh key xs = sort_key key xs"
proof -
  have m: "mset (sortf sh key xs) = mset (sort_key key xs)"
    using sort_perm [OF assms(1)] by simp
  have "inj_on key (set (sortf sh key xs))"
    using assms by (simp add: sort_set distinct_map)
  moreover have "map key (sortf sh key xs) = map key (sort_key key xs)"
    using m by (metis mset_map properties_for_sort sort_sorted sorted_sort_key)
  ultimately show ?thesis
    by (metis m map_inj_on mset_eq_setD inj_on_Un Un_absorb)
qed

end

interpretation slice: slice_sort sort_Slice
proof
  show "mset (sort_Slice sh key xs) = mset xs" if "rearranges sh xs" for sh and key :: "'a \<Rightarrow> 'b" and xs
    using that by (simp add: sort_Slice_def rearranges_def)
qed (simp add: sort_Slice_def)

end
