(* ===== verification/Nntp_Wire.thy ===== *)
theory Nntp_Wire
  imports Go_Strings
begin

text \<open>
  The wire side of the NNTP client, \<open>internal/usenet/nntp\<close>: argument checks
  (\<open>arguments.go\<close>), the bounded line receiver and the dot-terminated body (\<open>body.go\<close>),
  single-line replies (\<open>reply.go\<close>) and the error classes (\<open>missing.go\<close>, \<open>client.go\<close>).
  A connection's input is a \<open>wire\<close>: the bytes the server will still send, and how the
  stream ends after them.
\<close>

section \<open>Errors\<close>

datatype read_error = EOF | NetTimeout | NetFailure

datatype ctx_error = Canceled | DeadlineExceeded

datatype nntp_error =
    EmptyMessageID
  | InvalidMessageID
  | InvalidAuthArgument
  | BodyTooLargeError int
  | ReplyTooLargeError int
  | UnexpectedEOF
  | Transport read_error
  | ProtocolError string
  | ReplyError int bytes \<comment> \<open>\<open>textproto.Error\<close>: code and message\<close>
  | ArticleNotFoundError bytes int
  | StallError bytes nntp_error
  | ClientClosed
  | RedialDeferred
  | CtxError ctx_error
  | HostnameError \<comment> \<open>the certificate does not cover the requested name\<close>
  | Joined string nntp_error nntp_error \<comment> \<open>\<open>fmt.Errorf\<close> with two \<open>%w\<close>\<close>
  | Wrapped string nntp_error \<comment> \<open>\<open>fmt.Errorf\<close> with \<open>%w\<close>\<close>
  | Opaque string \<comment> \<open>\<open>fmt.Errorf\<close> with \<open>%v\<close>: no error is wrapped\<close>

text \<open>\<open>errors.As\<close> walks the chain of wrapped errors.\<close>

fun unwrap_chain :: "nntp_error \<Rightarrow> nntp_error list" where
  "unwrap_chain (Wrapped c e) = Wrapped c e # unwrap_chain e"
| "unwrap_chain (StallError m e) = StallError m e # unwrap_chain e"
| "unwrap_chain (Joined c e e') = Joined c e e' # unwrap_chain e @ unwrap_chain e'"
| "unwrap_chain e = [e]"

definition IsArticleMissing :: "nntp_error \<Rightarrow> bool" where
  "IsArticleMissing err =
     list_ex (\<lambda>e. case e of ArticleNotFoundError _ _ \<Rightarrow> True | _ \<Rightarrow> False) (unwrap_chain err)"

definition IsStalled :: "nntp_error \<Rightarrow> bool" where
  "IsStalled err =
     list_ex (\<lambda>e. case e of StallError _ _ \<Rightarrow> True | _ \<Rightarrow> False) (unwrap_chain err)"

text \<open>\<open>context.DeadlineExceeded\<close> is a \<open>net.Error\<close> too.\<close>

definition isNetTimeout :: "nntp_error \<Rightarrow> bool" where
  "isNetTimeout err =
     list_ex (\<lambda>e. case e of Transport NetTimeout \<Rightarrow> True | CtxError DeadlineExceeded \<Rightarrow> True
                | _ \<Rightarrow> False) (unwrap_chain err)"

definition isReceiveLimit :: "nntp_error \<Rightarrow> bool" where
  "isReceiveLimit err =
     list_ex (\<lambda>e. case e of BodyTooLargeError _ \<Rightarrow> True | ReplyTooLargeError _ \<Rightarrow> True
                | _ \<Rightarrow> False) (unwrap_chain err)"

section \<open>Arguments\<close>

definition id_byte_ok :: "byte \<Rightarrow> bool" where
  "id_byte_ok b \<longleftrightarrow> \<not> (b \<le> 32 \<or> 127 \<le> b \<or> b = 60 \<or> b = 62)"

text \<open>The slice \<open>id[1 : len(id)-1]\<close> cannot panic: one byte is not both brackets.\<close>

definition NormalizeMessageID :: "bytes \<Rightarrow> nntp_error + bytes" where
  "NormalizeMessageID ident =
     (let s = (if HasPrefix ident (str ''<'') \<and> HasSuffix ident (str ''>'')
               then slice ident 1 (length ident - 1) else ident) in
      if s = [] then Inl EmptyMessageID
      else if list_all id_byte_ok s then Inr s
      else Inl InvalidMessageID)"

definition ContainsAny :: "bytes \<Rightarrow> bytes \<Rightarrow> bool" where
  "ContainsAny s chars \<longleftrightarrow> list_ex (\<lambda>b. b \<in> set chars) s"

definition validateCredentials :: "bytes \<Rightarrow> bytes \<Rightarrow> nntp_error option" where
  "validateCredentials username password =
     (if list_ex (\<lambda>v. ContainsAny v [13, 10, 0]) [username, password]
      then Some InvalidAuthArgument else None)"

section \<open>The buffered reader\<close>

record wire =
  unread :: bytes
  bufsize :: nat
  tail :: read_error

datatype slice_error = BufferFull | ReadErr read_error

text \<open>
  \<open>bufio.Reader.ReadSlice('\n')\<close>: up to and including the next line feed when one lies within
  the buffer (of at least 16 bytes), else a buffer's worth of bytes, else what is left together
  with the error that ends the stream.
\<close>

definition ReadSlice :: "wire \<Rightarrow> bytes \<times> slice_error option \<times> wire" where
  "ReadSlice w =
     (let n = max 16 (bufsize w) in
      case IndexByte (take n (unread w)) 10 of
        Some i \<Rightarrow> (take (Suc i) (unread w), None, w\<lparr>unread := drop (Suc i) (unread w)\<rparr>)
      | None \<Rightarrow>
          if n \<le> length (unread w)
          then (take n (unread w), Some BufferFull, w\<lparr>unread := drop n (unread w)\<rparr>)
          else (unread w, Some (ReadErr (tail w)), w\<lparr>unread := []\<rparr>))"

section \<open>The bounded receiver\<close>

definition MaxEncodedBodyBytes :: int where
  "MaxEncodedBodyBytes = 16777216"

definition MaxReplyBytes :: int where
  "MaxReplyBytes = 65536"

record bodyReceiver =
  reader :: wire
  out :: bytes
  out_cap :: int \<comment> \<open>the capacity of \<open>out\<close>\<close>
  received :: int
  limit :: int

text \<open>The body of the loop of \<open>appendLine\<close>: one fragment is received.\<close>

definition append_frag :: "bodyReceiver \<Rightarrow> bytes \<Rightarrow> wire \<Rightarrow> bodyReceiver" where
  "append_frag b frag rd =
     (let needed = int (length (out b)) + int (length frag) in
      b\<lparr>reader := rd,
        received := received b + int (length frag),
        out := out b @ frag,
        out_cap := (if out_cap b < needed
                    then min (limit b) (max needed (2 * out_cap b)) else out_cap b)\<rparr>)"

function appendLine :: "bodyReceiver \<Rightarrow> nntp_error option \<times> bodyReceiver" where
  "appendLine b =
     (case ReadSlice (reader b) of (frag, err, rd) \<Rightarrow>
        if limit b - received b < int (length frag)
        then (Some (BodyTooLargeError (limit b)), b\<lparr>reader := rd\<rparr>)
        else let b' = append_frag b frag rd in
          case err of
            None \<Rightarrow> (None, b')
          | Some BufferFull \<Rightarrow> appendLine b'
          | Some (ReadErr e) \<Rightarrow>
              (Some (if e = EOF then UnexpectedEOF else Transport e), b'))"
  by pat_completeness auto
termination
proof (relation "measure (\<lambda>b. length (unread (reader b)))", goal_cases)
  case (2 b frag y err rd b' e)
  then show ?case
    by (auto simp: ReadSlice_def append_frag_def Let_def split: option.splits if_splits)
qed simp

declare appendLine.simps [simp del]

text \<open>What \<open>readDotBodyLimit\<close> does to the line that starts at \<open>start\<close>: drop the line end, then
  the stuffed dot.\<close>

definition trimLine :: "bytes \<Rightarrow> bytes" where
  "trimLine l = TrimSuffix (TrimSuffix l [10]) [13]"

definition unstuff :: "bytes \<Rightarrow> bytes" where
  "unstuff l = (if l \<noteq> [] \<and> hd l = 46 then List.tl l else l)"

text \<open>
  The loop of \<open>readDotBodyLimit\<close>. The third result lists what \<open>progress.Line\<close> was called with,
  in order.
\<close>

lemma appendLine_shrinks:
  "appendLine b = (None, b') \<Longrightarrow> length (unread (reader b')) < length (unread (reader b))"
proof (induction b rule: appendLine.induct)
  case (1 b)
  show ?case
    using "1.prems" "1.IH"
    apply (subst (asm) appendLine.simps)
    apply (simp add: Let_def split: prod.splits if_splits option.splits slice_error.splits)
     apply (auto simp: ReadSlice_def append_frag_def Let_def IndexByte_None split: option.splits if_splits
        dest!: IndexByte_Some)[1]
    apply (fastforce simp: ReadSlice_def append_frag_def Let_def split: option.splits if_splits)
    done
qed

function dotBody_loop :: "bodyReceiver \<Rightarrow> bytes list \<Rightarrow> (nntp_error + bytes) \<times> bodyReceiver \<times> bytes list" where
  "dotBody_loop b seen =
     (let start = length (out b) in
      case appendLine b of
        (Some err, b') \<Rightarrow> (Inl err, b', seen)
      | (None, b') \<Rightarrow>
          let line = trimLine (drop start (out b')) in
          if line = [46] then (Inr (take start (out b')), b', seen)
          else let out' = take start (out b') @ unstuff line @ [10] in
            dotBody_loop (b'\<lparr>out := out'\<rparr>) (seen @ [out']))"
  by pat_completeness auto
termination
  by (relation "measure (\<lambda>(b, seen). length (unread (reader b)))")
    (auto dest!: sym [of _ "appendLine _"] appendLine_shrinks)

declare dotBody_loop.simps [simp del]

definition readDotBodyLimit ::
  "wire \<Rightarrow> int \<Rightarrow> int \<Rightarrow> (nntp_error + bytes) \<times> bodyReceiver \<times> bytes list" where
  "readDotBodyLimit r cap_buf lim =
     dotBody_loop \<lparr>reader = r, out = [], out_cap = min cap_buf lim, received = 0, limit = lim\<rparr> []"

definition readDotBody :: "wire \<Rightarrow> int \<Rightarrow> (nntp_error + bytes) \<times> bodyReceiver \<times> bytes list" where
  "readDotBody r cap_buf = readDotBodyLimit r cap_buf MaxEncodedBodyBytes"

section \<open>Replies\<close>

text \<open>The code, the message and the error of one reply, and the reader after it.\<close>

definition readReply :: "wire \<Rightarrow> int \<Rightarrow> (int \<times> bytes \<times> nntp_error option) \<times> wire" where
  "readReply r expect =
     (case appendLine \<lparr>reader = r, out = [], out_cap = 0, received = 0, limit = MaxReplyBytes\<rparr> of
        (Some err, b) \<Rightarrow>
          ((0, [], Some (case err of BodyTooLargeError _ \<Rightarrow> ReplyTooLargeError MaxReplyBytes | e \<Rightarrow> e)),
           reader b)
      | (None, b) \<Rightarrow>
          let line = trimLine (out b) in
          if length line < 4 \<or> line ! 3 \<noteq> 32
          then ((0, [], Some (ProtocolError ''nntp: expected a complete single-line reply'')), reader b)
          else let (code, err) = Atoi (take 3 line) in
            if err \<noteq> None \<or> code < 100
            then ((0, [], Some (ProtocolError ''nntp: invalid reply code'')), reader b)
            else let message = drop 4 line in
              if code \<noteq> expect then ((code, message, Some (ReplyError code message)), reader b)
              else ((code, message, None), reader b))"

end
