(* ===== verification/Nntp_Wire_Props.thy ===== *)
theory Nntp_Wire_Props
  imports Nntp_Wire
begin

text \<open>
  The receiver delivers whole lines whatever the size of the read buffer, never holds more than
  its limit, and a dot-stuffed body comes back as it was sent, with the connection positioned
  right behind its terminator.
\<close>

section \<open>Receiving one line\<close>

lemma IndexByte_take:
  "IndexByte (take n xs) c = (case IndexByte xs c of Some i \<Rightarrow> if i < n then Some i else None | None \<Rightarrow> None)"
proof (induction xs arbitrary: n)
  case (Cons x xs)
  then show ?case by (cases n) (auto split: option.splits)
qed simp

lemma IndexByte_drop:
  "IndexByte xs c = None \<Longrightarrow> IndexByte (drop n xs) c = None"
  by (auto simp: IndexByte_None dest: in_set_dropD)

lemma IndexByte_drop_Some:
  "IndexByte xs c = Some i \<Longrightarrow> n \<le> i \<Longrightarrow> IndexByte (drop n xs) c = Some (i - n)"
proof (induction xs arbitrary: n i)
  case (Cons x xs)
  then show ?case by (cases n) (auto split: if_splits)
qed simp

text \<open>The receiver's own invariant: it holds no more than it received, and its array stays
  within the limit.\<close>

definition receiver_ok :: "bodyReceiver \<Rightarrow> bool" where
  "receiver_ok b \<longleftrightarrow> int (length (out b)) \<le> received b \<and> received b \<le> limit b \<and>
     int (length (out b)) \<le> out_cap b \<and> 0 \<le> out_cap b \<and> out_cap b \<le> limit b"

lemma append_frag_ok:
  "receiver_ok b \<Longrightarrow> int (length frag) \<le> limit b - received b \<Longrightarrow> receiver_ok (append_frag b frag rd)"
  by (auto simp: receiver_ok_def append_frag_def Let_def)

lemma append_frag_sel [simp]:
  "reader (append_frag b frag rd) = rd" "out (append_frag b frag rd) = out b @ frag"
  "received (append_frag b frag rd) = received b + int (length frag)"
  "limit (append_frag b frag rd) = limit b"
  by (simp_all add: append_frag_def Let_def)

lemma appendLine_ok: "receiver_ok b \<Longrightarrow> receiver_ok (snd (appendLine b))"
proof (induction b rule: appendLine.induct)
  case (1 b)
  obtain frag err rd where R: "ReadSlice (reader b) = (frag, err, rd)"
    by (metis prod_cases3)
  have ok: "receiver_ok (append_frag b frag rd)" if "\<not> limit b - received b < int (length frag)"
    using that "1.prems" by (simp add: append_frag_ok)
  have rd: "receiver_ok (b\<lparr>reader := rd\<rparr>)"
    using "1.prems" by (simp add: receiver_ok_def)
  show ?case
    using "1.IH" [OF R [symmetric] refl _ refl] ok rd
    by (subst appendLine.simps) (auto simp: R Let_def split: option.split slice_error.split)
qed

lemma appendLine_limit: "limit (snd (appendLine b)) = limit b"
proof (induction b rule: appendLine.induct)
  case (1 b)
  obtain frag err rd where R: "ReadSlice (reader b) = (frag, err, rd)"
    by (metis prod_cases3)
  show ?case
    using "1.IH" [OF R [symmetric] refl _ refl]
    by (subst appendLine.simps) (auto simp: R Let_def split: option.split slice_error.split)
qed

text \<open>
  What \<open>appendLine\<close> does, whatever the buffer size: \<open>line_outcome\<close> looks only at the first line
  feed of the input and at the room that is left.
\<close>

definition line_outcome :: "bodyReceiver \<Rightarrow> nntp_error option \<times> bytes" where
  "line_outcome b =
     (case IndexByte (unread (reader b)) 10 of
        Some i \<Rightarrow> if limit b - received b < int (Suc i) then (Some (BodyTooLargeError (limit b)), [])
                 else (None, take (Suc i) (unread (reader b)))
      | None \<Rightarrow> if limit b - received b < int (length (unread (reader b)))
                 then (Some (BodyTooLargeError (limit b)), [])
                 else (Some (if tail (reader b) = EOF then UnexpectedEOF else Transport (tail (reader b))), []))"

lemma ReadSlice_cases:
  obtains (line) i where "IndexByte (unread w) 10 = Some i" "i < max 16 (bufsize w)"
      "ReadSlice w = (take (Suc i) (unread w), None, w\<lparr>unread := drop (Suc i) (unread w)\<rparr>)"
  | (full) n where "n = max 16 (bufsize w)" "n \<le> length (unread w)"
      "\<forall>i. IndexByte (unread w) 10 = Some i \<longrightarrow> n \<le> i"
      "ReadSlice w = (take n (unread w), Some BufferFull, w\<lparr>unread := drop n (unread w)\<rparr>)"
  | (ended) "IndexByte (unread w) 10 = None"
      "ReadSlice w = (unread w, Some (ReadErr (tail w)), w\<lparr>unread := []\<rparr>)"
proof (cases "IndexByte (unread w) 10")
  case None
  then show ?thesis
    using full ended by (cases "max 16 (bufsize w) \<le> length (unread w)")
      (simp_all add: ReadSlice_def Let_def IndexByte_take)
next
  case (Some i)
  then have "i < length (unread w)" by (auto dest: IndexByte_Some)
  with Some show ?thesis
    using full [of "max 16 (bufsize w)"] line
    by (cases "i < max 16 (bufsize w)") (simp_all add: ReadSlice_def Let_def IndexByte_take not_less)
qed

text \<open>One turn of the loop when the buffer fills up before the line ends.\<close>

lemma appendLine_full:
  assumes "n \<le> length (unread (reader b))"
    and "ReadSlice (reader b) = (take n (unread (reader b)), Some BufferFull, rd)"
  shows "appendLine b = (if limit b - received b < int n
      then (Some (BodyTooLargeError (limit b)), b\<lparr>reader := rd\<rparr>)
      else appendLine (append_frag b (take n (unread (reader b))) rd))"
  using assms by (subst appendLine.simps) (simp add: Let_def)

lemma line_outcome_full:
  assumes "n \<le> length (unread (reader b))" "\<forall>i. IndexByte (unread (reader b)) 10 = Some i \<longrightarrow> n \<le> i"
    and b': "b' = append_frag b (take n (unread (reader b))) ((reader b)\<lparr>unread := drop n (unread (reader b))\<rparr>)"
  shows "limit b - received b < int n \<Longrightarrow> fst (line_outcome b) = Some (BodyTooLargeError (limit b))"
    and "\<not> limit b - received b < int n \<Longrightarrow> fst (line_outcome b') = fst (line_outcome b)"
    and "fst (line_outcome b) = None \<Longrightarrow>
      snd (line_outcome b) = take n (unread (reader b)) @ snd (line_outcome b')"
proof -
  let ?u = "unread (reader b)"
  show "fst (line_outcome b) = Some (BodyTooLargeError (limit b))" if "limit b - received b < int n"
    using assms that by (auto simp: line_outcome_def split: option.split)
  show "fst (line_outcome b') = fst (line_outcome b)" if "\<not> limit b - received b < int n"
    using assms that
    by (cases "IndexByte ?u 10") (simp_all add: line_outcome_def IndexByte_drop_Some IndexByte_drop)
  show "snd (line_outcome b) = take n ?u @ snd (line_outcome b')" if none: "fst (line_outcome b) = None"
  proof -
    obtain i where i: "IndexByte ?u 10 = Some i" "int (Suc i) \<le> limit b - received b"
      using none by (auto simp: line_outcome_def split: option.splits if_splits)
    then have "n \<le> i" using assms(2) by blast
    then have "take (Suc i) ?u = take n ?u @ take (Suc (i - n)) (drop n ?u)"
      by (metis Suc_diff_le add_diff_inverse_nat le_SucI not_less take_add)
    with i \<open>n \<le> i\<close> assms(1) show ?thesis
      by (simp add: line_outcome_def b' IndexByte_drop_Some)
  qed
qed

lemma appendLine_outcome:
  "fst (appendLine b) = fst (line_outcome b) \<and>
   (fst (appendLine b) = None \<longrightarrow>
     out (snd (appendLine b)) = out b @ snd (line_outcome b) \<and>
     received (snd (appendLine b)) = received b + int (length (snd (line_outcome b))) \<and>
     reader (snd (appendLine b)) =
       (reader b)\<lparr>unread := drop (length (snd (line_outcome b))) (unread (reader b))\<rparr>)"
proof (induction b rule: appendLine.induct)
  case (1 b)
  let ?u = "unread (reader b)"
  show ?case
  proof (cases rule: ReadSlice_cases [of "reader b"])
    case (line i)
    then show ?thesis
      by (subst (1 2 3 4 5) appendLine.simps) (auto simp: line_outcome_def Let_def dest: IndexByte_Some)
  next
    case (full n)
    define b' where "b' = append_frag b (take n ?u) ((reader b)\<lparr>unread := drop n ?u\<rparr>)"
    note spec = line_outcome_full [OF full(2,3) b'_def]
    show ?thesis
    proof (cases "limit b - received b < int n")
      case True
      then show ?thesis using appendLine_full [OF full(2,4)] spec(1) by simp
    next
      case False
      then have "appendLine b = appendLine b'"
        using appendLine_full [OF full(2,4)] by (simp add: b'_def)
      then show ?thesis
        using "1.IH" [OF full(4) [symmetric] refl _ b'_def refl refl] False spec(2) spec(3) full(2)
        by (auto simp: b'_def add.commute)
    qed
  next
    case ended
    then show ?thesis
      by (subst (1 2) appendLine.simps) (auto simp: line_outcome_def Let_def split: if_splits)
  qed
qed

lemma appendLine_None:
  assumes "appendLine b = (None, b')"
  obtains l rest where "unread (reader b) = l @ 10 # rest" "10 \<notin> set l"
    "out b' = out b @ l @ [10]" "received b' = received b + int (length l) + 1"
    "reader b' = (reader b)\<lparr>unread := rest\<rparr>" "int (length l) + 1 \<le> limit b - received b"
proof -
  let ?u = "unread (reader b)"
  from assms appendLine_outcome [of b] obtain i where i: "IndexByte ?u 10 = Some i"
    and room: "\<not> limit b - received b < int (Suc i)"
    by (auto simp: line_outcome_def split: option.splits if_splits)
  then have nth: "i < length ?u" "?u ! i = 10" "10 \<notin> set (take i ?u)"
    by (auto dest: IndexByte_Some)
  then have "take (Suc i) ?u = take i ?u @ [10]" "?u = take i ?u @ 10 # drop (Suc i) ?u"
    by (simp_all add: take_Suc_conv_app_nth id_take_nth_drop [symmetric] flip: \<open>?u ! i = 10\<close>)
  then show thesis
    using that [of "take i ?u" "drop (Suc i) ?u"] appendLine_outcome [of b] assms i room nth
    by (simp add: line_outcome_def)
qed

lemma appendLine_line:
  assumes "unread (reader b) = l @ 10 # rest" "10 \<notin> set l" "int (length l) + 1 \<le> limit b - received b"
  obtains b' where "appendLine b = (None, b')" "out b' = out b @ l @ [10]"
    "received b' = received b + int (length l) + 1" "reader b' = (reader b)\<lparr>unread := rest\<rparr>"
    "limit b' = limit b"
proof -
  obtain b' where b': "appendLine b = (None, b')"
    using appendLine_outcome [of b] assms
    by (cases "appendLine b") (auto simp: line_outcome_def IndexByte_line)
  have "limit b' = limit b"
    using appendLine_limit [of b] b' by simp
  moreover have "out b' = out b @ l @ [10]" "received b' = received b + int (length l) + 1"
    "reader b' = (reader b)\<lparr>unread := rest\<rparr>"
    using appendLine_outcome [of b] assms b' by (simp_all add: line_outcome_def IndexByte_line)
  ultimately show thesis using that b' by blast
qed

section \<open>Receiving a body\<close>

lemma TrimSuffix_snoc [simp]: "TrimSuffix (l @ [c]) [c] = l"
  by (simp add: TrimSuffix_def HasSuffix_def)

lemma TrimSuffix_pair [simp]: "TrimSuffix (l @ [c, d]) [d] = l @ [c]"
  using TrimSuffix_snoc [of "l @ [c]" d] by simp

lemma trimLine_LF [simp]: "trimLine (l @ [10]) = TrimSuffix l [13]"
  by (simp add: trimLine_def)

lemma trimLine_CRLF [simp]: "trimLine (l @ [13, 10]) = l"
  using trimLine_LF [of "l @ [13]"] by simp

text \<open>How RFC 3977 has the server send a body: a line that begins with a dot gets another one,
  every line ends in CR LF, and a line with a single dot ends the body.\<close>

definition dot_stuff :: "bytes \<Rightarrow> bytes" where
  "dot_stuff l = (if l \<noteq> [] \<and> hd l = 46 then 46 # l else l)"

definition send_body :: "bytes list \<Rightarrow> bytes" where
  "send_body ls = concat (map (\<lambda>l. dot_stuff l @ [13, 10]) ls) @ [46, 13, 10]"

lemma unstuff_dot_stuff [simp]: "unstuff (dot_stuff l) = l"
  by (auto simp: unstuff_def dot_stuff_def)

lemma dot_stuff_not_dot [simp]: "dot_stuff l \<noteq> [46]"
  by (auto simp: dot_stuff_def)

lemma dot_stuff_LF [simp]: "10 \<in> set (dot_stuff l) \<longleftrightarrow> 10 \<in> set l"
  by (auto simp: dot_stuff_def)

abbreviation join_lines :: "bytes list \<Rightarrow> bytes" where
  "join_lines ls \<equiv> concat (map (\<lambda>l. l @ [10]) ls)"

lemma dotBody_loop_send:
  assumes "\<forall>l \<in> set ls. 10 \<notin> set l" "unread (reader b) = send_body ls @ rest"
    and "int (length (send_body ls)) \<le> limit b - received b"
  shows "\<exists>b' tr. dotBody_loop b seen = (Inr (out b @ join_lines ls), b', seen @ tr) \<and>
    unread (reader b') = rest \<and> tr = map (\<lambda>k. out b @ join_lines (take (Suc k) ls)) [0..<length ls]"
  using assms
proof (induction ls arbitrary: b seen)
  case Nil
  then have "unread (reader b) = [46, 13] @ 10 # rest" by (simp add: send_body_def)
  then obtain b' where "appendLine b = (None, b')" "out b' = out b @ [46, 13] @ [10]"
      "reader b' = (reader b)\<lparr>unread := rest\<rparr>"
    using Nil.prems(3) by (elim appendLine_line [of b "[46, 13]" rest]) (auto simp: send_body_def)
  moreover have "trimLine ([46, 13] @ [10]) = [46]"
    using trimLine_LF [of "[46, 13]"] TrimSuffix_snoc [of "[46]" 13] by simp
  ultimately show ?case by (subst dotBody_loop.simps) simp
next
  case (Cons l ls)
  let ?l = "dot_stuff l @ [13]"
  have "unread (reader b) = ?l @ 10 # (send_body ls @ rest)" "10 \<notin> set ?l"
    and len: "int (length (send_body (l # ls))) = int (length ?l) + 1 + int (length (send_body ls))"
    using Cons.prems by (simp_all add: send_body_def)
  then obtain b' where b': "appendLine b = (None, b')" "out b' = out b @ ?l @ [10]"
      "received b' = received b + int (length ?l) + 1" "limit b' = limit b"
      "reader b' = (reader b)\<lparr>unread := send_body ls @ rest\<rparr>"
    using Cons.prems(3) by (elim appendLine_line [of b ?l]) auto
  have "trimLine (?l @ [10]) = dot_stuff l" by simp
  then have "dotBody_loop b seen = dotBody_loop (b'\<lparr>out := out b @ l @ [10]\<rparr>) (seen @ [out b @ l @ [10]])"
    using b' by (subst dotBody_loop.simps) (simp add: Let_def)
  moreover obtain b'' tr where
    "dotBody_loop (b'\<lparr>out := out b @ l @ [10]\<rparr>) (seen @ [out b @ l @ [10]]) =
       (Inr (out b @ l @ [10] @ join_lines ls), b'', seen @ [out b @ l @ [10]] @ tr)"
    "unread (reader b'') = rest"
    "tr = map (\<lambda>k. out b @ l @ [10] @ join_lines (take (Suc k) ls)) [0..<length ls]"
    using Cons.IH [of "b'\<lparr>out := out b @ l @ [10]\<rparr>" "seen @ [out b @ l @ [10]]"] Cons.prems b' len
    by auto
  moreover have "map (\<lambda>k. out b @ join_lines (take (Suc k) (l # ls))) [0..<length (l # ls)] =
      (out b @ l @ [10]) # map (\<lambda>k. out b @ l @ [10] @ join_lines (take (Suc k) ls)) [0..<length ls]"
    by (simp add: upt_conv_Cons map_Suc_upt [symmetric] comp_def del: upt_Suc)
  ultimately show ?case by simp
qed

lemma dotBody_loop_sound:
  assumes "dotBody_loop b seen = (Inr body, b', tr)"
  shows "\<exists>ls e. e \<in> {[46], [46, 13]} \<and> unread (reader b) = join_lines ls @ e @ 10 # unread (reader b') \<and>
    body = out b @ join_lines (map (\<lambda>l. unstuff (TrimSuffix l [13])) ls) \<and>
    (\<forall>l \<in> set ls. 10 \<notin> set l \<and> TrimSuffix l [13] \<noteq> [46]) \<and>
    int (length (join_lines ls)) + int (length e) + 1 \<le> limit b - received b"
  using assms
proof (induction b seen rule: dotBody_loop.induct)
  case (1 b seen)
  obtain b1 where b1: "appendLine b = (None, b1)"
    using "1.prems" by (subst (asm) dotBody_loop.simps) (auto simp: Let_def split: prod.splits option.splits)
  then obtain l rest where l: "unread (reader b) = l @ 10 # rest" "10 \<notin> set l"
    "out b1 = out b @ l @ [10]" "received b1 = received b + int (length l) + 1"
    "reader b1 = (reader b)\<lparr>unread := rest\<rparr>" "int (length l) + 1 \<le> limit b - received b"
    by (rule appendLine_None)
  have lim: "limit b1 = limit b" using appendLine_limit [of b] b1 by simp
  let ?b = "b1\<lparr>out := out b @ unstuff (TrimSuffix l [13]) @ [10]\<rparr>"
  show ?case
  proof (cases "TrimSuffix l [13] = [46]")
    case True
    then have "l = [46] \<or> l = [46, 13]"
      by (cases l rule: rev_cases) (auto simp: TrimSuffix_def HasSuffix_def split: if_splits)
    moreover have "body = out b" "b' = b1"
      using "1.prems" b1 l True by (subst (asm) dotBody_loop.simps, simp add: Let_def)+
    ultimately show ?thesis
      using l by (intro exI [of _ "[]"] exI [of _ l]) auto
  next
    case False
    then have rest: "dotBody_loop ?b (seen @ [out ?b]) = (Inr body, b', tr)"
      using "1.prems" b1 l by (subst (asm) dotBody_loop.simps) (simp add: Let_def)
    obtain ls e where "e \<in> {[46], [46, 13]}" "unread (reader ?b) = join_lines ls @ e @ 10 # unread (reader b')"
      "body = out ?b @ join_lines (map (\<lambda>l. unstuff (TrimSuffix l [13])) ls)"
      "\<forall>l \<in> set ls. 10 \<notin> set l \<and> TrimSuffix l [13] \<noteq> [46]"
      "int (length (join_lines ls)) + int (length e) + 1 \<le> limit ?b - received ?b"
      using "1.IH" [OF refl b1 [symmetric] refl refl] False rest l by auto
    then show ?thesis
      using l lim False by (intro exI [of _ "l # ls"] exI [of _ e]) auto
  qed
qed

lemma dotBody_loop_ok: "receiver_ok b \<Longrightarrow> receiver_ok (fst (snd (dotBody_loop b seen)))"
proof (induction b seen rule: dotBody_loop.induct)
  case (1 b seen)
  obtain err b1 where b1: "appendLine b = (err, b1)" by fastforce
  then have ok: "receiver_ok b1" using appendLine_ok [OF "1.prems"] by simp
  show ?case
  proof (cases err)
    case None
    with b1 obtain l where l: "out b1 = out b @ l @ [10]" by (auto elim: appendLine_None)
    have "length (unstuff (TrimSuffix l [13])) \<le> length l"
      by (auto simp: unstuff_def TrimSuffix_def)
    then have "receiver_ok (b1\<lparr>out := out b @ unstuff (TrimSuffix l [13]) @ [10]\<rparr>)"
      using ok l by (auto simp: receiver_ok_def)
    with "1.IH" [OF refl b1 [symmetric] None refl] ok None b1 l show ?thesis
      by (subst dotBody_loop.simps) (auto simp: Let_def)
  next
    case (Some e)
    with b1 ok show ?thesis by (subst dotBody_loop.simps) simp
  qed
qed

section \<open>Replies and arguments\<close>

lemma id_byte_ok_not:
  "id_byte_ok b \<Longrightarrow> b \<noteq> 10 \<and> b \<noteq> 13 \<and> b \<noteq> 32 \<and> b \<noteq> 0 \<and> b \<noteq> 60 \<and> b \<noteq> 62"
  by (auto simp: id_byte_ok_def)

lemma NormalizeMessageID_valid:
  "NormalizeMessageID ident = Inr s \<Longrightarrow> s \<noteq> [] \<and> list_all id_byte_ok s"
  by (auto simp: NormalizeMessageID_def Let_def split: if_splits)

lemma NormalizeMessageID_bare:
  assumes "s \<noteq> []" "list_all id_byte_ok s"
  shows "NormalizeMessageID s = Inr s"
proof -
  have "\<not> HasPrefix s (str ''<'')"
    using assms id_byte_ok_not by (cases s) auto
  then show ?thesis using assms by (simp add: NormalizeMessageID_def)
qed

lemma NormalizeMessageID_bracketed:
  assumes "s \<noteq> []" "list_all id_byte_ok s"
  shows "NormalizeMessageID (60 # s @ [62]) = Inr s"
  using assms by (simp add: NormalizeMessageID_def HasSuffix_def slice_def)

text \<open>The number a three-byte status reads as.\<close>

lemma parse_digits_le:
  "parse_digits 10 maxv n cs = (v, None) \<Longrightarrow> 0 \<le> n \<Longrightarrow> v < (n + 1) * 10 ^ length cs"
proof (induction cs arbitrary: n)
  case (Cons c cs)
  then obtain d where d: "digit_val c = Some d" "\<not> 10 \<le> d" "parse_digits 10 maxv (n * 10 + d) cs = (v, None)"
    by (auto split: option.splits if_splits)
  then have "0 \<le> n * 10 + d" using Cons.prems digit_val_nonneg by simp
  from Cons.IH [OF d(3) this] have "v < (n * 10 + d + 1) * 10 ^ length cs" .
  also have "\<dots> \<le> ((n + 1) * 10) * 10 ^ length cs" using d(2) by (intro mult_right_mono) auto
  finally show ?case by (simp add: algebra_simps)
qed simp

lemma ParseUint_10_less: "ParseUint s 10 bits = (v, None) \<Longrightarrow> v < 10 ^ length s"
  using parse_digits_le [of "2 ^ bits - 1" 0 s v] by (auto simp: ParseUint_def split: if_splits)

lemma parse_digits_range: "parse_digits base maxv n cs = (v, Some ErrRange) \<Longrightarrow> v = maxv"
  by (induction cs arbitrary: n) (auto split: option.splits if_splits)

lemma ParseUint_range: "ParseUint s base bits = (v, Some ErrRange) \<Longrightarrow> v = 2 ^ bits - 1"
  by (auto simp: ParseUint_def dest: parse_digits_range split: if_splits)

lemma signed_ParseUint_pos:
  assumes "signed_result neg (ParseUint s 10 64) = (v, None)" "0 < v"
  shows "ParseUint s 10 64 = (v, None)"
proof -
  obtain u e where r: "ParseUint s 10 64 = (u, e)" by fastforce
  have "0 \<le> u" using ParseUint_nonneg [of 10 s 64] r by simp
  moreover have "u = 2 ^ 64 - 1" if "e = Some ErrRange" using ParseUint_range r that by blast
  ultimately show ?thesis
    using assms r by (auto simp: signed_result_def split: option.splits num_error.splits if_splits)
qed

lemma Atoi_less:
  assumes "Atoi s = (v, None)" "0 < v"
  shows "v < 10 ^ length s"
proof -
  let ?s = "if hd s = 45 \<or> hd s = 43 then tl s else s"
  have "signed_result (hd s = 45) (ParseUint ?s 10 64) = (v, None)"
    using assms(1) unfolding Atoi_def ParseInt10_def by (cases "s = []") simp_all
  then have "ParseUint ?s 10 64 = (v, None)" using assms(2) by (rule signed_ParseUint_pos)
  then have "v < 10 ^ length ?s" by (rule ParseUint_10_less)
  also have "\<dots> \<le> 10 ^ length s" by (intro power_increasing) auto
  finally show ?thesis .
qed

text \<open>
  C6. A body the server sends by the rules of RFC 3977, dot-stuffed and CR LF terminated, is
  received as its lines, whatever the sizes of the read buffer and of the caller's buffer; the
  progress callback sees every whole-line prefix of it once and in order; and the connection is
  left right behind the terminator, so the next reply is read from its first byte.
\<close>

theorem readDotBodyLimit_roundtrip:
  assumes "\<forall>l \<in> set ls. 10 \<notin> set l" "unread r = send_body ls @ rest"
    and "int (length (send_body ls)) \<le> lim"
  shows "\<exists>b. readDotBodyLimit r c lim =
      (Inr (join_lines ls), b, map (\<lambda>k. join_lines (take (Suc k) ls)) [0..<length ls]) \<and>
    unread (reader b) = rest"
  using dotBody_loop_send [of ls
      "\<lparr>reader = r, out = [], out_cap = min c lim, received = 0, limit = lim\<rparr>" rest "[]"] assms
  by (auto simp: readDotBodyLimit_def)

theorem readDotBodyLimit_roundtrip_witness:
  "\<exists>b. readDotBodyLimit \<lparr>unread = send_body [[46, 97], [], [98]] @ [50, 50], bufsize = 16, tail = EOF\<rparr> 0 40 =
      (Inr [46, 97, 10, 10, 98, 10], b, [[46, 97, 10], [46, 97, 10, 10], [46, 97, 10, 10, 98, 10]]) \<and>
    unread (reader b) = [50, 50]"
  using readDotBodyLimit_roundtrip [of "[[46, 97], [], [98]]"
      "\<lparr>unread = send_body [[46, 97], [], [98]] @ [50, 50], bufsize = 16, tail = EOF\<rparr>" "[50, 50]" 40 0]
  by (simp add: send_body_def dot_stuff_def upt_rec)

text \<open>
  C7. Whatever a server sends: a body that is returned was followed by its terminator, the
  connection stands right behind it, the body is the unstuffed lines before it and nothing else,
  and the bytes taken from the connection are within the limit.
\<close>

theorem readDotBodyLimit_sound:
  assumes "readDotBodyLimit r c lim = (Inr body, b, tr)"
  shows "\<exists>ls e. e \<in> {[46], [46, 13]} \<and> unread r = join_lines ls @ e @ 10 # unread (reader b) \<and>
    body = join_lines (map (\<lambda>l. unstuff (TrimSuffix l [13])) ls) \<and>
    (\<forall>l \<in> set ls. 10 \<notin> set l \<and> TrimSuffix l [13] \<noteq> [46]) \<and>
    int (length (join_lines ls)) + int (length e) + 1 \<le> lim"
  using dotBody_loop_sound [OF assms [unfolded readDotBodyLimit_def]] by simp

theorem readDotBodyLimit_sound_witness:
  "\<exists>ls e. e \<in> {[46], [46, 13]} \<and> ([120, 10, 46, 10] :: bytes) = join_lines ls @ e @ 10 # [] \<and>
    [120, 10] = join_lines (map (\<lambda>l. unstuff (TrimSuffix l [13])) ls) \<and>
    (\<forall>l \<in> set ls. 10 \<notin> set l \<and> TrimSuffix l [13] \<noteq> [46]) \<and>
    int (length (join_lines ls)) + int (length e) + 1 \<le> 9"
proof -
  have "readDotBodyLimit \<lparr>unread = [120, 10, 46, 10], bufsize = 16, tail = EOF\<rparr> 4 9 = (Inr [120, 10],
    \<lparr>reader = \<lparr>unread = [], bufsize = 16, tail = EOF\<rparr>, out = [120, 10, 46, 10], out_cap = 4,
      received = 4, limit = 9\<rparr>, [[120, 10]])"
    by code_simp
  from readDotBodyLimit_sound [OF this] show ?thesis by simp
qed

text \<open>
  C8. Memory: the array the receiver holds never grows beyond the limit, and holds no more bytes
  than were received, however the reading ends.
\<close>

theorem readDotBodyLimit_bounded:
  assumes "0 \<le> lim" "0 \<le> c"
  shows "receiver_ok (fst (snd (readDotBodyLimit r c lim)))"
  using assms by (auto simp: readDotBodyLimit_def receiver_ok_def [of "bodyReceiver.make _ _ _ _ _"]
      intro!: dotBody_loop_ok) (simp add: receiver_ok_def)

theorem readDotBodyLimit_bounded_witness:
  "receiver_ok (fst (snd (readDotBodyLimit \<lparr>unread = [120, 10], bufsize = 16, tail = NetTimeout\<rparr> 4 9)))"
  using readDotBodyLimit_bounded [of 9 4] by simp

lemma readReply_whole_line:
  assumes "readReply r expect = ((code, msg, err), r')" "code \<noteq> 0"
  shows "100 \<le> code \<and> code \<le> 999 \<and> (err = None \<longleftrightarrow> code = expect) \<and>
    (\<exists>l. unread r = l @ 10 # unread r' \<and> 10 \<notin> set l \<and> int (length l) + 1 \<le> MaxReplyBytes \<and>
      Atoi (take 3 l) = (code, None) \<and> TrimSuffix l [13] = take 3 l @ [32] @ msg)"
proof -
  let ?b = "\<lparr>reader = r, out = [], out_cap = 0, received = 0, limit = MaxReplyBytes\<rparr>"
  obtain b' where b': "appendLine ?b = (None, b')"
    using assms by (cases "appendLine ?b") (auto simp: readReply_def split: option.splits)
  then obtain l where l: "unread r = l @ 10 # unread (reader b')" "10 \<notin> set l"
      "out b' = l @ [10]" "int (length l) + 1 \<le> MaxReplyBytes"
    by (elim appendLine_None) auto
  let ?t = "TrimSuffix l [13]"
  have t: "4 \<le> length ?t" "?t ! 3 = 32" "Atoi (take 3 ?t) = (code, None)" "100 \<le> code"
      "msg = drop 4 ?t" "r' = reader b'" "err = None \<longleftrightarrow> code = expect"
    using assms b' l(3) by (auto simp: readReply_def Let_def split: if_splits prod.splits)
  have "code < 10 ^ length (take 3 ?t)"
    using t(3,4) by (intro Atoi_less) auto
  then have "code \<le> 999" using t(1) by (simp add: min_def)
  moreover have "?t = take 3 ?t @ [32] @ msg"
    using t(1,2,5) id_take_nth_drop [of 3 ?t] by simp
  moreover have "take 3 ?t = take 3 l"
    using t(1) by (auto simp: TrimSuffix_def min_def split: if_splits)
  ultimately show ?thesis using t l by auto
qed

text \<open>
  A status code is only ever reported for a complete line: when \<open>readReply\<close> returns a code,
  the server sent a whole line of at most \<open>MaxReplyBytes\<close> that begins with that three-digit code
  and a space, exactly that line was consumed, and the error is set just when the code is not
  the expected one.
\<close>

theorem readReply_complete:
  assumes "readReply r expect = ((code, msg, err), r')" "code \<noteq> 0"
  shows "100 \<le> code \<and> code \<le> 999 \<and> (err = None \<longleftrightarrow> code = expect) \<and>
    (\<exists>l. unread r = l @ 10 # unread r' \<and> 10 \<notin> set l \<and> int (length l) + 1 \<le> MaxReplyBytes \<and>
      Atoi (take 3 l) = (code, None) \<and> TrimSuffix l [13] = take 3 l @ [32] @ msg)"
  using readReply_whole_line [OF assms] .

theorem readReply_complete_witness:
  "100 \<le> (222::int) \<and> (222::int) \<le> 999 \<and> ((None::nntp_error option) = None \<longleftrightarrow> (222::int) = 222) \<and>
    (\<exists>l. (str ''222 0 body'' @ [13, 10, 97] :: bytes) = l @ 10 # [97] \<and> 10 \<notin> set l \<and>
      int (length l) + 1 \<le> MaxReplyBytes \<and> Atoi (take 3 l) = (222, None) \<and>
      TrimSuffix l [13] = take 3 l @ [32] @ str ''0 body'')"
proof -
  have "readReply \<lparr>unread = str ''222 0 body'' @ [13, 10, 97], bufsize = 16, tail = EOF\<rparr> 222 =
      ((222, str ''0 body'', None), \<lparr>unread = [97], bufsize = 16, tail = EOF\<rparr>)"
    by code_simp
  from readReply_complete [OF this] show ?thesis by (simp del: str_Cons)
qed

end
