(* ===== verification/Nntp_Client.thy ===== *)
theory Nntp_Client
  imports Nntp_Wire_Props
begin

text \<open>
  One NNTP connection: dialling with its TLS name fallback (\<open>tls.go\<close>), greeting and
  authentication, and the BODY exchange (\<open>client.go\<close>, \<open>missing.go\<close>). The network is an argument
  of the model: what a TCP connect or a TLS handshake for a server name gives. What the client
  does to a connection is kept in a log of its deadlines and of the lines it sent.
\<close>

section \<open>Configuration and connections\<close>

record config =
  Host :: bytes
  Port :: int
  SSL :: bool
  TLSServerName :: bytes
  Username :: bytes
  Password :: bytes
  MaxConnections :: int

datatype conn_event = Sent bytes | Deadline "int option"

record conn =
  cn_in :: wire \<comment> \<open>what the server will send\<close>
  cn_writable :: bool \<comment> \<open>whether writes still succeed\<close>
  cn_log :: "conn_event list"
  cn_broken :: bool
  cn_retired :: bool

definition log_event :: "conn_event \<Rightarrow> conn \<Rightarrow> conn" where
  "log_event e cn = cn\<lparr>cn_log := cn_log cn @ [e]\<rparr>"

text \<open>\<open>textproto.Conn.Cmd\<close>: one line, ended with CR LF.\<close>

definition Cmd :: "bytes \<Rightarrow> conn \<Rightarrow> nntp_error option \<times> conn" where
  "Cmd line cn =
     (if cn_writable cn then (None, log_event (Sent (line @ [13, 10])) cn)
      else (Some (Transport NetFailure), cn))"

definition reply_on :: "int \<Rightarrow> conn \<Rightarrow> (int \<times> bytes \<times> nntp_error option) \<times> conn" where
  "reply_on expect cn = (case readReply (cn_in cn) expect of (r, w) \<Rightarrow> (r, cn\<lparr>cn_in := w\<rparr>))"

section \<open>Dialling\<close>

record network =
  tcp_dial :: "bytes \<Rightarrow> nntp_error + conn"
  tls_dial :: "bytes \<Rightarrow> bytes \<Rightarrow> nntp_error + conn" \<comment> \<open>address and verified server name\<close>

definition isHostnameMismatch :: "nntp_error \<Rightarrow> bool" where
  "isHostnameMismatch err = list_ex (\<lambda>e. e = HostnameError) (unwrap_chain err)"

definition tlsServerName :: "config \<Rightarrow> bool \<Rightarrow> bytes" where
  "tlsServerName cfg stale = (if TLSServerName cfg = [] \<or> stale then Host cfg else TLSServerName cfg)"

text \<open>The result and the new value of \<open>tlsOverrideStale\<close>.\<close>

definition dialTLS :: "config \<Rightarrow> network \<Rightarrow> bool \<Rightarrow> bytes \<Rightarrow> (nntp_error + conn) \<times> bool" where
  "dialTLS cfg net stale addr =
     (let name = tlsServerName cfg stale in
      case tls_dial net addr name of
        Inr cn \<Rightarrow> (Inr cn, stale)
      | Inl err \<Rightarrow>
          if name = Host cfg \<or> \<not> isHostnameMismatch err then (Inl err, stale)
          else case tls_dial net addr (Host cfg) of
            Inl fbErr \<Rightarrow> (Inl (Joined ''tls server name'' err fbErr), stale)
          | Inr cn \<Rightarrow> (Inr cn, True))"

definition seconds :: "int \<Rightarrow> int" where
  \<comment> \<open>a \<open>time.Duration\<close> counts nanoseconds\<close>
  "seconds n = n * 1000000000"

definition dialTimeout :: int where
  "dialTimeout = seconds 30"

record request_ctx =
  ctx_deadline :: "int option"
  ctx_stall :: "int option" \<comment> \<open>\<open>stallTimeoutKey\<close>\<close>
  ctx_progress :: bool \<comment> \<open>a \<open>BodyProgress\<close> is attached\<close>

definition handshakeDeadline :: "int \<Rightarrow> request_ctx \<Rightarrow> int \<Rightarrow> int" where
  "handshakeDeadline handshakeTimeout ctx now =
     (let timeout = (if handshakeTimeout \<le> 0 then dialTimeout else handshakeTimeout);
          deadline = now + timeout
      in case ctx_deadline ctx of
           Some d \<Rightarrow> if d < deadline then d else deadline
         | None \<Rightarrow> deadline)"

definition auth :: "config \<Rightarrow> conn \<Rightarrow> nntp_error option \<times> conn" where
  "auth cfg cn =
     (case Cmd (str ''AUTHINFO USER '' @ Username cfg) cn of
        (Some err, cn) \<Rightarrow> (Some err, cn)
      | (None, cn) \<Rightarrow>
          case reply_on 381 cn of
            ((code, msg, Some err), cn) \<Rightarrow>
              if code = 281 then (None, cn) else (Some (Wrapped ''AUTHINFO USER'' err), cn)
          | ((code, msg, None), cn) \<Rightarrow>
              case Cmd (str ''AUTHINFO PASS '' @ Password cfg) cn of
                (Some err, cn) \<Rightarrow> (Some err, cn)
              | (None, cn) \<Rightarrow>
                  case reply_on 281 cn of
                    ((code, msg, Some err), cn) \<Rightarrow> (Some (Wrapped ''AUTHINFO PASS'' err), cn)
                  | ((code, msg, None), cn) \<Rightarrow> (None, cn))"

text \<open>The greeting and the authentication of \<open>dial\<close>, on a connected socket.\<close>

definition greet :: "config \<Rightarrow> conn \<Rightarrow> nntp_error + conn" where
  "greet cfg cn =
     (case reply_on 200 cn of
        ((code, msg, err), cn) \<Rightarrow>
          if err \<noteq> None \<and> code \<noteq> 201 then Inl (Wrapped ''welcome'' (the err))
          else if Username cfg \<noteq> [] then
            (case auth cfg cn of
               (Some err, cn) \<Rightarrow> Inl (Wrapped ''auth'' err)
             | (None, cn) \<Rightarrow> Inr (log_event (Deadline None) cn))
          else Inr (log_event (Deadline None) cn))"

definition dial ::
  "config \<Rightarrow> network \<Rightarrow> bool \<Rightarrow> int \<Rightarrow> request_ctx \<Rightarrow> int \<Rightarrow> (nntp_error + conn) \<times> bool" where
  "dial cfg net stale handshakeTimeout ctx now =
     (case validateCredentials (Username cfg) (Password cfg) of
        Some err \<Rightarrow> (Inl err, stale)
      | None \<Rightarrow>
          let addr = Host cfg @ str '':'' @ show_int (Port cfg);
              (raw, stale') = (if SSL cfg then dialTLS cfg net stale addr else (tcp_dial net addr, stale))
          in case raw of
               Inl err \<Rightarrow> (Inl (Wrapped ''dial'' err), stale')
             | Inr cn \<Rightarrow>
                 (greet cfg (log_event (Deadline (Some (handshakeDeadline handshakeTimeout ctx now))) cn),
                  stale'))"

section \<open>The BODY exchange\<close>

definition WithStallTimeout :: "request_ctx \<Rightarrow> int \<Rightarrow> request_ctx" where
  "WithStallTimeout ctx d = (if d \<le> 0 then ctx else ctx\<lparr>ctx_stall := Some d\<rparr>)"

definition stallTimeoutFrom :: "request_ctx \<Rightarrow> int option" where
  "stallTimeoutFrom ctx =
     (case ctx_stall ctx of Some d \<Rightarrow> if 0 < d then Some d else None | None \<Rightarrow> None)"

definition statusDeadline :: "request_ctx \<Rightarrow> int \<Rightarrow> int \<Rightarrow> int \<times> bool" where
  "statusDeadline ctx now command =
     (case stallTimeoutFrom ctx of
        Some d \<Rightarrow> if now + d < command then (now + d, True) else (command, False)
      | None \<Rightarrow> (command, False))"

definition body_command :: "bytes \<Rightarrow> bytes" where
  "body_command messageID = str ''BODY <'' @ messageID @ str ''>''"

definition body_limit :: "int \<Rightarrow> int" where
  "body_limit encodedBodyLimit = (if encodedBodyLimit \<le> 0 then MaxEncodedBodyBytes else encodedBodyLimit)"

text \<open>The part of \<open>bodyExchange\<close> between its two calls of \<open>SetDeadline\<close>; the last result is what
  \<open>progress.Line\<close> saw.\<close>

definition body_dialogue ::
  "int \<Rightarrow> request_ctx \<Rightarrow> int \<Rightarrow> bool \<Rightarrow> conn \<Rightarrow> bytes \<Rightarrow> int \<Rightarrow> (nntp_error + bytes) \<times> conn \<times> bytes list" where
  "body_dialogue encodedBodyLimit ctx deadline stallBounded cn messageID cap_buf =
     (case Cmd (body_command messageID) cn of
        (Some err, cn) \<Rightarrow> (Inl (Wrapped ''BODY cmd'' err), cn, [])
      | (None, cn) \<Rightarrow>
          case reply_on 222 cn of
            ((code, msg, Some err), cn) \<Rightarrow>
              (if code = 430 \<or> code = 423 then (Inl (ArticleNotFoundError messageID code), cn, [])
               else if stallBounded \<and> isNetTimeout err then (Inl (StallError messageID err), cn, [])
               else (Inl (Wrapped ''BODY response'' err), cn, []))
          | ((code, msg, None), cn) \<Rightarrow>
              let cn = log_event (Deadline (Some deadline)) cn in
              case readDotBodyLimit (cn_in cn) cap_buf (body_limit encodedBodyLimit) of
                (Inl err, b, seen) \<Rightarrow>
                  (Inl (Wrapped ''read body'' err), cn\<lparr>cn_in := reader b\<rparr>, if ctx_progress ctx then seen else [])
              | (Inr body, b, seen) \<Rightarrow>
                  (Inr body, cn\<lparr>cn_in := reader b\<rparr>, if ctx_progress ctx then seen else []))"

definition bodyExchange ::
  "int \<Rightarrow> request_ctx \<Rightarrow> int \<Rightarrow> conn \<Rightarrow> bytes \<Rightarrow> int \<Rightarrow> (nntp_error + bytes) \<times> conn \<times> bytes list" where
  "bodyExchange encodedBodyLimit ctx now cn messageID cap_buf =
     (let deadline = (case ctx_deadline ctx of Some d \<Rightarrow> d | None \<Rightarrow> now + seconds 60);
          (status, stallBounded) = statusDeadline ctx now deadline;
          (result, cn, seen) = body_dialogue encodedBodyLimit ctx deadline stallBounded
            (log_event (Deadline (Some status)) cn) messageID cap_buf
      in (result, log_event (Deadline None) cn, seen))"

text \<open>\<open>ctxErr\<close> is what \<open>ctx.Err()\<close> answers after the exchange.\<close>

definition bodyOnConn ::
  "int \<Rightarrow> request_ctx \<Rightarrow> int \<Rightarrow> ctx_error option \<Rightarrow> conn \<Rightarrow> bytes \<Rightarrow> int \<Rightarrow>
     (nntp_error + bytes) \<times> conn \<times> bytes list" where
  "bodyOnConn encodedBodyLimit ctx now ctxErr cn messageID cap_buf =
     (case bodyExchange encodedBodyLimit ctx now cn messageID cap_buf of
        (result, cn, seen) \<Rightarrow>
          let result' = (case ctxErr of Some e \<Rightarrow> Inl (CtxError e) | None \<Rightarrow> result) in
          (result',
           (case result' of
              Inl err \<Rightarrow> if IsArticleMissing err then cn else cn\<lparr>cn_broken := True\<rparr>
            | Inr _ \<Rightarrow> cn), seen))"

end
