(* ===== verification/Nntp_Pool.thy ===== *)
theory Nntp_Pool
  imports Nntp_Client
begin

text \<open>
  The connection pool of the NNTP client (\<open>pool.go\<close> and the exported methods of \<open>client.go\<close>).
  Connections are numbered; the \<open>client\<close> keeps the buffered channel \<open>pool\<close> as a list, the
  channel \<open>freed\<close> as the number of tokens in it and the channel \<open>done\<close> as whether it is closed.
  \<open>select\<close> picks any ready case, so an operation that selects returns the list of its possible
  results; an empty list means that it blocks.
\<close>

section \<open>State and bookkeeping\<close>

record client =
  cl_cfg :: config
  cl_pool :: "nat list"
  cl_open :: int
  cl_done :: bool
  cl_freed :: nat
  cl_conns :: "nat \<Rightarrow> conn"
  cl_next :: nat

definition dead_wire :: wire where
  "dead_wire = \<lparr>unread = [], bufsize = 0, tail = EOF\<rparr>"

definition no_conn :: conn where
  "no_conn = \<lparr>cn_in = dead_wire, cn_writable = False, cn_log = [], cn_broken = True, cn_retired = True\<rparr>"

definition NewClient :: "config \<Rightarrow> client" where
  "NewClient cfg =
     \<lparr>cl_cfg = (if MaxConnections cfg \<le> 0 then cfg\<lparr>MaxConnections := 10\<rparr> else cfg),
      cl_pool = [], cl_open = 0, cl_done = False, cl_freed = 0, cl_conns = (\<lambda>_. no_conn), cl_next = 0\<rparr>"

abbreviation cl_max :: "client \<Rightarrow> int" where
  "cl_max cl \<equiv> MaxConnections (cl_cfg cl)"

text \<open>A successful dial makes a new connection.\<close>

definition alloc :: "conn \<Rightarrow> client \<Rightarrow> nat \<times> client" where
  "alloc cn cl =
     (cl_next cl, cl\<lparr>cl_conns := (cl_conns cl)(cl_next cl := cn), cl_next := Suc (cl_next cl)\<rparr>)"

definition upd_conn :: "nat \<Rightarrow> (conn \<Rightarrow> conn) \<Rightarrow> client \<Rightarrow> client" where
  "upd_conn i f cl = cl\<lparr>cl_conns := (cl_conns cl)(i := f (cl_conns cl i))\<rparr>"

definition wake :: "client \<Rightarrow> client" where
  "wake cl = (if int (cl_freed cl) < cl_max cl then cl\<lparr>cl_freed := Suc (cl_freed cl)\<rparr> else cl)"

text \<open>The locked part of \<open>freeSlot\<close>.\<close>

definition uncount :: "client \<Rightarrow> client" where
  "uncount cl = cl\<lparr>cl_open := cl_open cl - 1\<rparr>"

definition freeSlot :: "client \<Rightarrow> client" where
  "freeSlot cl = wake (uncount cl)"

definition unreserve :: "client \<Rightarrow> int \<times> client" where
  "unreserve cl =
     (let cl' = uncount cl in (cl_open cl', if cl_open cl' = 0 then wake cl' else cl'))"

definition reserveSlot :: "client \<Rightarrow> bool \<times> client" where
  "reserveSlot cl =
     (if cl_max cl \<le> cl_open cl then (False, cl) else (True, cl\<lparr>cl_open := cl_open cl + 1\<rparr>))"

definition adopt :: "client \<Rightarrow> client" where
  "adopt cl = cl\<lparr>cl_open := cl_open cl + 1\<rparr>"

definition ActiveConnections :: "client \<Rightarrow> int" where
  "ActiveConnections cl = cl_open cl"

definition MaxConcurrency :: "client \<Rightarrow> int" where
  "MaxConcurrency cl = cl_max cl"

section \<open>Retiring and releasing\<close>

text \<open>What \<open>retire\<close> does to the connection itself.\<close>

definition close_conn :: "conn \<Rightarrow> conn" where
  "close_conn cn =
     (if cn_broken cn then cn else snd (Cmd (str ''QUIT'') cn))\<lparr>cn_retired := True, cn_writable := False\<rparr>"

definition retire :: "nat option \<Rightarrow> client \<Rightarrow> client" where
  "retire cn cl =
     (case cn of
        None \<Rightarrow> cl
      | Some i \<Rightarrow>
          if cn_retired (cl_conns cl i) then cl
          else freeSlot (upd_conn i close_conn cl))"

definition release :: "nat option \<Rightarrow> client \<Rightarrow> client" where
  "release cn cl =
     (case cn of
        None \<Rightarrow> cl
      | Some i \<Rightarrow>
          if cn_retired (cl_conns cl i) then cl
          else if cl_done cl then retire cn cl
          else if cn_broken (cl_conns cl i) then retire cn cl
          else if int (length (cl_pool cl)) < cl_max cl then cl\<lparr>cl_pool := cl_pool cl @ [i]\<rparr>
          else retire cn cl)"

definition replace :: "nntp_error + conn \<Rightarrow> nat option \<Rightarrow> client \<Rightarrow> (nntp_error + nat) \<times> client" where
  "replace dialled cn cl =
     (case dialled of
        Inl err \<Rightarrow> (Inl err, retire cn cl)
      | Inr fresh \<Rightarrow> (case alloc fresh cl of (i, cl) \<Rightarrow> (Inr i, retire cn (adopt cl))))"

fun drainPool_loop :: "nat list \<Rightarrow> client \<Rightarrow> client" where
  "drainPool_loop [] cl = cl"
| "drainPool_loop (i # pool) cl = drainPool_loop pool (retire (Some i) (cl\<lparr>cl_pool := pool\<rparr>))"

definition drainPool :: "client \<Rightarrow> client" where
  "drainPool cl = drainPool_loop (cl_pool cl) cl"

definition Close :: "client \<Rightarrow> client" where
  "Close cl = (if cl_done cl then cl else drainPool (cl\<lparr>cl_done := True\<rparr>))"

text \<open>
  \<open>Connect\<close>: the outcomes of its dials, in order, are its argument. The channel send blocks
  when the pool is full (a second \<open>Connect\<close> of a connected client): \<open>None\<close>.
\<close>

fun Connect_loop :: "nat \<Rightarrow> (nntp_error + conn) list \<Rightarrow> client \<Rightarrow> (nntp_error option \<times> client) option" where
  "Connect_loop 0 dials cl = Some (None, cl)"
| "Connect_loop (Suc n) [] cl = None"
| "Connect_loop (Suc n) (Inl err # dials) cl = Some (Some (Wrapped ''nntp: connect'' err), drainPool cl)"
| "Connect_loop (Suc n) (Inr cn # dials) cl =
     (case alloc cn cl of (i, cl) \<Rightarrow>
        let cl = adopt cl in
        if int (length (cl_pool cl)) < cl_max cl
        then Connect_loop n dials (cl\<lparr>cl_pool := cl_pool cl @ [i]\<rparr>)
        else None)"

definition Connect :: "(nntp_error + conn) list \<Rightarrow> client \<Rightarrow> (nntp_error option \<times> client) option" where
  "Connect dials cl =
     (case validateCredentials (Username (cl_cfg cl)) (Password (cl_cfg cl)) of
        Some err \<Rightarrow> Some (Some err, cl)
      | None \<Rightarrow> Connect_loop (nat (cl_max cl)) dials (cl\<lparr>cl_done := False\<rparr>))"

section \<open>Acquiring\<close>

text \<open>The possible results of the \<open>select\<close> of \<open>takeIdle\<close>; \<open>Inr None\<close> is its default case.\<close>

definition takeIdle :: "ctx_error option \<Rightarrow> client \<Rightarrow> ((nntp_error + nat option) \<times> client) list" where
  "takeIdle ctxErr cl =
     (let ready = (if cl_done cl then [(Inl ClientClosed, cl)] else [])
        @ (case ctxErr of Some e \<Rightarrow> [(Inl (CtxError e), cl)] | None \<Rightarrow> [])
        @ (case cl_pool cl of i # pool \<Rightarrow> [(Inr (Some i), cl\<lparr>cl_pool := pool\<rparr>)] | [] \<Rightarrow> [])
      in if ready = [] then [(Inr None, cl)] else ready)"

definition dialReserved :: "nntp_error + conn \<Rightarrow> client \<Rightarrow> (nntp_error + nat) \<times> client" where
  "dialReserved dialled cl =
     (case dialled of
        Inr cn \<Rightarrow> (case alloc cn cl of (i, cl) \<Rightarrow> (Inr i, cl))
      | Inl err \<Rightarrow>
          (case unreserve cl of (n, cl) \<Rightarrow>
             if 0 < n then (Inl RedialDeferred, cl) else (Inl (Wrapped ''nntp: redial'' err), cl)))"

text \<open>\<open>backoff\<close> is \<open>None\<close> for the nil channel and says whether the timer fired otherwise.\<close>

definition awaitConn ::
  "ctx_error option \<Rightarrow> bool option \<Rightarrow> client \<Rightarrow> ((nntp_error + nat option) \<times> client) list" where
  "awaitConn ctxErr backoff cl =
     (case cl_pool cl of i # pool \<Rightarrow> [(Inr (Some i), cl\<lparr>cl_pool := pool\<rparr>)] | [] \<Rightarrow> [])
     @ (if backoff = None \<and> 0 < cl_freed cl then [(Inr None, cl\<lparr>cl_freed := cl_freed cl - 1\<rparr>)] else [])
     @ (if backoff = Some True then [(Inr None, cl)] else [])
     @ (case ctxErr of Some e \<Rightarrow> [(Inl (CtxError e), cl)] | None \<Rightarrow> [])
     @ (if cl_done cl then [(Inl ClientClosed, cl)] else [])"

section \<open>One call of \<open>BodyInto\<close>\<close>

text \<open>
  What the surroundings answer during one call: the connection \<open>acquire\<close> found, what
  \<open>ctx.Err()\<close> says after the first exchange, after the dial of the replacement and after the
  second exchange, and the outcome of that dial.
\<close>

record body_env =
  env_acquired :: "nntp_error + nat"
  env_limit :: int \<comment> \<open>\<open>encodedBodyLimit\<close>\<close>
  env_ctx :: request_ctx
  env_now :: int
  env_ctxErr1 :: "ctx_error option"
  env_dialled :: "nntp_error + conn"
  env_ctxErr2 :: "ctx_error option"
  env_now2 :: int
  env_ctxErr3 :: "ctx_error option"

datatype progress_event = Line bytes | Restart

text \<open>The part of \<open>BodyInto\<close> after the first exchange left its connection broken.\<close>

definition body_retry ::
  "body_env \<Rightarrow> nntp_error \<Rightarrow> nat \<Rightarrow> bytes \<Rightarrow> int \<Rightarrow> client \<Rightarrow> (nntp_error + bytes) \<times> client \<times> progress_event list" where
  "body_retry env err i messageID cap_buf cl =
     (if env_ctxErr1 env \<noteq> None \<or> isReceiveLimit err
      then (Inl (case env_ctxErr1 env of Some e \<Rightarrow> CtxError e | None \<Rightarrow> err), retire (Some i) cl, [])
      else case replace (env_dialled env) (Some i) cl of
        (Inl dialErr, cl) \<Rightarrow>
          (Inl (case env_ctxErr2 env of Some e \<Rightarrow> CtxError e
                | None \<Rightarrow> Opaque ''nntp: body failed and reconnect failed''), cl, [])
      | (Inr j, cl) \<Rightarrow>
          (case env_ctxErr2 env of
             Some e \<Rightarrow>
               (Inl (Wrapped ''nntp: body cancelled'' (CtxError e)),
                retire (Some j) (upd_conn j (\<lambda>cn. cn\<lparr>cn_broken := True\<rparr>) cl), [])
           | None \<Rightarrow>
               (case bodyOnConn (env_limit env) (env_ctx env) (env_now2 env) (env_ctxErr3 env)
                       (cl_conns cl j) messageID cap_buf of
                  (result, cn, seen) \<Rightarrow>
                    (result, release (Some j) (upd_conn j (\<lambda>_. cn) cl),
                     (if ctx_progress (env_ctx env) then [Restart] else []) @ map Line seen))))"

definition BodyInto ::
  "body_env \<Rightarrow> bytes \<Rightarrow> int \<Rightarrow> client \<Rightarrow> (nntp_error + bytes) \<times> client \<times> progress_event list" where
  "BodyInto env ident cap_buf cl =
     (case NormalizeMessageID ident of
        Inl err \<Rightarrow> (Inl err, cl, [])
      | Inr messageID \<Rightarrow>
          (case env_acquired env of
             Inl err \<Rightarrow> (Inl err, cl, [])
           | Inr i \<Rightarrow>
               (case bodyOnConn (env_limit env) (env_ctx env) (env_now env) (env_ctxErr1 env)
                       (cl_conns cl i) messageID cap_buf of
                  (result, cn, seen) \<Rightarrow>
                    let cl = upd_conn i (\<lambda>_. cn) cl in
                    if \<not> cn_broken cn then (result, release (Some i) cl, map Line seen)
                    else (case body_retry env (case result of Inl err \<Rightarrow> err | Inr _ \<Rightarrow> Opaque [])
                                 i messageID cap_buf cl of
                            (r, cl, evs) \<Rightarrow> (r, cl, map Line seen @ evs)))))"

definition Body :: "body_env \<Rightarrow> bytes \<Rightarrow> client \<Rightarrow> (nntp_error + bytes) \<times> client \<times> progress_event list" where
  "Body env ident cl = BodyInto env ident 0 cl"

end
