(* ===== verification/Nntp_Pool_Machine.thy ===== *)
theory Nntp_Pool_Machine
  imports Nntp_Pool
begin

text \<open>
  The pool under concurrency. Every goroutine is at a program counter between two atomic actions
  (a locked section or a channel operation) of \<open>acquire\<close>, \<open>release\<close>, \<open>replace\<close>, \<open>retire\<close> or
  \<open>Close\<close>; the machine interleaves their actions in any order. The flag of the step relation
  says whether a caller's context may end while it is at the top of \<open>acquire\<close>'s loop.
\<close>

section \<open>The machine\<close>

datatype pc =
    Outside \<comment> \<open>not in the client\<close>
  | Looking \<comment> \<open>at the top of \<open>acquire\<close>'s loop, before \<open>takeIdle\<close>\<close>
  | Slotless \<comment> \<open>nothing idle, before \<open>reserveSlot\<close>\<close>
  | Dialling \<comment> \<open>in \<open>dialReserved\<close>, a slot is counted\<close>
  | Unreserved \<comment> \<open>in \<open>unreserve\<close>, uncounted, before its \<open>wake\<close>\<close>
  | Waiting bool \<comment> \<open>in \<open>awaitConn\<close>; whether a backoff is set\<close>
  | Holding nat \<comment> \<open>\<open>acquire\<close> returned; the exchange runs\<close>
  | Putting nat \<comment> \<open>in \<open>release\<close>, past the checks of \<open>done\<close> and \<open>broken\<close>\<close>
  | Retiring nat \<comment> \<open>in \<open>retire\<close>, before it takes the lock\<close>
  | Uncounted \<comment> \<open>in \<open>freeSlot\<close>, before its \<open>wake\<close>\<close>
  | Replacing nat \<comment> \<open>in \<open>replace\<close>, dialling\<close>
  | Adopted nat nat \<comment> \<open>in \<open>replace\<close>: the fresh connection is counted, the old one not retired\<close>
  | Swapped nat \<comment> \<open>in \<open>replace\<close>: the old one is uncounted, before the \<open>wake\<close>\<close>
  | Draining \<comment> \<open>in \<open>Close\<close>, \<open>done\<close> is closed\<close>
  | DrainRetiring nat
  | DrainUncounted

type_synonym pool_state = "client \<times> pc list"

inductive pool_step :: "bool \<Rightarrow> pool_state \<Rightarrow> pool_state \<Rightarrow> bool" for cancels where
  enter: "\<lbrakk>t < length ts; ts ! t = Outside\<rbrakk> \<Longrightarrow> pool_step cancels (cl, ts) (cl, ts[t := Looking])"
| take_idle: "\<lbrakk>t < length ts; ts ! t = Looking; (Inr (Some i), cl') \<in> set (takeIdle ctxErr cl)\<rbrakk> \<Longrightarrow>
    pool_step cancels (cl, ts) (cl', ts[t := Holding i])"
| take_none: "\<lbrakk>t < length ts; ts ! t = Looking; (Inr None, cl') \<in> set (takeIdle ctxErr cl)\<rbrakk> \<Longrightarrow>
    pool_step cancels (cl, ts) (cl', ts[t := Slotless])"
| take_closed: "\<lbrakk>t < length ts; ts ! t = Looking; (Inl ClientClosed, cl') \<in> set (takeIdle ctxErr cl)\<rbrakk> \<Longrightarrow>
    pool_step cancels (cl, ts) (cl', ts[t := Outside])"
| take_cancelled: "\<lbrakk>cancels; t < length ts; ts ! t = Looking;
    (Inl (CtxError e), cl') \<in> set (takeIdle (Some e) cl)\<rbrakk> \<Longrightarrow>
    pool_step cancels (cl, ts) (cl', ts[t := Outside])"
| reserve: "\<lbrakk>t < length ts; ts ! t = Slotless; reserveSlot cl = (ok, cl')\<rbrakk> \<Longrightarrow>
    pool_step cancels (cl, ts) (cl', ts[t := (if ok then Dialling else Waiting False)])"
| dial_ok: "\<lbrakk>t < length ts; ts ! t = Dialling; \<not> cn_broken cn; \<not> cn_retired cn;
    dialReserved (Inr cn) cl = (Inr i, cl')\<rbrakk> \<Longrightarrow>
    pool_step cancels (cl, ts) (cl', ts[t := Holding i])"
| dial_fail: "\<lbrakk>t < length ts; ts ! t = Dialling; cl' = uncount cl\<rbrakk> \<Longrightarrow>
    pool_step cancels (cl, ts)
      (cl', ts[t := (if cl_open cl' = 0 then Unreserved else if 0 < cl_open cl' then Waiting True else Outside)])"
| unreserve_wake: "\<lbrakk>t < length ts; ts ! t = Unreserved\<rbrakk> \<Longrightarrow>
    pool_step cancels (cl, ts) (wake cl, ts[t := Outside])"
| await_conn: "\<lbrakk>t < length ts; ts ! t = Waiting b; (Inr (Some i), cl') \<in> set (awaitConn ctxErr backoff cl)\<rbrakk> \<Longrightarrow>
    pool_step cancels (cl, ts) (cl', ts[t := Holding i])"
| await_again: "\<lbrakk>t < length ts; ts ! t = Waiting b; backoff = (if b then Some True else None);
    (Inr None, cl') \<in> set (awaitConn ctxErr backoff cl)\<rbrakk> \<Longrightarrow>
    pool_step cancels (cl, ts) (cl', ts[t := Looking])"
| await_error: "\<lbrakk>t < length ts; ts ! t = Waiting b; (Inl err, cl') \<in> set (awaitConn ctxErr backoff cl)\<rbrakk> \<Longrightarrow>
    pool_step cancels (cl, ts) (cl', ts[t := Outside])"
| exchange: "\<lbrakk>t < length ts; ts ! t = Holding i; cn_retired cn = cn_retired (cl_conns cl i)\<rbrakk> \<Longrightarrow>
    pool_step cancels (cl, ts) (upd_conn i (\<lambda>_. cn) cl, ts)"
| start_put: "\<lbrakk>t < length ts; ts ! t = Holding i; \<not> cl_done cl; \<not> cn_broken (cl_conns cl i)\<rbrakk> \<Longrightarrow>
    pool_step cancels (cl, ts) (cl, ts[t := Putting i])"
| start_retire: "\<lbrakk>t < length ts; ts ! t = Holding i\<rbrakk> \<Longrightarrow>
    pool_step cancels (cl, ts) (cl, ts[t := Retiring i])"
| start_replace: "\<lbrakk>t < length ts; ts ! t = Holding i; cn_broken (cl_conns cl i)\<rbrakk> \<Longrightarrow>
    pool_step cancels (cl, ts) (cl, ts[t := Replacing i])"
| put: "\<lbrakk>t < length ts; ts ! t = Putting i; int (length (cl_pool cl)) < cl_max cl\<rbrakk> \<Longrightarrow>
    pool_step cancels (cl, ts) (cl\<lparr>cl_pool := cl_pool cl @ [i]\<rparr>, ts[t := Outside])"
| put_full: "\<lbrakk>t < length ts; ts ! t = Putting i; cl_max cl \<le> int (length (cl_pool cl))\<rbrakk> \<Longrightarrow>
    pool_step cancels (cl, ts) (cl, ts[t := Retiring i])"
| do_retire: "\<lbrakk>t < length ts; ts ! t = Retiring i\<rbrakk> \<Longrightarrow>
    pool_step cancels (cl, ts) (uncount (upd_conn i close_conn cl), ts[t := Uncounted])"
| free_wake: "\<lbrakk>t < length ts; ts ! t = Uncounted\<rbrakk> \<Longrightarrow>
    pool_step cancels (cl, ts) (wake cl, ts[t := Outside])"
| replace_fail: "\<lbrakk>t < length ts; ts ! t = Replacing i\<rbrakk> \<Longrightarrow>
    pool_step cancels (cl, ts) (cl, ts[t := Retiring i])"
| replace_ok: "\<lbrakk>t < length ts; ts ! t = Replacing i; \<not> cn_broken cn; \<not> cn_retired cn; alloc cn cl = (j, cl')\<rbrakk> \<Longrightarrow>
    pool_step cancels (cl, ts) (adopt cl', ts[t := Adopted i j])"
| replace_retire: "\<lbrakk>t < length ts; ts ! t = Adopted i j\<rbrakk> \<Longrightarrow>
    pool_step cancels (cl, ts) (uncount (upd_conn i close_conn cl), ts[t := Swapped j])"
| replace_wake: "\<lbrakk>t < length ts; ts ! t = Swapped j\<rbrakk> \<Longrightarrow>
    pool_step cancels (cl, ts) (wake cl, ts[t := Holding j])"
| close_done: "\<lbrakk>t < length ts; ts ! t = Outside; \<not> cl_done cl\<rbrakk> \<Longrightarrow>
    pool_step cancels (cl, ts) (cl\<lparr>cl_done := True\<rparr>, ts[t := Draining])"
| drain: "\<lbrakk>t < length ts; ts ! t = Draining; cl_pool cl = i # pool\<rbrakk> \<Longrightarrow>
    pool_step cancels (cl, ts) (cl\<lparr>cl_pool := pool\<rparr>, ts[t := DrainRetiring i])"
| drain_retire: "\<lbrakk>t < length ts; ts ! t = DrainRetiring i\<rbrakk> \<Longrightarrow>
    pool_step cancels (cl, ts) (uncount (upd_conn i close_conn cl), ts[t := DrainUncounted])"
| drain_wake: "\<lbrakk>t < length ts; ts ! t = DrainUncounted\<rbrakk> \<Longrightarrow>
    pool_step cancels (cl, ts) (wake cl, ts[t := Draining])"
| drained: "\<lbrakk>t < length ts; ts ! t = Draining; cl_pool cl = []\<rbrakk> \<Longrightarrow>
    pool_step cancels (cl, ts) (cl, ts[t := Outside])"

inductive pool_reach :: "bool \<Rightarrow> pool_state \<Rightarrow> pool_state \<Rightarrow> bool" for cancels where
  start: "pool_reach cancels s s"
| step: "\<lbrakk>pool_reach cancels s s'; pool_step cancels s' s''\<rbrakk> \<Longrightarrow> pool_reach cancels s s''"

section \<open>The accounting invariant\<close>

text \<open>The connections a goroutine owns, and how many slots it accounts for.\<close>

fun owned :: "pc \<Rightarrow> nat list" where
  "owned (Holding i) = [i]"
| "owned (Putting i) = [i]"
| "owned (Retiring i) = [i]"
| "owned (Replacing i) = [i]"
| "owned (Adopted i j) = [i, j]"
| "owned (Swapped j) = [j]"
| "owned (DrainRetiring i) = [i]"
| "owned _ = []"

definition slots :: "pc \<Rightarrow> int" where
  "slots p = (if p = Dialling then 1 else int (length (owned p)))"

definition adopted :: "pc \<Rightarrow> int" where
  "adopted p = (case p of Adopted _ _ \<Rightarrow> 1 | _ \<Rightarrow> 0)"

abbreviation owners :: "pool_state \<Rightarrow> nat list" where
  "owners s \<equiv> cl_pool (fst s) @ concat (map owned (snd s))"

definition pool_inv :: "pool_state \<Rightarrow> bool" where
  "pool_inv s \<longleftrightarrow>
     cl_open (fst s) = int (length (cl_pool (fst s))) + sum_list (map slots (snd s)) \<and>
     cl_open (fst s) \<le> cl_max (fst s) + sum_list (map adopted (snd s)) \<and>
     int (length (cl_pool (fst s))) \<le> cl_max (fst s) \<and>
     distinct (owners s) \<and>
     (\<forall>i \<in> set (owners s). i < cl_next (fst s) \<and> \<not> cn_retired (cl_conns (fst s) i)) \<and>
     (\<forall>i \<in> set (cl_pool (fst s)). \<not> cn_broken (cl_conns (fst s) i)) \<and>
     (\<forall>i. Putting i \<in> set (snd s) \<longrightarrow> \<not> cn_broken (cl_conns (fst s) i))"

text \<open>The invariant seen from one goroutine at \<open>q\<close>: \<open>R\<close>, \<open>S\<close>, \<open>A\<close> and \<open>P\<close> are what the others own, the
  slots and the adoptions they account for, and the connections they are putting back.\<close>

definition acct :: "client \<Rightarrow> pc \<Rightarrow> nat list \<Rightarrow> int \<Rightarrow> int \<Rightarrow> nat set \<Rightarrow> bool" where
  "acct cl q R S A P \<longleftrightarrow>
     cl_open cl = int (length (cl_pool cl)) + slots q + S \<and>
     cl_open cl \<le> cl_max cl + adopted q + A \<and>
     int (length (cl_pool cl)) \<le> cl_max cl \<and>
     distinct (cl_pool cl @ owned q @ R) \<and>
     (\<forall>i \<in> set (cl_pool cl @ owned q @ R). i < cl_next cl \<and> \<not> cn_retired (cl_conns cl i)) \<and>
     (\<forall>i \<in> set (cl_pool cl). \<not> cn_broken (cl_conns cl i)) \<and>
     (\<forall>i. q = Putting i \<or> i \<in> P \<longrightarrow> \<not> cn_broken (cl_conns cl i)) \<and> 0 \<le> A"

definition others :: "pc list \<Rightarrow> nat \<Rightarrow> pc list" where
  "others ts t = take t ts @ drop (Suc t) ts"

definition others_putting :: "pc list \<Rightarrow> nat \<Rightarrow> nat set" where
  "others_putting ts t = {i. Putting i \<in> set (others ts t)}"

lemma putting_owned: "others_putting ts t \<subseteq> set (concat (map owned (others ts t)))"
proof
  fix i assume "i \<in> others_putting ts t"
  then have "Putting i \<in> set (others ts t)" by (simp add: others_putting_def)
  then show "i \<in> set (concat (map owned (others ts t)))" by (auto intro!: bexI [of _ "Putting i"])
qed

lemma adopted_nonneg: "0 \<le> sum_list (map adopted ts)"
  by (intro sum_list_nonneg) (auto simp: adopted_def split: pc.split)

lemma pool_inv_acct:
  assumes "t < length ts"
  shows "pool_inv (cl, ts[t := q]) \<longleftrightarrow>
    acct cl q (concat (map owned (others ts t))) (sum_list (map slots (others ts t)))
      (sum_list (map adopted (others ts t))) (others_putting ts t)"
proof -
  have "ts[t := q] = take t ts @ q # drop (Suc t) ts"
    using assms by (rule upd_conv_take_nth_drop)
  then have sums: "sum_list (map slots (ts[t := q])) = slots q + sum_list (map slots (others ts t))"
      "sum_list (map adopted (ts[t := q])) = adopted q + sum_list (map adopted (others ts t))"
    and own: "mset (concat (map owned (ts[t := q]))) = mset (owned q @ concat (map owned (others ts t)))"
    and putting: "Putting i \<in> set (ts[t := q]) \<longleftrightarrow> q = Putting i \<or> i \<in> others_putting ts t" for i
    by (auto simp: others_def others_putting_def)
  have perm: "mset (owners (cl, ts[t := q])) = mset (cl_pool cl @ owned q @ concat (map owned (others ts t)))"
    using own by simp
  show ?thesis
    using adopted_nonneg [of "others ts t"] mset_eq_imp_distinct_iff [OF perm] mset_eq_setD [OF perm]
    by (simp only: pool_inv_def acct_def fst_conv snd_conv sums putting add.assoc simp_thms)
qed

lemma pool_inv_at:
  "t < length ts \<Longrightarrow> ts ! t = q \<Longrightarrow> pool_inv (cl, ts) \<Longrightarrow>
    acct cl q (concat (map owned (others ts t))) (sum_list (map slots (others ts t)))
      (sum_list (map adopted (others ts t))) (others_putting ts t)"
  using pool_inv_acct [of t ts cl q] by auto

lemma takeIdle_cases:
  assumes "(r, cl') \<in> set (takeIdle ctxErr cl)"
  obtains "r = Inl ClientClosed" "cl' = cl" "cl_done cl"
  | e where "r = Inl (CtxError e)" "cl' = cl" "ctxErr = Some e"
  | i pool where "r = Inr (Some i)" "cl_pool cl = i # pool" "cl' = cl\<lparr>cl_pool := pool\<rparr>"
  | "r = Inr None" "cl' = cl" "cl_pool cl = []" "\<not> cl_done cl"
  using assms by (cases "cl_pool cl") (auto simp: takeIdle_def Let_def split: if_splits option.splits)

lemma awaitConn_cases:
  assumes "(r, cl') \<in> set (awaitConn ctxErr backoff cl)"
  obtains err where "r = Inl err" "cl' = cl"
  | i pool where "r = Inr (Some i)" "cl_pool cl = i # pool" "cl' = cl\<lparr>cl_pool := pool\<rparr>"
  | "r = Inr None" "backoff = None" "0 < cl_freed cl" "cl' = cl\<lparr>cl_freed := cl_freed cl - 1\<rparr>"
  | "r = Inr None" "backoff = Some True" "cl' = cl"
  using assms by (cases "cl_pool cl") (auto simp: awaitConn_def split: if_splits option.splits)

lemma wake_sel [simp]:
  "cl_open (wake cl) = cl_open cl" "cl_pool (wake cl) = cl_pool cl" "cl_cfg (wake cl) = cl_cfg cl"
  "cl_conns (wake cl) = cl_conns cl" "cl_next (wake cl) = cl_next cl" "cl_done (wake cl) = cl_done cl"
  by (simp_all add: wake_def)

lemma close_conn_sel [simp]: "cn_retired (close_conn cn)" "cn_broken (close_conn cn) = cn_broken cn"
  by (simp_all add: close_conn_def Cmd_def log_event_def)

lemmas pool_ops_defs =
  uncount_def adopt_def upd_conn_def alloc_def reserveSlot_def dialReserved_def slots_def adopted_def

text \<open>Each kind of step keeps the account of the goroutine that takes it.\<close>

lemma acct_pop:
  "acct cl q R S A P \<Longrightarrow> owned q = [] \<Longrightarrow> q \<noteq> Dialling \<Longrightarrow> cl_pool cl = i # pool \<Longrightarrow>
   p \<in> {Holding i, DrainRetiring i} \<Longrightarrow> acct (cl\<lparr>cl_pool := pool\<rparr>) p R S A P"
  by (auto simp: acct_def slots_def adopted_def split: pc.splits)

lemma acct_move:
  "acct cl q R S A P \<Longrightarrow> owned p = owned q \<Longrightarrow> slots p = slots q \<Longrightarrow> adopted p = adopted q \<Longrightarrow>
   \<forall>i. p = Putting i \<longrightarrow> \<not> cn_broken (cl_conns cl i) \<Longrightarrow> acct cl p R S A P"
  by (auto simp: acct_def)

lemma acct_wake: "acct (wake cl) p R S A P \<longleftrightarrow> acct cl p R S A P"
  by (simp add: acct_def)

lemma acct_fresh:
  assumes "acct cl q R S A P" "\<not> cn_broken cn" "\<not> cn_retired cn" "alloc cn cl = (j, cl')" "P \<subseteq> set R"
  shows "q = Dialling \<Longrightarrow> acct cl' (Holding j) R S A P"
    and "q = Replacing i \<Longrightarrow> acct (adopt cl') (Adopted i j) R S A P"
proof -
  have new: "i \<noteq> cl_next cl" if "i \<in> set (cl_pool cl @ owned q @ R) \<union> P" for i
    using assms(1,5) that by (auto simp: acct_def)
  have eqs: "j = cl_next cl" "cl_conns cl' = (cl_conns cl)(cl_next cl := cn)" "cl_next cl' = Suc (cl_next cl)"
      "cl_open cl' = cl_open cl" "cl_pool cl' = cl_pool cl" "cl_cfg cl' = cl_cfg cl"
    using assms(4) by (auto simp: alloc_def)
  show "acct cl' (Holding j) R S A P" if "q = Dialling"
    using assms(1-3) new that unfolding acct_def eqs by (auto simp: slots_def adopted_def intro: less_SucI)
  show "acct (adopt cl') (Adopted i j) R S A P" if "q = Replacing i"
    using assms(1-3) new that unfolding acct_def adopt_def by (auto simp: eqs slots_def adopted_def intro: less_SucI)
qed

lemma acct_close:
  assumes "acct cl q R S A P" "owned q = i # owned p" "P \<subseteq> set R" "slots q = slots p + 1"
    and "adopted q \<le> adopted p + 1" "\<forall>j. p \<noteq> Putting j"
  shows "acct (uncount (upd_conn i close_conn cl)) p R S A P"
  using assms by (auto simp: acct_def uncount_def upd_conn_def)

lemma slots_simps [simp]:
  "slots Outside = 0" "slots Looking = 0" "slots Slotless = 0" "slots Dialling = 1" "slots Unreserved = 0"
  "slots (Waiting b) = 0" "slots (Holding i) = 1" "slots (Putting i) = 1" "slots (Retiring i) = 1"
  "slots Uncounted = 0" "slots (Replacing i) = 1" "slots (Adopted i j) = 2" "slots (Swapped j) = 1"
  "slots Draining = 0" "slots (DrainRetiring i) = 1" "slots DrainUncounted = 0"
  by (simp_all add: slots_def)

lemma adopted_simps [simp]:
  "adopted Outside = 0" "adopted Looking = 0" "adopted Slotless = 0" "adopted Dialling = 0"
  "adopted Unreserved = 0" "adopted (Waiting b) = 0" "adopted (Holding i) = 0" "adopted (Putting i) = 0"
  "adopted (Retiring i) = 0" "adopted Uncounted = 0" "adopted (Replacing i) = 0" "adopted (Adopted i j) = 1"
  "adopted (Swapped j) = 0" "adopted Draining = 0" "adopted (DrainRetiring i) = 0" "adopted DrainUncounted = 0"
  by (simp_all add: adopted_def)

lemma acct_reserve:
  "acct cl Slotless R S A P \<Longrightarrow> reserveSlot cl = (ok, cl') \<Longrightarrow>
   acct cl' (if ok then Dialling else Waiting False) R S A P"
  by (auto simp: acct_def reserveSlot_def split: if_splits)

lemma acct_unreserve:
  "acct cl Dialling R S A P \<Longrightarrow> owned p = [] \<Longrightarrow> slots p = 0 \<Longrightarrow> adopted p = 0 \<Longrightarrow> \<forall>i. p \<noteq> Putting i \<Longrightarrow>
   acct (uncount cl) p R S A P"
  by (auto simp: acct_def uncount_def)

lemma acct_exchange:
  "acct cl (Holding i) R S A P \<Longrightarrow> P \<subseteq> set R \<Longrightarrow> cn_retired cn = cn_retired (cl_conns cl i) \<Longrightarrow>
   acct (upd_conn i (\<lambda>_. cn) cl) (Holding i) R S A P"
  by (auto simp: acct_def upd_conn_def)

lemma acct_put:
  "acct cl (Putting i) R S A P \<Longrightarrow> int (length (cl_pool cl)) < cl_max cl \<Longrightarrow>
   acct (cl\<lparr>cl_pool := cl_pool cl @ [i]\<rparr>) Outside R S A P"
  by (auto simp: acct_def)

lemma acct_cong:
  "acct cl p R S A P \<Longrightarrow> cl_open cl' = cl_open cl \<Longrightarrow> cl_pool cl' = cl_pool cl \<Longrightarrow> cl_cfg cl' = cl_cfg cl \<Longrightarrow>
   cl_conns cl' = cl_conns cl \<Longrightarrow> cl_next cl' = cl_next cl \<Longrightarrow> acct cl' p R S A P"
  by (simp add: acct_def)

text \<open>A goroutine's step, seen from that goroutine.\<close>

inductive local_step :: "client \<Rightarrow> pc \<Rightarrow> client \<Rightarrow> pc \<Rightarrow> bool" where
  move: "\<lbrakk>owned p = owned q; slots p = slots q; adopted p = adopted q;
    \<forall>i. p = Putting i \<longrightarrow> \<not> cn_broken (cl_conns cl i);
    cl_open cl' = cl_open cl; cl_pool cl' = cl_pool cl; cl_cfg cl' = cl_cfg cl;
    cl_conns cl' = cl_conns cl; cl_next cl' = cl_next cl\<rbrakk> \<Longrightarrow> local_step cl q cl' p"
| pop: "\<lbrakk>owned q = []; q \<noteq> Dialling; cl_pool cl = i # pool; p \<in> {Holding i, DrainRetiring i}\<rbrakk> \<Longrightarrow>
    local_step cl q (cl\<lparr>cl_pool := pool\<rparr>) p"
| reserve: "reserveSlot cl = (ok, cl') \<Longrightarrow> local_step cl Slotless cl' (if ok then Dialling else Waiting False)"
| unreserve: "\<lbrakk>owned p = []; slots p = 0; adopted p = 0; \<forall>i. p \<noteq> Putting i\<rbrakk> \<Longrightarrow>
    local_step cl Dialling (uncount cl) p"
| fresh: "\<lbrakk>\<not> cn_broken cn; \<not> cn_retired cn; alloc cn cl = (j, cl')\<rbrakk> \<Longrightarrow> local_step cl Dialling cl' (Holding j)"
| fresh2: "\<lbrakk>\<not> cn_broken cn; \<not> cn_retired cn; alloc cn cl = (j, cl')\<rbrakk> \<Longrightarrow>
    local_step cl (Replacing i) (adopt cl') (Adopted i j)"
| exchange: "cn_retired cn = cn_retired (cl_conns cl i) \<Longrightarrow>
    local_step cl (Holding i) (upd_conn i (\<lambda>_. cn) cl) (Holding i)"
| put: "int (length (cl_pool cl)) < cl_max cl \<Longrightarrow>
    local_step cl (Putting i) (cl\<lparr>cl_pool := cl_pool cl @ [i]\<rparr>) Outside"
| close: "\<lbrakk>owned q = i # owned p; slots q = slots p + 1; adopted q \<le> adopted p + 1; \<forall>j. p \<noteq> Putting j\<rbrakk> \<Longrightarrow>
    local_step cl q (uncount (upd_conn i close_conn cl)) p"

lemma local_step_acct: "local_step cl q cl' p \<Longrightarrow> acct cl q R S A P \<Longrightarrow> P \<subseteq> set R \<Longrightarrow> acct cl' p R S A P"
proof (induction rule: local_step.induct)
  case (move p q cl cl')
  then have "acct cl p R S A P" by (simp add: acct_move)
  with move show ?case by (simp add: acct_cong)
next
  case (pop q cl i pool p)
  then show ?case using acct_pop by blast
next
  case (reserve cl ok cl')
  then show ?case by (simp add: acct_reserve)
next
  case (unreserve p cl)
  then show ?case by (simp add: acct_unreserve)
next
  case (fresh cn cl j cl')
  then show ?case using acct_fresh(1) by blast
next
  case (fresh2 cn cl j cl' i)
  then show ?case using acct_fresh(2) by blast
next
  case (exchange cn cl i)
  then show ?case by (simp add: acct_exchange)
next
  case (put cl i)
  then show ?case by (simp add: acct_put)
next
  case (close q i p cl)
  then show ?case by (simp add: acct_close)
qed

lemma local_move:
  "owned p = owned q \<Longrightarrow> slots p = slots q \<Longrightarrow> adopted p = adopted q \<Longrightarrow> \<forall>i. p \<noteq> Putting i \<Longrightarrow> local_step cl q cl p"
  by (rule local_step.move) auto

lemma local_wake:
  "owned p = owned q \<Longrightarrow> slots p = slots q \<Longrightarrow> adopted p = adopted q \<Longrightarrow> \<forall>i. p \<noteq> Putting i \<Longrightarrow>
   local_step cl q (wake cl) p"
  by (rule local_step.move) auto

lemma pool_step_local:
  assumes "pool_step cancels s s'"
  obtains t p where "t < length (snd s)" "local_step (fst s) (snd s ! t) (fst s') p" "snd s' = (snd s)[t := p]"
  using assms
proof (cases rule: pool_step.cases)
  case (enter t ts cl)
  then show ?thesis using that [of t "Looking"] by (simp add: local_move)
next
  case (take_idle t ts i cl' ctxErr cl)
  from take_idle(5) obtain pool where "cl_pool cl = i # pool" "cl' = cl\<lparr>cl_pool := pool\<rparr>"
    by (auto elim: takeIdle_cases)
  then show ?thesis using that [of t "Holding i"] take_idle local_step.pop [of Looking cl i pool "Holding i"] by simp
next
  case (take_none t ts cl' ctxErr cl)
  then have "cl' = cl" by (auto elim: takeIdle_cases)
  with take_none show ?thesis using that [of t Slotless] by (simp add: local_move)
next
  case (take_closed t ts cl' ctxErr cl)
  then have "cl' = cl" by (auto elim: takeIdle_cases)
  with take_closed show ?thesis using that [of t Outside] by (simp add: local_move)
next
  case (take_cancelled t ts e cl' cl)
  then have "cl' = cl" by (auto elim: takeIdle_cases)
  with take_cancelled show ?thesis using that [of t Outside] by (simp add: local_move)
next
  case (reserve t ts cl ok cl')
  then show ?thesis using that local_step.reserve [of cl ok cl'] by fastforce
next
  case (dial_ok t ts cn cl i cl')
  then have "alloc cn cl = (i, cl')" by (simp add: dialReserved_def split: prod.splits)
  with dial_ok show ?thesis using that [of t "Holding i"] local_step.fresh [of cn cl i cl'] by simp
next
  case (dial_fail t ts cl' cl)
  then show ?thesis
    using that [of t "if cl_open cl' = 0 then Unreserved else if 0 < cl_open cl' then Waiting True else Outside"]
      local_step.unreserve [of _ cl] by simp
next
  case (unreserve_wake t ts cl)
  then show ?thesis using that [of t "Outside"] by (simp add: local_move local_wake)
next
  case (await_conn t ts b i cl' ctxErr backoff cl)
  from await_conn(5) obtain pool where "cl_pool cl = i # pool" "cl' = cl\<lparr>cl_pool := pool\<rparr>"
    by (auto elim: awaitConn_cases)
  then show ?thesis
    using that [of t "Holding i"] await_conn local_step.pop [of "Waiting b" cl i pool "Holding i"] by simp
next
  case (await_again t ts b backoff cl' ctxErr cl)
  from await_again(6) have "cl_open cl' = cl_open cl" "cl_pool cl' = cl_pool cl" "cl_cfg cl' = cl_cfg cl"
      "cl_conns cl' = cl_conns cl" "cl_next cl' = cl_next cl"
    by (auto elim: awaitConn_cases)
  then show ?thesis
    using that [of t Looking] await_again local_step.move [of Looking "Waiting b" cl cl'] by simp
next
  case (await_error t ts b err cl' ctxErr backoff cl)
  then have "cl' = cl" by (auto elim: awaitConn_cases)
  with await_error show ?thesis using that [of t Outside] by (simp add: local_move)
next
  case (exchange t ts i cn cl)
  then show ?thesis
    using that [of t "Holding i"] local_step.exchange [of cn cl i] list_update_id [of ts t] by auto
next
  case (start_put t ts i cl)
  then show ?thesis using that [of t "Putting i"] local_step.move [of "Putting i" "Holding i" cl cl] by simp
next
  case (start_retire t ts i cl)
  then show ?thesis using that [of t "Retiring i"] by (simp add: local_move)
next
  case (start_replace t ts i cl)
  then show ?thesis using that [of t "Replacing i"] by (simp add: local_move)
next
  case (put t ts i cl)
  then show ?thesis using that [of t Outside] local_step.put [of cl i] by simp
next
  case (put_full t ts i cl)
  then show ?thesis using that [of t "Retiring i"] by (simp add: local_move)
next
  case (do_retire t ts i cl)
  then show ?thesis using that [of t Uncounted] local_step.close [of "Retiring i" i Uncounted cl] by simp
next
  case (free_wake t ts cl)
  then show ?thesis using that [of t "Outside"] by (simp add: local_move local_wake)
next
  case (replace_fail t ts i cl)
  then show ?thesis using that [of t "Retiring i"] by (simp add: local_move)
next
  case (replace_ok t ts i cn cl j cl')
  then show ?thesis using that [of t "Adopted i j"] local_step.fresh2 [of cn cl j cl' i] by simp
next
  case (replace_retire t ts i j cl)
  then show ?thesis using that [of t "Swapped j"] local_step.close [of "Adopted i j" i "Swapped j" cl] by simp
next
  case (replace_wake t ts j cl)
  then show ?thesis using that [of t "Holding j"] by (simp add: local_move local_wake)
next
  case (close_done t ts cl)
  then show ?thesis
    using that [of t Draining] local_step.move [of Draining Outside cl "cl\<lparr>cl_done := True\<rparr>"] by simp
next
  case (drain t ts cl i pool)
  then show ?thesis using that [of t "DrainRetiring i"] local_step.pop [of Draining cl i pool "DrainRetiring i"] by simp
next
  case (drain_retire t ts i cl)
  then show ?thesis
    using that [of t DrainUncounted] local_step.close [of "DrainRetiring i" i DrainUncounted cl] by simp
next
  case (drain_wake t ts cl)
  then show ?thesis using that [of t "Draining"] by (simp add: local_move local_wake)
next
  case (drained t ts cl)
  then show ?thesis using that [of t Outside] by (simp add: local_move)
qed

lemma pool_step_inv:
  assumes "pool_step cancels s s'" "pool_inv s"
  shows "pool_inv s'"
proof -
  obtain t p where t: "t < length (snd s)" "local_step (fst s) (snd s ! t) (fst s') p"
      "snd s' = (snd s)[t := p]"
    using assms(1) by (rule pool_step_local)
  have "acct (fst s) (snd s ! t) (concat (map owned (others (snd s) t))) (sum_list (map slots (others (snd s) t)))
      (sum_list (map adopted (others (snd s) t))) (others_putting (snd s) t)"
    using pool_inv_at [OF t(1) refl, of "fst s"] assms(2) by simp
  from local_step_acct [OF t(2) this putting_owned] show ?thesis
    using pool_inv_acct [OF t(1), of "fst s'" p] t(3) by (cases s') simp
qed

end
