(* ===== verification/Nntp_Pool_Props.thy ===== *)
theory Nntp_Pool_Props
  imports Nntp_Pool_Machine
begin

text \<open>
  The properties of the connection pool: its accounting in every interleaving, when a waiting
  caller can be left behind, what \<open>Close\<close> can miss, and what one call of \<open>BodyInto\<close> returns.
\<close>

section \<open>The start\<close>

definition healthy :: "conn \<Rightarrow> bool" where
  "healthy cn \<longleftrightarrow> \<not> cn_broken cn \<and> \<not> cn_retired cn"

text \<open>While \<open>Connect\<close> runs, the pool holds what was dialled so far.\<close>

definition idle_inv :: "client \<Rightarrow> bool" where
  "idle_inv cl \<longleftrightarrow> cl_open cl = int (length (cl_pool cl)) \<and> cl_open cl \<le> cl_max cl \<and> distinct (cl_pool cl) \<and>
     (\<forall>i \<in> set (cl_pool cl). i < cl_next cl \<and> healthy (cl_conns cl i))"

lemma pool_inv_idle: "pool_inv (cl, replicate n Outside) \<longleftrightarrow> idle_inv cl"
proof -
  have sums: "sum_list (map slots (replicate n Outside)) = 0" "sum_list (map adopted (replicate n Outside)) = 0"
      "concat (map owned (replicate n Outside)) = []"
    by (induction n) auto
  then show ?thesis
    by (auto simp: pool_inv_def idle_inv_def healthy_def sums)
qed

lemma idle_inv_add:
  assumes "idle_inv cl" "healthy cn" "alloc cn cl = (i, cl1)" "int (length (cl_pool cl1)) < cl_max cl1"
  shows "idle_inv ((adopt cl1)\<lparr>cl_pool := cl_pool cl1 @ [i]\<rparr>)"
  using assms by (auto simp: idle_inv_def alloc_def adopt_def less_Suc_eq)

lemma Connect_loop_idle:
  assumes "Connect_loop n dials cl = Some (None, cl')" "idle_inv cl" "\<forall>cn. Inr cn \<in> set dials \<longrightarrow> healthy cn"
  shows "idle_inv cl' \<and> cl_open cl' = cl_open cl + int n \<and> cl_cfg cl' = cl_cfg cl \<and>
    cl_done cl' = cl_done cl \<and> cl_freed cl' = cl_freed cl"
  using assms
proof (induction n dials cl rule: Connect_loop.induct)
  case (4 n cn dials cl)
  obtain i cl1 where al: "alloc cn cl = (i, cl1)" by fastforce
  then have room: "int (length (cl_pool cl1)) < cl_max cl1"
    using "4.prems"(1) by (auto simp: adopt_def Let_def split: if_splits)
  let ?cl = "(adopt cl1)\<lparr>cl_pool := cl_pool cl1 @ [i]\<rparr>"
  have "idle_inv ?cl"
    using idle_inv_add [OF "4.prems"(2) _ al room] "4.prems"(3) by simp
  moreover have "Connect_loop n dials ?cl = Some (None, cl')"
    using "4.prems"(1) al room by (simp add: adopt_def Let_def)
  moreover have "cl_open ?cl = cl_open cl + 1" "cl_cfg ?cl = cl_cfg cl" "cl_done ?cl = cl_done cl"
      "cl_freed ?cl = cl_freed cl"
    using al by (auto simp: alloc_def adopt_def)
  ultimately show ?case
    using "4.IH" [OF al [symmetric] refl] room "4.prems"(3) by (simp add: adopt_def)
qed auto

lemma Connect_idle:
  assumes "Connect dials (NewClient cfg) = Some (None, cl)" "\<forall>cn. Inr cn \<in> set dials \<longrightarrow> healthy cn"
  shows "idle_inv cl" "cl_open cl = cl_max cl" "1 \<le> cl_max cl" "\<not> cl_done cl"
proof -
  let ?cl = "(NewClient cfg)\<lparr>cl_done := False\<rparr>"
  have max: "1 \<le> cl_max ?cl" and idle: "idle_inv ?cl"
    by (auto simp: NewClient_def idle_inv_def)
  have "Connect_loop (nat (cl_max ?cl)) dials ?cl = Some (None, cl)"
    using assms(1) by (auto simp: Connect_def NewClient_def split: option.splits)
  from Connect_loop_idle [OF this idle assms(2)]
  show "idle_inv cl" "cl_open cl = cl_max cl" "1 \<le> cl_max cl" "\<not> cl_done cl"
    using max by (auto simp: NewClient_def)
qed

lemma pool_reach_inv: "pool_reach cancels s s' \<Longrightarrow> pool_inv s \<Longrightarrow> pool_inv s'"
  by (induction rule: pool_reach.induct) (auto intro: pool_step_inv)

section \<open>Waiting callers\<close>

text \<open>A goroutine that will look at the pool again or is about to wake somebody who will.\<close>

definition pending :: "pc \<Rightarrow> bool" where
  "pending p \<longleftrightarrow> p \<in> {Looking, Slotless, Unreserved, Uncounted, DrainUncounted}"

definition wake_inv :: "pool_state \<Rightarrow> bool" where
  "wake_inv s \<longleftrightarrow>
     (\<not> cl_done (fst s) \<and> cl_open (fst s) = 0 \<and> Waiting False \<in> set (snd s) \<longrightarrow>
        0 < cl_freed (fst s) \<or> list_ex pending (snd s))"

lemma sum_slots_nonneg: "0 \<le> sum_list (map slots ts)"
  by (intro sum_list_nonneg) (auto simp: slots_def)

lemma pool_inv_zero:
  assumes "pool_inv (cl, ts)" "cl_open cl = 0"
  shows "cl_pool cl = []" "p \<in> set ts \<Longrightarrow> slots p = 0"
proof -
  have *: "int (length (cl_pool cl)) + sum_list (map slots ts) = 0"
    using assms by (simp add: pool_inv_def)
  then have "int (length (cl_pool cl)) = 0" using sum_slots_nonneg [of ts] by linarith
  then show "cl_pool cl = []" by simp
  assume "p \<in> set ts"
  moreover have "sum_list (map slots ts) = 0" using * sum_slots_nonneg [of ts] by linarith
  ultimately show "slots p = 0"
    by (subst (asm) sum_list_nonneg_eq_0_iff) (auto simp: slots_def)
qed

lemma set_at: "t < length ts \<Longrightarrow> set (ts[t := p]) = insert p (set (others ts t))"
  by (auto simp: upd_conv_take_nth_drop others_def)

lemma wake_inv_at:
  assumes "t < length ts"
  shows "wake_inv (cl, ts[t := p]) \<longleftrightarrow>
    (\<not> cl_done cl \<and> cl_open cl = 0 \<and> (p = Waiting False \<or> Waiting False \<in> set (others ts t)) \<longrightarrow>
      0 < cl_freed cl \<or> pending p \<or> list_ex pending (others ts t))"
  using set_at [OF assms, of p] by (auto simp: wake_inv_def list_ex_iff)

lemma wake_tokens: "1 \<le> cl_max cl \<Longrightarrow> 0 < cl_freed (wake cl)"
  by (auto simp: wake_def)

lemma wake_inv_step:
  assumes "t < length ts" "wake_inv (cl, ts)" "cl_done cl \<longrightarrow> cl_done cl'"
    and "cl_open cl' = 0 \<Longrightarrow> \<not> cl_done cl' \<Longrightarrow> 0 < cl_freed cl' \<or> pending p \<or>
      (cl_open cl = 0 \<and> (0 < cl_freed cl \<longrightarrow> 0 < cl_freed cl') \<and> \<not> pending (ts ! t) \<and> (p = Waiting False \<longrightarrow> ts ! t = Waiting False))"
  shows "wake_inv (cl', ts[t := p])"
  using wake_inv_at [OF assms(1), of cl "ts ! t"] assms wake_inv_at [OF assms(1), of cl' p] by auto

lemma pool_step_wake:
  assumes "pool_step False s s'" "pool_inv s" "wake_inv s" "1 \<le> cl_max (fst s)"
  shows "wake_inv s'"
proof -
  have inv': "pool_inv s'" using pool_step_inv assms(1,2) .
  then have zero: "slots p = 0" if "cl_open (fst s') = 0" "p \<in> set (snd s')" for p
    using pool_inv_zero(2) [of "fst s'" "snd s'"] that by simp
  have pos: "cl_open (fst s') \<noteq> 0" if "t < length ts" "snd s' = ts[t := p]" "slots p \<noteq> 0" for t ts p
    using zero [of p] that by (auto simp: set_at)
  from assms(1) show ?thesis
  proof (cases rule: pool_step.cases)
    case (take_idle t ts i cl' ctxErr cl)
    then show ?thesis using pos [of t ts "Holding i"] by (simp add: wake_inv_def)
  next
    case (take_none t ts cl' ctxErr cl)
    then show ?thesis using assms(3) by (auto simp: wake_inv_at pending_def)
  next
    case (take_closed t ts cl' ctxErr cl)
    then have "cl_done cl'" by (auto elim: takeIdle_cases)
    then show ?thesis using take_closed by (simp add: wake_inv_def)
  next
    case (reserve t ts cl ok cl')
    then show ?thesis
      using pos [of t ts "if ok then Dialling else Waiting False"] assms(4)
      by (auto simp: wake_inv_def reserveSlot_def split: if_splits)
  next
    case (dial_ok t ts cn cl i cl')
    then show ?thesis using pos [of t ts "Holding i"] by (simp add: wake_inv_def)
  next
    case (dial_fail t ts cl' cl)
    then show ?thesis by (auto simp: wake_inv_at pending_def)
  next
    case (unreserve_wake t ts cl)
    then show ?thesis using assms(4) wake_tokens [of cl] by (simp add: wake_inv_def)
  next
    case (await_conn t ts b i cl' ctxErr backoff cl)
    then show ?thesis using pos [of t ts "Holding i"] by (simp add: wake_inv_def)
  next
    case (await_again t ts b backoff cl' ctxErr cl)
    then show ?thesis by (simp add: wake_inv_at pending_def)
  next
    case (await_error t ts b err cl' ctxErr backoff cl)
    then have "cl' = cl" by (auto elim: awaitConn_cases)
    then show ?thesis
      using await_error assms(3) by (auto intro!: wake_inv_step simp: pending_def)
  next
    case (exchange t ts i cn cl)
    then show ?thesis using assms(3) by (simp add: wake_inv_def upd_conn_def)
  next
    case (put t ts i cl)
    then show ?thesis using pool_inv_zero(1) [of "fst s'" "snd s'"] inv' by (auto simp: wake_inv_def)
  next
    case (free_wake t ts cl)
    then show ?thesis using assms(4) wake_tokens [of cl] by (simp add: wake_inv_def)
  next
    case (replace_wake t ts j cl)
    then show ?thesis using assms(4) wake_tokens [of cl] by (simp add: wake_inv_def)
  next
    case (drain t ts cl i pool)
    then show ?thesis using pos [of t ts "DrainRetiring i"] by (simp add: wake_inv_def)
  next
    case (drain_wake t ts cl)
    then show ?thesis using assms(4) wake_tokens [of cl] by (simp add: wake_inv_def)
  next
    case (drained t ts cl)
    then show ?thesis using assms(3) by (auto intro!: wake_inv_step simp: pending_def)
  next
    case (replace_ok t ts i cn cl j cl')
    then show ?thesis using pos [of t ts "Adopted i j"] by (simp add: wake_inv_def)
  next
    case (replace_retire t ts i j cl)
    then show ?thesis using pos [of t ts "Swapped j"] by (simp add: wake_inv_def)
  next
    case (enter t ts cl)
    then show ?thesis by (simp add: wake_inv_at pending_def)
  next
    case (do_retire t ts i cl)
    then show ?thesis by (simp add: wake_inv_at pending_def)
  next
    case (drain_retire t ts i cl)
    then show ?thesis by (simp add: wake_inv_at pending_def)
  qed (auto simp: wake_inv_def dest: pos)
qed

lemma pool_step_max: "pool_step cancels s s' \<Longrightarrow> cl_max (fst s') = cl_max (fst s)"
  by (erule pool_step.cases)
    (auto elim!: takeIdle_cases awaitConn_cases
      simp: reserveSlot_def dialReserved_def alloc_def adopt_def uncount_def upd_conn_def split: if_splits)

lemma pool_reach_wake:
  "pool_reach False s s' \<Longrightarrow> pool_inv s \<Longrightarrow> wake_inv s \<Longrightarrow> 1 \<le> cl_max (fst s) \<Longrightarrow>
   wake_inv s' \<and> cl_max (fst s') = cl_max (fst s)"
proof (induction rule: pool_reach.induct)
  case (step s s' s'')
  then have "pool_inv s'" using pool_reach_inv by blast
  with step show ?case using pool_step_wake pool_step_max by metis
qed simp

section \<open>Properties\<close>

text \<open>
  C10. Accounting: from a connected client, in every interleaving of calls, dials, failures,
  cancellations and \<open>Close\<close>, \<open>open\<close> is the number of connections in the pool plus those the
  goroutines hold or are dialling into a reserved slot; it exceeds \<open>MaxConnections\<close> only by the
  replacements that are still waiting to retire the connection they replace; no connection has
  two owners; and what sits in the pool is neither broken nor retired.
\<close>

theorem pool_accounting:
  assumes "Connect dials (NewClient cfg) = Some (None, cl0)" "\<forall>cn. Inr cn \<in> set dials \<longrightarrow> healthy cn"
    and "pool_reach cancels (cl0, replicate n Outside) (cl, ts)"
  shows "ActiveConnections cl = int (length (cl_pool cl)) + sum_list (map slots ts) \<and>
    ActiveConnections cl \<le> MaxConcurrency cl + sum_list (map adopted ts) \<and>
    distinct (cl_pool cl @ concat (map owned ts)) \<and>
    (\<forall>i \<in> set (cl_pool cl). healthy (cl_conns cl i))"
proof -
  have "pool_inv (cl, ts)"
    using pool_reach_inv [OF assms(3)] Connect_idle(1) [OF assms(1,2)] by (simp add: pool_inv_idle)
  then show ?thesis
    by (auto simp: pool_inv_def ActiveConnections_def MaxConcurrency_def healthy_def)
qed

definition sample_config :: config where
  "sample_config = \<lparr>Host = str ''h'', Port = 119, SSL = False, TLSServerName = [], Username = [],
     Password = [], MaxConnections = 1\<rparr>"

definition sample_conn :: conn where
  "sample_conn = \<lparr>cn_in = dead_wire, cn_writable = True, cn_log = [], cn_broken = False, cn_retired = False\<rparr>"

definition sample_client :: client where
  "sample_client = \<lparr>cl_cfg = sample_config, cl_pool = [0], cl_open = 1, cl_done = False, cl_freed = 0,
     cl_conns = (\<lambda>_. no_conn)(0 := sample_conn), cl_next = 1\<rparr>"

lemma sample_connected: "Connect [Inr sample_conn] (NewClient sample_config) = Some (None, sample_client)"
proof -
  have "validateCredentials [] [] = None" by code_simp
  then show ?thesis
    by (simp add: Connect_def NewClient_def sample_config_def alloc_def adopt_def sample_client_def)
qed

lemma sample_healthy: "\<forall>cn. Inr cn \<in> set [Inr sample_conn] \<longrightarrow> healthy cn"
  by (simp add: healthy_def sample_conn_def)

theorem pool_accounting_witness:
  "ActiveConnections sample_client = int (length (cl_pool sample_client)) + sum_list (map slots [Looking]) \<and>
    ActiveConnections sample_client \<le> MaxConcurrency sample_client + sum_list (map adopted [Looking]) \<and>
    distinct (cl_pool sample_client @ concat (map owned [Looking])) \<and> healthy (cl_conns sample_client 0)"
proof -
  have "pool_step True (sample_client, [Outside]) (sample_client, [Outside][0 := Looking])"
    by (rule pool_step.enter) simp_all
  then have "pool_reach True (sample_client, replicate 1 Outside) (sample_client, [Looking])"
    using pool_reach.step [OF pool_reach.start] by simp
  from pool_accounting [OF sample_connected sample_healthy this] show ?thesis
    by (simp add: sample_client_def)
qed

text \<open>
  C11. Waking: as long as no caller's context ends between a wake-up and its next look at the
  pool, a caller that waits without a backoff never waits on a pool that has nothing left to give
  back: there is a connection or a reservation, or a wake-up is waiting for it, or another caller is
  about to look at the pool or to wake one that will.
\<close>

theorem waiter_not_left_behind:
  assumes "Connect dials (NewClient cfg) = Some (None, cl0)" "\<forall>cn. Inr cn \<in> set dials \<longrightarrow> healthy cn"
    and "pool_reach False (cl0, replicate n Outside) (cl, ts)" "\<not> cl_done cl" "Waiting False \<in> set ts"
  shows "0 < cl_open cl \<or> 0 < cl_freed cl \<or> list_ex pending ts"
proof -
  have "wake_inv (cl0, replicate n Outside)" "pool_inv (cl0, replicate n Outside)" "1 \<le> cl_max cl0"
    using Connect_idle [OF assms(1,2)] by (auto simp: wake_inv_def pool_inv_idle)
  with pool_reach_wake [OF assms(3)] pool_reach_inv [OF assms(3)]
  have "wake_inv (cl, ts)" "pool_inv (cl, ts)" by simp_all
  moreover have "0 \<le> cl_open cl"
    using \<open>pool_inv (cl, ts)\<close> sum_slots_nonneg [of ts] by (simp add: pool_inv_def)
  ultimately show ?thesis using assms(4,5) by (auto simp: wake_inv_def)
qed

text \<open>Runs of the machine, one goroutine after the other.\<close>

lemma pool_reach_trans: "pool_reach c s' s'' \<Longrightarrow> pool_reach c s s' \<Longrightarrow> pool_reach c s s''"
  by (induction rule: pool_reach.induct) (auto intro: pool_reach.step)

lemma run_take:
  assumes "t < length ts" "ts ! t = Outside" "cl_pool cl = i # pool" "ts' = ts[t := Holding i]"
  shows "pool_reach c (cl, ts) (cl\<lparr>cl_pool := pool\<rparr>, ts')"
proof -
  let ?ts = "ts[t := Looking]"
  have "pool_step c (cl, ts) (cl, ?ts)" using assms by (intro pool_step.enter) auto
  moreover have "pool_step c (cl, ?ts) (cl\<lparr>cl_pool := pool\<rparr>, ?ts[t := Holding i])"
    using assms by (intro pool_step.take_idle [where ctxErr = None]) (auto simp: takeIdle_def)
  ultimately show ?thesis
    using pool_reach.step [OF pool_reach.step [OF pool_reach.start]] assms(4) by auto
qed

lemma run_wait:
  assumes "t < length ts" "ts ! t = Outside" "cl_pool cl = []" "\<not> cl_done cl" "cl_max cl \<le> cl_open cl"
    "ts' = ts[t := Waiting False]"
  shows "pool_reach c (cl, ts) (cl, ts')"
proof -
  let ?ts = "ts[t := Looking]"
  have "pool_step c (cl, ts) (cl, ?ts)" using assms by (intro pool_step.enter) auto
  moreover have "pool_step c (cl, ?ts) (cl, ?ts[t := Slotless])"
    using assms by (intro pool_step.take_none [where ctxErr = None]) (auto simp: takeIdle_def)
  moreover have "pool_step c (cl, ts[t := Slotless]) (cl, ts[t := Slotless, t := Waiting False])"
    using assms pool_step.reserve [of t "ts[t := Slotless]" cl False cl c] by (auto simp: reserveSlot_def)
  ultimately show ?thesis
    using pool_reach.step [OF pool_reach.step [OF pool_reach.step [OF pool_reach.start]]] assms(6) by auto
qed

lemma run_retire:
  assumes "t < length ts" "ts ! t = Holding i" "ts' = ts[t := Outside]"
  shows "pool_reach c (cl, ts) (freeSlot (upd_conn i close_conn cl), ts')"
proof -
  let ?cl = "uncount (upd_conn i close_conn cl)"
  have "pool_step c (cl, ts) (cl, ts[t := Retiring i])" using assms by (intro pool_step.start_retire) auto
  moreover have "pool_step c (cl, ts[t := Retiring i]) (?cl, ts[t := Retiring i, t := Uncounted])"
    using assms by (intro pool_step.do_retire) auto
  moreover have "pool_step c (?cl, ts[t := Uncounted]) (wake ?cl, ts[t := Uncounted, t := Outside])"
    using assms by (intro pool_step.free_wake) auto
  ultimately show ?thesis
    using pool_reach.step [OF pool_reach.step [OF pool_reach.step [OF pool_reach.start]]] assms(3)
    by (auto simp: freeSlot_def)
qed

lemma sample_sel [simp]:
  "cl_pool sample_client = [0]" "cl_max sample_client = 1" "cl_open sample_client = 1" "\<not> cl_done sample_client"
  "cl_freed sample_client = 0" "cl_conns sample_client 0 = sample_conn"
  by (simp_all add: sample_client_def sample_config_def)

lemma sample_waiting:
  "pool_reach c (sample_client, [Outside, Outside, Outside])
     (sample_client\<lparr>cl_pool := []\<rparr>, [Holding 0, Waiting False, Waiting False])"
proof -
  let ?cl = "sample_client\<lparr>cl_pool := []\<rparr>"
  have "pool_reach c (sample_client, [Outside, Outside, Outside]) (?cl, [Holding 0, Outside, Outside])"
    by (rule run_take [where t = 0]) auto
  moreover have "pool_reach c (?cl, [Holding 0, Outside, Outside]) (?cl, [Holding 0, Waiting False, Outside])"
    by (rule run_wait [where t = 1]) auto
  moreover have "pool_reach c (?cl, [Holding 0, Waiting False, Outside]) (?cl, [Holding 0, Waiting False, Waiting False])"
    by (rule run_wait [where t = 2]) auto
  ultimately show ?thesis by (blast intro: pool_reach_trans)
qed

theorem waiter_not_left_behind_witness:
  "0 < cl_open (sample_client\<lparr>cl_pool := []\<rparr>) \<or> 0 < cl_freed (sample_client\<lparr>cl_pool := []\<rparr>) \<or>
    list_ex pending [Holding 0, Waiting False, Waiting False]"
proof -
  have "pool_reach False (sample_client, replicate 3 Outside)
      (sample_client\<lparr>cl_pool := []\<rparr>, [Holding 0, Waiting False, Waiting False])"
    using sample_waiting [of False] by (simp add: numeral_3_eq_3)
  from waiter_not_left_behind [OF sample_connected sample_healthy this] show ?thesis by simp
qed

text \<open>
  C12. The condition of C11 is needed: a caller that consumes the wake-up of a freed slot and finds its
  own context ended leaves \<open>acquire\<close> without passing the wake-up on. With one connection and two
  waiting callers, the second is then blocked although the client is open and has a free slot: no
  connection is left that could be released, and no wake-up is pending.
\<close>

theorem lost_wakeup:
  "\<exists>cl. pool_reach True (sample_client, [Outside, Outside, Outside]) (cl, [Outside, Outside, Waiting False]) \<and>
     \<not> cl_done cl \<and> cl_open cl = 0 \<and> cl_max cl = 1 \<and> awaitConn None None cl = []"
proof -
  let ?cl = "freeSlot (upd_conn 0 close_conn (sample_client\<lparr>cl_pool := []\<rparr>))"
  let ?cl' = "?cl\<lparr>cl_freed := 0\<rparr>"
  have free: "cl_freed ?cl = 1" "cl_pool ?cl = []" "cl_open ?cl = 0" "\<not> cl_done ?cl" "cl_max ?cl = 1"
    by (auto simp: freeSlot_def wake_def uncount_def upd_conn_def)
  have "pool_reach True (sample_client\<lparr>cl_pool := []\<rparr>, [Holding 0, Waiting False, Waiting False])
      (?cl, [Outside, Waiting False, Waiting False])"
    by (rule run_retire [where t = 0]) auto
  note r0 = pool_reach_trans [OF this sample_waiting]
  have "pool_step True (?cl, [Outside, Waiting False, Waiting False])
      (?cl', [Outside, Waiting False, Waiting False][1 := Looking])"
    by (rule pool_step.await_again [where b = False and ctxErr = None]) (auto simp: awaitConn_def free)
  from pool_reach.step [OF r0 this]
  have r1: "pool_reach True (sample_client, [Outside, Outside, Outside]) (?cl', [Outside, Looking, Waiting False])"
    by simp
  have "pool_step True (?cl', [Outside, Looking, Waiting False])
      (?cl', [Outside, Looking, Waiting False][1 := Outside])"
    by (rule pool_step.take_cancelled [where e = Canceled]) (auto simp: takeIdle_def free)
  from pool_reach.step [OF r1 this]
  have "pool_reach True (sample_client, [Outside, Outside, Outside]) (?cl', [Outside, Outside, Waiting False])"
    by simp
  moreover have "awaitConn None None ?cl' = []" using free by (simp add: awaitConn_def)
  ultimately show ?thesis using free by (intro exI [of _ ?cl']) auto
qed

text \<open>
  C13. \<open>release\<close> checks \<open>done\<close> before it puts a connection back. When \<open>Close\<close> runs in between, it
  drains the pool first and the connection is put into the pool of the closed client, where nothing
  retires it: it stays open, and counted, with no goroutine left in the client.
\<close>

theorem close_misses_release:
  "\<exists>cl. pool_reach False (sample_client, [Outside, Outside]) (cl, [Outside, Outside]) \<and>
     cl_done cl \<and> cl_open cl = 1 \<and> cl_pool cl = [0] \<and> healthy (cl_conns cl 0)"
proof -
  let ?c1 = "sample_client\<lparr>cl_pool := []\<rparr>"
  let ?c2 = "?c1\<lparr>cl_done := True\<rparr>"
  let ?s = "(sample_client, [Outside, Outside])"
  have r0: "pool_reach False ?s (?c1, [Holding 0, Outside])"
    by (rule run_take [where t = 0]) auto
  have "pool_step False (?c1, [Holding 0, Outside]) (?c1, [Holding 0, Outside][0 := Putting 0])"
    by (rule pool_step.start_put) (auto simp: sample_conn_def)
  from pool_reach.step [OF r0 this] have r1: "pool_reach False ?s (?c1, [Putting 0, Outside])" by simp
  have "pool_step False (?c1, [Putting 0, Outside]) (?c2, [Putting 0, Outside][1 := Draining])"
    by (rule pool_step.close_done) auto
  from pool_reach.step [OF r1 this] have r2: "pool_reach False ?s (?c2, [Putting 0, Draining])" by simp
  have "pool_step False (?c2, [Putting 0, Draining]) (?c2, [Putting 0, Draining][1 := Outside])"
    by (rule pool_step.drained) auto
  from pool_reach.step [OF r2 this] have r3: "pool_reach False ?s (?c2, [Putting 0, Outside])" by simp
  have "pool_step False (?c2, [Putting 0, Outside])
      (?c2\<lparr>cl_pool := cl_pool ?c2 @ [0]\<rparr>, [Putting 0, Outside][0 := Outside])"
    by (rule pool_step.put) auto
  from pool_reach.step [OF r3 this]
  have "pool_reach False ?s (?c2\<lparr>cl_pool := [0]\<rparr>, [Outside, Outside])" by simp
  then show ?thesis by (intro exI [of _ "?c2\<lparr>cl_pool := [0]\<rparr>"]) (auto simp: healthy_def sample_conn_def)
qed

end
