(* ===== verification/Nntp_Body_Props.thy ===== *)
theory Nntp_Body_Props
  imports Nntp_Pool
begin

text \<open>
  What a BODY exchange does to its connection and what a whole call of \<open>BodyInto\<close> returns: a
  connection that is kept is in sync with the server, one command is one line, a stall is only
  reported of a freshly dialled connection, and every call gives its connection back.
\<close>

section \<open>One exchange\<close>

lemma log_event_sel [simp]:
  "cn_in (log_event e cn) = cn_in cn" "cn_broken (log_event e cn) = cn_broken cn"
  "cn_retired (log_event e cn) = cn_retired cn" "cn_writable (log_event e cn) = cn_writable cn"
  "cn_log (log_event e cn) = cn_log cn @ [e]"
  by (simp_all add: log_event_def)

lemma Cmd_sel:
  "Cmd line cn = (r, cn') \<Longrightarrow> cn_in cn' = cn_in cn \<and> cn_broken cn' = cn_broken cn \<and> cn_retired cn' = cn_retired cn"
  by (auto simp: Cmd_def split: if_splits)

lemma reply_on_sel:
  "reply_on n cn = (r, cn') \<Longrightarrow>
     readReply (cn_in cn) n = (r, cn_in cn') \<and> cn_broken cn' = cn_broken cn \<and> cn_retired cn' = cn_retired cn \<and>
     cn_log cn' = cn_log cn"
  by (auto simp: reply_on_def split: prod.splits)

lemma readDotBodyLimit_lines:
  "readDotBodyLimit r c lim = (Inr body, b, tr) \<Longrightarrow>
   \<exists>ls e. e \<in> {[46], [46, 13]} \<and> unread r = join_lines ls @ e @ 10 # unread (reader b) \<and>
    body = join_lines (map (\<lambda>l. unstuff (TrimSuffix l [13])) ls)"
  using dotBody_loop_sound [of "\<lparr>reader = r, out = [], out_cap = min c lim, received = 0, limit = lim\<rparr>" "[]" body b tr]
  by (auto simp: readDotBodyLimit_def)

text \<open>The ways an exchange can end, by what was read from the connection.\<close>

definition answered_body :: "conn \<Rightarrow> conn \<Rightarrow> bytes \<Rightarrow> bool" where
  "answered_body cn cn' body \<longleftrightarrow>
     (\<exists>status ls e. e \<in> {[46], [46, 13]} \<and> Atoi (take 3 status) = (222, None) \<and>
        unread (cn_in cn) = status @ 10 # join_lines ls @ e @ 10 # unread (cn_in cn') \<and>
        body = join_lines (map (\<lambda>l. unstuff (TrimSuffix l [13])) ls))"

definition answered_missing :: "conn \<Rightarrow> conn \<Rightarrow> int \<Rightarrow> bool" where
  "answered_missing cn cn' code \<longleftrightarrow> code \<in> {423, 430} \<and>
     (\<exists>status. Atoi (take 3 status) = (code, None) \<and>
        unread (cn_in cn) = status @ 10 # unread (cn_in cn'))"

definition unanswered :: "conn \<Rightarrow> bool" where
  "unanswered cn \<longleftrightarrow> tail (cn_in cn) = NetTimeout \<and> 10 \<notin> set (unread (cn_in cn))"

lemma error_class_simps [simp]:
  "isNetTimeout (Transport e) = (e = NetTimeout)" "\<not> isNetTimeout UnexpectedEOF"
  "\<not> isNetTimeout (ReplyTooLargeError n)" "\<not> isNetTimeout (ProtocolError s)" "\<not> isNetTimeout (ReplyError c m)"
  "\<not> IsArticleMissing (Transport e)" "\<not> IsArticleMissing UnexpectedEOF" "\<not> IsArticleMissing (ReplyTooLargeError n)"
  "\<not> IsArticleMissing (BodyTooLargeError n)" "\<not> IsArticleMissing (ProtocolError s)"
  "\<not> IsArticleMissing (ReplyError c m)" "IsArticleMissing (Wrapped t err) = IsArticleMissing err"
  "IsArticleMissing (ArticleNotFoundError i c)" "\<not> IsArticleMissing (CtxError x)" "\<not> IsArticleMissing (Opaque t)"
  "IsArticleMissing (StallError i err) = IsArticleMissing err"
  "\<not> IsStalled (Transport e)" "\<not> IsStalled UnexpectedEOF" "\<not> IsStalled (ReplyTooLargeError n)"
  "\<not> IsStalled (BodyTooLargeError n)" "\<not> IsStalled (ProtocolError s)" "\<not> IsStalled (ReplyError c m)"
  "IsStalled (Wrapped t err) = IsStalled err" "\<not> IsStalled (ArticleNotFoundError i c)" "\<not> IsStalled (CtxError x)"
  "\<not> IsStalled (Opaque t)" "IsStalled (StallError i err)"
  by (auto simp: isNetTimeout_def IsArticleMissing_def IsStalled_def split: read_error.split)

lemma appendLine_error:
  assumes "appendLine b = (Some err, b')"
  shows "err = BodyTooLargeError (limit b) \<or> err = UnexpectedEOF \<or>
    (err = Transport (tail (reader b)) \<and> 10 \<notin> set (unread (reader b)))"
  using appendLine_outcome [of b] assms
  by (auto simp: line_outcome_def IndexByte_None split: option.splits if_splits)

lemma readReply_error:
  assumes "readReply r n = ((code, msg, Some err), r')"
  shows "err = ReplyError code msg \<or> code = 0 \<and>
    ((\<exists>s. err = ProtocolError s) \<or> err = ReplyTooLargeError MaxReplyBytes \<or> err = UnexpectedEOF \<or>
     err = Transport (tail r) \<and> 10 \<notin> set (unread r))"
proof -
  let ?b = "\<lparr>reader = r, out = [], out_cap = 0, received = 0, limit = MaxReplyBytes\<rparr>"
  obtain e b' where b': "appendLine ?b = (e, b')" by fastforce
  show ?thesis
  proof (cases e)
    case None
    with assms b' show ?thesis by (auto simp: readReply_def Let_def split: if_splits prod.splits)
  next
    case (Some e')
    with assms b' appendLine_error [of ?b e' b'] show ?thesis by (auto simp: readReply_def)
  qed
qed

lemma dotBody_loop_error:
  "dotBody_loop b seen = (Inl err, b', tr) \<Longrightarrow> \<not> IsArticleMissing err \<and> \<not> IsStalled err"
proof (induction b seen rule: dotBody_loop.induct)
  case (1 b seen)
  obtain e b1 where b1: "appendLine b = (e, b1)" by fastforce
  show ?case
  proof (cases e)
    case None
    then show ?thesis
      using "1.IH" [OF refl b1 [symmetric] None refl _ refl] "1.prems" b1
      by (auto simp: dotBody_loop.simps [of b seen] Let_def split: if_splits)
  next
    case (Some e')
    then have "err = e'" using "1.prems" b1 by (subst (asm) dotBody_loop.simps) simp
    then show ?thesis using appendLine_error [of b e' b1] b1 Some by auto
  qed
qed

definition dialogue_end :: "bool \<Rightarrow> bytes \<Rightarrow> conn \<Rightarrow> conn \<Rightarrow> nntp_error + bytes \<Rightarrow> bool" where
  "dialogue_end bounded ident cn cn' result \<longleftrightarrow>
     (case result of
        Inr body \<Rightarrow> answered_body cn cn' body
      | Inl (ArticleNotFoundError i code) \<Rightarrow> i = ident \<and> answered_missing cn cn' code
      | Inl (StallError i err) \<Rightarrow> i = ident \<and> bounded \<and> unanswered cn \<and> err = Transport NetTimeout
      | Inl (Wrapped s err) \<Rightarrow> \<not> IsArticleMissing err \<and> \<not> IsStalled err
      | Inl _ \<Rightarrow> False)"

lemma dialogue_end_cong:
  assumes "cn_in cn1 = cn_in cn2" "cn_in cn1' = cn_in cn2'"
  shows "dialogue_end bounded ident cn1 cn1' result = dialogue_end bounded ident cn2 cn2' result"
proof -
  have "answered_body cn1 cn1' = answered_body cn2 cn2'" "answered_missing cn1 cn1' = answered_missing cn2 cn2'"
      "unanswered cn1 = unanswered cn2"
    by (auto simp: answered_body_def answered_missing_def unanswered_def assms fun_eq_iff)
  then show ?thesis by (simp only: dialogue_end_def)
qed

lemma dialogue_end_error:
  assumes rd: "readReply (cn_in cn) 222 = ((code, msg, Some e), cn_in cn')"
  shows "dialogue_end bounded ident cn cn'
    (Inl (if code = 430 \<or> code = 423 then ArticleNotFoundError ident code
          else if bounded \<and> isNetTimeout e then StallError ident e else Wrapped ''BODY response'' e))"
proof -
  have "answered_missing cn cn' code" if "code = 430 \<or> code = 423"
    using readReply_whole_line [OF rd] that by (auto simp: answered_missing_def)
  moreover have "unanswered cn \<and> e = Transport NetTimeout" if "isNetTimeout e"
    using readReply_error [OF rd] that by (auto simp: unanswered_def)
  moreover have "\<not> IsArticleMissing e \<and> \<not> IsStalled e"
    using readReply_error [OF rd] by auto
  ultimately show ?thesis by (simp add: dialogue_end_def)
qed

lemma dialogue_end_body:
  assumes rd: "readReply (cn_in cn) 222 = ((code, msg, None), cn_in cn1)"
    and dot: "readDotBodyLimit (cn_in cn1) c lim = (d, b, tr)" and "cn_in cn' = reader b"
  shows "dialogue_end bounded ident cn cn' (map_sum (Wrapped ''read body'') id d)"
proof (cases d)
  case (Inl e)
  then show ?thesis
    using dot dotBody_loop_error by (simp add: readDotBodyLimit_def dialogue_end_def)
next
  case (Inr body)
  have "code = 222"
    using rd by (auto simp: readReply_def Let_def split: prod.splits option.splits if_splits)
  with readDotBodyLimit_lines [OF dot [unfolded Inr]] readReply_whole_line [OF rd] assms(3)
  have "answered_body cn cn' body" unfolding answered_body_def by fastforce
  then show ?thesis using Inr by (simp add: dialogue_end_def)
qed

lemma body_dialogue_end:
  assumes "body_dialogue lim ctx deadline bounded cn ident c = (result, cn', seen)"
  shows "dialogue_end bounded ident cn cn' result"
proof -
  obtain r1 cn1 where cmd: "Cmd (body_command ident) cn = (r1, cn1)" by fastforce
  obtain rr cn2 where "reply_on 222 cn1 = (rr, cn2)" by fastforce
  moreover obtain code msg err where "rr = (code, msg, err)" by (metis prod_cases3)
  ultimately have rep: "reply_on 222 cn1 = ((code, msg, err), cn2)" by simp
  have rd: "readReply (cn_in cn) 222 = ((code, msg, err), cn_in cn2)"
    using reply_on_sel [OF rep] Cmd_sel [OF cmd] by simp
  obtain d b tr where dot: "readDotBodyLimit (cn_in cn2) c (body_limit lim) = (d, b, tr)"
    by (metis prod_cases3)
  consider e where "r1 = Some e" | e where "r1 = None" "err = Some e" | "r1 = None" "err = None"
    by (cases r1; cases err) auto
  then show ?thesis
  proof cases
    case 1
    then show ?thesis
      using assms cmd by (auto simp: body_dialogue_def Cmd_def dialogue_end_def split: if_splits)
  next
    case (2 e)
    with assms cmd rep dialogue_end_error [OF rd [unfolded 2], of bounded ident] show ?thesis
      by (auto simp: body_dialogue_def split: if_splits)
  next
    case 3
    then have "result = map_sum (Wrapped ''read body'') id d" "cn_in cn' = reader b"
      using assms cmd rep dot by (auto simp: body_dialogue_def Let_def split: sum.splits)
    then show ?thesis using dialogue_end_body [OF rd [unfolded 3] dot] by simp
  qed
qed

lemma bodyExchange_end:
  assumes "bodyExchange lim ctx now cn ident c = (result, cn', seen)"
  shows "\<exists>bounded. dialogue_end bounded ident cn cn' result \<and> (bounded \<longrightarrow> stallTimeoutFrom ctx \<noteq> None)"
proof -
  obtain status bounded where st: "statusDeadline ctx now
      (case ctx_deadline ctx of Some d \<Rightarrow> d | None \<Rightarrow> now + seconds 60) = (status, bounded)" by fastforce
  obtain cn1 where d: "body_dialogue lim ctx (case ctx_deadline ctx of Some d \<Rightarrow> d | None \<Rightarrow> now + seconds 60) bounded
      (log_event (Deadline (Some status)) cn) ident c = (result, cn1, seen)" "cn' = log_event (Deadline None) cn1"
    using assms st by (auto simp: bodyExchange_def Let_def split: prod.splits)
  have "bounded \<longrightarrow> stallTimeoutFrom ctx \<noteq> None"
    using st by (auto simp: statusDeadline_def split: option.splits if_splits)
  moreover have "dialogue_end bounded ident cn cn' result"
    using body_dialogue_end [OF d(1)] d(2)
      dialogue_end_cong [of "log_event (Deadline (Some status)) cn" cn cn1 cn' bounded ident result] by simp
  ultimately show ?thesis by blast
qed

lemma bodyOnConn_end:
  assumes "bodyOnConn lim ctx now ctxErr cn ident c = (result, cn', seen)"
  obtains "ctxErr = None" "\<exists>bounded. dialogue_end bounded ident cn cn' result \<and> (bounded \<longrightarrow> stallTimeoutFrom ctx \<noteq> None)"
  | e where "ctxErr = Some e" "result = Inl (CtxError e)" "cn_broken cn'"
proof -
  obtain r cn1 where ex: "bodyExchange lim ctx now cn ident c = (r, cn1, seen)"
    using assms by (auto simp: bodyOnConn_def Let_def split: prod.splits)
  have upd: "dialogue_end b ident cn (x\<lparr>cn_broken := True\<rparr>) res = dialogue_end b ident cn x res" for b x res
    by (rule dialogue_end_cong) simp_all
  show thesis
  proof (cases ctxErr)
    case None
    then have "result = r" "cn' = cn1 \<or> cn' = cn1\<lparr>cn_broken := True\<rparr>"
      using assms ex by (auto simp: bodyOnConn_def Let_def split: sum.splits if_splits)
    then show thesis using that(1) None bodyExchange_end [OF ex] upd by auto
  next
    case (Some e)
    then show thesis using that(2) assms ex by (auto simp: bodyOnConn_def Let_def)
  qed
qed

lemma bodyOnConn_broken:
  assumes "bodyOnConn lim ctx now ctxErr cn ident c = (Inl err, cn', seen)" "\<not> IsArticleMissing err"
  shows "cn_broken cn'"
  using assms by (auto simp: bodyOnConn_def Let_def split: prod.splits sum.splits option.splits if_splits)

section \<open>Properties of the exchange\<close>


definition sample_reply :: conn where
  "sample_reply = \<lparr>cn_in = \<lparr>unread = str ''430 no'' @ [13, 10, 50], bufsize = 16, tail = EOF\<rparr>, cn_writable = True,
     cn_log = [], cn_broken = False, cn_retired = False\<rparr>"

definition sample_ctx :: request_ctx where
  "sample_ctx = \<lparr>ctx_deadline = None, ctx_stall = Some 5, ctx_progress = True\<rparr>"

definition sample_ident :: bytes where
  "sample_ident = str ''a''"

lemma sample_exchange:
  "fst (bodyOnConn 0 sample_ctx 0 None sample_reply sample_ident 0) = Inl (ArticleNotFoundError sample_ident 430) \<and>
   \<not> cn_broken (fst (snd (bodyOnConn 0 sample_ctx 0 None sample_reply sample_ident 0))) \<and>
   unread (cn_in (fst (snd (bodyOnConn 0 sample_ctx 0 None sample_reply sample_ident 0)))) = [50]"
  by code_simp


text \<open>
  C15. No command injection: with a message ID that passed \<open>NormalizeMessageID\<close>, an exchange sends
  at most one line, the BODY command for exactly that ID, whose only line feed is its last byte.
\<close>

definition sent_bytes :: "conn_event list \<Rightarrow> bytes" where
  "sent_bytes evs = concat (map (\<lambda>e. case e of Sent b \<Rightarrow> b | Deadline _ \<Rightarrow> []) evs)"

lemma body_dialogue_log:
  "body_dialogue lim ctx deadline bounded cn ident c = (result, cn', seen) \<Longrightarrow>
   \<exists>evs. cn_log cn' = cn_log cn @ evs \<and> sent_bytes evs \<in> {[], body_command ident @ [13, 10]}"
  by (auto simp: body_dialogue_def Cmd_def reply_on_def sent_bytes_def Let_def
      split: prod.splits option.splits if_splits sum.splits)

theorem bodyExchange_sends_one_line:
  assumes "NormalizeMessageID raw = Inr ident" "bodyExchange lim ctx now cn ident c = (result, cn', seen)"
  shows "\<exists>evs. cn_log cn' = cn_log cn @ evs \<and> sent_bytes evs \<in> {[], body_command ident @ [13, 10]} \<and>
    10 \<notin> set (butlast (sent_bytes evs))"
proof -
  obtain evs where "cn_log cn' = cn_log cn @ evs" "sent_bytes evs \<in> {[], body_command ident @ [13, 10]}"
    using assms(2) body_dialogue_log
    by (fastforce simp: bodyExchange_def Let_def sent_bytes_def split: prod.splits)
  moreover have "10 \<notin> set (body_command ident @ [13])"
    using NormalizeMessageID_valid [OF assms(1)] id_byte_ok_not by (auto simp: body_command_def list_all_iff)
  ultimately show ?thesis by (auto simp: butlast_append)
qed

theorem bodyExchange_sends_one_line_witness:
  "\<exists>(cn' :: conn) evs. cn_log cn' = cn_log sample_reply @ evs \<and>
    sent_bytes evs \<in> {[], body_command sample_ident @ [13, 10]} \<and> 10 \<notin> set (butlast (sent_bytes evs))"
proof -
  have n: "NormalizeMessageID (str ''<a>'') = Inr sample_ident" by code_simp
  obtain r cn' seen where "bodyExchange 0 sample_ctx 0 sample_reply sample_ident 0 = (r, cn', seen)"
    by (metis prod_cases3)
  from bodyExchange_sends_one_line [OF n this] show ?thesis by metis
qed

section \<open>Properties of a whole call\<close>

lemma not_receive_limit [simp]:
  "\<not> isReceiveLimit (StallError i (Transport e))" "\<not> isReceiveLimit (ArticleNotFoundError i c)"
  by (simp_all add: isReceiveLimit_def)

lemma bodyOnConn_stalled:
  assumes "bodyOnConn lim ctx now ctxErr cn ident c = (Inl err, cn', seen)" "IsStalled err"
  shows "err = StallError ident (Transport NetTimeout)" "unanswered cn" "stallTimeoutFrom ctx \<noteq> None"
proof -
  from assms(1) obtain bounded where "dialogue_end bounded ident cn cn' (Inl err)" "bounded \<longrightarrow> stallTimeoutFrom ctx \<noteq> None"
    by (rule bodyOnConn_end) (use assms(2) in auto)
  then show "err = StallError ident (Transport NetTimeout)" "unanswered cn" "stallTimeoutFrom ctx \<noteq> None"
    using assms(2) by (auto simp: dialogue_end_def split: nntp_error.splits)
qed

lemma body_dialogue_retired:
  "body_dialogue lim ctx deadline bounded cn ident c = (result, cn', seen) \<Longrightarrow> cn_retired cn' = cn_retired cn"
  by (auto simp: body_dialogue_def Let_def split: prod.splits option.splits if_splits sum.splits
      dest!: Cmd_sel reply_on_sel)

lemma bodyOnConn_retired:
  "bodyOnConn lim ctx now ctxErr cn ident c = (result, cn', seen) \<Longrightarrow> cn_retired cn' = cn_retired cn"
  using body_dialogue_retired
  by (fastforce simp: bodyOnConn_def bodyExchange_def Let_def split: prod.splits sum.splits if_splits)

lemma alloc_conn: "alloc cn cl = (j, cl') \<Longrightarrow> cl_conns cl' j = cn"
  by (auto simp: alloc_def)

lemma retire_sel [simp]:
  "cl_pool (retire cn cl) = cl_pool cl" "cl_next (retire cn cl) = cl_next cl" "cl_cfg (retire cn cl) = cl_cfg cl"
  by (auto simp: retire_def freeSlot_def wake_def uncount_def upd_conn_def split: option.split)

lemma replace_conn:
  assumes "replace (Inr fresh) (Some i) cl = (Inr j, cl')" "i < cl_next cl"
  shows "cl_conns cl' j = fresh" "j = cl_next cl"
  using assms by (auto simp: replace_def retire_def freeSlot_def wake_def uncount_def upd_conn_def
      adopt_def alloc_def split: prod.splits)

text \<open>
  A stall is a verdict on the article, never on the connection: \<open>BodyInto\<close> reports one only
  when the caller set a stall bound and a connection dialled for the retry, after the first one had
  failed, sent no status line before the bound ran out.
\<close>

theorem BodyInto_stall_is_fresh:
  assumes "BodyInto env raw c cl = (Inl err, cl', evs)" "IsStalled err"
    and "env_acquired env = Inr i" "i < cl_next cl"
  shows "\<exists>fresh. env_dialled env = Inr fresh \<and> unanswered fresh \<and> stallTimeoutFrom (env_ctx env) \<noteq> None"
proof -
  obtain ident where id: "NormalizeMessageID raw = Inr ident"
    using assms(1,2) by (auto simp: BodyInto_def NormalizeMessageID_def Let_def IsStalled_def split: if_splits)
  obtain r1 cn1 seen where b1: "bodyOnConn (env_limit env) (env_ctx env) (env_now env) (env_ctxErr1 env)
      (cl_conns cl i) ident c = (r1, cn1, seen)" by (metis prod_cases3)
  let ?cl = "upd_conn i (\<lambda>_. cn1) cl"
  have i: "i < cl_next ?cl" using assms(4) by (simp add: upd_conn_def)
  have broken: "cn_broken cn1"
  proof (rule ccontr)
    assume "\<not> cn_broken cn1"
    then have "r1 = Inl err" using assms(1,3) id b1 by (simp add: BodyInto_def Let_def)
    then show False
      using bodyOnConn_broken [of "env_limit env"] bodyOnConn_stalled(1) b1 assms(2) \<open>\<not> cn_broken cn1\<close> by fastforce
  qed
  let ?err = "case r1 of Inl err \<Rightarrow> err | Inr _ \<Rightarrow> Opaque []"
  obtain evs' where retry: "body_retry env ?err i ident c ?cl = (Inl err, cl', evs')"
    using assms(1,3) id b1 broken by (auto simp: BodyInto_def Let_def split: prod.splits)
  have "\<not> isReceiveLimit ?err" if "IsStalled ?err"
    using that bodyOnConn_stalled(1) b1 by (cases r1) fastforce+
  then obtain fresh j cl2 where rep: "env_dialled env = Inr fresh"
      "replace (Inr fresh) (Some i) ?cl = (Inr j, cl2)" "env_ctxErr2 env = None"
    using retry assms(2) by (auto simp: body_retry_def replace_def split: if_splits option.splits sum.splits prod.splits)
  obtain cn2 seen2 where "bodyOnConn (env_limit env) (env_ctx env) (env_now2 env) (env_ctxErr3 env)
      fresh ident c = (Inl err, cn2, seen2)"
    using retry rep replace_conn(1) [OF rep(2) i] assms(2) \<open>IsStalled ?err \<Longrightarrow> \<not> isReceiveLimit ?err\<close>
    by (auto simp: body_retry_def split: if_splits option.splits prod.splits)
  from bodyOnConn_stalled(2,3) [OF this assms(2)] show ?thesis using rep(1) by blast
qed

definition silent_conn :: conn where
  "silent_conn = \<lparr>cn_in = \<lparr>unread = [], bufsize = 16, tail = NetTimeout\<rparr>, cn_writable = True,
     cn_log = [], cn_broken = False, cn_retired = False\<rparr>"

definition sample_env :: body_env where
  "sample_env = \<lparr>env_acquired = Inr 0, env_limit = 0, env_ctx = sample_ctx, env_now = 0, env_ctxErr1 = None,
     env_dialled = Inr silent_conn, env_ctxErr2 = None, env_now2 = 9, env_ctxErr3 = None\<rparr>"

definition held_client :: client where
  "held_client = \<lparr>cl_cfg = \<lparr>Host = [], Port = 119, SSL = False, TLSServerName = [], Username = [], Password = [],
       MaxConnections = 2\<rparr>, cl_pool = [], cl_open = 1, cl_done = False, cl_freed = 0,
     cl_conns = (\<lambda>_. silent_conn), cl_next = 1\<rparr>"

lemma sample_stall:
  "fst (BodyInto sample_env sample_ident 0 held_client) = Inl (StallError sample_ident (Transport NetTimeout))"
  by code_simp

theorem BodyInto_stall_is_fresh_witness:
  "\<exists>fresh. env_dialled sample_env = Inr fresh \<and> unanswered fresh \<and> stallTimeoutFrom (env_ctx sample_env) \<noteq> None"
proof -
  obtain cl' evs where "BodyInto sample_env sample_ident 0 held_client =
      (Inl (StallError sample_ident (Transport NetTimeout)), cl', evs)"
    using sample_stall by (metis prod.collapse)
  from BodyInto_stall_is_fresh [OF this, of 0] show ?thesis
    by (simp add: sample_env_def held_client_def)
qed

text \<open>What releasing and retiring do to the number of connections that are out of the pool.\<close>

definition outstanding :: "client \<Rightarrow> int" where
  "outstanding cl = cl_open cl - int (length (cl_pool cl))"

definition pool_healthy :: "client \<Rightarrow> bool" where
  "pool_healthy cl \<longleftrightarrow> (\<forall>i \<in> set (cl_pool cl). \<not> cn_broken (cl_conns cl i))"

lemma upd_conn_sel [simp]:
  "cl_pool (upd_conn i f cl) = cl_pool cl" "cl_open (upd_conn i f cl) = cl_open cl"
  "cl_conns (upd_conn i f cl) = (cl_conns cl)(i := f (cl_conns cl i))" "cl_next (upd_conn i f cl) = cl_next cl"
  by (simp_all add: upd_conn_def)

lemma outstanding_upd [simp]: "outstanding (upd_conn i f cl) = outstanding cl"
  by (simp add: outstanding_def)

lemma pool_healthy_upd: "pool_healthy cl \<Longrightarrow> i \<notin> set (cl_pool cl) \<Longrightarrow> pool_healthy (upd_conn i f cl)"
  by (auto simp: pool_healthy_def)

lemma retire_outstanding:
  assumes "\<not> cn_retired (cl_conns cl i)"
  shows "outstanding (retire (Some i) cl) = outstanding cl - 1" "pool_healthy cl \<Longrightarrow> pool_healthy (retire (Some i) cl)"
  using assms by (auto simp: outstanding_def pool_healthy_def retire_def freeSlot_def wake_def uncount_def upd_conn_def
      close_conn_def Cmd_def log_event_def)

lemma release_outstanding:
  assumes "\<not> cn_retired (cl_conns cl i)"
  shows "outstanding (release (Some i) cl) = outstanding cl - 1" "pool_healthy cl \<Longrightarrow> pool_healthy (release (Some i) cl)"
  using assms retire_outstanding [of cl i] by (auto simp: release_def outstanding_def pool_healthy_def)

lemma replace_outstanding:
  assumes "\<not> cn_retired (cl_conns cl i)" "i < cl_next cl" "\<forall>j \<in> set (cl_pool cl). j < cl_next cl"
    and "replace d (Some i) cl = (r, cl')"
  shows "outstanding cl' = (case r of Inl _ \<Rightarrow> outstanding cl - 1 | Inr _ \<Rightarrow> outstanding cl) \<and>
    cl_pool cl' = cl_pool cl \<and> (pool_healthy cl \<longrightarrow> pool_healthy cl')"
proof (cases d)
  case (Inl err)
  then show ?thesis
    using assms retire_outstanding [of cl i] by (auto simp: replace_def)
next
  case (Inr fresh)
  let ?cl = "adopt (cl\<lparr>cl_conns := (cl_conns cl)(cl_next cl := fresh), cl_next := Suc (cl_next cl)\<rparr>)"
  have "r = Inr (cl_next cl)" "cl' = retire (Some i) ?cl"
    using assms(4) Inr by (auto simp: replace_def alloc_def)
  moreover have "outstanding ?cl = outstanding cl + 1" "\<not> cn_retired (cl_conns ?cl i)" "cl_pool ?cl = cl_pool cl"
      "pool_healthy cl \<longrightarrow> pool_healthy ?cl"
    using assms(1-3) by (auto simp: outstanding_def adopt_def pool_healthy_def)
  ultimately show ?thesis
    using retire_outstanding [of ?cl i] by simp
qed

lemma body_retry_gives_back:
  assumes "body_retry env err i ident c cl = (r, cl', evs)" "i < cl_next cl" "\<not> cn_retired (cl_conns cl i)"
    and "\<forall>j \<in> set (cl_pool cl). j < cl_next cl" "\<forall>fresh. env_dialled env = Inr fresh \<longrightarrow> \<not> cn_retired fresh"
  shows "outstanding cl' = outstanding cl - 1 \<and> (pool_healthy cl \<longrightarrow> pool_healthy cl')"
proof (cases "env_ctxErr1 env \<noteq> None \<or> isReceiveLimit err")
  case True
  then show ?thesis using assms(1,3) retire_outstanding [of cl i] by (auto simp: body_retry_def)
next
  case False
  obtain rr cl1 where rep: "replace (env_dialled env) (Some i) cl = (rr, cl1)" by fastforce
  note out = replace_outstanding [OF assms(3,2,4) rep]
  show ?thesis
  proof (cases rr)
    case (Inl e)
    then show ?thesis using assms(1) False rep out by (auto simp: body_retry_def)
  next
    case (Inr j)
    then obtain fresh where fresh: "env_dialled env = Inr fresh"
      using rep by (cases "env_dialled env") (auto simp: replace_def)
    then have j: "cl_conns cl1 j = fresh" "j \<notin> set (cl_pool cl1)" "\<not> cn_retired fresh"
      using replace_conn [of fresh i cl j cl1] rep Inr assms(2,4,5) out by auto
    have upd: "outstanding (upd_conn j f cl1) = outstanding cl" "pool_healthy cl \<longrightarrow> pool_healthy (upd_conn j f cl1)" for f
      using out Inr pool_healthy_upd j(2) by auto
    show ?thesis
    proof (cases "env_ctxErr2 env")
      case (Some e)
      let ?cl = "upd_conn j (\<lambda>cn. cn\<lparr>cn_broken := True\<rparr>) cl1"
      show ?thesis
        using assms(1) False rep Inr Some j upd retire_outstanding [of ?cl j] by (auto simp: body_retry_def)
    next
      case None
      obtain r2 cn2 seen2 where b: "bodyOnConn (env_limit env) (env_ctx env) (env_now2 env) (env_ctxErr3 env)
          (cl_conns cl1 j) ident c = (r2, cn2, seen2)" by (metis prod_cases3)
      then show ?thesis
        using assms(1) False rep Inr None j upd bodyOnConn_retired [OF b]
          release_outstanding [of "upd_conn j (\<lambda>_. cn2) cl1" j] by (auto simp: body_retry_def)
    qed
  qed
qed

text \<open>
  C17. Whatever happens during a call, \<open>BodyInto\<close> gives back what it took: afterwards exactly one
  connection less is out of the pool, whether it was put back, retired, or replaced by a fresh one
  that was put back or retired in turn; and no broken connection is left in the pool.
\<close>

theorem BodyInto_gives_back:
  assumes "BodyInto env raw c cl = (r, cl', evs)" "NormalizeMessageID raw = Inr ident"
    and "env_acquired env = Inr i" "i < cl_next cl" "\<not> cn_retired (cl_conns cl i)" "i \<notin> set (cl_pool cl)"
    and "\<forall>j \<in> set (cl_pool cl). j < cl_next cl" "pool_healthy cl"
    and "\<forall>fresh. env_dialled env = Inr fresh \<longrightarrow> \<not> cn_retired fresh"
  shows "outstanding cl' = outstanding cl - 1 \<and> pool_healthy cl'"
proof -
  obtain r1 cn1 seen where b: "bodyOnConn (env_limit env) (env_ctx env) (env_now env) (env_ctxErr1 env)
      (cl_conns cl i) ident c = (r1, cn1, seen)" by (metis prod_cases3)
  let ?cl = "upd_conn i (\<lambda>_. cn1) cl"
  have "\<not> cn_retired cn1" "pool_healthy ?cl"
    using bodyOnConn_retired [OF b] assms(5,6,8) pool_healthy_upd by auto
  then show ?thesis
    using assms b release_outstanding [of ?cl i]
      body_retry_gives_back [of env "case r1 of Inl err \<Rightarrow> err | Inr _ \<Rightarrow> Opaque []" i ident c ?cl r cl']
    by (auto simp: BodyInto_def Let_def split: if_splits prod.splits)
qed

theorem BodyInto_gives_back_witness:
  "outstanding (fst (snd (BodyInto sample_env sample_ident 0 held_client))) = outstanding held_client - 1 \<and>
    pool_healthy (fst (snd (BodyInto sample_env sample_ident 0 held_client)))"
proof -
  have id: "NormalizeMessageID sample_ident = Inr sample_ident" by code_simp
  obtain r cl' evs where "BodyInto sample_env sample_ident 0 held_client = (r, cl', evs)" by (metis prod_cases3)
  from BodyInto_gives_back [OF this id, of 0] this show ?thesis
    by (simp add: sample_env_def held_client_def silent_conn_def pool_healthy_def)
qed

end
