(* ===== verification/Nzb.thy ===== *)
theory Nzb
  imports Nntp_Wire
begin

text \<open>
  NZB documents, \<open>internal/usenet/nzb\<close>: the typed model \<open>Parse\<close> builds from the decoded XML, the
  order and the estimated offsets of segments, and the classification of files by their names.
  XML decoding itself is \<open>encoding/xml\<close>: \<open>Parse\<close> starts from the raw structures it fills in. The
  argument \<open>u\<close> is the Unicode lower-case mapping for names outside ASCII.
\<close>

section \<open>Documents\<close>

record segment =
  sg_Bytes :: int
  sg_Number :: int
  sg_MessageID :: bytes

record nzb_file =
  fl_Poster :: bytes
  fl_Date :: int
  fl_Subject :: bytes
  fl_Groups :: "bytes list"
  fl_Segments :: "segment list"

record nzb =
  nz_Files :: "nzb_file list"
  nz_Password :: bytes
  nz_Meta :: "bytes \<rightharpoonup> bytes"

record xmlMeta =
  xm_Type :: bytes
  xm_Value :: bytes

record xmlSegment =
  xs_Bytes :: bytes
  xs_Number :: bytes
  xs_MessageID :: bytes

record xmlFile =
  xf_Poster :: bytes
  xf_Date :: bytes
  xf_Subject :: bytes
  xf_Groups :: "bytes list"
  xf_Segments :: "xmlSegment list"

record xmlNZB =
  xn_Meta :: "xmlMeta list"
  xn_Files :: "xmlFile list"

datatype nzb_error =
    XmlDecode
  | NoFiles
  | BadMessageID int nntp_error
  | NoValidFiles

section \<open>Parsing\<close>

fun parse_meta :: "xmlMeta list \<Rightarrow> (bytes \<rightharpoonup> bytes) \<Rightarrow> (bytes \<rightharpoonup> bytes)" where
  "parse_meta [] meta = meta"
| "parse_meta (m # ms) meta =
     parse_meta ms (if xm_Type m \<noteq> [] then meta(xm_Type m \<mapsto> TrimSpace (xm_Value m)) else meta)"

fun parse_segments :: "xmlSegment list \<Rightarrow> nzb_error + segment list" where
  "parse_segments [] = Inr []"
| "parse_segments (rs # rest) =
     (let bytes = fst (ParseInt10 (xs_Bytes rs));
          num = fst (Atoi (xs_Number rs));
          msgID = TrimSpace (xs_MessageID rs)
      in if msgID = [] then parse_segments rest
         else case NormalizeMessageID msgID of
           Inl err \<Rightarrow> Inl (BadMessageID num err)
         | Inr msgID' \<Rightarrow>
             (case parse_segments rest of
                Inl err \<Rightarrow> Inl err
              | Inr segs \<Rightarrow>
                  Inr (\<lparr>sg_Bytes = bytes, sg_Number = num, sg_MessageID = msgID'\<rparr> # segs)))"

fun parse_files :: "xmlFile list \<Rightarrow> nzb_error + nzb_file list" where
  "parse_files [] = Inr []"
| "parse_files (rf # rest) =
     (case parse_segments (xf_Segments rf) of
        Inl err \<Rightarrow> Inl err
      | Inr segs \<Rightarrow>
          (case parse_files rest of
             Inl err \<Rightarrow> Inl err
           | Inr files \<Rightarrow>
               Inr (if segs = [] then files
                    else \<lparr>fl_Poster = xf_Poster rf, fl_Date = fst (ParseInt10 (xf_Date rf)),
                          fl_Subject = xf_Subject rf, fl_Groups = xf_Groups rf,
                          fl_Segments = segs\<rparr> # files)))"

text \<open>\<open>raw\<close> is what the XML decoder returned, \<open>None\<close> for its error.\<close>

definition Parse :: "xmlNZB option \<Rightarrow> nzb_error + nzb" where
  "Parse raw =
     (case raw of
        None \<Rightarrow> Inl XmlDecode
      | Some x \<Rightarrow>
          if xn_Files x = [] then Inl NoFiles
          else let meta = parse_meta (xn_Meta x) Map.empty in
            case parse_files (xn_Files x) of
              Inl err \<Rightarrow> Inl err
            | Inr files \<Rightarrow>
                if files = [] then Inl NoValidFiles
                else Inr \<lparr>nz_Files = files,
                          nz_Password = (case meta (str ''password'') of Some p \<Rightarrow> p | None \<Rightarrow> []),
                          nz_Meta = meta\<rparr>)"

section \<open>Segments\<close>

definition SortSegmentsByNumber :: "segment shuffle \<Rightarrow> segment list \<Rightarrow> segment list" where
  "SortSegmentsByNumber shuffle segs = sort_Slice shuffle sg_Number segs"

fun offsets_loop :: "int \<Rightarrow> segment list \<Rightarrow> int list" where
  "offsets_loop off [] = []"
| "offsets_loop off (s # segs) = off # offsets_loop (i64 (off + sg_Bytes s)) segs"

definition EstimatedByteOffsets :: "segment list \<Rightarrow> int list" where
  "EstimatedByteOffsets segs = offsets_loop 0 segs"

definition File_TotalBytes :: "nzb_file \<Rightarrow> int" where
  "File_TotalBytes f = foldl (\<lambda>tot s. i64 (tot + sg_Bytes s)) 0 (fl_Segments f)"

definition TotalBytes :: "nzb \<Rightarrow> int" where
  "TotalBytes n = foldl (\<lambda>tot f. i64 (tot + File_TotalBytes f)) 0 (nz_Files n)"

definition TotalSegments :: "nzb \<Rightarrow> nat" where
  "TotalSegments n = foldl (\<lambda>tot f. tot + length (fl_Segments f)) 0 (nz_Files n)"

section \<open>File names\<close>

text \<open>The first match of \<open>"([^"]+)"\<close>: what follows a quote, up to the next quote, when that is
  not empty.\<close>

fun subjectFilename :: "bytes \<Rightarrow> bytes option" where
  "subjectFilename [] = None"
| "subjectFilename (c # cs) =
     (if c = 34 \<and> takeWhile (\<lambda>b. b \<noteq> 34) cs \<noteq> [] \<and> dropWhile (\<lambda>b. b \<noteq> 34) cs \<noteq> []
      then Some (takeWhile (\<lambda>b. b \<noteq> 34) cs)
      else subjectFilename cs)"

definition is_digit :: "byte \<Rightarrow> bool" where
  "is_digit b \<longleftrightarrow> 48 \<le> b \<and> b \<le> 57"

definition re_space :: "byte \<Rightarrow> bool" where
  \<comment> \<open>the class \<open>\s\<close>\<close>
  "re_space b \<longleftrightarrow> b = 9 \<or> b = 10 \<or> b = 12 \<or> b = 13 \<or> b = 32"

text \<open>One or more digits at the front: what is left after them.\<close>

definition skip_digits :: "bytes \<Rightarrow> bytes option" where
  "skip_digits s = (if s \<noteq> [] \<and> is_digit (hd s) then Some (dropWhile is_digit s) else None)"

text \<open>A match of \<open>\s*\(\d+/\d+\)\s*\<close> at the front: what is left after it.\<close>

definition yencPart_match :: "bytes \<Rightarrow> bytes option" where
  "yencPart_match s =
     Option.bind (CutPrefix (dropWhile re_space s) (str ''('')) (\<lambda>s1.
     Option.bind (skip_digits s1) (\<lambda>s2.
     Option.bind (CutPrefix s2 (str ''/'')) (\<lambda>s3.
     Option.bind (skip_digits s3) (\<lambda>s4.
     Option.bind (CutPrefix s4 (str '')'')) (\<lambda>s5.
     Some (dropWhile re_space s5))))))"

lemma CutPrefix_length: "CutPrefix s p = Some r \<Longrightarrow> length r + length p = length s"
  by (auto simp: CutPrefix_def HasPrefix_def split: if_splits)

lemma skip_digits_length: "skip_digits s = Some r \<Longrightarrow> length r < length s"
  by (cases s) (auto simp: skip_digits_def less_Suc_eq_le length_dropWhile_le split: if_splits)

lemma yencPart_match_length:
  assumes "yencPart_match s = Some r"
  shows "length r < length s"
proof -
  obtain s1 s2 s3 s4 s5 where steps: "CutPrefix (dropWhile re_space s) (str ''('') = Some s1" "skip_digits s1 = Some s2"
      "CutPrefix s2 (str ''/'') = Some s3" "skip_digits s3 = Some s4" "CutPrefix s4 (str '')'') = Some s5"
      "r = dropWhile re_space s5"
    using assms by (auto simp: yencPart_match_def bind_eq_Some_conv simp del: str_Cons)
  show ?thesis
    using CutPrefix_length [OF steps(1)] skip_digits_length [OF steps(2)] CutPrefix_length [OF steps(3)]
      skip_digits_length [OF steps(4)] CutPrefix_length [OF steps(5)]
      length_dropWhile_le [of re_space s] length_dropWhile_le [of re_space s5] steps(6)
    by (simp del: str_Cons)
qed

function strip_yencPart :: "bytes \<Rightarrow> bytes" where
  \<comment> \<open>\<open>yencPartRe.ReplaceAllString(s, "")\<close>\<close>
  "strip_yencPart s =
     (case yencPart_match s of
        Some r \<Rightarrow> strip_yencPart r
      | None \<Rightarrow> (case s of [] \<Rightarrow> [] | c # cs \<Rightarrow> c # strip_yencPart cs))"
  by pat_completeness auto
termination
  by (relation "measure length") (auto dest: yencPart_match_length)

declare strip_yencPart.simps [simp del]

definition sanitizeFilename :: "bytes \<Rightarrow> bytes" where
  "sanitizeFilename s =
     (let s1 = strip_yencPart s;
          s2 = TrimSpace (ReplaceAll s1 (str ''yEnc'') [])
      in foldl (\<lambda>acc c. ReplaceAll acc [c] [95]) s2 [47, 92, 58, 42, 63, 34, 60, 62, 124])"

definition Filename :: "nzb_file \<Rightarrow> bytes" where
  "Filename f = (case subjectFilename (fl_Subject f) of Some n \<Rightarrow> n | None \<Rightarrow> sanitizeFilename (fl_Subject f))"

definition lower_ext :: "unicode_lower \<Rightarrow> bytes \<Rightarrow> bytes" where
  \<comment> \<open>\<open>strings.ToLower(filepath.Ext(name))\<close>\<close>
  "lower_ext u name = ToLower u (Ext name)"

definition Extension :: "unicode_lower \<Rightarrow> nzb_file \<Rightarrow> bytes" where
  "Extension u f = lower_ext u (Filename f)"

section \<open>Classification\<close>

definition isMetadataFile :: "unicode_lower \<Rightarrow> bytes \<Rightarrow> bool" where
  "isMetadataFile u name \<longleftrightarrow>
     lower_ext u name \<in> set (map str [''.par2'', ''.nfo'', ''.sfv'', ''.nzb'', ''.txt'', ''.jpg'', ''.png'', ''.url''])"

definition isAlphaNum :: "byte \<Rightarrow> bool" where
  "isAlphaNum b \<longleftrightarrow> 97 \<le> b \<and> b \<le> 122 \<or> 48 \<le> b \<and> b \<le> 57"

definition isSampleFile :: "unicode_lower \<Rightarrow> bytes \<Rightarrow> bool" where
  "isSampleFile u name =
     (let lower = ToLower u name in
      case Index lower (str ''sample'') of
        None \<Rightarrow> False
      | Some idx \<Rightarrow>
          if 0 < idx \<and> isAlphaNum (lower ! (idx - 1)) then False
          else if idx + 6 < length lower \<and> isAlphaNum (lower ! (idx + 6)) then False
          else True)"

definition atoi_ok :: "bytes \<Rightarrow> bool" where
  "atoi_ok s \<longleftrightarrow> snd (Atoi s) = None"

definition isRarFile :: "unicode_lower \<Rightarrow> bytes \<Rightarrow> bool" where
  "isRarFile u name =
     (let ext = Ext (ToLower u name) in
      if ext = str ''.rar'' then True
      else if length ext = 4 \<and> 114 \<le> ext ! 1 \<and> ext ! 1 \<le> 122 then atoi_ok (drop 2 ext)
      else if length ext = 4 then atoi_ok (drop 1 ext)
      else False)"

text \<open>The letter of a rolled-over volume extension, \<open>None\<close> for the result 0.\<close>

definition rolloverLetter :: "unicode_lower \<Rightarrow> bytes \<Rightarrow> byte option" where
  "rolloverLetter u name =
     (let ext = lower_ext u name in
      if length ext \<noteq> 4 \<or> ext ! 1 < 116 \<or> 122 < ext ! 1 then None
      else if \<not> atoi_ok (drop 2 ext) then None
      else Some (ext ! 1))"

record rollover_scan =
  ro_numbers :: "(byte \<times> bytes) list" \<comment> \<open>the set of (letter, extension)\<close>
  ro_classic :: bool
  ro_zip :: bool

fun rollover_loop :: "unicode_lower \<Rightarrow> nzb_file list \<Rightarrow> rollover_scan \<Rightarrow> rollover_scan" where
  "rollover_loop u [] acc = acc"
| "rollover_loop u (f # fs) acc =
     (let name = Filename f in
      rollover_loop u fs
       (case rolloverLetter u name of
          Some l \<Rightarrow> acc\<lparr>ro_numbers := List.insert (l, lower_ext u name) (ro_numbers acc)\<rparr>
        | None \<Rightarrow>
            if EqualFold (Ext name) (str ''.zip'') then acc\<lparr>ro_zip := True\<rparr>
            else if isRarFile u name then acc\<lparr>ro_classic := True\<rparr>
            else acc))"

definition rolloverLetters :: "unicode_lower \<Rightarrow> nzb \<Rightarrow> byte \<Rightarrow> bool" where
  "rolloverLetters u n l =
     (let acc = rollover_loop u (nz_Files n) \<lparr>ro_numbers = [], ro_classic = False, ro_zip = False\<rparr>;
          exts = filter (\<lambda>p. fst p = l) (ro_numbers acc)
      in exts \<noteq> [] \<and> (ro_classic acc \<or> 2 \<le> length exts) \<and> \<not> (l = 122 \<and> ro_zip acc))"

definition rar_member :: "unicode_lower \<Rightarrow> (byte \<Rightarrow> bool) \<Rightarrow> nzb_file \<Rightarrow> bool" where
  "rar_member u rollover f =
     (case rolloverLetter u (Filename f) of
        Some l \<Rightarrow> rollover l
      | None \<Rightarrow> isRarFile u (Filename f))"

definition RarFiles :: "unicode_lower \<Rightarrow> nzb \<Rightarrow> nzb_file list" where
  "RarFiles u n = (let rollover = rolloverLetters u n in filter (rar_member u rollover) (nz_Files n))"

definition HasRars :: "unicode_lower \<Rightarrow> nzb \<Rightarrow> bool" where
  "HasRars u n \<longleftrightarrow> 0 < length (RarFiles u n)"

definition ContentFiles :: "unicode_lower \<Rightarrow> nzb \<Rightarrow> nzb_file list" where
  "ContentFiles u n =
     filter (\<lambda>f. \<not> (isMetadataFile u (Filename f) \<or> isSampleFile u (Filename f))) (nz_Files n)"

definition is_par2 :: "unicode_lower \<Rightarrow> nzb_file \<Rightarrow> bool" where
  "is_par2 u f \<longleftrightarrow> lower_ext u (Filename f) = str ''.par2''"

definition Par2Files :: "unicode_lower \<Rightarrow> nzb \<Rightarrow> nzb_file list" where
  "Par2Files u n = filter (is_par2 u) (nz_Files n)"

definition HasPar2 :: "unicode_lower \<Rightarrow> nzb \<Rightarrow> bool" where
  "HasPar2 u n \<longleftrightarrow> list_ex (is_par2 u) (nz_Files n)"

text \<open>A match of \<open>(?i)\.vol\d+\+\d+\.par2$\<close> at the front, and anywhere.\<close>

definition par2Vol_here :: "bytes \<Rightarrow> bool" where
  "par2Vol_here s \<longleftrightarrow>
     (case CutPrefix (map lower_byte s) (str ''.vol'') of None \<Rightarrow> False | Some s1 \<Rightarrow>
      case skip_digits s1 of None \<Rightarrow> False | Some s2 \<Rightarrow>
      case CutPrefix s2 (str ''+'') of None \<Rightarrow> False | Some s3 \<Rightarrow>
      case skip_digits s3 of None \<Rightarrow> False | Some s4 \<Rightarrow> s4 = str ''.par2'')"

fun par2VolRe :: "bytes \<Rightarrow> bool" where
  "par2VolRe [] = False"
| "par2VolRe (c # cs) = (par2Vol_here (c # cs) \<or> par2VolRe cs)"

text \<open>Files are identified by their position, as the code does with pointers into the slice.\<close>

definition smaller :: "nzb \<Rightarrow> nat \<Rightarrow> nat option \<Rightarrow> bool" where
  "smaller n i best =
     (case best of None \<Rightarrow> True
      | Some j \<Rightarrow> File_TotalBytes (nz_Files n ! i) < File_TotalBytes (nz_Files n ! j))"

fun par2Index_loop :: "unicode_lower \<Rightarrow> nzb \<Rightarrow> nat list \<Rightarrow> nat option \<Rightarrow> nat option \<Rightarrow> nat option \<times> nat option" where
  "par2Index_loop u n [] index vol = (index, vol)"
| "par2Index_loop u n (i # is) index vol =
     (let f = nz_Files n ! i; name = Filename f in
      if \<not> is_par2 u f then par2Index_loop u n is index vol
      else if \<not> par2VolRe name
      then par2Index_loop u n is (if smaller n i index then Some i else index) vol
      else par2Index_loop u n is index (if smaller n i vol then Some i else vol))"

definition Par2IndexFile :: "unicode_lower \<Rightarrow> nzb \<Rightarrow> nat option" where
  "Par2IndexFile u n =
     (case par2Index_loop u n [0..<length (nz_Files n)] None None of
        (Some i, _) \<Rightarrow> Some i
      | (None, vol) \<Rightarrow> vol)"

definition Par2VolumeFiles :: "unicode_lower \<Rightarrow> nzb \<Rightarrow> nzb_file list" where
  "Par2VolumeFiles u n =
     (let index = Par2IndexFile u n in
      filter (\<lambda>f. is_par2 u f \<and>
        \<not> (case index of Some i \<Rightarrow> fl_Subject f = fl_Subject (nz_Files n ! i) | None \<Rightarrow> False)) (nz_Files n))"

fun largest_loop :: "nzb \<Rightarrow> nat list \<Rightarrow> nat \<Rightarrow> nat" where
  "largest_loop n [] best = best"
| "largest_loop n (i # is) best =
     largest_loop n is
       (if File_TotalBytes (nz_Files n ! best) < File_TotalBytes (nz_Files n ! i) then i else best)"

definition LargestFile :: "nzb \<Rightarrow> nat option" where
  "LargestFile n = (if nz_Files n = [] then None else Some (largest_loop n [1..<length (nz_Files n)] 0))"

text \<open>
  \<open>float64(hexChars)/float64(len(s)) > 0.8\<close>: the quotient of two lengths below \<open>2^50\<close> is above
  the constant exactly when the fraction is above 4/5; for the empty string it is not a number.
\<close>

definition isHexLike :: "bytes \<Rightarrow> bool" where
  "isHexLike s \<longleftrightarrow>
     4 * length s < 5 * length (filter (\<lambda>c. 48 \<le> c \<and> c \<le> 57 \<or> 97 \<le> c \<and> c \<le> 102 \<or> 65 \<le> c \<and> c \<le> 70) s)"

definition IsObfuscatedName :: "bytes \<Rightarrow> bool" where
  "IsObfuscatedName name = (let b = TrimSuffix name (Ext name) in 10 < length b \<and> isHexLike b)"

definition IsObfuscated :: "nzb \<Rightarrow> bool" where
  "IsObfuscated n = list_ex (\<lambda>f. Filename f \<noteq> [] \<and> IsObfuscatedName (Filename f)) (nz_Files n)"

end
