(* ===== verification/Nzb_Props.thy ===== *)
theory Nzb_Props
  imports Nzb Nntp_Wire_Props
begin

text \<open>
  Properties of NZB documents: what a parsed document satisfies, the byte layout estimated from its
  segments, and how its files divide into archive volumes, parity index and recovery volumes.
\<close>

section \<open>Parsing\<close>

definition segment_ok :: "segment \<Rightarrow> bool" where
  "segment_ok s \<longleftrightarrow> in_i64 (sg_Bytes s) \<and> in_i64 (sg_Number s) \<and> NormalizeMessageID (sg_MessageID s) = Inr (sg_MessageID s)"

definition nzb_ok :: "nzb \<Rightarrow> bool" where
  "nzb_ok n \<longleftrightarrow> nz_Files n \<noteq> [] \<and>
     list_all (\<lambda>f. fl_Segments f \<noteq> [] \<and> list_all segment_ok (fl_Segments f)) (nz_Files n)"

lemma parse_segments_ok: "parse_segments rs = Inr segs \<Longrightarrow> list_all segment_ok segs"
proof (induction rs arbitrary: segs)
  case (Cons r rs)
  show ?case
  proof (cases "TrimSpace (xs_MessageID r) = []")
    case False
    with Cons.prems obtain i segs' where "NormalizeMessageID (TrimSpace (xs_MessageID r)) = Inr i"
        "parse_segments rs = Inr segs'"
        "segs = \<lparr>sg_Bytes = fst (ParseInt10 (xs_Bytes r)), sg_Number = fst (Atoi (xs_Number r)), sg_MessageID = i\<rparr> # segs'"
      by (auto simp: Let_def split: sum.splits)
    then show ?thesis
      using Cons.IH NormalizeMessageID_valid NormalizeMessageID_bare
      by (auto simp: segment_ok_def in_i64_ParseInt10 Atoi_def)
  qed (use Cons in simp)
qed simp

lemma parse_files_ok:
  "parse_files rf = Inr files \<Longrightarrow>
   list_all (\<lambda>f. fl_Segments f \<noteq> [] \<and> list_all segment_ok (fl_Segments f)) files"
  by (induction rf arbitrary: files) (auto split: sum.splits if_splits dest: parse_segments_ok)

text \<open>How many segments a raw document has that carry a message ID at all.\<close>

definition raw_segments :: "xmlNZB \<Rightarrow> nat" where
  "raw_segments x = sum_list (map (\<lambda>f. length (filter (\<lambda>s. TrimSpace (xs_MessageID s) \<noteq> []) (xf_Segments f))) (xn_Files x))"

lemma parse_segments_length:
  "parse_segments rs = Inr segs \<Longrightarrow> length segs = length (filter (\<lambda>s. TrimSpace (xs_MessageID s) \<noteq> []) rs)"
  by (induction rs arbitrary: segs) (auto simp: Let_def split: sum.splits if_splits)

lemma parse_files_length:
  "parse_files rf = Inr files \<Longrightarrow> sum_list (map (\<lambda>f. length (fl_Segments f)) files) =
     sum_list (map (\<lambda>f. length (filter (\<lambda>s. TrimSpace (xs_MessageID s) \<noteq> []) (xf_Segments f))) rf)"
proof (induction rf arbitrary: files)
  case (Cons f rf)
  then show ?case
    by (auto split: sum.splits if_splits dest: parse_segments_length)
qed simp

lemma TotalSegments_sum: "TotalSegments n = sum_list (map (\<lambda>f. length (fl_Segments f)) (nz_Files n))"
proof -
  have "foldl (\<lambda>tot f. tot + length (fl_Segments f)) k fs = k + sum_list (map (\<lambda>f. length (fl_Segments f)) fs)"
    for k and fs :: "nzb_file list"
    by (induction fs arbitrary: k) auto
  then show ?thesis by (simp add: TotalSegments_def)
qed

text \<open>
  C18. A document that \<open>Parse\<close> accepts has files, every file has segments, and every segment has
  64-bit numbers and a message ID that is already in normal form, so that it is one printable NNTP
  argument; no segment that names an article was dropped.
\<close>

theorem Parse_ok:
  assumes "Parse (Some x) = Inr n"
  shows "nzb_ok n \<and> TotalSegments n = raw_segments x"
proof -
  obtain files where "parse_files (xn_Files x) = Inr files" "nz_Files n = files" "files \<noteq> []"
    using assms by (auto simp: Parse_def Let_def split: if_splits sum.splits)
  then show ?thesis
    using parse_files_ok parse_files_length by (auto simp: nzb_ok_def TotalSegments_sum raw_segments_def)
qed

definition sample_xml :: xmlNZB where
  "sample_xml = \<lparr>xn_Meta = [], xn_Files =
     [\<lparr>xf_Poster = [], xf_Date = str ''12'', xf_Subject = str ''s'', xf_Groups = [],
       xf_Segments = [\<lparr>xs_Bytes = str ''700'', xs_Number = str ''1'', xs_MessageID = str '' <a@b> ''\<rparr>,
                      \<lparr>xs_Bytes = [], xs_Number = str ''2'', xs_MessageID = str ''  ''\<rparr>]\<rparr>]\<rparr>"

theorem Parse_ok_witness:
  "nzb_ok (case Parse (Some sample_xml) of Inr n \<Rightarrow> n) \<and> TotalSegments (case Parse (Some sample_xml) of Inr n \<Rightarrow> n) = raw_segments sample_xml"
proof -
  have "case Parse (Some sample_xml) of Inr n \<Rightarrow> True | Inl _ \<Rightarrow> False" by code_simp
  then obtain n where n: "Parse (Some sample_xml) = Inr n" by (auto split: sum.splits)
  from Parse_ok [OF n] show ?thesis by (simp add: n)
qed

section \<open>Layout\<close>

lemma offsets_loop_length [simp]: "length (offsets_loop off segs) = length segs"
  by (induction segs arbitrary: off) auto

lemma offsets_loop_nth:
  assumes "i < length segs" "0 \<le> off" "\<forall>s \<in> set segs. 0 \<le> sg_Bytes s"
    and "off + sum_list (map sg_Bytes segs) \<le> max_i64"
  shows "offsets_loop off segs ! i = off + sum_list (map sg_Bytes (take i segs))"
  using assms
proof (induction segs arbitrary: off i)
  case (Cons s segs)
  have nonneg: "0 \<le> sum_list (map sg_Bytes segs)"
    using Cons.prems(3) by (intro sum_list_nonneg) auto
  then have "i64 (off + sg_Bytes s) = off + sg_Bytes s"
    using Cons.prems by (intro i64_nonneg) auto
  then show ?case
    using Cons.IH [of _ "off + sg_Bytes s"] Cons.prems by (cases i) (auto simp: add.assoc)
qed simp

text \<open>
  The layout both the assembler and the stream index start from: the sorted segments are the
  same segments in ascending order of their number, whatever \<open>sort.Slice\<close> does with equal ones, and
  each estimated offset is the sum of the sizes before it, as long as the sizes are not negative and
  their sum is a 64-bit number.
\<close>

theorem layout_of_segments:
  assumes "rearranges shuffle segs" "\<forall>s \<in> set segs. 0 \<le> sg_Bytes s"
    and "sum_list (map sg_Bytes segs) \<le> max_i64" "i < length segs"
  shows "mset (SortSegmentsByNumber shuffle segs) = mset segs \<and>
    sorted (map sg_Number (SortSegmentsByNumber shuffle segs)) \<and>
    EstimatedByteOffsets (SortSegmentsByNumber shuffle segs) ! i =
      sum_list (map sg_Bytes (take i (SortSegmentsByNumber shuffle segs)))"
proof -
  let ?s = "SortSegmentsByNumber shuffle segs"
  have m: "mset ?s = mset segs" "sorted (map sg_Number ?s)"
    using slice.sort_perm [OF assms(1)] slice.sort_sorted by (simp_all add: SortSegmentsByNumber_def)
  then have sums: "sum_list (map sg_Bytes ?s) = sum_list (map sg_Bytes segs)" "set ?s = set segs" "length ?s = length segs"
    by (metis mset_map sum_mset_sum_list, metis set_mset_mset, metis size_mset)
  then have "EstimatedByteOffsets ?s ! i = 0 + sum_list (map sg_Bytes (take i ?s))"
    unfolding EstimatedByteOffsets_def using assms by (intro offsets_loop_nth) auto
  with m show ?thesis by simp
qed

theorem layout_of_segments_witness:
  "EstimatedByteOffsets (SortSegmentsByNumber rev
     [\<lparr>sg_Bytes = 5, sg_Number = 2, sg_MessageID = []\<rparr>, \<lparr>sg_Bytes = 7, sg_Number = 1, sg_MessageID = []\<rparr>]) ! 1 = 7"
  using layout_of_segments [of rev "[\<lparr>sg_Bytes = 5, sg_Number = 2, sg_MessageID = []\<rparr>, \<lparr>sg_Bytes = 7, sg_Number = 1, sg_MessageID = []\<rparr>]" 1]
  by (simp add: rearranges_def SortSegmentsByNumber_def sort_Slice_def)

section \<open>Parity files\<close>

text \<open>\<open>best P S r\<close>: \<open>r\<close> is a smallest file among those of \<open>S\<close> with \<open>P\<close>.\<close>

definition best :: "nzb \<Rightarrow> (nat \<Rightarrow> bool) \<Rightarrow> nat set \<Rightarrow> nat option \<Rightarrow> bool" where
  "best n P S r \<longleftrightarrow>
     (case r of
        None \<Rightarrow> \<forall>i \<in> S. \<not> P i
      | Some j \<Rightarrow> j \<in> S \<and> P j \<and>
          (\<forall>i \<in> S. P i \<longrightarrow> File_TotalBytes (nz_Files n ! j) \<le> File_TotalBytes (nz_Files n ! i)))"

lemma best_step:
  "best n P S r \<Longrightarrow> best n P (insert i S) (if P i \<and> smaller n i r then Some i else r)"
  by (cases r) (auto simp: best_def smaller_def)

lemma par2Index_loop_best:
  assumes "best n (\<lambda>i. is_par2 u (nz_Files n ! i) \<and> \<not> par2VolRe (Filename (nz_Files n ! i))) S index"
    and "best n (\<lambda>i. is_par2 u (nz_Files n ! i) \<and> par2VolRe (Filename (nz_Files n ! i))) S vol"
    and "par2Index_loop u n is index vol = (index', vol')"
  shows "best n (\<lambda>i. is_par2 u (nz_Files n ! i) \<and> \<not> par2VolRe (Filename (nz_Files n ! i))) (S \<union> set is) index' \<and>
    best n (\<lambda>i. is_par2 u (nz_Files n ! i) \<and> par2VolRe (Filename (nz_Files n ! i))) (S \<union> set is) vol'"
  using assms
proof (induction "is" arbitrary: S index vol)
  case (Cons i "is")
  from best_step [OF Cons.prems(1), of i] best_step [OF Cons.prems(2), of i] Cons.prems(3)
    Cons.IH [of "insert i S"]
  show ?case by (auto simp: Let_def split: if_splits)
qed simp

lemma filter_unique:
  "distinct (map k xs) \<Longrightarrow> x \<in> set xs \<Longrightarrow> filter (\<lambda>y. k y = k x) xs = [x]"
  by (induction xs) (auto simp: filter_empty_conv image_iff)

lemma Par2VolumeFiles_filter:
  "Par2IndexFile u n = Some i \<Longrightarrow>
   Par2VolumeFiles u n = filter (\<lambda>f. fl_Subject f \<noteq> fl_Subject (nz_Files n ! i)) (Par2Files u n)"
  by (simp add: Par2VolumeFiles_def Par2Files_def conj_commute)

text \<open>
  The parity files of a document whose parity subjects differ divide into the one index that is
  downloaded up front and the recovery volumes fetched on damage, none twice and none missing; the
  index is a file without a volume name whenever there is one, and the smallest of its kind.
\<close>

theorem par2_split:
  assumes "HasPar2 u n" "distinct (map fl_Subject (Par2Files u n))"
  shows "\<exists>i < length (nz_Files n). Par2IndexFile u n = Some i \<and>
    mset (Par2Files u n) = add_mset (nz_Files n ! i) (mset (Par2VolumeFiles u n)) \<and>
    (\<forall>f \<in> set (Par2Files u n). par2VolRe (Filename (nz_Files n ! i)) \<longrightarrow> par2VolRe (Filename f)) \<and>
    (\<forall>f \<in> set (Par2Files u n). par2VolRe (Filename f) = par2VolRe (Filename (nz_Files n ! i)) \<longrightarrow>
      File_TotalBytes (nz_Files n ! i) \<le> File_TotalBytes f)"
proof -
  obtain index vol where l: "par2Index_loop u n [0..<length (nz_Files n)] None None = (index, vol)" by fastforce
  note b = par2Index_loop_best [of n u "{}" None None, OF _ _ l, unfolded best_def]
  obtain j where "j < length (nz_Files n)" "is_par2 u (nz_Files n ! j)"
    using assms(1) by (auto simp: HasPar2_def list_ex_iff in_set_conv_nth)
  then obtain i where i: "Par2IndexFile u n = Some i" "i < length (nz_Files n)" "is_par2 u (nz_Files n ! i)"
    using b l by (cases index; cases vol) (auto simp: Par2IndexFile_def)
  let ?x = "nz_Files n ! i"
  have x: "?x \<in> set (Par2Files u n)" using i by (simp add: Par2Files_def)
  have "mset (Par2Files u n) =
      mset (filter (\<lambda>f. fl_Subject f = fl_Subject ?x) (Par2Files u n)) + mset (Par2VolumeFiles u n)"
    using multiset_partition [of "mset (Par2Files u n)" "\<lambda>f. fl_Subject f = fl_Subject ?x"]
    by (simp add: Par2VolumeFiles_filter [OF i(1)] mset_filter)
  then have "mset (Par2Files u n) = add_mset ?x (mset (Par2VolumeFiles u n))"
    by (simp add: filter_unique [OF assms(2) x])
  moreover have "\<forall>k < length (nz_Files n). is_par2 u (nz_Files n ! k) \<longrightarrow>
      (par2VolRe (Filename ?x) \<longrightarrow> par2VolRe (Filename (nz_Files n ! k))) \<and>
      (par2VolRe (Filename (nz_Files n ! k)) = par2VolRe (Filename ?x) \<longrightarrow>
        File_TotalBytes ?x \<le> File_TotalBytes (nz_Files n ! k))"
    using b l i by (cases index; cases vol) (auto simp: Par2IndexFile_def)
  ultimately show ?thesis using i(1,2) by (auto simp: Par2Files_def in_set_conv_nth)
qed

definition sample_file :: "string \<Rightarrow> int \<Rightarrow> nzb_file" where
  "sample_file name n = \<lparr>fl_Poster = [], fl_Date = 0, fl_Subject = [34] @ str name @ [34], fl_Groups = [],
     fl_Segments = [\<lparr>sg_Bytes = n, sg_Number = 1, sg_MessageID = [97]\<rparr>]\<rparr>"

definition sample_nzb :: "nzb_file list \<Rightarrow> nzb" where
  "sample_nzb fs = \<lparr>nz_Files = fs, nz_Password = [], nz_Meta = Map.empty\<rparr>"

abbreviation sample_par2 :: nzb where
  "sample_par2 \<equiv> sample_nzb [sample_file ''r.vol00+01.par2'' 3, sample_file ''r.PAR2'' 5]"

theorem par2_split_witness:
  "\<exists>i < length (nz_Files sample_par2). Par2IndexFile id sample_par2 = Some i \<and>
    mset (Par2Files id sample_par2) = add_mset (nz_Files sample_par2 ! i) (mset (Par2VolumeFiles id sample_par2))"
proof -
  have "HasPar2 id sample_par2" by code_simp
  moreover have "distinct (map fl_Subject (Par2Files id sample_par2))" by code_simp
  ultimately show ?thesis using par2_split [of id sample_par2] by blast
qed

section \<open>Archive volumes\<close>

lemma lower_byte_dot [simp]: "lower_byte b = 46 \<longleftrightarrow> b = 46" "lower_byte b = 47 \<longleftrightarrow> b = 47"
  by (auto simp: lower_byte_def word_le_nat_alt unat_word_ariths dest!: arg_cong [where f = unat])

lemma lower_byte_ascii: "lower_byte b < 128 \<Longrightarrow> b < 128"
  by (auto simp: lower_byte_def word_less_nat_alt word_le_nat_alt split: if_splits)

lemma ext_rev_lower: "ext_rev (map lower_byte acc) (map lower_byte cs) = map lower_byte (ext_rev acc cs)"
proof (induction acc cs rule: ext_rev.induct)
  case (2 acc c cs)
  then show ?case by simp
qed simp

lemma Ext_lower: "Ext (map lower_byte s) = map lower_byte (Ext s)"
  using ext_rev_lower [of "[]" "rev s"] by (simp add: Ext_def rev_map)

lemma is_ascii_Ext: "is_ascii s \<Longrightarrow> is_ascii (Ext s)"
  using Ext_suffix [of s] by (metis is_ascii_def list_all_append)

lemma lower_ext_ascii: "is_ascii name \<Longrightarrow> lower_ext u name = map lower_byte (Ext name) \<and> Ext (ToLower u name) = lower_ext u name"
  by (simp add: lower_ext_def ToLower_def is_ascii_Ext Ext_lower)

lemma lower_ext_lit:
  assumes "map lower_byte (Ext name) = str lit" "list_all (\<lambda>c. (of_char c :: byte) < 128) lit"
  shows "lower_ext u name = str lit"
proof -
  have "lower_byte b < 128" if "b \<in> set (Ext name)" for b
  proof -
    have "lower_byte b \<in> set (str lit)" using that assms(1) by (metis imageI list.set_map)
    then show ?thesis using assms(2) by (auto simp: str_def list_all_iff)
  qed
  then have "is_ascii (Ext name)" by (auto simp: is_ascii_def list_all_iff intro: lower_byte_ascii)
  then show ?thesis using assms(1) by (simp add: lower_ext_def ToLower_def)
qed

lemma zip_ext:
  assumes "EqualFold (Ext name) (str ''.zip'')"
  shows "rolloverLetter u name = None"
proof -
  have lits: "map lower_byte (str ''.zip'') = str ''.zip''" "list_all (\<lambda>c. (of_char c :: byte) < 128) ''.zip''"
      "\<not> atoi_ok (str ''ip'')" by code_simp+
  have "map lower_byte (Ext name) = str ''.zip''"
    using assms lits(1) unfolding EqualFold_def by (rule trans)
  from lower_ext_lit [OF this lits(2)] show ?thesis using lits(3) by (simp add: rolloverLetter_def)
qed

text \<open>What the scan of \<open>rolloverLetters\<close> collects.\<close>

lemma rollover_loop_spec:
  "ro_zip (rollover_loop u fs acc) \<longleftrightarrow> ro_zip acc \<or>
     (\<exists>f \<in> set fs. rolloverLetter u (Filename f) = None \<and> EqualFold (Ext (Filename f)) (str ''.zip''))"
  "ro_classic (rollover_loop u fs acc) \<longleftrightarrow> ro_classic acc \<or>
     (\<exists>f \<in> set fs. rolloverLetter u (Filename f) = None \<and> \<not> EqualFold (Ext (Filename f)) (str ''.zip'') \<and>
       isRarFile u (Filename f))"
  "set (ro_numbers (rollover_loop u fs acc)) = set (ro_numbers acc) \<union>
     {(l, lower_ext u (Filename f)) | l f. f \<in> set fs \<and> rolloverLetter u (Filename f) = Some l}"
  "distinct (ro_numbers acc) \<Longrightarrow> distinct (ro_numbers (rollover_loop u fs acc))"
  by (induction fs arbitrary: acc) (auto simp: Let_def simp del: str_Cons split: option.splits if_splits)

lemma two_distinct:
  assumes "distinct xs" "2 \<le> length xs" "x \<in> set xs"
  obtains y where "y \<in> set xs" "y \<noteq> x"
proof -
  have "\<not> set xs \<subseteq> {x}"
    using assms by (metis card_mono card.empty card_insert_disjoint distinct_card empty_iff finite.intros not_less_eq_eq numeral_2_eq_2 One_nat_def)
  then show thesis using that by auto
qed

text \<open>
  Which files count as volumes of a RAR archive: every \<open>.rar\<close> does and no parity file does; a
  rolled-over volume (\<open>.tNN\<close> to \<open>.zNN\<close>) only beside a classic volume or another number of its letter;
  and \<open>.zNN\<close> never does in a document that ships a \<open>.zip\<close>.
\<close>

theorem rar_volumes:
  assumes "f \<in> set (nz_Files n)" "is_ascii (Filename f)"
  shows "(lower_ext u (Filename f) = str ''.rar'' \<longrightarrow> f \<in> set (RarFiles u n)) \<and>
    (is_par2 u f \<longrightarrow> f \<notin> set (RarFiles u n)) \<and>
    (rolloverLetter u (Filename f) = Some l \<and> f \<in> set (RarFiles u n) \<longrightarrow>
      (\<exists>g \<in> set (nz_Files n). rolloverLetter u (Filename g) = None \<and> isRarFile u (Filename g) \<or>
        rolloverLetter u (Filename g) = Some l \<and> lower_ext u (Filename g) \<noteq> lower_ext u (Filename f))) \<and>
    ((\<exists>g \<in> set (nz_Files n). EqualFold (Ext (Filename g)) (str ''.zip'')) \<longrightarrow>
      rolloverLetter u (Filename f) = Some 122 \<longrightarrow> f \<notin> set (RarFiles u n))"
proof (intro conjI impI)
  let ?e = "lower_ext u (Filename f)"
  have e: "Ext (ToLower u (Filename f)) = ?e" using lower_ext_ascii [OF assms(2)] by simp
  show "f \<in> set (RarFiles u n)" if "?e = str ''.rar''"
    using that assms(1) e by (simp add: RarFiles_def rar_member_def rolloverLetter_def isRarFile_def)
  show "f \<notin> set (RarFiles u n)" if "is_par2 u f"
    using that e by (simp add: RarFiles_def rar_member_def rolloverLetter_def isRarFile_def is_par2_def)
  let ?acc = "rollover_loop u (nz_Files n) \<lparr>ro_numbers = [], ro_classic = False, ro_zip = False\<rparr>"
  let ?exts = "filter (\<lambda>p. fst p = l) (ro_numbers ?acc)"
  show "\<exists>g \<in> set (nz_Files n). rolloverLetter u (Filename g) = None \<and> isRarFile u (Filename g) \<or>
      rolloverLetter u (Filename g) = Some l \<and> lower_ext u (Filename g) \<noteq> ?e"
    if "rolloverLetter u (Filename f) = Some l \<and> f \<in> set (RarFiles u n)"
  proof (cases "ro_classic ?acc")
    case True
    then show ?thesis by (auto simp: rollover_loop_spec simp del: str_Cons)
  next
    case False
    then have "2 \<le> length ?exts"
      using that by (auto simp: RarFiles_def rar_member_def rolloverLetters_def Let_def)
    moreover have "(l, ?e) \<in> set ?exts" "distinct ?exts"
      using that assms(1) by (auto simp: rollover_loop_spec intro!: distinct_filter)
    ultimately obtain y where "y \<in> set ?exts" "y \<noteq> (l, ?e)" by (metis two_distinct)
    then show ?thesis by (auto simp: rollover_loop_spec)
  qed
  show "f \<notin> set (RarFiles u n)"
    if "\<exists>g \<in> set (nz_Files n). EqualFold (Ext (Filename g)) (str ''.zip'')" "rolloverLetter u (Filename f) = Some 122"
  proof -
    have "ro_zip ?acc" using that(1) zip_ext by (auto simp: rollover_loop_spec simp del: str_Cons)
    then show ?thesis using that(2) by (simp add: RarFiles_def rar_member_def rolloverLetters_def Let_def)
  qed
qed

theorem rar_volumes_witness:
  "map Filename (RarFiles id (sample_nzb [sample_file ''a.z01'' 1, sample_file ''a.z02'' 1, sample_file ''a.Zip'' 1])) = [] \<and>
   sample_file ''a.z01'' 1 \<notin> set (RarFiles id (sample_nzb [sample_file ''a.z01'' 1, sample_file ''a.z02'' 1, sample_file ''a.Zip'' 1]))"
proof -
  let ?n = "sample_nzb [sample_file ''a.z01'' 1, sample_file ''a.z02'' 1, sample_file ''a.Zip'' 1]"
  have "is_ascii (Filename (sample_file ''a.z01'' 1))" "rolloverLetter id (Filename (sample_file ''a.z01'' 1)) = Some 122"
      "EqualFold (Ext (Filename (sample_file ''a.Zip'' 1))) (str ''.zip'')" "map Filename (RarFiles id ?n) = []"
    by code_simp+
  then show ?thesis
    using rar_volumes [of "sample_file ''a.z01'' 1" ?n id 122] by (auto simp: sample_nzb_def simp del: str_Cons)
qed

end
