(* ===== verification/Offset_Index.thy ===== *)
theory Offset_Index
  imports Nzb Yenc
begin

text \<open>
  The map from file offsets to articles, \<open>internal/usenet/stream/index.go\<close>. The state is the
  struct \<open>OffsetIndex\<close>; every method runs under its lock, so each is one function on the state.
  64-bit sums and products wrap around as in the code.
\<close>

section \<open>The index\<close>

record offset_index =
  ix_segs :: "segment list"
  estLen :: "int list"
  exactLen :: "int list"
  exactStart :: "int list"
  anchorEst :: int
  anchorLen :: int
  obsEncoded :: int
  obsDecoded :: int
  ix_fileSize :: int
  sizeExact :: bool
  starts :: "int list"
  startExact :: "bool list"

text \<open>Go's integer division truncates toward zero.\<close>

definition go_div :: "int \<Rightarrow> int \<Rightarrow> int" where
  "go_div a b = sgn a * sgn b * (\<bar>a\<bar> div \<bar>b\<bar>)"

definition sameEncodedShape :: "int \<Rightarrow> int \<Rightarrow> bool" where
  "sameEncodedShape a ref =
     (if a \<le> 0 \<or> ref \<le> 0 then False
      else let diff = i64 (a - ref); diff = (if diff < 0 then i64 (- diff) else diff)
           in i64 (diff * 16) \<le> ref)"

definition SegmentCount :: "offset_index \<Rightarrow> nat" where
  "SegmentCount ix = length (ix_segs ix)"

definition stepLen :: "offset_index \<Rightarrow> nat \<Rightarrow> int" where
  "stepLen ix i =
     (if 0 \<le> exactLen ix ! i then exactLen ix ! i
      else if i + 1 < SegmentCount ix \<and> 0 < anchorLen ix \<and> sameEncodedShape (estLen ix ! i) (anchorEst ix)
      then anchorLen ix
      else if i + 1 < SegmentCount ix \<and> 0 < obsEncoded ix \<and> 0 < estLen ix ! i
      then go_div (i64 (estLen ix ! i * obsDecoded ix)) (obsEncoded ix)
      else estLen ix ! i)"

definition stepExact :: "offset_index \<Rightarrow> nat \<Rightarrow> bool" where
  "stepExact ix i \<longleftrightarrow>
     0 \<le> exactLen ix ! i \<or>
     (i + 1 < SegmentCount ix \<and> 0 < anchorLen ix \<and> sameEncodedShape (estLen ix ! i) (anchorEst ix))"

text \<open>One turn of the loop of \<open>recompute\<close>: the start of segment \<open>Suc i\<close> and whether it is exact, from
  those of segment \<open>i\<close>.\<close>

definition next_start :: "offset_index \<Rightarrow> nat \<Rightarrow> int \<times> bool \<Rightarrow> int \<times> bool" where
  "next_start ix i prev =
     (let s = (if 0 \<le> exactStart ix ! Suc i then exactStart ix ! Suc i else i64 (fst prev + stepLen ix i));
          e = (0 \<le> exactStart ix ! Suc i \<or> snd prev \<and> stepExact ix i)
      in if s < fst prev then (fst prev, False) else (s, e))"

fun layout_loop :: "offset_index \<Rightarrow> nat \<Rightarrow> (int \<times> bool) list" where
  "layout_loop ix 0 = []"
| "layout_loop ix (Suc 0) = [(0, True)]"
| "layout_loop ix (Suc (Suc n)) = layout_loop ix (Suc n) @ [next_start ix n (last (layout_loop ix (Suc n)))]"

definition recompute :: "offset_index \<Rightarrow> offset_index" where
  "recompute ix =
     (let l = layout_loop ix (SegmentCount ix)
      in ix\<lparr>starts := map fst l, startExact := map snd l\<rparr>)"

definition NewOffsetIndex :: "segment shuffle \<Rightarrow> nzb_file \<Rightarrow> offset_index" where
  "NewOffsetIndex shuffle f =
     (let segs = SortSegmentsByNumber shuffle (fl_Segments f);
          n = length segs;
          lens = map (\<lambda>s. max 0 (sg_Bytes s)) segs
      in recompute
           \<lparr>ix_segs = segs, estLen = lens, exactLen = replicate n (-1), exactStart = replicate n (-1),
            anchorEst = 0, anchorLen = 0, obsEncoded = 0, obsDecoded = 0,
            ix_fileSize = foldl (\<lambda>est l. i64 (est + l)) 0 lens, sizeExact = False,
            starts = replicate n 0, startExact = replicate n False\<rparr>)"

definition Segment :: "offset_index \<Rightarrow> nat \<Rightarrow> segment" where
  "Segment ix i = ix_segs ix ! i"

definition estimatedSize :: "offset_index \<Rightarrow> int" where
  "estimatedSize ix =
     (let n = SegmentCount ix in
      if n = 0 then 0 else i64 (starts ix ! (n - 1) + stepLen ix (n - 1)))"

definition FileSize :: "offset_index \<Rightarrow> int" where
  "FileSize ix = (if sizeExact ix then ix_fileSize ix else estimatedSize ix)"

definition SizeExact :: "offset_index \<Rightarrow> bool" where
  "SizeExact ix = sizeExact ix"

text \<open>\<open>sort.Search\<close>: the binary search, with its own \<open>i\<close> and \<open>j\<close>.\<close>

function sort_Search_loop :: "nat \<Rightarrow> nat \<Rightarrow> (nat \<Rightarrow> bool) \<Rightarrow> nat" where
  "sort_Search_loop i j p =
     (if i < j then let h = (i + j) div 2 in
        if \<not> p h then sort_Search_loop (h + 1) j p else sort_Search_loop i h p
      else i)"
  by pat_completeness auto
termination
  by (relation "measure (\<lambda>(i, j, p). j - i)") auto

declare sort_Search_loop.simps [simp del]

definition sort_Search :: "nat \<Rightarrow> (nat \<Rightarrow> bool) \<Rightarrow> nat" where
  "sort_Search n p = sort_Search_loop 0 n p"

definition locateLocked :: "offset_index \<Rightarrow> int \<Rightarrow> nat option" where
  "locateLocked ix offset =
     (let n = SegmentCount ix in
      if n = 0 \<or> offset < 0 \<or> FileSize ix \<le> offset then None
      else Some (sort_Search n (\<lambda>k. offset < starts ix ! k) - 1))"

definition endOf :: "offset_index \<Rightarrow> nat \<Rightarrow> int" where
  "endOf ix i = (if i + 1 < SegmentCount ix then starts ix ! (i + 1) else FileSize ix)"

definition Locate :: "offset_index \<Rightarrow> int \<Rightarrow> (nat \<times> int \<times> int) option" where
  "Locate ix offset = map_option (\<lambda>i. (i, starts ix ! i, endOf ix i)) (locateLocked ix offset)"

definition LocateExact :: "offset_index \<Rightarrow> int \<Rightarrow> (nat \<times> bool) option" where
  "LocateExact ix offset =
     map_option (\<lambda>i.
       (i, startExact ix ! i \<and> (if i + 1 < SegmentCount ix then startExact ix ! (i + 1) else sizeExact ix)))
       (locateLocked ix offset)"

text \<open>How a first sight of a non-final segment feeds the anchor and the ratio.\<close>

definition note_evidence :: "nat \<Rightarrow> offset_index \<Rightarrow> offset_index" where
  "note_evidence i ix =
     (let ix = (if anchorLen ix = 0 then ix\<lparr>anchorEst := estLen ix ! i, anchorLen := exactLen ix ! i\<rparr>
                else if 0 < anchorLen ix \<and> anchorLen ix \<noteq> exactLen ix ! i then ix\<lparr>anchorLen := - 1\<rparr>
                else ix)
      in ix\<lparr>obsEncoded := i64 (obsEncoded ix + estLen ix ! i), obsDecoded := i64 (obsDecoded ix + exactLen ix ! i)\<rparr>)"

definition Observe :: "int \<Rightarrow> part option \<Rightarrow> offset_index \<Rightarrow> offset_index" where
  "Observe segIdx p ix =
     (case p of
        None \<Rightarrow> ix
      | Some pt \<Rightarrow>
          if segIdx < 0 \<or> int (SegmentCount ix) \<le> segIdx then ix
          else if Begin pt < 1 \<or> End pt < Begin pt then ix
          else
            let i = nat segIdx;
                firstSight = exactLen ix ! i < 0;
                ix = ix\<lparr>exactStart := (exactStart ix)[i := Begin pt - 1],
                        exactLen := (exactLen ix)[i := i64 (End pt - Begin pt + 1)]\<rparr>;
                ix = (if 0 < Size pt then ix\<lparr>ix_fileSize := Size pt, sizeExact := True\<rparr> else ix);
                ix = (if firstSight \<and> i + 1 < SegmentCount ix \<and> 0 < estLen ix ! i \<and> 0 < exactLen ix ! i
                      then note_evidence i ix else ix)
            in recompute ix)"

end
