(* ===== verification/Offset_Index_Props.thy ===== *)
theory Offset_Index_Props
  imports Offset_Index
begin

text \<open>
  The layout of the index is always searchable, \<open>Locate\<close> finds the segment whose range holds the
  offset, an answer \<open>LocateExact\<close> calls exact is right, and one article pins a uniform posting.
\<close>

section \<open>Ranges that can be looked up\<close>

text \<open>
  What a reader relies on to walk a file range by range: every offset below the size has a range
  that holds it, and no other offset has one. The ranges visited from \<open>off\<close> on are then contiguous
  and reach any wanted end.
\<close>

locale range_locator =
  fixes inv :: "'s \<Rightarrow> bool"
    and size :: "'s \<Rightarrow> int"
    and locate :: "'s \<Rightarrow> int \<Rightarrow> (nat \<times> int \<times> int) option"
  assumes locate_range: "inv s \<Longrightarrow> locate s off = Some (i, b, e) \<Longrightarrow> b \<le> off \<and> off < e"
    and locate_total: "inv s \<Longrightarrow> locate s off \<noteq> None \<longleftrightarrow> 0 \<le> off \<and> off < size s"
begin

function walk :: "'s \<Rightarrow> int \<Rightarrow> int \<Rightarrow> nat list" where
  "walk s off stop =
     (if inv s \<and> off < stop then
        case locate s off of None \<Rightarrow> [] | Some (i, b, e) \<Rightarrow> i # walk s e stop
      else [])"
  by pat_completeness auto
termination
  by (relation "measure (\<lambda>(s, off, stop). nat (stop - off))") (auto dest: locate_range)

declare walk.simps [simp del]

text \<open>Every offset of the stretch lies in the range of a segment the walk visits.\<close>

lemma walk_covers:
  assumes "inv s" "0 \<le> off" "stop \<le> size s" "off \<le> x" "x < stop"
  shows "\<exists>o' i b e. i \<in> set (walk s off stop) \<and> locate s o' = Some (i, b, e) \<and> b \<le> x \<and> x < e"
  using assms
proof (induction s off stop rule: walk.induct)
  case (1 s off stop)
  then obtain i b e where l: "locate s off = Some (i, b, e)"
    using locate_total [of s off] by (metis (full_types) option.exhaust prod_cases3 le_less_trans less_le_trans)
  then have be: "b \<le> off" "off < e" using locate_range 1(2) by auto
  have w: "walk s off stop = i # walk s e stop"
    using 1 l by (subst walk.simps) simp
  show ?case
  proof (cases "x < e")
    case True
    then show ?thesis using be l w "1.prems"(4) by (intro exI [of _ off] exI [of _ i] exI [of _ b] exI [of _ e]) auto
  next
    case False
    then have "\<exists>o' i b e'. i \<in> set (walk s e stop) \<and> locate s o' = Some (i, b, e') \<and> b \<le> x \<and> x < e'"
      using "1.IH" [OF _ l refl refl] "1.prems" be by auto
    then show ?thesis using w by auto
  qed
qed

end

section \<open>The layout\<close>

lemma length_layout_loop [simp]: "length (layout_loop ix n) = n"
  by (induction ix n rule: layout_loop.induct) auto

lemma layout_loop_Suc:
  "n \<noteq> 0 \<Longrightarrow> layout_loop ix (Suc n) = layout_loop ix n @ [next_start ix (n - 1) (layout_loop ix n ! (n - 1))]"
  by (cases n) (auto simp: last_conv_nth simp flip: length_0_conv)

lemma layout_loop_0: "0 < n \<Longrightarrow> layout_loop ix n ! 0 = (0, True)"
proof (induction n)
  case (Suc n)
  then show ?case by (cases n) (auto simp: nth_append)
qed simp

lemma layout_loop_nth:
  "Suc i < n \<Longrightarrow> layout_loop ix n ! Suc i = next_start ix i (layout_loop ix n ! i)"
proof (induction n)
  case (Suc n)
  then show ?case
    using layout_loop_Suc [of n ix] by (cases "Suc i < n") (auto simp: nth_append less_Suc_eq)
qed simp

lemma next_start_mono: "fst prev \<le> fst (next_start ix i prev)"
  by (simp add: next_start_def Let_def)

lemma layout_sorted: "sorted (map fst (layout_loop ix n))"
  by (auto simp: sorted_iff_nth_Suc layout_loop_nth next_start_mono)

definition same_data :: "offset_index \<Rightarrow> offset_index \<Rightarrow> bool" where
  "same_data ix ix' \<longleftrightarrow> ix_segs ix = ix_segs ix' \<and> estLen ix = estLen ix' \<and> exactLen ix = exactLen ix' \<and>
     exactStart ix = exactStart ix' \<and> anchorEst ix = anchorEst ix' \<and> anchorLen ix = anchorLen ix' \<and>
     obsEncoded ix = obsEncoded ix' \<and> obsDecoded ix = obsDecoded ix'"

lemma stepLen_same: "same_data ix ix' \<Longrightarrow> stepLen ix = stepLen ix'"
  by (auto simp: same_data_def stepLen_def SegmentCount_def fun_eq_iff)

lemma next_start_same: "same_data ix ix' \<Longrightarrow> next_start ix = next_start ix'"
  using stepLen_same [of ix ix']
  by (auto simp: next_start_def stepExact_def same_data_def SegmentCount_def fun_eq_iff Let_def)

lemma layout_same: "same_data ix ix' \<Longrightarrow> layout_loop ix n = layout_loop ix' n"
  by (induction ix n rule: layout_loop.induct) (auto simp: next_start_same)

text \<open>The invariant: the arrays have one entry per segment and the layout is up to date.\<close>

definition index_ok :: "offset_index \<Rightarrow> bool" where
  "index_ok ix \<longleftrightarrow> length (estLen ix) = SegmentCount ix \<and> length (exactLen ix) = SegmentCount ix \<and>
     length (exactStart ix) = SegmentCount ix \<and> (SegmentCount ix = 0 \<longrightarrow> \<not> sizeExact ix) \<and>
     starts ix = map fst (layout_loop ix (SegmentCount ix)) \<and>
     startExact ix = map snd (layout_loop ix (SegmentCount ix))"

lemma recompute_sel [simp]:
  "ix_segs (recompute ix) = ix_segs ix" "estLen (recompute ix) = estLen ix" "exactLen (recompute ix) = exactLen ix"
  "exactStart (recompute ix) = exactStart ix" "anchorEst (recompute ix) = anchorEst ix"
  "anchorLen (recompute ix) = anchorLen ix" "obsEncoded (recompute ix) = obsEncoded ix"
  "obsDecoded (recompute ix) = obsDecoded ix" "ix_fileSize (recompute ix) = ix_fileSize ix"
  "sizeExact (recompute ix) = sizeExact ix" "SegmentCount (recompute ix) = SegmentCount ix"
  by (simp_all add: recompute_def Let_def SegmentCount_def)

lemma recompute_ok:
  assumes "length (estLen ix) = SegmentCount ix" "length (exactLen ix) = SegmentCount ix"
    "length (exactStart ix) = SegmentCount ix" "SegmentCount ix = 0 \<longrightarrow> \<not> sizeExact ix"
  shows "index_ok (recompute ix)"
proof -
  have "same_data (recompute ix) ix" by (simp add: same_data_def)
  from layout_same [OF this] show ?thesis
    using assms by (simp add: index_ok_def) (simp add: recompute_def Let_def)
qed

lemma note_evidence_sel [simp]:
  "ix_segs (note_evidence i ix) = ix_segs ix" "estLen (note_evidence i ix) = estLen ix"
  "exactLen (note_evidence i ix) = exactLen ix" "exactStart (note_evidence i ix) = exactStart ix"
  "ix_fileSize (note_evidence i ix) = ix_fileSize ix" "sizeExact (note_evidence i ix) = sizeExact ix"
  "SegmentCount (note_evidence i ix) = SegmentCount ix"
  by (simp_all add: note_evidence_def Let_def SegmentCount_def)

lemma NewOffsetIndex_ok: "index_ok (NewOffsetIndex shuffle f)"
  unfolding NewOffsetIndex_def Let_def by (rule recompute_ok) (simp_all add: SegmentCount_def)

lemma Observe_ok:
  assumes "index_ok ix"
  shows "index_ok (Observe k p ix)"
proof (cases p)
  case (Some pt)
  show ?thesis
    using assms Some unfolding Observe_def
    by (auto simp: Let_def SegmentCount_def [symmetric] intro!: recompute_ok)
      (auto simp: index_ok_def SegmentCount_def)
qed (use assms in \<open>simp add: Observe_def\<close>)

section \<open>Locating\<close>

text \<open>The binary search finds the border of a predicate that stays true once it is.\<close>

definition upward :: "nat \<Rightarrow> (nat \<Rightarrow> bool) \<Rightarrow> bool" where
  "upward n p \<longleftrightarrow> (\<forall>a b. a \<le> b \<and> b < n \<and> p a \<longrightarrow> p b)"

definition false_below :: "(nat \<Rightarrow> bool) \<Rightarrow> nat \<Rightarrow> bool" where
  "false_below p r \<longleftrightarrow> (\<forall>k < r. \<not> p k)"

definition true_from :: "nat \<Rightarrow> (nat \<Rightarrow> bool) \<Rightarrow> nat \<Rightarrow> bool" where
  "true_from n p r \<longleftrightarrow> r \<le> n \<and> (\<forall>k. r \<le> k \<and> k < n \<longrightarrow> p k)"

lemma sort_Search_loop_correct:
  assumes "i \<le> j" "upward n p" "false_below p i" "true_from n p j"
  shows "false_below p (sort_Search_loop i j p) \<and> true_from n p (sort_Search_loop i j p)"
  using assms
proof (induction i j p rule: sort_Search_loop.induct)
  case (1 i j p)
  show ?case
  proof (cases "i < j")
    case True
    define h where "h = (i + j) div 2"
    have h: "i \<le> h" "h < j" using True by (auto simp: h_def)
    have unfold: "sort_Search_loop i j p = (if p h then sort_Search_loop i h p else sort_Search_loop (h + 1) j p)"
      using True by (subst sort_Search_loop.simps) (simp add: Let_def h_def)
    show ?thesis
    proof (cases "p h")
      case True
      then have "true_from n p h" using "1.prems"(2,4) h by (auto simp: upward_def true_from_def)
      then show ?thesis
        using "1.IH"(2) [OF \<open>i < j\<close> h_def] True h "1.prems" unfold by simp
    next
      case False
      then have "false_below p (h + 1)"
        using "1.prems"(2,4) h unfolding upward_def true_from_def false_below_def
        by (metis Suc_eq_plus1 less_Suc_eq_le less_le_trans)
      then show ?thesis
        using "1.IH"(1) [OF \<open>i < j\<close> h_def] False h "1.prems" unfold by simp
    qed
  next
    case False
    then show ?thesis using "1.prems" by (subst (1 2) sort_Search_loop.simps) simp
  qed
qed

lemma sort_Search_correct:
  assumes "upward n p"
  shows "false_below p (sort_Search n p)" "true_from n p (sort_Search n p)"
proof -
  have "false_below p 0" "true_from n p n" by (auto simp: false_below_def true_from_def)
  from sort_Search_loop_correct [OF _ assms this]
  show "false_below p (sort_Search n p)" "true_from n p (sort_Search n p)" by (simp_all add: sort_Search_def)
qed

lemma starts_facts:
  assumes "index_ok ix"
  shows "length (starts ix) = SegmentCount ix" "sorted (starts ix)" "0 < SegmentCount ix \<Longrightarrow> starts ix ! 0 = 0"
  using assms by (auto simp: index_ok_def layout_sorted layout_loop_0)

lemma locateLocked_range:
  assumes "index_ok ix" "locateLocked ix off = Some i"
  shows "i < SegmentCount ix \<and> starts ix ! i \<le> off \<and> off < endOf ix i"
proof -
  let ?n = "SegmentCount ix" and ?p = "\<lambda>k. off < starts ix ! k"
  have n: "0 < ?n" "0 \<le> off" "off < FileSize ix" "i = sort_Search ?n ?p - 1"
    using assms(2) by (auto simp: locateLocked_def Let_def split: if_splits)
  note st = starts_facts [OF assms(1)]
  have "upward ?n ?p"
    unfolding upward_def using st(1,2) by (metis less_le_trans sorted_nth_mono)
  note ss = sort_Search_correct [OF this]
  have "sort_Search ?n ?p \<noteq> 0"
    using ss(2) n st(3) by (auto simp: true_from_def)
  then have r: "sort_Search ?n ?p = Suc i" using n(4) by simp
  have "i < ?n" "\<not> ?p i" using ss by (auto simp: r false_below_def true_from_def)
  moreover have "?p (Suc i)" if "Suc i < ?n" using ss(2) that by (auto simp: r true_from_def)
  ultimately show ?thesis using n(3) by (auto simp: endOf_def)
qed

lemma locateLocked_total:
  assumes "index_ok ix"
  shows "locateLocked ix off \<noteq> None \<longleftrightarrow> 0 \<le> off \<and> off < FileSize ix"
  using assms by (auto simp: locateLocked_def Let_def index_ok_def FileSize_def estimatedSize_def)

interpretation index_ranges: range_locator index_ok FileSize Locate
proof
  show "b \<le> off \<and> off < e" if "index_ok ix" "Locate ix off = Some (i, b, e)" for ix off i b e
    using locateLocked_range that by (auto simp: Locate_def)
  show "(Locate ix off \<noteq> None) = (0 \<le> off \<and> off < FileSize ix)" if "index_ok ix" for ix off
    using locateLocked_total [OF that] by (simp add: Locate_def)
qed

text \<open>What is learned in a session: a sequence of observations from the estimate on.\<close>

definition observe_all :: "(int \<times> part option) list \<Rightarrow> offset_index \<Rightarrow> offset_index" where
  "observe_all obs ix = fold (\<lambda>(k, p). Observe k p) obs ix"

lemma observe_all_ok: "index_ok ix \<Longrightarrow> index_ok (observe_all obs ix)"
  by (induction obs arbitrary: ix) (auto simp: observe_all_def Observe_ok)


section \<open>The real layout\<close>

text \<open>
  The article boundaries of the posting, as the poster encoded it: \<open>L\<close> are the decoded lengths in
  assembly order. A part is truthful for segment \<open>i\<close> when its header states that segment's real range,
  and the whole size if any.
\<close>

definition true_start :: "int list \<Rightarrow> nat \<Rightarrow> int" where
  "true_start L i = sum_list (take i L)"

definition truthful :: "int list \<Rightarrow> int \<times> part option \<Rightarrow> bool" where
  "truthful L ob \<longleftrightarrow>
     (case ob of
        (k, Some pt) \<Rightarrow> 0 \<le> k \<and> k < int (length L) \<longrightarrow>
          Begin pt = true_start L (nat k) + 1 \<and> End pt = true_start L (nat k + 1) \<and>
          (Size pt > 0 \<longrightarrow> Size pt = sum_list L)
      | _ \<Rightarrow> True)"

text \<open>The assumption behind inheriting a length: non-final articles of one encoded shape decode to the
  same length.\<close>

definition shapes_agree :: "int list \<Rightarrow> int list \<Rightarrow> bool" where
  "shapes_agree est L \<longleftrightarrow>
     (\<forall>i j. Suc i < length L \<and> Suc j < length L \<and> sameEncodedShape (est ! i) (est ! j) \<longrightarrow> L ! i = L ! j)"

definition posting_ok :: "int list \<Rightarrow> bool" where
  "posting_ok L \<longleftrightarrow> (\<forall>l \<in> set L. 0 < l) \<and> sum_list L \<le> max_i64"

definition tracks_data :: "int list \<Rightarrow> offset_index \<Rightarrow> bool" where
  "tracks_data L ix \<longleftrightarrow> SegmentCount ix = length L \<and> shapes_agree (estLen ix) L \<and>
     (\<forall>i < length L. 0 \<le> exactLen ix ! i \<longrightarrow> exactLen ix ! i = L ! i) \<and>
     (\<forall>i < length L. 0 \<le> exactStart ix ! i \<longrightarrow> exactStart ix ! i = true_start L i) \<and>
     (0 < anchorLen ix \<longrightarrow> (\<exists>k. Suc k < length L \<and> anchorEst ix = estLen ix ! k \<and> anchorLen ix = L ! k)) \<and>
     (sizeExact ix \<longrightarrow> ix_fileSize ix = sum_list L)"

definition tracks :: "int list \<Rightarrow> offset_index \<Rightarrow> bool" where
  "tracks L ix \<longleftrightarrow> index_ok ix \<and> tracks_data L ix"

lemma true_start_Suc: "i < length L \<Longrightarrow> true_start L (Suc i) = true_start L i + L ! i"
  by (simp add: true_start_def take_Suc_conv_app_nth)

lemma true_start_bounds:
  assumes "posting_ok L"
  shows "0 \<le> true_start L i" "true_start L i \<le> sum_list L"
proof -
  have nonneg: "0 \<le> sum_list xs" if "set xs \<subseteq> set L" for xs
    using assms that by (intro sum_list_nonneg) (force simp: posting_ok_def)
  show "0 \<le> true_start L i"
    unfolding true_start_def by (rule nonneg) (meson in_set_takeD subsetI)
  have "sum_list L = true_start L i + sum_list (drop i L)"
    by (metis append_take_drop_id sum_list_append true_start_def)
  moreover have "0 \<le> sum_list (drop i L)" by (rule nonneg) (meson in_set_dropD subsetI)
  ultimately show "true_start L i \<le> sum_list L" by simp
qed

lemma posting_len:
  assumes "posting_ok L" "i < length L"
  shows "0 < L ! i" "L ! i \<le> max_i64"
proof -
  show "0 < L ! i" using assms nth_mem [OF assms(2)] by (simp add: posting_ok_def)
  show "L ! i \<le> max_i64"
    using true_start_bounds(1) [OF assms(1), of i] true_start_bounds(2) [OF assms(1), of "Suc i"] assms
    by (simp add: posting_ok_def true_start_Suc)
qed

lemma stepLen_true:
  assumes "tracks L ix" "i < length L" "stepExact ix i"
  shows "stepLen ix i = L ! i"
proof (cases "0 \<le> exactLen ix ! i")
  case True
  then show ?thesis using assms by (simp add: tracks_def tracks_data_def stepLen_def)
next
  case False
  with assms(3) have a: "i + 1 < length L" "0 < anchorLen ix" "sameEncodedShape (estLen ix ! i) (anchorEst ix)"
    using assms(1) by (auto simp: stepExact_def tracks_def tracks_data_def)
  then obtain k where "Suc k < length L" "anchorEst ix = estLen ix ! k" "anchorLen ix = L ! k"
    using assms(1) by (auto simp: tracks_def tracks_data_def)
  then have "L ! i = anchorLen ix"
    using assms(1) a by (auto simp: tracks_def tracks_data_def shapes_agree_def)
  then show ?thesis using False a assms(1) by (simp add: stepLen_def tracks_def tracks_data_def)
qed

lemma startExact_true:
  assumes "tracks L ix" "posting_ok L" "i < length L" "snd (layout_loop ix (length L) ! i)"
  shows "fst (layout_loop ix (length L) ! i) = true_start L i"
  using assms(3,4)
proof (induction i)
  case 0
  then show ?case by (simp add: layout_loop_0 true_start_def)
next
  case (Suc i)
  let ?l = "layout_loop ix (length L)"
  have st: "exactStart ix ! Suc i = true_start L (Suc i)" if "0 \<le> exactStart ix ! Suc i"
    using assms(1) Suc.prems(1) that by (auto simp: tracks_def tracks_data_def)
  have step: "?l ! Suc i = next_start ix i (?l ! i)" using Suc.prems(1) by (rule layout_loop_nth)
  show ?case
  proof (cases "0 \<le> exactStart ix ! Suc i")
    case True
    then show ?thesis using step Suc.prems(2) st by (auto simp: next_start_def Let_def split: if_splits)
  next
    case False
    then have "snd (?l ! i)" "stepExact ix i"
      using step Suc.prems(2) by (auto simp: next_start_def Let_def split: if_splits)
    then have "fst (?l ! i) = true_start L i" "stepLen ix i = L ! i"
      using Suc stepLen_true [OF assms(1)] by auto
    moreover have "i64 (true_start L i + L ! i) = true_start L (Suc i)"
      using true_start_bounds [OF assms(2), of "Suc i"] assms(2) Suc.prems(1)
      by (simp add: true_start_Suc i64_nonneg posting_ok_def)
    ultimately show ?thesis
      using step Suc.prems(2) False by (auto simp: next_start_def Let_def split: if_splits)
  qed
qed

lemma LocateExact_sound:
  assumes "tracks L ix" "posting_ok L" "LocateExact ix off = Some (i, True)"
  shows "i < length L \<and> true_start L i \<le> off \<and> off < true_start L (Suc i)"
proof -
  have ok: "index_ok ix" and n: "SegmentCount ix = length L" using assms(1) by (auto simp: tracks_def tracks_data_def)
  have loc: "locateLocked ix off = Some i" and s: "startExact ix ! i"
    and e: "if i + 1 < length L then startExact ix ! (i + 1) else sizeExact ix"
    using assms(3) n by (auto simp: LocateExact_def)
  have r: "i < length L" "starts ix ! i \<le> off" "off < endOf ix i"
    using locateLocked_range [OF ok loc] n by auto
  have st: "starts ix ! k = true_start L k" if "k < length L" "startExact ix ! k" for k
    using startExact_true [OF assms(1,2) that(1)] that ok n by (simp add: index_ok_def)
  have "endOf ix i = true_start L (Suc i)"
  proof (cases "i + 1 < length L")
    case True
    then show ?thesis using e st n by (simp add: endOf_def)
  next
    case False
    then have "Suc i = length L" using r(1) by simp
    then show ?thesis using e False assms(1) n by (simp add: endOf_def FileSize_def tracks_def tracks_data_def true_start_def)
  qed
  with r s st show ?thesis by simp
qed

lemma tracks_data_recompute [simp]: "tracks_data L (recompute ix) = tracks_data L ix"
  by (simp add: tracks_data_def)

lemma note_evidence_tracks:
  assumes "tracks_data L ix" "Suc i < length L" "0 < exactLen ix ! i"
  shows "tracks_data L (note_evidence i ix)"
proof -
  have len: "exactLen ix ! i = L ! i" using assms by (simp add: tracks_data_def)
  have anchor: "\<exists>k. Suc k < length L \<and> anchorEst ix = estLen ix ! k \<and> anchorLen ix = L ! k" if "0 < anchorLen ix"
    using assms(1) that by (simp add: tracks_data_def)
  have "\<exists>k. Suc k < length L \<and> anchorEst (note_evidence i ix) = estLen ix ! k \<and> anchorLen (note_evidence i ix) = L ! k"
    if "0 < anchorLen (note_evidence i ix)"
    using anchor that len assms(2) by (auto simp: note_evidence_def Let_def split: if_splits)
  with assms(1) show ?thesis by (simp add: tracks_data_def)
qed

lemma Observe_tracks:
  assumes "tracks L ix" "posting_ok L" "truthful L (k, p)"
  shows "tracks L (Observe k p ix)"
proof (cases p)
  case (Some pt)
  show ?thesis
  proof (cases "k < 0 \<or> int (SegmentCount ix) \<le> k \<or> Begin pt < 1 \<or> End pt < Begin pt")
    case True
    then show ?thesis using assms(1) Some by (auto simp: Observe_def)
  next
    case False
    define i where "i = nat k"
    define ix1 where "ix1 = ix\<lparr>exactStart := (exactStart ix)[i := Begin pt - 1],
      exactLen := (exactLen ix)[i := i64 (End pt - Begin pt + 1)]\<rparr>"
    define ix2 where "ix2 = (if 0 < Size pt then ix1\<lparr>ix_fileSize := Size pt, sizeExact := True\<rparr> else ix1)"
    have n: "SegmentCount ix = length L" and i: "i < length L" using False assms(1) by (auto simp: tracks_def tracks_data_def i_def)
    have pt: "Begin pt - 1 = true_start L i" "End pt - Begin pt + 1 = L ! i" "0 < Size pt \<longrightarrow> Size pt = sum_list L"
      using assms(3) False Some n i by (auto simp: truthful_def i_def true_start_Suc)
    have len: "i64 (End pt - Begin pt + 1) = L ! i"
      using pt(2) posting_len [OF assms(2) i] by (simp add: i64_nonneg)
    have "tracks_data L ix2"
      using assms(1) pt len i n
      by (auto simp: tracks_def tracks_data_def ix1_def ix2_def SegmentCount_def nth_list_update index_ok_def)
    moreover have "Observe k p ix = recompute (if exactLen ix ! i < 0 \<and> i + 1 < SegmentCount ix2 \<and> 0 < estLen ix2 ! i \<and>
        0 < exactLen ix2 ! i then note_evidence i ix2 else ix2)"
      using False Some by (simp add: Observe_def Let_def ix1_def ix2_def i_def)
    moreover have "SegmentCount ix2 = length L" using n by (simp add: ix1_def ix2_def SegmentCount_def)
    ultimately have "tracks_data L (Observe k p ix)" using note_evidence_tracks by simp
    then show ?thesis using Observe_ok assms(1) by (simp add: tracks_def)
  qed
qed (use assms in \<open>simp add: Observe_def\<close>)

lemma observe_all_tracks:
  "tracks L ix \<Longrightarrow> posting_ok L \<Longrightarrow> \<forall>ob \<in> set obs. truthful L ob \<Longrightarrow> tracks L (observe_all obs ix)"
proof (induction obs arbitrary: ix)
  case (Cons ob obs)
  then have "tracks L (Observe (fst ob) (snd ob) ix)" by (intro Observe_tracks) auto
  with Cons show ?case by (simp add: observe_all_def case_prod_beta)
qed (simp add: observe_all_def)

lemma NewOffsetIndex_sel:
  "exactLen (NewOffsetIndex shuffle f) = replicate (SegmentCount (NewOffsetIndex shuffle f)) (- 1)"
  "exactStart (NewOffsetIndex shuffle f) = replicate (SegmentCount (NewOffsetIndex shuffle f)) (- 1)"
  "anchorLen (NewOffsetIndex shuffle f) = 0" "\<not> sizeExact (NewOffsetIndex shuffle f)"
  by (simp_all add: NewOffsetIndex_def Let_def SegmentCount_def)

lemma NewOffsetIndex_tracks:
  assumes "SegmentCount (NewOffsetIndex shuffle f) = length L" "shapes_agree (estLen (NewOffsetIndex shuffle f)) L"
  shows "tracks L (NewOffsetIndex shuffle f)"
  using assms NewOffsetIndex_ok by (simp add: tracks_def tracks_data_def NewOffsetIndex_sel)


definition sample_posting :: nzb_file where
  "sample_posting = \<lparr>fl_Poster = [], fl_Date = 0, fl_Subject = [], fl_Groups = [], fl_Segments =
     [\<lparr>sg_Bytes = 103, sg_Number = 2, sg_MessageID = [98]\<rparr>, \<lparr>sg_Bytes = 104, sg_Number = 1, sg_MessageID = [97]\<rparr>,
      \<lparr>sg_Bytes = 30, sg_Number = 3, sg_MessageID = [99]\<rparr>]\<rparr>"

definition sample_part :: part where
  "sample_part = zero_part\<lparr>Begin := 101, End := 200, Size := 225\<rparr>"

lemma sample_index:
  "estLen (NewOffsetIndex id sample_posting) = [104, 103, 30] \<and> SegmentCount (NewOffsetIndex id sample_posting) = 3"
  by code_simp

lemma sample_shapes: "sameEncodedShape 104 104" "sameEncodedShape 104 103" "sameEncodedShape 103 104" "sameEncodedShape 103 103"
  by code_simp+

lemma sample_pairs:
  "Suc i < 3 \<and> Suc j < 3 \<Longrightarrow>
   sameEncodedShape ([104, 103, 30] ! i) ([104, 103, 30] ! j) \<and> [100, 100, 25::int] ! i = [100, 100, 25] ! j"
  using sample_shapes by (auto simp: less_Suc_eq numeral_3_eq_3)

lemma sample_truthful: "truthful [100, 100, 25] (1, Some sample_part)"
  by (simp add: truthful_def sample_part_def zero_part_def true_start_def numeral_2_eq_2)

lemma sample_posting_ok: "posting_ok [100, 100, 25]"
  by (simp add: posting_ok_def)


text \<open>The observation of one non-final article of a uniform posting.\<close>

lemma Observe_first:
  assumes "tracks L (NewOffsetIndex shuffle f)" "posting_ok L" "Suc k < length L"
    and "truthful L (int k, Some pt)" "0 < Size pt" "0 < estLen (NewOffsetIndex shuffle f) ! k"
  defines "ix \<equiv> Observe (int k) (Some pt) (NewOffsetIndex shuffle f)"
  shows "anchorLen ix = L ! k" "anchorEst ix = estLen ix ! k" "sizeExact ix" "estLen ix = estLen (NewOffsetIndex shuffle f)"
proof -
  let ?ix = "NewOffsetIndex shuffle f"
  have n: "SegmentCount ?ix = length L" using assms(1) by (simp add: tracks_def tracks_data_def)
  have k: "k < length L" "0 < L ! k" using assms(2,3) by (auto simp: posting_ok_def)
  have pt: "Begin pt = true_start L k + 1" "End pt = true_start L k + L ! k"
    using assms(4) k by (auto simp: truthful_def true_start_Suc)
  then have valid: "\<not> (Begin pt < 1 \<or> End pt < Begin pt)" using true_start_bounds(1) [OF assms(2), of k] k by simp
  have "i64 (End pt - Begin pt + 1) = L ! k"
    using pt posting_len [OF assms(2) k(1)] by (simp add: i64_nonneg)
  then show "anchorLen ix = L ! k" "anchorEst ix = estLen ix ! k" "sizeExact ix" "estLen ix = estLen ?ix"
    using assms(3,5,6) valid n k
    by (auto simp: ix_def Observe_def Let_def NewOffsetIndex_sel note_evidence_def SegmentCount_def)
qed

lemma uniform_all_exact:
  assumes "tracks L ix" "posting_ok L" "\<And>i. Suc i < length L \<Longrightarrow> stepExact ix i" "i < length L"
  shows "snd (layout_loop ix (length L) ! i)"
  using assms(4)
proof (induction i)
  case 0
  then show ?case by (simp add: layout_loop_0)
next
  case (Suc i)
  let ?l = "layout_loop ix (length L)"
  have prev: "fst (?l ! i) = true_start L i" using startExact_true [OF assms(1,2)] Suc by simp
  have le: "true_start L i \<le> true_start L (Suc i)"
    using posting_len(1) [OF assms(2), of i] Suc.prems by (simp add: true_start_Suc)
  have s: "i64 (true_start L i + stepLen ix i) = true_start L (Suc i)"
    using stepLen_true [OF assms(1) _ assms(3)] Suc.prems true_start_bounds [OF assms(2), of "Suc i"] assms(2)
    by (simp add: true_start_Suc i64_nonneg posting_ok_def)
  have "exactStart ix ! Suc i = true_start L (Suc i)" if "0 \<le> exactStart ix ! Suc i"
    using assms(1) Suc.prems that by (auto simp: tracks_def tracks_data_def)
  with s le prev Suc assms(3) [of i] show ?case
    by (auto simp: layout_loop_nth next_start_def Let_def)
qed

text \<open>
  One article pins a uniform posting: when all but the last article have one decoded length and
  close encoded sizes, observing any one of them makes the map byte-exact everywhere, so every
  offset of the file is located, for certain, in the article that carries it.
\<close>

theorem uniform_posting_pinned:
  assumes "posting_ok L" "SegmentCount (NewOffsetIndex shuffle f) = length L"
    and "\<forall>i j. Suc i < length L \<and> Suc j < length L \<longrightarrow> L ! i = L ! j \<and>
      sameEncodedShape (estLen (NewOffsetIndex shuffle f) ! i) (estLen (NewOffsetIndex shuffle f) ! j)"
    and "Suc k < length L" "truthful L (int k, Some pt)" "0 < Size pt" "0 \<le> off" "off < sum_list L"
  shows "\<exists>i < length L. LocateExact (Observe (int k) (Some pt) (NewOffsetIndex shuffle f)) off = Some (i, True) \<and>
    true_start L i \<le> off \<and> off < true_start L (Suc i)"
proof -
  let ?new = "NewOffsetIndex shuffle f"
  let ?ix = "Observe (int k) (Some pt) ?new"
  have t0: "tracks L ?new" using assms(2,3) by (intro NewOffsetIndex_tracks) (auto simp: shapes_agree_def)
  have t: "tracks L ?ix" using Observe_tracks [OF t0 assms(1,5)] .
  have "sameEncodedShape (estLen ?new ! k) (estLen ?new ! k)" using assms(3,4) by blast
  then have "0 < estLen ?new ! k" by (simp add: sameEncodedShape_def split: if_splits)
  note o = Observe_first [OF t0 assms(1,4,5,6) this]
  have n: "SegmentCount ?ix = length L" using t by (simp add: tracks_def tracks_data_def)
  have pos: "0 < L ! k" using assms(1,4) by (simp add: posting_ok_def)
  have "stepExact ?ix i" if "Suc i < length L" for i
  proof -
    have "sameEncodedShape (estLen ?new ! i) (estLen ?new ! k)" using assms(3,4) that by blast
    then show ?thesis using o pos that n by (simp add: stepExact_def)
  qed
  note ex = uniform_all_exact [OF t assms(1) this]
  have "FileSize ?ix = sum_list L" using t o(3) by (simp add: FileSize_def tracks_def tracks_data_def)
  then obtain i where i: "locateLocked ?ix off = Some i"
    using locateLocked_total [of ?ix off] t assms(7,8) by (auto simp: tracks_def)
  have "i < length L" using locateLocked_range [of ?ix off i] t i n by (simp add: tracks_def)
  then have "LocateExact ?ix off = Some (i, True)"
    using i ex o(3) t n by (auto simp: LocateExact_def tracks_def index_ok_def)
  from LocateExact_sound [OF t assms(1) this] this show ?thesis by blast
qed

theorem uniform_posting_pinned_witness:
  "\<exists>i < length [100, 100, 25::int]. LocateExact (Observe (int 1) (Some sample_part) (NewOffsetIndex id sample_posting)) 210 = Some (i, True) \<and>
    true_start [100, 100, 25] i \<le> 210 \<and> 210 < true_start [100, 100, 25] (Suc i)"
  using uniform_posting_pinned [OF sample_posting_ok, of id sample_posting 1 sample_part 210] sample_index sample_pairs
    sample_truthful by (auto simp: sample_part_def numeral_3_eq_3)

end
