(* ===== verification/Rar_Parse.thy ===== *)
theory Rar_Parse
  imports Go_Strings
begin

text \<open>
  The header parsers of the streaming path, \<open>internal/usenet/stream\<close>: \<open>rarparse.go\<close>,
  \<open>rar4.go\<close>, \<open>rar5.go\<close> and the volume reader of \<open>rarvolume.go\<close>. A volume is a size and a
  bounded random-access read. An index or slice expression the code does not guard becomes the error
  \<open>Panic\<close>; the scan of the RAR5 extra area need not end, so the RAR5 functions return
  \<open>None\<close> when the code does not return.
\<close>

section \<open>Results\<close>

datatype rar_error = NotStreamable string | Panic

type_synonym 'a parsed = "rar_error + 'a"

definition bindR :: "'a parsed \<Rightarrow> ('a \<Rightarrow> 'b parsed) \<Rightarrow> 'b parsed" where
  "bindR m f = (case m of Inl e \<Rightarrow> Inl e | Inr x \<Rightarrow> f x)"

lemma bindR_simps [simp]: "bindR (Inl e) f = Inl e" "bindR (Inr x) f = f x"
  by (simp_all add: bindR_def)

lemma bindR_Inr: "bindR m f = Inr y \<longleftrightarrow> (\<exists>x. m = Inr x \<and> f x = Inr y)"
  by (cases m) auto

text \<open>The same for computations that may not end.\<close>

definition bindO :: "'a parsed option \<Rightarrow> ('a \<Rightarrow> 'b parsed option) \<Rightarrow> 'b parsed option" where
  "bindO m f = (case m of None \<Rightarrow> None | Some (Inl e) \<Rightarrow> Some (Inl e) | Some (Inr x) \<Rightarrow> f x)"

lemma bindO_simps [simp]:
  "bindO None f = None" "bindO (Some (Inl e)) f = Some (Inl e)" "bindO (Some (Inr x)) f = f x"
  by (simp_all add: bindO_def)

section \<open>Volumes and chunks\<close>

record rarChunk =
  ch_name :: bytes
  volIndex :: int
  dataOffset :: int
  packSize :: int
  unpSize :: int
  stored :: bool
  encrypted :: bool

record volumeSource =
  vs_size :: int
  vs_readAt :: "int \<Rightarrow> int \<Rightarrow> bytes option"

text \<open>
  \<open>readerVolume\<close>: \<open>rd off n\<close> is what \<open>io.ReadFull\<close> fills a buffer of \<open>n\<close> bytes with after a seek to
  \<open>off\<close>; a short read is an error.
\<close>

definition readerVolume_readAt :: "int \<Rightarrow> (int \<Rightarrow> int \<Rightarrow> bytes) \<Rightarrow> int \<Rightarrow> int \<Rightarrow> bytes option" where
  "readerVolume_readAt sz rd off n =
     (if off < 0 \<or> n < 0 then None
      else if sz < n \<or> sz - n < off then None
      else let buf = rd off n in if int (length buf) = n then Some buf else None)"

definition readerVolume :: "int \<Rightarrow> (int \<Rightarrow> int \<Rightarrow> bytes) \<Rightarrow> volumeSource" where
  "readerVolume sz rd = \<lparr>vs_size = sz, vs_readAt = readerVolume_readAt sz rd\<rparr>"

definition rar4Marker :: bytes where
  "rar4Marker = [0x52, 0x61, 0x72, 0x21, 0x1a, 0x07, 0x00]"

definition rar5Marker :: bytes where
  "rar5Marker = [0x52, 0x61, 0x72, 0x21, 0x1a, 0x07, 0x01, 0x00]"

definition rarBaseName :: "bytes \<Rightarrow> bytes" where
  "rarBaseName name = Base (ReplaceAll name [92] [47])"

section \<open>Numbers\<close>

definition bytesEqual :: "bytes \<Rightarrow> bytes \<Rightarrow> bool" where
  "bytesEqual a b \<longleftrightarrow> length a = length b \<and> list_all2 (=) a b"

definition u16 :: "bytes \<Rightarrow> nat \<Rightarrow> uint16 option" where
  "u16 b off = (if length b < off + 2 then None else Some (ucast (b ! off) OR push_bit 8 (ucast (b ! (off + 1)))))"

definition u32 :: "bytes \<Rightarrow> nat \<Rightarrow> uint32 option" where
  "u32 b off = (if length b < off + 4 then None else
     Some (ucast (b ! off) OR push_bit 8 (ucast (b ! (off + 1))) OR push_bit 16 (ucast (b ! (off + 2)))
           OR push_bit 24 (ucast (b ! (off + 3)))))"

text \<open>The callers that drop \<open>ok\<close> get the zero value.\<close>

definition u16z :: "bytes \<Rightarrow> nat \<Rightarrow> uint16" where
  "u16z b off = (case u16 b off of Some v \<Rightarrow> v | None \<Rightarrow> 0)"

definition u32z :: "bytes \<Rightarrow> nat \<Rightarrow> uint32" where
  "u32z b off = (case u32 b off of Some v \<Rightarrow> v | None \<Rightarrow> 0)"

definition byte_at :: "bytes \<Rightarrow> int \<Rightarrow> byte parsed" where
  "byte_at b i = (if 0 \<le> i \<and> i < int (length b) then Inr (b ! nat i) else Inl Panic)"

text \<open>The loop of \<open>readVint\<close>; \<open>Inr None\<close> is \<open>ok = false\<close>. A negative offset passes its bound check
  and panics.\<close>

function readVint_loop :: "bytes \<Rightarrow> int \<Rightarrow> nat \<Rightarrow> uint64 \<Rightarrow> (uint64 \<times> nat) option parsed" where
  "readVint_loop b off i val =
     (if 10 \<le> i then Inr None
      else if int (length b) \<le> off + int i then Inr None
      else bindR (byte_at b (off + int i)) (\<lambda>c.
        let val = val OR push_bit (7 * i) (ucast (c AND 0x7f)) in
        if c AND 0x80 = 0 then Inr (Some (val, i + 1)) else readVint_loop b off (i + 1) val))"
  by pat_completeness auto
termination
  by (relation "measure (\<lambda>(b, off, i, val). 10 - i)") auto

declare readVint_loop.simps [simp del]

definition readVint :: "bytes \<Rightarrow> int \<Rightarrow> (uint64 \<times> nat) option parsed" where
  "readVint b off = readVint_loop b off 0 0"

text \<open>A vint the caller needs: its failure ends the parse with a reason.\<close>

definition need_vint :: "bytes \<Rightarrow> int \<Rightarrow> string \<Rightarrow> (uint64 \<times> nat) parsed" where
  "need_vint b off reason =
     bindR (readVint b off) (\<lambda>r. case r of None \<Rightarrow> Inl (NotStreamable reason) | Some v \<Rightarrow> Inr v)"

definition int64 :: "uint64 \<Rightarrow> int" where
  \<comment> \<open>the conversions \<open>int64(x)\<close> and \<open>int(x)\<close>\<close>
  "int64 w = sint w"

section \<open>RAR 4\<close>

definition rar4BaseHdrLen :: nat where
  "rar4BaseHdrLen = 7"

definition rar4MaxBlocks :: int where
  "rar4MaxBlocks = 100000"

definition rar4AddSize :: "uint16 \<Rightarrow> bytes \<Rightarrow> int" where
  "rar4AddSize flags hdr = (if flags AND 0x8000 = 0 then 0 else uint (u32z hdr 7))"

definition rar4FileBlock :: "uint16 \<Rightarrow> bytes \<Rightarrow> int \<Rightarrow> int \<Rightarrow> (int \<times> rarChunk option) parsed" where
  "rar4FileBlock flags hdr pos vi =
     (if length hdr < 32 then Inl (NotStreamable ''rar4 truncated file header'')
      else
        let packLo = u32z hdr 7; unpLo = u32z hdr 11; method = hdr ! 25; nameSize = unat (u16z hdr 26);
            large = (flags AND 0x0100 \<noteq> 0);
            pack = (if large then int64 (ucast packLo OR push_bit 32 (ucast (u32z hdr 32))) else uint packLo);
            unp = (if large then int64 (ucast unpLo OR push_bit 32 (ucast (u32z hdr 36))) else uint unpLo);
            nameOff = (if large then 40 else 32)
        in if length hdr < nameOff + nameSize then Inl (NotStreamable ''rar4 name runs past header'')
           else
             let name = slice hdr nameOff (nameOff + nameSize) in
             Inr (pack, Some \<lparr>ch_name = rarBaseName name, volIndex = vi,
                              dataOffset = i64 (pos + int (length hdr)), packSize = pack, unpSize = unp,
                              stored = (method = 0x30), encrypted = (flags AND 0x0004 \<noteq> 0)\<rparr>))"

definition rar4Block :: "byte \<Rightarrow> uint16 \<Rightarrow> bytes \<Rightarrow> int \<Rightarrow> int \<Rightarrow> (int \<times> rarChunk option) parsed" where
  "rar4Block blockType flags hdr pos vi =
     (if blockType = 0x73 then
        if flags AND 0x0080 \<noteq> 0 then Inl (NotStreamable ''rar4 encrypted headers'') else Inr (0, None)
      else if blockType = 0x74 then rar4FileBlock flags hdr pos vi
      else Inr (rar4AddSize flags hdr, None))"

text \<open>One turn of the loop of \<open>parseRar4\<close>: the block's type, how far the next block is, and its chunk.\<close>

definition rar4_step :: "volumeSource \<Rightarrow> int \<Rightarrow> int \<Rightarrow> (byte \<times> int \<times> rarChunk option) parsed" where
  "rar4_step vs vi pos =
     (case vs_readAt vs pos 7 of
        None \<Rightarrow> Inl (NotStreamable ''rar4 read block header'')
      | Some bas \<Rightarrow>
          bindR (byte_at bas 2) (\<lambda>blockType.
            let flags = u16z bas 3; headSize = u16z bas 5 in
            if headSize < 7 then Inl (NotStreamable ''rar4 bad header size'')
            else (case vs_readAt vs pos (uint headSize) of
                    None \<Rightarrow> Inl (NotStreamable ''rar4 read full header'')
                  | Some hdr \<Rightarrow>
                      bindR (rar4Block blockType flags hdr pos vi) (\<lambda>(dataSize, chunk).
                        Inr (blockType, i64 (uint headSize + dataSize), chunk)))))"

definition append_chunk :: "rarChunk list \<Rightarrow> rarChunk option \<Rightarrow> rarChunk list" where
  "append_chunk cs c = (case c of None \<Rightarrow> cs | Some x \<Rightarrow> cs @ [x])"

function parseRar4_loop :: "volumeSource \<Rightarrow> int \<Rightarrow> int \<Rightarrow> int \<Rightarrow> rarChunk list \<Rightarrow> rarChunk list parsed" where
  "parseRar4_loop vs vi blocks pos chunks =
     (if blocks < rar4MaxBlocks \<and> pos < vs_size vs then
        bindR (rar4_step vs vi pos) (\<lambda>(blockType, skip, chunk).
          let chunks = append_chunk chunks chunk in
          if blockType = 0x7b then Inr chunks
          else parseRar4_loop vs vi (blocks + 1) (i64 (pos + skip)) chunks)
      else Inr chunks)"
  by pat_completeness auto
termination
  by (relation "measure (\<lambda>(vs, vi, blocks, pos, chunks). nat (rar4MaxBlocks - blocks))") auto

declare parseRar4_loop.simps [simp del]

definition parseRar4 :: "volumeSource \<Rightarrow> int \<Rightarrow> rarChunk list parsed" where
  "parseRar4 vs vi = parseRar4_loop vs vi 0 (int (length rar4Marker)) []"

section \<open>RAR 5\<close>

record rar5Header =
  blockType :: uint64
  dataSize :: int
  h_name :: bytes
  h_unpSize :: int
  h_stored :: bool
  h_encrypted :: bool

text \<open>The scan of the extra area from record offset \<open>p\<close> on.\<close>

partial_function (option) hasCrypt_loop :: "bytes \<Rightarrow> int \<Rightarrow> bool parsed option" where
  "hasCrypt_loop area p =
     (if p < int (length area) then
        case readVint area p of
          Inl e \<Rightarrow> Some (Inl e)
        | Inr None \<Rightarrow> Some (Inr True)
        | Inr (Some (recSize, n)) \<Rightarrow>
            if recSize = 0 then Some (Inr True)
            else if int (length area) < i64 (p + int n + int64 recSize) then Some (Inr True)
            else (case readVint area (p + int n) of
                    Inl e \<Rightarrow> Some (Inl e)
                  | Inr None \<Rightarrow> Some (Inr True)
                  | Inr (Some (recType, _)) \<Rightarrow>
                      if recType = 1 then Some (Inr True)
                      else hasCrypt_loop area (i64 (p + int n + int64 recSize)))
      else Some (Inr False))"

declare hasCrypt_loop.simps [code]

definition rar5HasCrypt :: "bytes \<Rightarrow> int \<Rightarrow> bool parsed option" where
  "rar5HasCrypt hdr extraSize =
     (if extraSize \<le> 0 then Some (Inr False)
      else if int (length hdr) < extraSize then Some (Inr True)
      else hasCrypt_loop (drop (length hdr - nat extraSize) hdr) 0)"

text \<open>\<open>hdr[p : p+int(nameLen)]\<close> panics unless \<open>0 <= p <= p+int(nameLen) <= cap\<close>; the bound above has been
  checked against the length.\<close>

definition rar5FileName :: "bytes \<Rightarrow> int \<Rightarrow> bytes parsed" where
  "rar5FileName hdr p =
     bindR (need_vint hdr p ''rar5 bad host os'') (\<lambda>(_, n).
       bindR (need_vint hdr (p + int n) ''rar5 bad name length'') (\<lambda>(nameLen, n2).
         let p = p + int n + int n2; stop = i64 (p + int64 nameLen) in
         if int (length hdr) < stop then Inl (NotStreamable ''rar5 name runs past header'')
         else if stop < p then Inl Panic
         else Inr (rarBaseName (slice hdr (nat p) (nat stop)))))"

definition parseRar5File :: "rar5Header \<Rightarrow> bytes \<Rightarrow> int \<Rightarrow> int \<Rightarrow> rar5Header parsed option" where
  "parseRar5File h hdr p extraSize =
     bindO (Some (need_vint hdr p ''rar5 bad file flags'')) (\<lambda>(fileFlags, n1).
     bindO (Some (need_vint hdr (p + int n1) ''rar5 bad unpacked size'')) (\<lambda>(unp, n2).
       if fileFlags AND 8 \<noteq> 0 then Some (Inl (NotStreamable ''rar5 unknown unpacked size''))
       else
         bindO (Some (need_vint hdr (p + int n1 + int n2) ''rar5 bad attributes'')) (\<lambda>(_, n3).
           let p = p + int n1 + int n2 + int n3;
               p = (if fileFlags AND 2 \<noteq> 0 then p + 4 else p);
               p = (if fileFlags AND 4 \<noteq> 0 then p + 4 else p)
           in bindO (Some (need_vint hdr p ''rar5 bad compression info'')) (\<lambda>(compInfo, n4).
              bindO (Some (rar5FileName hdr (p + int n4))) (\<lambda>name.
              bindO (rar5HasCrypt hdr extraSize) (\<lambda>crypt.
                Some (Inr (h\<lparr>h_name := name, h_unpSize := int64 unp,
                             h_stored := (drop_bit 7 (compInfo AND 0x0380) = 0), h_encrypted := crypt\<rparr>))))))))"

definition parseRar5Header :: "bytes \<Rightarrow> rar5Header parsed option" where
  "parseRar5Header hdr =
     bindO (Some (need_vint hdr 0 ''rar5 bad block type'')) (\<lambda>(bt, n1).
     bindO (Some (need_vint hdr (int n1) ''rar5 bad header flags'')) (\<lambda>(flags, n2).
       let p = int n1 + int n2 in
       bindO (Some (if flags AND 1 \<noteq> 0 then need_vint hdr p ''rar5 bad extra size'' else Inr (0, 0))) (\<lambda>(extraSize, n3).
         let p = p + int n3 in
         bindO (Some (if flags AND 2 \<noteq> 0 then need_vint hdr p ''rar5 bad data size'' else Inr (0, 0))) (\<lambda>(ds, n4).
           let p = p + int n4;
               h = \<lparr>blockType = bt, dataSize = int64 ds, h_name = [], h_unpSize = 0, h_stored = False, h_encrypted = False\<rparr>
           in if bt \<noteq> 2 then Some (Inr h) else parseRar5File h hdr p (int64 extraSize)))))"

definition rar5FileChunk :: "rar5Header \<Rightarrow> int \<Rightarrow> int \<Rightarrow> rarChunk" where
  "rar5FileChunk h dataStart vi =
     \<lparr>ch_name = h_name h, volIndex = vi, dataOffset = dataStart, packSize = dataSize h, unpSize = h_unpSize h,
      stored = h_stored h, encrypted = h_encrypted h\<rparr>"

text \<open>The next position, the chunk, and whether the walk stops.\<close>

definition rar5Block :: "volumeSource \<Rightarrow> int \<Rightarrow> int \<Rightarrow> (int \<times> rarChunk option \<times> bool) parsed option" where
  "rar5Block vs pos vi =
     (let avail = i64 (vs_size vs - i64 (pos + 4)) in
      if avail \<le> 0 then Some (Inl (NotStreamable ''rar5 truncated at block header''))
      else case vs_readAt vs (i64 (pos + 4)) (min 16 avail) of
        None \<Rightarrow> Some (Inl (NotStreamable ''rar5 read header size''))
      | Some probe \<Rightarrow>
          bindO (Some (need_vint probe 0 ''rar5 bad header size vint'')) (\<lambda>(hsize, k).
            if hsize = 0 then Some (Inl (NotStreamable ''rar5 bad header size vint''))
            else
              let hdrStart = i64 (pos + 4 + int k) in
              case vs_readAt vs hdrStart (int64 hsize) of
                None \<Rightarrow> Some (Inl (NotStreamable ''rar5 read header''))
              | Some hdr \<Rightarrow>
                  bindO (parseRar5Header hdr) (\<lambda>h.
                    let dataStart = i64 (hdrStart + int64 hsize) in
                    if blockType h = 5 then Some (Inr (0, None, True))
                    else Some (Inr (i64 (dataStart + dataSize h),
                                    if blockType h = 2 then Some (rar5FileChunk h dataStart vi) else None, False)))))"

definition rar5MaxBlocks :: int where
  "rar5MaxBlocks = 100000"

function parseRar5_loop :: "volumeSource \<Rightarrow> int \<Rightarrow> int \<Rightarrow> int \<Rightarrow> rarChunk list \<Rightarrow> rarChunk list parsed option" where
  "parseRar5_loop vs vi blocks pos chunks =
     (if blocks < rar5MaxBlocks \<and> pos < vs_size vs then
        bindO (rar5Block vs pos vi) (\<lambda>(nextPos, chunk, stop).
          let chunks = append_chunk chunks chunk in
          if stop then Some (Inr chunks) else parseRar5_loop vs vi (blocks + 1) nextPos chunks)
      else Some (Inr chunks))"
  by pat_completeness auto
termination
  by (relation "measure (\<lambda>(vs, vi, blocks, pos, chunks). nat (rar5MaxBlocks - blocks))") auto

declare parseRar5_loop.simps [simp del]

definition parseRar5 :: "volumeSource \<Rightarrow> int \<Rightarrow> rarChunk list parsed option" where
  "parseRar5 vs vi = parseRar5_loop vs vi 0 (int (length rar5Marker)) []"

definition parseVolume :: "volumeSource \<Rightarrow> int \<Rightarrow> rarChunk list parsed option" where
  "parseVolume vs vi =
     (case vs_readAt vs 0 (int (length rar5Marker)) of
        None \<Rightarrow> Some (Inl (NotStreamable ''read rar signature''))
      | Some sig \<Rightarrow>
          if bytesEqual sig rar5Marker then parseRar5 vs vi
          else if length sig < length rar4Marker then Some (Inl Panic)
          else if bytesEqual (take (length rar4Marker) sig) rar4Marker then Some (parseRar4 vs vi)
          else Some (Inl (NotStreamable ''unrecognised RAR signature'')))"

end
