(* ===== verification/Fetch_Budget.thy ===== *)
theory Fetch_Budget
  imports Go_Prelude
begin

text \<open>
  The byte budget of speculative fetches, \<open>internal/usenet/stream/budget.go\<close>. \<open>remaining\<close> and \<open>spent\<close> are
  atomics shared by every reader, so besides the sequential operations there is a step relation in which the fetch
  attempts of any number of readers interleave at every atomic access.
\<close>

section \<open>Operations\<close>

record fetch_budget =
  remaining :: int
  spent :: int

text \<open>\<open>None\<close> is the nil budget: unbounded.\<close>

definition NewFetchBudget :: "int \<Rightarrow> fetch_budget option" where
  "NewFetchBudget maxBytes = (if maxBytes \<le> 0 then None else Some \<lparr>remaining = maxBytes, spent = 0\<rparr>)"

text \<open>The atomic accesses.\<close>

definition add_remaining :: "int \<Rightarrow> fetch_budget \<Rightarrow> fetch_budget" where
  "add_remaining d b = b\<lparr>remaining := i64 (remaining b + d)\<rparr>"

definition add_spent :: "int \<Rightarrow> fetch_budget \<Rightarrow> fetch_budget" where
  "add_spent d b = b\<lparr>spent := i64 (spent b + d)\<rparr>"

definition reserve :: "int \<Rightarrow> fetch_budget option \<Rightarrow> bool \<times> fetch_budget option" where
  "reserve est b =
     (case b of
        None \<Rightarrow> (True, None)
      | Some b \<Rightarrow>
          if est \<le> 0 then (0 < remaining b, Some b)
          else let b' = add_remaining (- est) b in
            if remaining b' < 0 then (False, Some (add_remaining est b')) else (True, Some b'))"

definition settle_spent :: "int \<Rightarrow> fetch_budget \<Rightarrow> fetch_budget" where
  "settle_spent actual b = (if 0 < actual then add_spent actual b else b)"

definition settle_remaining :: "int \<Rightarrow> int \<Rightarrow> fetch_budget \<Rightarrow> fetch_budget" where
  "settle_remaining reserved actual b = add_remaining (if 0 < reserved then reserved - actual else - actual) b"

definition settle :: "int \<Rightarrow> int \<Rightarrow> fetch_budget option \<Rightarrow> fetch_budget option" where
  "settle reserved actual b = map_option (\<lambda>b. settle_remaining reserved actual (settle_spent actual b)) b"

definition Spent :: "fetch_budget option \<Rightarrow> int" where
  "Spent b = (case b of None \<Rightarrow> 0 | Some b \<Rightarrow> spent b)"

text \<open>A reader of ours takes the budget; another one is left alone.\<close>

definition ApplyFetchBudget :: "fetch_budget option option \<Rightarrow> fetch_budget option \<Rightarrow> bool \<times> fetch_budget option option" where
  \<comment> \<open>the reader's own budget field, \<open>None\<close> when the reader is not a \<open>BudgetedReader\<close>\<close>
  "ApplyFetchBudget rd b =
     (if b = None then (False, rd) else case rd of None \<Rightarrow> (False, rd) | Some _ \<Rightarrow> (True, Some b))"

section \<open>Interleaved attempts\<close>

text \<open>One fetch attempt: not started, refused but its debit not yet put back, refused, fetching under its reservation,
  half settled, settled.\<close>

datatype attempt =
    Start int
  | PutBack int
  | Refused
  | Fetching int
  | HalfSettled int int
  | Settled int

record pot =
  budget :: fetch_budget
  attempts :: "attempt list"

text \<open>\<open>wire i\<close> is what attempt \<open>i\<close> pulls off the wire.\<close>

inductive pot_step :: "(nat \<Rightarrow> int) \<Rightarrow> pot \<Rightarrow> pot \<Rightarrow> bool" for wire where
  look: "i < length (attempts p) \<Longrightarrow> attempts p ! i = Start est \<Longrightarrow> est \<le> 0 \<Longrightarrow>
    pot_step wire p (p\<lparr>attempts := (attempts p)[i := if 0 < remaining (budget p) then Fetching est else Refused]\<rparr>)"
| debit: "i < length (attempts p) \<Longrightarrow> attempts p ! i = Start est \<Longrightarrow> 0 < est \<Longrightarrow>
    b = add_remaining (- est) (budget p) \<Longrightarrow>
    pot_step wire p (p\<lparr>budget := b, attempts := (attempts p)[i := if remaining b < 0 then PutBack est else Fetching est]\<rparr>)"
| put_back: "i < length (attempts p) \<Longrightarrow> attempts p ! i = PutBack est \<Longrightarrow>
    pot_step wire p (p\<lparr>budget := add_remaining est (budget p), attempts := (attempts p)[i := Refused]\<rparr>)"
| note_spent: "i < length (attempts p) \<Longrightarrow> attempts p ! i = Fetching est \<Longrightarrow>
    pot_step wire p (p\<lparr>budget := settle_spent (wire i) (budget p), attempts := (attempts p)[i := HalfSettled est (wire i)]\<rparr>)"
| give_back: "i < length (attempts p) \<Longrightarrow> attempts p ! i = HalfSettled est act \<Longrightarrow>
    pot_step wire p (p\<lparr>budget := settle_remaining est act (budget p), attempts := (attempts p)[i := Settled act]\<rparr>)"

definition pot_init :: "int \<Rightarrow> int list \<Rightarrow> pot" where
  "pot_init maxBytes ests = \<lparr>budget = \<lparr>remaining = maxBytes, spent = 0\<rparr>, attempts = map Start ests\<rparr>"

section \<open>The ceiling\<close>

text \<open>What an attempt may have pulled or may still pull, and what it has taken out of the pot.\<close>

fun claim_of :: "attempt \<Rightarrow> int" where
  "claim_of (Fetching est) = est"
| "claim_of (HalfSettled est act) = est"
| "claim_of (Settled act) = act"
| "claim_of _ = 0"

fun on_loan :: "attempt \<Rightarrow> int" where
  "on_loan (PutBack est) = est"
| "on_loan a = claim_of a"

fun pulled :: "attempt \<Rightarrow> int" where
  "pulled (HalfSettled est act) = act"
| "pulled (Settled act) = act"
| "pulled _ = 0"

fun loan_bound :: "attempt \<Rightarrow> int" where
  "loan_bound (Start est) = est"
| "loan_bound a = on_loan a"

text \<open>
  The invariant, for sizes that are advertised and not exceeded: the pot and what is on loan add up to the budget, a
  refused debit is all that may push the pot below zero, and \<open>spent\<close> is what was pulled.
\<close>

definition attempt_ok :: "attempt \<Rightarrow> bool" where
  "attempt_ok a \<longleftrightarrow>
     (case a of Start e \<Rightarrow> 0 < e | PutBack e \<Rightarrow> 0 < e | Refused \<Rightarrow> True | Fetching e \<Rightarrow> 0 < e
      | HalfSettled e act \<Rightarrow> 0 < e \<and> 0 \<le> act \<and> act \<le> e | Settled act \<Rightarrow> 0 \<le> act)"

definition wire_ok :: "(nat \<Rightarrow> int) \<Rightarrow> nat \<Rightarrow> attempt \<Rightarrow> bool" where
  "wire_ok wire i a \<longleftrightarrow> (case a of Start e \<Rightarrow> 0 \<le> wire i \<and> wire i \<le> e | Fetching e \<Rightarrow> 0 \<le> wire i \<and> wire i \<le> e | _ \<Rightarrow> True)"

definition pot_inv :: "(nat \<Rightarrow> int) \<Rightarrow> int \<Rightarrow> pot \<Rightarrow> bool" where
  "pot_inv wire m p \<longleftrightarrow>
     list_all attempt_ok (attempts p) \<and> (\<forall>i < length (attempts p). wire_ok wire i (attempts p ! i)) \<and>
     remaining (budget p) + sum_list (map on_loan (attempts p)) = m \<and>
     sum_list (map claim_of (attempts p)) \<le> m \<and>
     spent (budget p) = sum_list (map pulled (attempts p)) \<and>
     m + sum_list (map loan_bound (attempts p)) \<le> max_i64 \<and> 0 \<le> m"

lemma attempt_le:
  assumes "attempt_ok a"
  shows "0 \<le> claim_of a" "claim_of a \<le> on_loan a" "on_loan a \<le> loan_bound a" "0 \<le> pulled a" "pulled a \<le> claim_of a"
  using assms by (cases a; simp add: attempt_ok_def)+

lemma pot_inv_sums:
  assumes "pot_inv wire m p"
  shows "0 \<le> sum_list (map claim_of (attempts p))" "sum_list (map claim_of (attempts p)) \<le> sum_list (map on_loan (attempts p))"
    "sum_list (map on_loan (attempts p)) \<le> sum_list (map loan_bound (attempts p))"
    "sum_list (map pulled (attempts p)) \<le> sum_list (map claim_of (attempts p))" "0 \<le> sum_list (map pulled (attempts p))"
proof -
  have ok: "attempt_ok a" if "a \<in> set (attempts p)" for a
    using assms that by (simp add: pot_inv_def list_all_iff)
  show "0 \<le> sum_list (map claim_of (attempts p))" "0 \<le> sum_list (map pulled (attempts p))"
    using attempt_le(1,4) ok by (auto intro!: sum_list_nonneg)
  show "sum_list (map claim_of (attempts p)) \<le> sum_list (map on_loan (attempts p))"
    "sum_list (map on_loan (attempts p)) \<le> sum_list (map loan_bound (attempts p))"
    "sum_list (map pulled (attempts p)) \<le> sum_list (map claim_of (attempts p))"
    using attempt_le ok by (auto intro!: sum_list_map_le)
qed

lemma pot_inv_upd:
  assumes "pot_inv wire m p" "i < length (attempts p)" "attempt_ok a" "wire_ok wire i a"
    and "remaining b = remaining (budget p) + on_loan (attempts p ! i) - on_loan a"
    and "spent b = spent (budget p) + pulled a - pulled (attempts p ! i)"
    and "loan_bound a \<le> loan_bound (attempts p ! i)"
    and "claim_of a \<le> claim_of (attempts p ! i) \<or> 0 \<le> remaining b"
  shows "pot_inv wire m (p\<lparr>budget := b, attempts := (attempts p)[i := a]\<rparr>)" (is "pot_inv wire m ?p")
proof -
  let ?as = "(attempts p)[i := a]"
  have ok: "list_all attempt_ok ?as"
    using assms(1-3) by (auto simp: pot_inv_def list_all_iff dest!: set_update_subset_insert [THEN subsetD])
  have loan: "remaining b + sum_list (map on_loan ?as) = m"
    using assms(1,2,5) by (simp add: pot_inv_def sum_list_upd)
  have "sum_list (map claim_of ?as) \<le> sum_list (map on_loan ?as)"
    using ok attempt_le(2) by (intro sum_list_map_le) (simp add: list_all_iff)
  then have "sum_list (map claim_of ?as) \<le> m"
    using assms(1,2,8) loan by (auto simp: pot_inv_def sum_list_upd)
  then show ?thesis
    using assms ok loan by (auto simp: pot_inv_def sum_list_upd nth_list_update)
qed

lemma pot_inv_step:
  assumes "pot_step wire p p'" "pot_inv wire m p"
  shows "pot_inv wire m p'"
proof -
  note sums = pot_inv_sums [OF assms(2)]
  have inv: "remaining (budget p) + sum_list (map on_loan (attempts p)) = m" "m + sum_list (map loan_bound (attempts p)) \<le> max_i64"
    "spent (budget p) = sum_list (map pulled (attempts p))" "0 \<le> m" "sum_list (map claim_of (attempts p)) \<le> m"
    using assms(2) by (simp_all add: pot_inv_def)
  have at: "attempt_ok (attempts p ! i)" "wire_ok wire i (attempts p ! i)" if "i < length (attempts p)" for i
    using assms(2) that by (simp_all add: pot_inv_def list_all_length)
  have one: "f (attempts p ! i) \<le> sum_list (map f (attempts p))"
    if "i < length (attempts p)" "\<And>a. attempt_ok a \<Longrightarrow> 0 \<le> f a" for i and f :: "attempt \<Rightarrow> int"
  proof -
    have "0 \<le> f a" if "a \<in> set (attempts p)" for a
      using that at(1) \<open>\<And>a. attempt_ok a \<Longrightarrow> 0 \<le> f a\<close> by (auto simp: in_set_conv_nth)
    then show ?thesis using that(1) by (intro member_le_sum_list) auto
  qed
  show ?thesis
    using assms(1)
  proof cases
    case (look i est)
    then show ?thesis using at [of i] by (simp add: attempt_ok_def)
  next
    case (debit i est b)
    have "est \<le> sum_list (map (\<lambda>a. loan_bound a - on_loan a) (attempts p))"
      using one [OF debit(2), of "\<lambda>a. loan_bound a - on_loan a"] attempt_le(3) debit(3) by simp
    then have "est \<le> sum_list (map loan_bound (attempts p)) - sum_list (map on_loan (attempts p))"
      by (simp add: sum_list_subtractf)
    then have r: "remaining b = remaining (budget p) - est"
      using debit(4,5) inv sums by (simp add: add_remaining_def i64_id in_i64_bounds)
    then show ?thesis
      unfolding debit(1) using debit(2-4) at [OF debit(2)] debit(5)
      by (intro pot_inv_upd assms(2)) (auto simp: attempt_ok_def wire_ok_def add_remaining_def)
  next
    case (put_back i est)
    have "est \<le> sum_list (map on_loan (attempts p))"
      using one [OF put_back(2), of on_loan] attempt_le(1,2) put_back(3) by (force intro: order_trans)
    then have "remaining (add_remaining est (budget p)) = remaining (budget p) + est"
      using at(1) [OF put_back(2)] put_back(3) inv sums
      by (simp add: add_remaining_def attempt_ok_def i64_id in_i64_bounds)
    then show ?thesis
      unfolding put_back(1) using put_back(2,3) at [OF put_back(2)]
      by (intro pot_inv_upd assms(2)) (auto simp: attempt_ok_def wire_ok_def add_remaining_def)
  next
    case (note_spent i est)
    have w: "0 \<le> wire i" "wire i \<le> est" using at(2) [OF note_spent(2)] note_spent(3) by (simp_all add: wire_ok_def)
    have "est \<le> sum_list (map (\<lambda>a. claim_of a - pulled a) (attempts p))"
      using one [OF note_spent(2), of "\<lambda>a. claim_of a - pulled a"] attempt_le(5) note_spent(3) by simp
    then have "spent (budget p) + wire i \<le> max_i64"
      using w inv sums by (simp add: sum_list_subtractf)
    then have "spent (settle_spent (wire i) (budget p)) = spent (budget p) + wire i"
      using w inv sums by (simp add: settle_spent_def add_spent_def i64_id in_i64_bounds)
    moreover have "remaining (settle_spent (wire i) (budget p)) = remaining (budget p)"
      by (simp add: settle_spent_def add_spent_def)
    ultimately show ?thesis
      unfolding note_spent(1) using note_spent(2,3) at [OF note_spent(2)] w
      by (intro pot_inv_upd assms(2)) (auto simp: attempt_ok_def wire_ok_def)
  next
    case (give_back i est act)
    have a: "0 < est" "0 \<le> act" "act \<le> est" using at(1) [OF give_back(2)] give_back(3) by (simp_all add: attempt_ok_def)
    have "est \<le> sum_list (map on_loan (attempts p))"
      using one [OF give_back(2), of on_loan] attempt_le(1,2) give_back(3) by (force intro: order_trans)
    then have "remaining (settle_remaining est act (budget p)) = remaining (budget p) + est - act"
      using a inv sums by (simp add: settle_remaining_def add_remaining_def i64_id in_i64_bounds)
    then show ?thesis
      unfolding give_back(1) using give_back(2,3) at [OF give_back(2)] a
      by (intro pot_inv_upd assms(2)) (auto simp: attempt_ok_def wire_ok_def settle_remaining_def add_remaining_def)
  qed
qed

lemma pot_inv_init:
  assumes "0 \<le> m" "\<And>i. i < length ests \<Longrightarrow> 0 < ests ! i \<and> 0 \<le> wire i \<and> wire i \<le> ests ! i"
    and "m + sum_list ests \<le> max_i64"
  shows "pot_inv wire m (pot_init m ests)"
proof -
  have "sum_list (map f (map Start ests)) = 0" if "\<And>e. f (Start e) = 0" for f :: "attempt \<Rightarrow> int"
    using that by (induction ests) auto
  moreover have "sum_list (map loan_bound (map Start ests)) = sum_list ests"
    by (induction ests) auto
  ultimately show ?thesis
    using assms by (simp add: pot_inv_def pot_init_def wire_ok_def attempt_ok_def list_all_length)
qed

lemma pot_inv_reach:
  assumes "(pot_step wire)\<^sup>*\<^sup>* p p'" "pot_inv wire m p"
  shows "pot_inv wire m p'"
  using assms by (induction rule: rtranclp_induct) (auto intro: pot_inv_step)

section \<open>Properties\<close>



end
