(* ===== verification/Rar_Store.thy ===== *)
theory Rar_Store
  imports Rar_Parse Offset_Index Fetch_Budget
begin

text \<open>
  Classifying a RAR release, \<open>internal/usenet/stream/rarstore.go\<close> and the volume names of
  \<open>rarvolume.go\<close>: the volumes in assembly order, the one stored video among the chunks, and its layout as
  extents over the volumes. The concurrent header probe is a step relation.
\<close>

section \<open>Names\<close>

definition videoExtensions :: "bytes list" where
  "videoExtensions = map str [''.mkv'', ''.mp4'', ''.m4v'', ''.avi'', ''.mov'', ''.ts'', ''.webm'', ''.wmv'']"

definition isVideoName :: "unicode_lower \<Rightarrow> bytes \<Rightarrow> bool" where
  "isVideoName u name \<longleftrightarrow> lower_ext u name \<in> set videoExtensions"

text \<open>The regular expressions are anchored at the end, so a match is read off backwards: the digits at the end of
  the name (before \<open>.rar\<close>) and what stands before them.\<close>

definition trailing_digits :: "bytes \<Rightarrow> bytes" where
  "trailing_digits s = rev (takeWhile is_digit (rev s))"

definition before_digits :: "bytes \<Rightarrow> bytes" where
  "before_digits s = rev (dropWhile is_digit (rev s))"

definition partVolRe :: "bytes \<Rightarrow> bytes option" where
  "partVolRe name =
     (if HasSuffix (map lower_byte name) (str ''.rar'') then
        let stem = take (length name - 4) name in
        if trailing_digits stem \<noteq> [] \<and> HasSuffix (map lower_byte (before_digits stem)) (str ''.part'')
        then Some (trailing_digits stem) else None
      else None)"

text \<open>\<open>[r-z]\<close> without regard to case also matches the long s, two bytes in UTF-8.\<close>

definition oldVolRe :: "bytes \<Rightarrow> (bytes \<times> bytes) option" where
  "oldVolRe name =
     (let n = length name; ds = drop (n - 2) name in
      if n < 4 \<or> \<not> list_all is_digit ds then None
      else if name ! (n - 4) = 46 \<and> 114 \<le> lower_byte (name ! (n - 3)) \<and> lower_byte (name ! (n - 3)) \<le> 122
      then Some ([name ! (n - 3)], ds)
      else if 5 \<le> n \<and> name ! (n - 5) = 46 \<and> name ! (n - 4) = 0xc5 \<and> name ! (n - 3) = 0xbf
      then Some ([0xc5, 0xbf], ds)
      else None)"

definition numVolRe :: "bytes \<Rightarrow> bytes option" where
  "numVolRe name =
     (if 3 \<le> length (trailing_digits name) \<and> HasSuffix (before_digits name) (str ''.'')
      then Some (trailing_digits name) else None)"

definition volumeOrder :: "unicode_lower \<Rightarrow> bytes \<Rightarrow> int" where
  "volumeOrder u name =
     (case partVolRe name of
        Some d \<Rightarrow> fst (Atoi d)
      | None \<Rightarrow>
          if HasSuffix (ToLower u name) (str ''.rar'') then 0
          else (case oldVolRe name of
                  Some (l, d) \<Rightarrow>
                    let letter = uint (hd (ToLower u l) - 114) in letter * 100 + fst (Atoi d) + 1
                | None \<Rightarrow> (case numVolRe name of Some d \<Rightarrow> fst (Atoi d) | None \<Rightarrow> 2 ^ 30)))"

text \<open>\<open>sort.SliceStable\<close>: the stable sort by the key.\<close>

definition sortRarVolumes :: "unicode_lower \<Rightarrow> nzb_file list \<Rightarrow> nzb_file list" where
  "sortRarVolumes u rarFiles = sort_key (\<lambda>f. volumeOrder u (Filename f)) rarFiles"

section \<open>The video among the chunks\<close>

text \<open>The first loop of \<open>selectVideo\<close>: the chunks of every name, and the names as they come up.\<close>

fun group_chunks :: "rarChunk list \<Rightarrow> (bytes \<rightharpoonup> rarChunk list) \<Rightarrow> bytes list \<Rightarrow> ((bytes \<rightharpoonup> rarChunk list) \<times> bytes list) parsed" where
  "group_chunks [] byName names = Inr (byName, names)"
| "group_chunks (c # cs) byName names =
     (if encrypted c then Inl (NotStreamable ''encrypted file'')
      else
        let names = (if byName (ch_name c) = None then names @ [ch_name c] else names);
            old = (case byName (ch_name c) of None \<Rightarrow> [] | Some g \<Rightarrow> g)
        in group_chunks cs (byName(ch_name c \<mapsto> old @ [c])) names)"

definition selectVideo :: "unicode_lower \<Rightarrow> rarChunk list \<Rightarrow> rarChunk list parsed" where
  "selectVideo u chunks =
     (if chunks = [] then Inl (NotStreamable ''archive contains no files'')
      else bindR (group_chunks chunks Map.empty []) (\<lambda>(byName, names).
        case filter (isVideoName u) names of
          [] \<Rightarrow> Inl (NotStreamable ''no video file in archive'')
        | [name] \<Rightarrow>
            let grp = (case byName name of None \<Rightarrow> [] | Some g \<Rightarrow> g) in
            if list_ex (\<lambda>c. \<not> stored c) grp then Inl (NotStreamable ''video is compressed, not stored'')
            else Inr (sort_key volIndex grp)
        | _ \<Rightarrow> Inl (NotStreamable ''multiple video files (ambiguous)'')))"

section \<open>Extents\<close>

record extent =
  videoStart :: int
  ex_length :: int
  ex_volIndex :: int
  ex_dataOffset :: int

fun extents_loop :: "rarChunk list \<Rightarrow> int \<Rightarrow> (extent list \<times> int) parsed" where
  "extents_loop [] start = Inr ([], start)"
| "extents_loop (c # cs) start =
     (if packSize c < 0 then Inl (NotStreamable ''negative pack size'')
      else bindR (extents_loop cs (i64 (start + packSize c))) (\<lambda>(es, tot).
        Inr (\<lparr>videoStart = start, ex_length = packSize c, ex_volIndex = volIndex c,
              ex_dataOffset = dataOffset c\<rparr> # es, tot)))"

definition buildExtents :: "rarChunk list \<Rightarrow> (extent list \<times> int) parsed" where
  "buildExtents grp =
     bindR (extents_loop grp 0) (\<lambda>(extents, start).
       if grp = [] then Inl Panic
       else let unp = unpSize (hd grp) in
         if 0 < unp \<and> unp \<noteq> start then Inl (NotStreamable ''stored bytes do not match unpacked size'')
         else Inr (extents, start))"

definition findExtent :: "extent list \<Rightarrow> int \<Rightarrow> extent option" where
  "findExtent exts off =
     (let i = int (sort_Search (length exts) (\<lambda>k. off < videoStart (exts ! k))) - 1 in
      if i < 0 \<or> int (length exts) \<le> i then None
      else let e = exts ! nat i in
        if videoStart e \<le> off \<and> off < i64 (videoStart e + ex_length e) then Some e else None)"

section \<open>The header probe\<close>

definition probeConcurrency :: "int option \<Rightarrow> nat \<Rightarrow> int" where
  "probeConcurrency hint volumeCount =
     (let limit = (case hint of Some m \<Rightarrow> if 0 < m then m else 10 | None \<Rightarrow> 10);
          limit = (if int volumeCount < limit then int volumeCount else limit)
      in if limit < 1 then 1 else limit)"

text \<open>The probe's budget: one article's encoded size per volume, times three.\<close>

definition probeBudget :: "nzb_file list \<Rightarrow> fetch_budget option" where
  "probeBudget volumes =
     NewFetchBudget (i64 (foldl (\<lambda>tot v. case find (\<lambda>s. 0 < sg_Bytes s) (fl_Segments v) of
                   None \<Rightarrow> tot | Some s \<Rightarrow> i64 (tot + sg_Bytes s)) 0 volumes * 3))"

text \<open>What opening a volume reader can fail with.\<close>

datatype open_error = OpenNotStreamable string | BudgetExhausted | OtherError string

definition probeError :: "open_error \<Rightarrow> rar_error" where
  "probeError err =
     (case err of
        OpenNotStreamable reason \<Rightarrow> NotStreamable reason
      | BudgetExhausted \<Rightarrow> NotStreamable ''header probe exceeded its article budget''
      | OtherError msg \<Rightarrow> NotStreamable msg)"

text \<open>The body of one probe goroutine, given what \<open>newProbeVolume\<close> returned.\<close>

definition probe_volume :: "nat \<Rightarrow> open_error + volumeSource \<Rightarrow> rarChunk list parsed option" where
  "probe_volume i vo =
     (case vo of Inl e \<Rightarrow> Some (Inl (probeError e)) | Inr vs \<Rightarrow> parseVolume vs (int i))"

datatype probe_pc = CheckErr nat | Acquire nat | WaitAll

record probe_state =
  pc :: probe_pc
  running :: "nat set" \<comment> \<open>goroutines holding a slot of \<open>sem\<close>\<close>
  perVol :: "rarChunk list list"
  firstErr :: "rar_error option"

definition probe_init :: "nat \<Rightarrow> probe_state" where
  "probe_init n = \<lparr>pc = CheckErr 0, running = {}, perVol = replicate n [], firstErr = None\<rparr>"

text \<open>
  The steps of \<open>probeVolumes\<close> over \<open>n\<close> volumes with \<open>lim\<close> slots: the launching loop checks for an error, then
  waits for a slot, then launches; a goroutine ends with its volume's chunks or an error, of which the first is kept (a panic ends the program).
  \<open>opens i\<close> holds what opening volume \<open>i\<close> may return.
\<close>

inductive probe_step :: "nat \<Rightarrow> int \<Rightarrow> (nat \<Rightarrow> (open_error + volumeSource) set) \<Rightarrow> probe_state \<Rightarrow> probe_state \<Rightarrow> bool"
  for n lim opens where
  check_go: "pc s = CheckErr i \<Longrightarrow> i < n \<Longrightarrow> firstErr s = None \<Longrightarrow> probe_step n lim opens s (s\<lparr>pc := Acquire i\<rparr>)"
| check_stop: "pc s = CheckErr i \<Longrightarrow> i < n \<Longrightarrow> firstErr s \<noteq> None \<Longrightarrow> probe_step n lim opens s (s\<lparr>pc := WaitAll\<rparr>)"
| loop_done: "pc s = CheckErr i \<Longrightarrow> n \<le> i \<Longrightarrow> probe_step n lim opens s (s\<lparr>pc := WaitAll\<rparr>)"
| launch: "pc s = Acquire i \<Longrightarrow> int (card (running s)) < lim \<Longrightarrow>
    probe_step n lim opens s (s\<lparr>pc := CheckErr (Suc i), running := insert i (running s)\<rparr>)"
| finish_ok: "i \<in> running s \<Longrightarrow> vo \<in> opens i \<Longrightarrow> probe_volume i vo = Some (Inr chunks) \<Longrightarrow>
    probe_step n lim opens s (s\<lparr>running := running s - {i}, perVol := (perVol s)[i := chunks]\<rparr>)"
| finish_err: "i \<in> running s \<Longrightarrow> vo \<in> opens i \<Longrightarrow> probe_volume i vo = Some (Inl e) \<Longrightarrow> e \<noteq> Panic \<Longrightarrow>
    probe_step n lim opens s
      (s\<lparr>running := running s - {i}, firstErr := (if firstErr s = None then Some e else firstErr s)\<rparr>)"

inductive_cases probe_stepE: "probe_step n lim opens s s'"

definition probe_finished :: "probe_state \<Rightarrow> bool" where
  "probe_finished s \<longleftrightarrow> pc s = WaitAll \<and> running s = {}"

definition probe_result :: "probe_state \<Rightarrow> rarChunk list parsed" where
  "probe_result s = (case firstErr s of Some e \<Rightarrow> Inl e | None \<Rightarrow> Inr (concat (perVol s)))"

text \<open>\<open>probe\<close> from the chunks on: the extents, the name and the size of the video.\<close>

record rar_store =
  rs_extents :: "extent list"
  videoName :: bytes
  videoSize :: int

definition store_of_chunks :: "unicode_lower \<Rightarrow> rarChunk list \<Rightarrow> rar_store parsed" where
  "store_of_chunks u chunks =
     bindR (selectVideo u chunks) (\<lambda>video.
     bindR (buildExtents video) (\<lambda>(extents, tot).
       Inr \<lparr>rs_extents = extents, videoName = ch_name (hd video), videoSize = tot\<rparr>))"

definition rar_probe :: "unicode_lower \<Rightarrow> nzb_file list \<Rightarrow> probe_state \<Rightarrow> rar_store parsed" where
  \<comment> \<open>\<open>probe\<close>, given the final state of \<open>probeVolumes\<close>\<close>
  "rar_probe u rarFiles s =
     (if rarFiles = [] then Inl (NotStreamable ''no rar volumes'') else bindR (probe_result s) (store_of_chunks u))"

end
