(* ===== verification/Rar_Parse_Props.thy ===== *)
theory Rar_Parse_Props
  imports Rar_Parse
begin

text \<open>
  The header parsers: what a RAR4 archive is read back as, that they return without a panic on
  headers with numbers of a sane size, and the headers on which they do not.
\<close>

section \<open>The walks over the blocks\<close>

text \<open>What holds of every step holds of the whole walk.\<close>

lemma parseRar4_loop_no_panic:
  assumes "\<And>pos. rar4_step vs vi pos \<noteq> Inl Panic"
  shows "parseRar4_loop vs vi blocks pos chunks \<noteq> Inl Panic"
  using assms
proof (induction vs vi blocks pos chunks rule: parseRar4_loop.induct)
  case (1 vs vi blocks pos chunks)
  show ?case
    using 1 by (subst parseRar4_loop.simps) (auto simp: bindR_def Let_def split: sum.split)
qed

lemma parseRar4_loop_chunks:
  assumes "\<And>pos bt skip c. rar4_step vs vi pos = Inr (bt, skip, Some c) \<Longrightarrow> P c" "\<forall>c \<in> set chunks. P c"
    and "parseRar4_loop vs vi blocks pos chunks = Inr cs"
  shows "\<forall>c \<in> set cs. P c"
  using assms
proof (induction vs vi blocks pos chunks rule: parseRar4_loop.induct)
  case (1 vs vi blocks pos chunks)
  show ?case
  proof (cases "blocks < rar4MaxBlocks \<and> pos < vs_size vs")
    case True
    then obtain bt skip chunk where st: "rar4_step vs vi pos = Inr (bt, skip, chunk)"
      using "1.prems"(3) by (subst (asm) parseRar4_loop.simps) (auto simp: bindR_Inr)
    let ?cs = "append_chunk chunks chunk"
    have ok: "\<forall>c \<in> set ?cs. P c"
      using "1.prems"(1,2) st by (auto simp: append_chunk_def split: option.splits)
    show ?thesis
    proof (cases "bt = 0x7b")
      case True
      then show ?thesis
        using ok "1.prems"(3) st \<open>blocks < rar4MaxBlocks \<and> pos < vs_size vs\<close>
        by (subst (asm) parseRar4_loop.simps) simp
    next
      case False
      then have "parseRar4_loop vs vi (blocks + 1) (i64 (pos + skip)) ?cs = Inr cs"
        using "1.prems"(3) st True by (subst (asm) parseRar4_loop.simps) simp
      then show ?thesis
        using "1.IH" [OF True _ False "1.prems"(1) ok] by simp
    qed
  next
    case False
    then show ?thesis using "1.prems" by (subst (asm) parseRar4_loop.simps) auto
  qed
qed

section \<open>Volumes\<close>

text \<open>What the parsers rely on: a read returns exactly the bytes asked for, inside the volume.\<close>

locale volume_source =
  fixes vs :: volumeSource
  assumes read_exact: "vs_readAt vs off n = Some b \<Longrightarrow> 0 \<le> off \<and> 0 \<le> n \<and> int (length b) = n \<and> off + n \<le> vs_size vs"
    and size_i64: "vs_size vs \<le> max_i64"
begin

text \<open>The parsers' unguarded index expressions stay inside what was read, and a chunk's data begins
  inside the volume.\<close>

lemma rar4_step_no_panic: "rar4_step vs vi pos \<noteq> Inl Panic"
proof (cases "vs_readAt vs pos 7")
  case (Some bas)
  then have "byte_at bas 2 = Inr (bas ! 2)" using read_exact [OF Some] by (simp add: byte_at_def)
  then show ?thesis
    using Some
    by (auto simp: rar4_step_def Let_def bindR_def rar4Block_def rar4FileBlock_def split: option.splits sum.splits if_splits)
qed (simp add: rar4_step_def)

lemma rar4_no_panic: "parseRar4 vs vi \<noteq> Inl Panic"
  unfolding parseRar4_def using rar4_step_no_panic by (rule parseRar4_loop_no_panic)

lemma rar4_step_inside:
  assumes "rar4_step vs vi pos = Inr (bt, skip, Some c)"
  shows "0 \<le> dataOffset c \<and> dataOffset c \<le> vs_size vs \<and> volIndex c = vi"
proof -
  obtain flags hdr n d where hdr: "vs_readAt vs pos n = Some hdr"
      "rar4FileBlock flags hdr pos vi = Inr (d, Some c)"
    using assms
    by (auto simp: rar4_step_def Let_def bindR_Inr rar4Block_def split: option.splits if_splits)
  then have "dataOffset c = i64 (pos + int (length hdr))" "volIndex c = vi"
    by (auto simp: rar4FileBlock_def Let_def split: if_splits)
  moreover have "0 \<le> pos" "pos + int (length hdr) \<le> vs_size vs"
    using read_exact [OF hdr(1)] by auto
  ultimately show ?thesis using size_i64 by (simp add: i64_nonneg)
qed

lemma rar4_chunks_inside:
  "parseRar4 vs vi = Inr cs \<Longrightarrow> \<forall>c \<in> set cs. 0 \<le> dataOffset c \<and> dataOffset c \<le> vs_size vs \<and> volIndex c = vi"
  unfolding parseRar4_def by (rule parseRar4_loop_chunks [where P = "\<lambda>c. 0 \<le> dataOffset c \<and> dataOffset c \<le> vs_size vs \<and> volIndex c = vi"])
    (auto dest: rar4_step_inside)

end

text \<open>The volume reader keeps the contract for every size and every underlying reader.\<close>

interpretation reader_volume: volume_source "readerVolume (min sz max_i64) rd" for sz rd
proof
  show "0 \<le> off \<and> 0 \<le> n \<and> int (length b) = n \<and> off + n \<le> vs_size (readerVolume (min sz max_i64) rd)"
    if "vs_readAt (readerVolume (min sz max_i64) rd) off n = Some b" for off n b
    using that by (auto simp: readerVolume_def readerVolume_readAt_def Let_def split: if_splits)
qed (simp add: readerVolume_def)

section \<open>RAR4 archives\<close>

text \<open>
  An independent description of the format: a little-endian writer for the blocks of a RAR4 volume, with
  the fields the parser skips left arbitrary.
\<close>

definition le16 :: "uint16 \<Rightarrow> bytes" where
  "le16 w = [ucast w, ucast (drop_bit 8 w)]"

definition le32 :: "uint32 \<Rightarrow> bytes" where
  "le32 w = [ucast w, ucast (drop_bit 8 w), ucast (drop_bit 16 w), ucast (drop_bit 24 w)]"

record rar4_file =
  rf_crc :: uint16
  rf_unp :: uint32
  rf_misc :: bytes \<comment> \<open>host system, file CRC, time and version\<close>
  rf_method :: byte
  rf_attr :: bytes
  rf_pass :: bool
  rf_name :: bytes
  rf_data :: bytes

definition rar4_file_ok :: "rar4_file \<Rightarrow> bool" where
  "rar4_file_ok f \<longleftrightarrow> length (rf_misc f) = 10 \<and> length (rf_attr f) = 4 \<and> length (rf_name f) < 2 ^ 16 - 32 \<and>
     length (rf_data f) < 2 ^ 32"

definition rf_flags :: "rar4_file \<Rightarrow> uint16" where
  "rf_flags f = (if rf_pass f then 0x8004 else 0x8000)"

definition rar4_base :: "rar4_file \<Rightarrow> bytes" where
  "rar4_base f = le16 (rf_crc f) @ [0x74] @ le16 (rf_flags f) @ le16 (of_nat (32 + length (rf_name f)))"

definition rar4_hdr :: "rar4_file \<Rightarrow> bytes" where
  "rar4_hdr f = rar4_base f @ le32 (of_nat (length (rf_data f))) @ le32 (rf_unp f) @ rf_misc f @ [rf_method f] @
     le16 (of_nat (length (rf_name f))) @ rf_attr f @ rf_name f"

definition rar4_main :: bytes where
  "rar4_main = [0xcf, 0x90, 0x73, 0, 0, 13, 0, 0, 0, 0, 0, 0, 0]"

definition rar4_end :: bytes where
  "rar4_end = [0xc4, 0x3d, 0x7b, 0, 0x40, 7, 0]"

definition rar4_write :: "rar4_file list \<Rightarrow> bytes" where
  "rar4_write fs = rar4Marker @ rar4_main @ concat (map (\<lambda>f. rar4_hdr f @ rf_data f) fs) @ rar4_end"

text \<open>A volume whose underlying reader holds the bytes \<open>v\<close>.\<close>

definition bytes_volume :: "bytes \<Rightarrow> volumeSource" where
  "bytes_volume v = readerVolume (int (length v)) (\<lambda>off n. slice v (nat off) (nat (off + n)))"

lemma bytes_volume_size [simp]: "vs_size (bytes_volume v) = int (length v)"
  by (simp add: bytes_volume_def readerVolume_def)

lemma bytes_volume_readAt:
  "vs_readAt (bytes_volume v) off n =
     (if 0 \<le> off \<and> 0 \<le> n \<and> off + n \<le> int (length v) then Some (slice v (nat off) (nat (off + n))) else None)"
  by (auto simp: bytes_volume_def readerVolume_def readerVolume_readAt_def Let_def slice_def)

lemma bytes_volume_mid:
  "n = int (length mid) \<Longrightarrow> vs_readAt (bytes_volume (pre @ mid @ post)) (int (length pre)) n = Some mid"
  by (simp add: bytes_volume_readAt slice_def nat_add_distrib)

lemma u16_le16 [simp]: "u16 (le16 w @ r) 0 = Some w" "u16z (le16 w @ r) 0 = w"
proof -
  have "ucast (ucast w :: byte) OR push_bit 8 (ucast (ucast (drop_bit 8 w) :: byte)) = w"
    by (rule bit_word_eqI) (auto simp: bit_simps)
  then show "u16 (le16 w @ r) 0 = Some w" "u16z (le16 w @ r) 0 = w"
    by (simp_all add: u16_def u16z_def le16_def)
qed

lemma u32_le32 [simp]: "u32z (le32 w @ r) 0 = w"
proof -
  have "ucast (ucast w :: byte) OR push_bit 8 (ucast (ucast (drop_bit 8 w) :: byte)) OR
      push_bit 16 (ucast (ucast (drop_bit 16 w) :: byte)) OR push_bit 24 (ucast (ucast (drop_bit 24 w) :: byte)) = w"
    (is "?l = w")
  proof (rule bit_word_eqI)
    fix n assume "n < LENGTH(32)"
    then show "bit ?l n = bit w n"
      by (cases "n < 16"; cases "n < 24") (auto simp: bit_simps)
  qed
  then show ?thesis
    by (simp add: u32_def u32z_def le32_def)
qed

text \<open>A field at an offset is the field at the head of what follows it.\<close>

lemma u16z_skip: "u16z (x # b) (Suc i) = u16z b i"
  by (simp add: u16z_def u16_def)

lemma u32z_skip: "u32z (x # b) (Suc i) = u32z b i"
  by (simp add: u32z_def u32_def add.commute)

lemma u16z_append: "length a = i \<Longrightarrow> u16z (a @ b) i = u16z b 0"
  by (induction a arbitrary: i) (auto simp: u16z_skip)

lemma u32z_append: "length a = i \<Longrightarrow> u32z (a @ b) i = u32z b 0"
  by (induction a arbitrary: i) (auto simp: u32z_skip)

lemma length_le [simp]: "length (le16 w) = 2" "length (le32 d) = 4"
  by (simp_all add: le16_def le32_def)

text \<open>What the parser makes of one written file block.\<close>

definition rar4_chunk :: "int \<Rightarrow> int \<Rightarrow> rar4_file \<Rightarrow> rarChunk" where
  "rar4_chunk vi pos f = \<lparr>ch_name = rarBaseName (rf_name f), volIndex = vi,
     dataOffset = pos + int (length (rar4_hdr f)), packSize = int (length (rf_data f)), unpSize = uint (rf_unp f),
     stored = (rf_method f = 0x30), encrypted = rf_pass f\<rparr>"

lemma length_rar4_base [simp]: "length (rar4_base f) = 7"
  by (simp add: rar4_base_def)

lemma length_rar4_hdr: "rar4_file_ok f \<Longrightarrow> length (rar4_hdr f) = 32 + length (rf_name f)"
  by (simp add: rar4_hdr_def rar4_file_ok_def)

lemma rar4_hdr_fields:
  assumes "rar4_file_ok f"
  shows "u32z (rar4_hdr f) 7 = of_nat (length (rf_data f))" "u32z (rar4_hdr f) 11 = rf_unp f"
    "rar4_hdr f ! 25 = rf_method f" "u16z (rar4_hdr f) 26 = of_nat (length (rf_name f))"
    "drop 32 (rar4_hdr f) = rf_name f"
proof -
  note ok = assms [unfolded rar4_file_ok_def]
  let ?p = "le32 (of_nat (length (rf_data f)))" and ?u = "le32 (rf_unp f)" and ?n = "le16 (of_nat (length (rf_name f)))"
  show "u32z (rar4_hdr f) 7 = of_nat (length (rf_data f))"
    unfolding rar4_hdr_def by (simp add: u32z_append)
  have h: "rar4_hdr f = (rar4_base f @ ?p) @ ?u @ rf_misc f @ [rf_method f] @ ?n @ rf_attr f @ rf_name f"
    by (simp add: rar4_hdr_def)
  show "u32z (rar4_hdr f) 11 = rf_unp f"
    unfolding h by (subst u32z_append) simp_all
  have h: "rar4_hdr f = (rar4_base f @ ?p @ ?u @ rf_misc f) @ [rf_method f] @ ?n @ rf_attr f @ rf_name f"
    by (simp add: rar4_hdr_def)
  show "rar4_hdr f ! 25 = rf_method f"
    unfolding h using ok by (subst nth_append) simp
  have h: "rar4_hdr f = (rar4_base f @ ?p @ ?u @ rf_misc f @ [rf_method f]) @ ?n @ rf_attr f @ rf_name f"
    by (simp add: rar4_hdr_def)
  show "u16z (rar4_hdr f) 26 = of_nat (length (rf_name f))"
    unfolding h using ok by (subst u16z_append) simp_all
  have h: "rar4_hdr f = (rar4_base f @ ?p @ ?u @ rf_misc f @ [rf_method f] @ ?n @ rf_attr f) @ rf_name f"
    by (simp add: rar4_hdr_def)
  show "drop 32 (rar4_hdr f) = rf_name f"
    unfolding h using ok by (subst drop_append) simp
qed

lemma rar4_base_fields:
  "byte_at (rar4_base f) 2 = Inr 0x74" "u16z (rar4_base f) 3 = rf_flags f"
  "u16z (rar4_base f) 5 = of_nat (32 + length (rf_name f))"
proof -
  show "byte_at (rar4_base f) 2 = Inr 0x74"
    by (simp add: byte_at_def) (simp add: rar4_base_def le16_def)
  show "u16z (rar4_base f) 3 = rf_flags f"
    by (simp add: rar4_base_def le16_def [of "rf_crc f"] u16z_skip eval_nat_numeral)
  show "u16z (rar4_base f) 5 = of_nat (32 + length (rf_name f))"
    using u16_le16(2) [of _ "[]"]
    by (simp add: rar4_base_def le16_def [of "rf_crc f"] le16_def [of "rf_flags f"] u16z_skip eval_nat_numeral)
qed

lemma uint_of_nat_small: "n < 2 ^ LENGTH('a) \<Longrightarrow> uint (of_nat n :: 'a::len word) = int n"
  by (simp add: unsigned_of_nat take_bit_nat_eq_self flip: of_nat_eq_iff)

lemma rar4FileBlock_written:
  assumes "rar4_file_ok f" "0 \<le> pos" "pos + int (length (rar4_hdr f)) \<le> max_i64"
  shows "rar4FileBlock (rf_flags f) (rar4_hdr f) pos vi = Inr (int (length (rf_data f)), Some (rar4_chunk vi pos f))"
proof -
  have "length (rf_data f) < 2 ^ 32" "length (rf_name f) < 2 ^ 16" "length (rf_name f) < 65504"
    using assms(1) by (auto simp: rar4_file_ok_def)
  moreover from this have "unat (of_nat (length (rf_name f)) :: uint16) = length (rf_name f)"
    by (simp add: unsigned_of_nat take_bit_nat_eq_self)
  moreover have "slice (rar4_hdr f) 32 (32 + length (rf_name f)) = rf_name f"
    using rar4_hdr_fields(5) [OF assms(1)] by (simp add: slice_def)
  moreover have "rf_flags f AND 0x0100 = 0" "(rf_flags f AND 0x0004 \<noteq> 0) = rf_pass f"
    by (simp_all add: rf_flags_def)
  ultimately show ?thesis
    using assms rar4_hdr_fields [OF assms(1)] length_rar4_hdr [OF assms(1)]
    by (simp add: rar4FileBlock_def Let_def rar4_chunk_def i64_nonneg uint_of_nat_small)
qed

lemma rar4_step_written:
  assumes "rar4_file_ok f" "v = pre @ (rar4_hdr f @ rf_data f) @ post" "int (length v) \<le> max_i64"
  shows "rar4_step (bytes_volume v) vi (int (length pre)) =
    Inr (0x74, int (length (rar4_hdr f @ rf_data f)), Some (rar4_chunk vi (int (length pre)) f))"
proof -
  obtain rest where h: "rar4_hdr f = rar4_base f @ rest"
    by (auto simp: rar4_hdr_def)
  have r1: "vs_readAt (bytes_volume v) (int (length pre)) 7 = Some (rar4_base f)"
    using bytes_volume_mid [of 7 "rar4_base f" pre "rest @ rf_data f @ post"] assms(2) h by simp
  have n: "length (rf_name f) < 65504" using assms(1) by (simp add: rar4_file_ok_def)
  have hs: "uint (of_nat (32 + length (rf_name f)) :: uint16) = int (length (rar4_hdr f))"
    using n by (subst uint_of_nat_small) (simp_all add: length_rar4_hdr [OF assms(1)])
  then have r2: "vs_readAt (bytes_volume v) (int (length pre)) (uint (of_nat (32 + length (rf_name f)) :: uint16)) = Some (rar4_hdr f)"
    using bytes_volume_mid [of _ "rar4_hdr f" pre "rf_data f @ post"] assms(2) by simp
  have big: "\<not> (of_nat (32 + length (rf_name f)) :: uint16) < 7"
    using hs length_rar4_hdr [OF assms(1)] by (simp add: word_less_def)
  have "rar4FileBlock (rf_flags f) (rar4_hdr f) (int (length pre)) vi =
      Inr (int (length (rf_data f)), Some (rar4_chunk vi (int (length pre)) f))"
    using assms by (intro rar4FileBlock_written) simp_all
  then show ?thesis
    using assms(2,3) r1 r2 big hs
    by (simp add: rar4_step_def rar4_base_fields Let_def rar4Block_def i64_nonneg del: of_nat_add)
qed

lemma parseRar4_loop_written:
  assumes "list_all rar4_file_ok fs" "int (length v) \<le> max_i64" "0 \<le> blocks" "blocks + int (length fs) < rar4MaxBlocks"
    and "v = pre @ concat (map (\<lambda>f. rar4_hdr f @ rf_data f) fs) @ rar4_end"
  shows "\<exists>cs. parseRar4_loop (bytes_volume v) vi blocks (int (length pre)) chunks = Inr (chunks @ cs) \<and>
    list_all2 (\<lambda>f c. \<exists>pos. c = rar4_chunk vi pos f \<and> 0 \<le> pos \<and>
      slice v (nat (dataOffset c)) (nat (dataOffset c + packSize c)) = rf_data f) fs cs"
  using assms
proof (induction fs arbitrary: pre blocks chunks)
  case Nil
  have "vs_readAt (bytes_volume v) (int (length pre)) 7 = Some rar4_end"
    using bytes_volume_mid [of 7 rar4_end pre "[]"] Nil.prems(5) by (simp add: rar4_end_def)
  then have "rar4_step (bytes_volume v) vi (int (length pre)) = Inr (0x7b, 7, None)"
    by (simp add: rar4_step_def Let_def rar4_end_def u16z_def u16_def byte_at_def rar4Block_def rar4AddSize_def i64_nonneg)
  then show ?case
    using Nil.prems by (subst parseRar4_loop.simps) (simp add: append_chunk_def rar4_end_def)
next
  case (Cons f fs)
  let ?b = "rar4_hdr f @ rf_data f" and ?p = "int (length pre)"
  let ?c = "rar4_chunk vi ?p f"
  have v: "v = pre @ ?b @ concat (map (\<lambda>f. rar4_hdr f @ rf_data f) fs) @ rar4_end"
    using Cons.prems(5) by simp
  have st: "rar4_step (bytes_volume v) vi ?p = Inr (0x74, int (length ?b), Some ?c)"
    using Cons.prems(1,2) v by (intro rar4_step_written) simp_all
  have dat: "slice v (nat (dataOffset ?c)) (nat (dataOffset ?c + packSize ?c)) = rf_data f"
    unfolding v by (simp add: rar4_chunk_def slice_def nat_add_distrib)
  have "\<exists>cs. parseRar4_loop (bytes_volume v) vi (blocks + 1) (int (length (pre @ ?b))) (chunks @ [?c]) =
      Inr ((chunks @ [?c]) @ cs) \<and>
    list_all2 (\<lambda>f c. \<exists>pos. c = rar4_chunk vi pos f \<and> 0 \<le> pos \<and>
      slice v (nat (dataOffset c)) (nat (dataOffset c + packSize c)) = rf_data f) fs cs"
    using Cons.prems by (intro Cons.IH) simp_all
  then obtain cs where cs: "parseRar4_loop (bytes_volume v) vi (blocks + 1) (int (length (pre @ ?b))) (chunks @ [?c]) =
      Inr (chunks @ ?c # cs)"
    "list_all2 (\<lambda>f c. \<exists>pos. c = rar4_chunk vi pos f \<and> 0 \<le> pos \<and>
      slice v (nat (dataOffset c)) (nat (dataOffset c + packSize c)) = rf_data f) fs cs"
    by auto
  have "parseRar4_loop (bytes_volume v) vi blocks ?p chunks = Inr (chunks @ ?c # cs)"
    using Cons.prems(2-4) cs(1) st v
    by (subst parseRar4_loop.simps) (simp add: append_chunk_def i64_nonneg rar4_end_def)
  then show ?case
    using cs(2) dat by (intro exI [of _ "?c # cs"]) (auto simp: rar4_chunk_def)
qed

section \<open>RAR5 headers\<close>

text \<open>A variable-length integer that is read lies inside the buffer and takes one to ten bytes.\<close>

lemma readVint_loop_ok:
  assumes "0 \<le> off"
  shows "readVint_loop b off i val \<noteq> Inl e \<and>
    (readVint_loop b off i val = Inr (Some (v, n)) \<longrightarrow> i < n \<and> n \<le> 10 \<and> off + int n \<le> int (length b))"
  using assms
proof (induction b off i val rule: readVint_loop.induct)
  case (1 b off i val)
  show ?case
  proof (cases "10 \<le> i \<or> int (length b) \<le> off + int i")
    case True
    then show ?thesis by (subst (1 2) readVint_loop.simps) auto
  next
    case False
    then have "byte_at b (off + int i) = Inr (b ! nat (off + int i))"
      using "1.prems" by (simp add: byte_at_def)
    moreover have "readVint_loop b off (i + 1) w \<noteq> Inl e \<and> (readVint_loop b off (i + 1) w = Inr (Some (v, n)) \<longrightarrow>
        i < n \<and> n \<le> 10 \<and> off + int n \<le> int (length b))"
      if "w = val OR push_bit (7 * i) (ucast (c AND 127))" "c AND 128 \<noteq> 0" for w and c :: byte
      using "1.IH" [of w c] False that "1.prems" by fastforce
    ultimately show ?thesis
      using False by (subst (1 2) readVint_loop.simps) (auto simp: Let_def)
  qed
qed

lemma readVint_ok:
  assumes "0 \<le> off"
  shows "readVint b off \<noteq> Inl e"
    and "readVint b off = Inr (Some (v, n)) \<Longrightarrow> 0 < n \<and> n \<le> 10 \<and> off + int n \<le> int (length b)"
  using readVint_loop_ok [OF assms, of b 0 0] by (auto simp: readVint_def)

lemma need_vint_ok:
  assumes "0 \<le> off"
  shows "need_vint b off why \<noteq> Inl Panic"
    and "need_vint b off why = Inr (v, n) \<Longrightarrow> readVint b off = Inr (Some (v, n)) \<and> 0 < n \<and> off + int n \<le> int (length b)"
  using readVint_ok [OF assms, of b]
  by (auto simp: need_vint_def bindR_def split: sum.splits option.splits)

text \<open>Headers in which every number that can be read is below \<open>2\<^sup>6\<^sup>2\<close>.\<close>

definition small_vints :: "bytes \<Rightarrow> bool" where
  "small_vints b \<longleftrightarrow> length b < 2 ^ 62 \<and> list_all (\<lambda>p. case readVint b (int p) of
     Inr (Some (v, _)) \<Rightarrow> v < 2 ^ 62 | _ \<Rightarrow> True) [0..<length b]"

lemma small_vintsD:
  assumes "small_vints b" "0 \<le> p" "readVint b p = Inr (Some (v, n))"
  shows "0 \<le> int64 v" "int64 v < 2 ^ 62" "v \<noteq> 0 \<Longrightarrow> 0 < int64 v"
proof -
  have p: "nat p < length b" using readVint_ok(2) [OF assms(2,3)] assms(2) by linarith
  have "v < 2 ^ 62"
    using assms(1) [unfolded small_vints_def list_all_iff] p assms(2,3) by (auto dest!: bspec [of _ _ "nat p"])
  then have u: "uint v < 2 ^ 62"
    by (simp add: word_less_def)
  then have "int64 v = uint v"
    using i64_sint [of v] i64_nonneg [of "uint v"] by (simp add: int64_def)
  then show "0 \<le> int64 v" "int64 v < 2 ^ 62" "v \<noteq> 0 \<Longrightarrow> 0 < int64 v"
    using u by (auto simp: unsigned_eq_0_iff less_le)
qed

lemma readVint_loop_drop:
  "0 \<le> p \<Longrightarrow> k \<le> length b \<Longrightarrow> readVint_loop (drop k b) p i val = readVint_loop b (int k + p) i val"
proof (induction "drop k b" p i val rule: readVint_loop.induct)
  case (1 p i val)
  show ?case
  proof (cases "10 \<le> i \<or> int (length b) \<le> int k + p + int i")
    case True
    then show ?thesis using 1(3) by (subst (1 2) readVint_loop.simps) auto
  next
    case False
    let ?c = "b ! nat (int k + p + int i)"
    have c: "byte_at b (int k + p + int i) = Inr ?c" "byte_at (drop k b) (p + int i) = Inr ?c"
      using False 1(2,3) by (auto simp: byte_at_def nat_add_distrib algebra_simps)
    show ?thesis
      using 1 False c by (subst (1 2) readVint_loop.simps) (auto simp: Let_def)
  qed
qed

lemma readVint_drop: "0 \<le> p \<Longrightarrow> k \<le> length b \<Longrightarrow> readVint (drop k b) p = readVint b (int k + p)"
  by (simp add: readVint_def readVint_loop_drop)

lemma small_vints_drop:
  assumes "small_vints b"
  shows "small_vints (drop k b)"
proof (cases "k \<le> length b")
  case True
  have "case readVint (drop k b) (int p) of Inr (Some (v, _)) \<Rightarrow> v < 2 ^ 62 | _ \<Rightarrow> True" if "p < length b - k" for p
  proof -
    have "k + p \<in> set [0..<length b]" using that by simp
    with assms have "case readVint b (int (k + p)) of Inr (Some (v, _)) \<Rightarrow> v < 2 ^ 62 | _ \<Rightarrow> True"
      unfolding small_vints_def list_all_iff by blast
    then show ?thesis using True by (simp add: readVint_drop)
  qed
  moreover have "length b - k < 2 ^ 62" using assms by (intro less_imp_diff_less) (simp add: small_vints_def)
  ultimately show ?thesis by (simp add: small_vints_def list_all_iff)
qed (simp add: small_vints_def)

text \<open>On such a header the scan of the extra area moves forward at every record, so it ends.\<close>

lemma hasCrypt_loop_returns:
  assumes "small_vints area" "0 \<le> p"
  shows "\<exists>b. hasCrypt_loop area p = Some (Inr b)"
  using assms(2)
proof (induction "nat (int (length area) - p)" arbitrary: p rule: less_induct)
  case less
  show ?case
  proof (cases "p < int (length area)")
    case False
    then show ?thesis by (auto simp: hasCrypt_loop.simps [of area p])
  next
    case True
    show ?thesis
    proof (cases "readVint area p")
      case (Inl e)
      then show ?thesis using readVint_ok(1) [OF less.prems] by blast
    next
      case (Inr r)
      show ?thesis
      proof (cases r)
        case None
        then show ?thesis using True Inr by (auto simp: hasCrypt_loop.simps [of area p])
      next
        case (Some vn)
        obtain v n where vn: "vn = (v, n)" by force
        note rd = Inr [unfolded Some vn]
        note b = small_vintsD [OF assms(1) less.prems rd] readVint_ok(2) [OF less.prems rd]
        have len: "int (length area) < 2 ^ 62" using assms(1) by (simp add: small_vints_def flip: of_nat_less_iff)
        have e: "i64 (p + int n + int64 v) = p + int n + int64 v"
          using b len less.prems by (intro i64_nonneg) simp_all
        have rd2: "\<exists>r. readVint area (p + int n) = Inr r"
          using readVint_ok(1) [of "p + int n" area] less.prems by (cases "readVint area (p + int n)") auto
        have "\<exists>b. hasCrypt_loop area (p + int n + int64 v) = Some (Inr b)"
          using less.prems b True by (intro less.hyps) auto
        then show ?thesis
          using True rd rd2 e by (auto simp: hasCrypt_loop.simps [of area p] split: option.split)
      qed
    qed
  qed
qed

lemma rar5HasCrypt_returns: "small_vints hdr \<Longrightarrow> \<exists>b. rar5HasCrypt hdr extraSize = Some (Inr b)"
  by (auto simp: rar5HasCrypt_def small_vints_drop hasCrypt_loop_returns)

lemma rar5FileName_no_panic:
  assumes "small_vints hdr" "0 \<le> p"
  shows "rar5FileName hdr p \<noteq> Inl Panic"
proof (cases "need_vint hdr p ''rar5 bad host os''")
  case (Inl e)
  then show ?thesis using need_vint_ok(1) [OF assms(2)] by (auto simp: rar5FileName_def)
next
  case (Inr r)
  obtain v n where r: "r = (v, n)" by force
  have p: "0 \<le> p + int n" using assms(2) by simp
  show ?thesis
  proof (cases "need_vint hdr (p + int n) ''rar5 bad name length''")
    case (Inl e)
    then show ?thesis using need_vint_ok(1) [OF p] Inr r by (auto simp: rar5FileName_def)
  next
    case (Inr r2)
    obtain len k where r2: "r2 = (len, k)" by force
    note rd = need_vint_ok(2) [OF p Inr [unfolded r2]]
    note b = small_vintsD [OF assms(1) p conjunct1 [OF rd]]
    have "int (length hdr) < 2 ^ 62" using assms(1) by (simp add: small_vints_def flip: of_nat_less_iff)
    then have "i64 (p + int n + int k + int64 len) = p + int n + int k + int64 len"
      using b rd p by (intro i64_nonneg) simp_all
    then show ?thesis using Inr r r2 b \<open>need_vint hdr p _ = Inr r\<close> by (simp add: rar5FileName_def Let_def)
  qed
qed

text \<open>A computation that returns, and not with a panic.\<close>

definition returns :: "'a parsed option \<Rightarrow> bool" where
  "returns m \<longleftrightarrow> m \<noteq> None \<and> m \<noteq> Some (Inl Panic)"

lemma returns_simps [simp]: "returns (Some (Inr x))" "returns (Some (Inl (NotStreamable e)))"
  by (simp_all add: returns_def)

lemma returns_bindO [intro!]: "returns m \<Longrightarrow> (\<And>x. m = Some (Inr x) \<Longrightarrow> returns (f x)) \<Longrightarrow> returns (bindO m f)"
  by (auto simp: returns_def bindO_def split: option.splits sum.splits)

lemma returns_vint [simp]: "0 \<le> p \<Longrightarrow> returns (Some (need_vint b p why))"
  using need_vint_ok(1) by (auto simp: returns_def)

lemma parseRar5File_returns: "small_vints hdr \<Longrightarrow> 0 \<le> p \<Longrightarrow> returns (parseRar5File h hdr p ex)"
  using rar5HasCrypt_returns [of hdr ex] rar5FileName_no_panic [of hdr]
  by (auto simp: parseRar5File_def Let_def returns_def [of "Some (rar5FileName _ _)"])

lemma parseRar5Header_returns: "small_vints hdr \<Longrightarrow> returns (parseRar5Header hdr)"
  by (auto simp: parseRar5Header_def Let_def parseRar5File_returns)

lemma rar5Block_returns:
  assumes "\<And>off n hdr. vs_readAt vs off n = Some hdr \<Longrightarrow> small_vints hdr"
  shows "returns (rar5Block vs pos vi)"
  using assms by (auto simp: rar5Block_def Let_def parseRar5Header_returns split: option.split)

lemma parseRar5_loop_returns:
  assumes "\<And>pos. returns (rar5Block vs pos vi)"
  shows "returns (parseRar5_loop vs vi blocks pos chunks)"
  using assms
proof (induction vs vi blocks pos chunks rule: parseRar5_loop.induct)
  case (1 vs vi blocks pos chunks)
  show ?case
    using 1 by (subst parseRar5_loop.simps) (auto simp: Let_def)
qed

text \<open>Bytes without the continuation bit hold small numbers only.\<close>

lemma ascii_small_vints:
  assumes "\<forall>c \<in> set b. c AND 0x80 = 0" "length b < 2 ^ 62"
  shows "small_vints b"
proof -
  have "case readVint b (int p) of Inr (Some (v, _)) \<Rightarrow> v < 2 ^ 62 | _ \<Rightarrow> True" if "p < length b" for p
  proof -
    have "uint (b ! p AND 0x7f) < 256" using unsigned_less [of "b ! p AND 0x7f"] by simp
    then have "(ucast (b ! p AND 0x7f) :: uint64) < 2 ^ 62"
      by (simp add: word_less_def unsigned_ucast_eq take_bit_int_eq_self)
    moreover have "readVint b (int p) = Inr (Some (ucast (b ! p AND 0x7f), 1))"
      using assms(1) that by (simp add: readVint_def readVint_loop.simps [of b "int p" 0] byte_at_def Let_def)
    ultimately show ?thesis by simp
  qed
  then show ?thesis using assms(2) by (simp add: small_vints_def list_all_iff)
qed

lemma ascii_volume:
  assumes "\<forall>c \<in> set v. c AND 0x80 = 0" "length v < 2 ^ 62" "vs_readAt (bytes_volume v) off n = Some hdr"
  shows "small_vints hdr"
proof (rule ascii_small_vints)
  have hdr: "hdr = slice v (nat off) (nat (off + n))"
    using assms(3) by (auto simp: bytes_volume_readAt split: if_splits)
  then show "\<forall>c \<in> set hdr. c AND 0x80 = 0"
    using assms(1) by (auto simp: slice_def dest!: in_set_takeD in_set_dropD)
  show "length hdr < 2 ^ 62"
    using assms(2) hdr by (simp add: slice_def)
qed

section \<open>Archives the parsers do not survive\<close>

text \<open>A number of ten bytes, \<open>2\<^sup>6\<^sup>4 - 10\<close>: as a record size it leads back to where it was read.\<close>

definition back_ten :: bytes where
  "back_ten = [0xf6, 0xff, 0xff, 0xff, 0xff, 0xff, 0xff, 0xff, 0xff, 0x01]"

lemma readVint_back_ten: "readVint (back_ten @ [0]) 0 = Inr (Some (- 10, 10))" "readVint (back_ten @ [0]) 10 = Inr (Some (0, 1))"
  by code_simp+

lemma hasCrypt_spins: "hasCrypt_loop (back_ten @ [0]) 0 = None"
proof -
  have step: "i64 (0 + int 10 + int64 (- 10)) = 0" by code_simp
  have "\<not> (area = back_ten @ [0] \<and> p = 0)" if "hasCrypt_loop area p = Some y" for area p y
    by (rule hasCrypt_loop.raw_induct [OF _ that])
      (use readVint_back_ten step in \<open>auto simp: back_ten_def split: if_splits\<close>, blast)
  then show ?thesis by (cases "hasCrypt_loop (back_ten @ [0]) 0") blast+
qed

text \<open>A file header of 21 bytes whose extra area is that record, and one whose name is \<open>2\<^sup>6\<^sup>3\<close> bytes long.\<close>

definition spin_header :: bytes where
  "spin_header = [2, 1, 11, 0, 0, 0, 0, 0, 1, 97] @ back_ten @ [0]"

definition spin_volume :: bytes where
  "spin_volume = rar5Marker @ [0, 0, 0, 0, 21] @ spin_header"

definition panic_header :: bytes where
  "panic_header = [2, 0, 0, 0, 0, 0, 0, 0x80, 0x80, 0x80, 0x80, 0x80, 0x80, 0x80, 0x80, 0x80, 0x01, 97]"

definition panic_volume :: bytes where
  "panic_volume = rar5Marker @ [0, 0, 0, 0, 18] @ panic_header"

lemma spin_header_fields:
  "need_vint spin_header 0 w = Inr (2, 1)" "need_vint spin_header 1 w = Inr (1, 1)"
  "need_vint spin_header 2 w = Inr (11, 1)" "need_vint spin_header 3 w = Inr (0, 1)"
  "need_vint spin_header 4 w = Inr (0, 1)" "need_vint spin_header 5 w = Inr (0, 1)"
  "need_vint spin_header 6 w = Inr (0, 1)" "need_vint spin_header 7 w = Inr (0, 1)"
  "need_vint spin_header 8 w = Inr (1, 1)"
proof -
  have *: "need_vint spin_header p w = Inr r" if "readVint spin_header p = Inr (Some r)" for p r
    using that by (simp add: need_vint_def)
  show "need_vint spin_header 0 w = Inr (2, 1)" "need_vint spin_header 1 w = Inr (1, 1)"
    "need_vint spin_header 2 w = Inr (11, 1)" "need_vint spin_header 3 w = Inr (0, 1)"
    "need_vint spin_header 4 w = Inr (0, 1)" "need_vint spin_header 5 w = Inr (0, 1)"
    "need_vint spin_header 6 w = Inr (0, 1)" "need_vint spin_header 7 w = Inr (0, 1)"
    "need_vint spin_header 8 w = Inr (1, 1)"
    by (rule *, code_simp)+
qed

lemma spin_header_no_return: "parseRar5Header spin_header = None"
proof -
  have "rar5HasCrypt spin_header 11 = None"
    using hasCrypt_spins by (simp add: rar5HasCrypt_def spin_header_def back_ten_def)
  moreover have "\<exists>n. rar5FileName spin_header 7 = Inr n"
    by (simp add: rar5FileName_def spin_header_fields) (simp add: spin_header_def int64_def i64_def back_ten_def)
  ultimately show ?thesis
    by (auto simp: parseRar5Header_def parseRar5File_def spin_header_fields int64_def)
qed

text \<open>A volume of one block, whose header is not accepted.\<close>

lemma rar5_one_block:
  assumes "v = rar5Marker @ [0, 0, 0, 0, c] @ hdr" "15 \<le> length hdr" "length hdr < 2 ^ 32"
    and "readVint (c # take 15 hdr) 0 = Inr (Some (hs, 1))" "int64 hs = int (length hdr)" "hs \<noteq> 0"
  shows "parseRar5Header hdr = None \<Longrightarrow> parseVolume (bytes_volume v) vi = None"
    and "parseRar5Header hdr = Some (Inl e) \<Longrightarrow> parseVolume (bytes_volume v) vi = Some (Inl e)"
proof -
  let ?vs = "bytes_volume v"
  have len: "length v = 13 + length hdr" by (simp add: assms(1) rar5Marker_def)
  have r1: "vs_readAt ?vs 0 8 = Some rar5Marker"
    using len by (simp add: bytes_volume_readAt) (simp add: assms(1) rar5Marker_def)
  have r2: "vs_readAt ?vs 12 16 = Some (c # take 15 hdr)"
    using len assms(2) by (simp add: bytes_volume_readAt) (simp add: assms(1) rar5Marker_def slice_def)
  have r3: "vs_readAt ?vs 13 (int (length hdr)) = Some hdr"
    using len by (simp add: bytes_volume_readAt) (simp add: assms(1) rar5Marker_def slice_def nat_add_distrib)
  have nv: "need_vint (c # take 15 hdr) 0 w = Inr (hs, 1)" for w
    using assms(4) by (simp add: need_vint_def)
  have blk: "rar5Block ?vs 8 vi = (case parseRar5Header hdr of None \<Rightarrow> None | Some (Inl e) \<Rightarrow> Some (Inl e) | Some (Inr h) \<Rightarrow> rar5Block ?vs 8 vi)"
    using len assms(2,3,5,6) r2 r3 nv
    by (auto simp: rar5Block_def Let_def i64_nonneg split: option.split sum.split)
  have "parseVolume ?vs vi = parseRar5_loop ?vs vi 0 8 []"
    using r1 by (simp add: parseVolume_def parseRar5_def rar5Marker_def bytesEqual_def)
  moreover have "rar5Block ?vs 8 vi = x \<Longrightarrow> (\<And>h. x \<noteq> Some (Inr h)) \<Longrightarrow>
      parseRar5_loop ?vs vi 0 8 [] = (case x of None \<Rightarrow> None | Some (Inl e) \<Rightarrow> Some (Inl e))" for x
    using len by (subst parseRar5_loop.simps) (auto simp: rar5MaxBlocks_def bindO_def split: option.split sum.split)
  ultimately show "parseRar5Header hdr = None \<Longrightarrow> parseVolume ?vs vi = None"
    "parseRar5Header hdr = Some (Inl e) \<Longrightarrow> parseVolume ?vs vi = Some (Inl e)"
    using blk by simp_all
qed

lemma panic_header_panics: "parseRar5Header panic_header = Some (Inl Panic)"
proof -
  have "readVint panic_header 7 = Inr (Some (2 ^ 63, 10))" by code_simp
  moreover have "readVint panic_header 6 = Inr (Some (0, 1))" by code_simp
  ultimately have "rar5FileName panic_header 6 = Inl Panic"
    by (simp add: rar5FileName_def need_vint_def) (simp add: panic_header_def int64_def i64_def)
  moreover have "readVint panic_header 0 = Inr (Some (2, 1))" "readVint panic_header 1 = Inr (Some (0, 1))"
    "readVint panic_header 2 = Inr (Some (0, 1))" "readVint panic_header 3 = Inr (Some (0, 1))"
    "readVint panic_header 4 = Inr (Some (0, 1))" "readVint panic_header 5 = Inr (Some (0, 1))"
    by code_simp+
  ultimately show ?thesis
    by (simp add: parseRar5Header_def parseRar5File_def need_vint_def)
qed

text \<open>A RAR4 block whose 64-bit packed size is minus its header's length is visited until the block limit.\<close>

definition loop_header :: bytes where
  "loop_header = [0, 0, 0x74, 0, 0x81, 41, 0, 0xd7, 0xff, 0xff, 0xff, 0, 0, 0, 0, 0, 0, 0, 0, 0, 0, 0, 0, 0, 0, 0x30, 1, 0,
     0, 0, 0, 0, 0xff, 0xff, 0xff, 0xff, 0, 0, 0, 0, 97]"

lemma parseRar4_loop_stands:
  assumes "rar4_step vs vi pos = Inr (bt, skip, Some c)" "bt \<noteq> 0x7b" "i64 (pos + skip) = pos" "pos < vs_size vs"
    "0 \<le> blocks" "blocks \<le> rar4MaxBlocks"
  shows "parseRar4_loop vs vi blocks pos chunks = Inr (chunks @ replicate (nat (rar4MaxBlocks - blocks)) c)"
  using assms(5,6)
proof (induction "nat (rar4MaxBlocks - blocks)" arbitrary: blocks chunks)
  case (Suc k)
  then have "k = nat (rar4MaxBlocks - (blocks + 1))" "blocks < rar4MaxBlocks" by auto
  moreover from Suc this have "parseRar4_loop vs vi (blocks + 1) pos (chunks @ [c]) = Inr ((chunks @ [c]) @ replicate k c)"
    by simp
  ultimately show ?case
    using assms(1-4) Suc.hyps(2) by (subst parseRar4_loop.simps) (simp add: append_chunk_def flip: replicate_Suc)
qed (subst parseRar4_loop.simps, simp)

lemma loop_header_walk:
  "\<exists>c. parseVolume (bytes_volume (rar4Marker @ loop_header)) vi = Some (Inr (replicate 100000 c))"
proof -
  let ?v = "rar4Marker @ loop_header"
  have r1: "vs_readAt (bytes_volume ?v) 0 8 = Some (rar4Marker @ [0])" "vs_readAt (bytes_volume ?v) 7 7 = Some (take 7 loop_header)"
    "vs_readAt (bytes_volume ?v) 7 41 = Some loop_header"
    by (simp_all add: bytes_volume_readAt rar4Marker_def loop_header_def slice_def)
  have hs: "u16z (take 7 loop_header) 5 = 41" "u16z (take 7 loop_header) 3 = 0x8100" "byte_at (take 7 loop_header) 2 = Inr 0x74"
    by code_simp+
  have fb: "\<exists>c. rar4FileBlock 0x8100 loop_header 7 vi = Inr (- 41, Some c)"
  proof -
    have "u32z loop_header 7 = 0xffffffd7" "u32z loop_header 32 = 0xffffffff" "u32z loop_header 11 = 0"
      "u32z loop_header 36 = 0" "u16z loop_header 26 = 1" "length loop_header = 41"
      by code_simp+
    moreover have "int64 (ucast (0xffffffd7 :: uint32) OR push_bit 32 (ucast (0xffffffff :: uint32))) = - 41"
      by code_simp
    ultimately show ?thesis by (simp add: rar4FileBlock_def Let_def)
  qed
  then obtain c where st: "rar4_step (bytes_volume ?v) vi 7 = Inr (0x74, 0, Some c)"
    using r1 hs by (auto simp: rar4_step_def rar4Block_def i64_def)
  have "7 < vs_size (bytes_volume ?v)" by (simp add: rar4Marker_def loop_header_def)
  then have "parseRar4_loop (bytes_volume ?v) vi 0 7 [] = Inr (replicate 100000 c)"
    using parseRar4_loop_stands [OF st, of 0 "[]"] by (simp add: rar4MaxBlocks_def i64_def)
  then show ?thesis
    using r1 by (auto simp: parseVolume_def parseRar4_def rar4Marker_def rar5Marker_def bytesEqual_def)
qed

text \<open>What the parser reads in a written volume.\<close>

lemma rar4_written_chunks:
  assumes "list_all rar4_file_ok fs" "int (length fs) < 99998" "int (length (rar4_write fs)) \<le> max_i64"
  shows "\<exists>cs. parseVolume (bytes_volume (rar4_write fs)) vi = Some (Inr cs) \<and> parseRar4 (bytes_volume (rar4_write fs)) vi = Inr cs \<and>
    list_all2 (\<lambda>f c. ch_name c = rarBaseName (rf_name f) \<and> volIndex c = vi \<and> unpSize c = uint (rf_unp f) \<and>
      stored c = (rf_method f = 0x30) \<and> encrypted c = rf_pass f \<and> packSize c = int (length (rf_data f)) \<and>
      slice (rar4_write fs) (nat (dataOffset c)) (nat (dataOffset c + packSize c)) = rf_data f) fs cs"
proof -
  let ?v = "rar4_write fs" and ?body = "concat (map (\<lambda>f. rar4_hdr f @ rf_data f) fs) @ rar4_end"
  have v: "?v = (rar4Marker @ rar4_main) @ ?body" by (simp add: rar4_write_def)
  obtain cs where cs: "parseRar4_loop (bytes_volume ?v) vi 1 (int (length (rar4Marker @ rar4_main))) [] = Inr ([] @ cs)"
    "list_all2 (\<lambda>f c. \<exists>pos. c = rar4_chunk vi pos f \<and> 0 \<le> pos \<and>
      slice ?v (nat (dataOffset c)) (nat (dataOffset c + packSize c)) = rf_data f) fs cs"
    using parseRar4_loop_written [OF assms(1,3) _ _ v, of 1 vi "[]"] assms(2) by (auto simp: rar4MaxBlocks_def)
  have r: "vs_readAt (bytes_volume ?v) 7 7 = Some (take 7 rar4_main)" "vs_readAt (bytes_volume ?v) 7 13 = Some rar4_main"
    using bytes_volume_mid [of 7 "take 7 rar4_main" rar4Marker "drop 7 rar4_main @ ?body"]
      bytes_volume_mid [of 13 rar4_main rar4Marker ?body]
    unfolding v by (simp_all add: rar4Marker_def rar4_main_def)
  have "u16z (take 7 rar4_main) 3 = 0" "u16z (take 7 rar4_main) 5 = 13" "byte_at (take 7 rar4_main) 2 = Inr 0x73"
    by code_simp+
  then have st: "rar4_step (bytes_volume ?v) vi 7 = Inr (0x73, 13, None)"
    using r by (simp add: rar4_step_def rar4Block_def i64_nonneg)
  have walk: "parseRar4 (bytes_volume ?v) vi = Inr cs"
    unfolding parseRar4_def using cs(1) st
    by (subst parseRar4_loop.simps)
      (simp add: append_chunk_def rar4Marker_def rar4_main_def rar4MaxBlocks_def i64_nonneg rar4_write_def)
  have "vs_readAt (bytes_volume ?v) 0 8 = Some (rar4Marker @ [0xcf])"
    by (simp add: bytes_volume_readAt) (simp add: rar4_write_def rar4Marker_def rar4_main_def)
  with walk have "parseVolume (bytes_volume ?v) vi = Some (Inr cs)"
    by (simp add: parseVolume_def rar4Marker_def rar5Marker_def bytesEqual_def)
  moreover have "list_all2 (\<lambda>f c. ch_name c = rarBaseName (rf_name f) \<and> volIndex c = vi \<and> unpSize c = uint (rf_unp f) \<and>
      stored c = (rf_method f = 0x30) \<and> encrypted c = rf_pass f \<and> packSize c = int (length (rf_data f)) \<and>
      slice ?v (nat (dataOffset c)) (nat (dataOffset c + packSize c)) = rf_data f) fs cs"
    using cs(2) by (rule list_all2_mono) (auto simp: rar4_chunk_def)
  ultimately show ?thesis using walk by blast
qed

section \<open>Properties\<close>

definition sample_file :: rar4_file where
  "sample_file = \<lparr>rf_crc = 0, rf_unp = 3, rf_misc = replicate 10 0, rf_method = 0x30, rf_attr = [0, 0, 0, 0], rf_pass = False,
    rf_name = str ''a.mkv'', rf_data = [1, 2, 3]\<rparr>"

text \<open>
  C25. A RAR4 volume is read back: for every list of files written block by block (any names, data below 4 GiB,
  any method, encrypted or not, any values in the fields the parser skips) \<open>parseVolume\<close> returns one chunk per
  file, in order, with the base name, the sizes, the stored and the encrypted flag, and the bytes of the volume the
  chunk points at are that file's data.
\<close>

theorem rar4_volume_roundtrip:
  assumes "list_all rar4_file_ok fs" "int (length fs) < 99998" "int (length (rar4_write fs)) \<le> max_i64"
  shows "\<exists>cs. parseVolume (bytes_volume (rar4_write fs)) vi = Some (Inr cs) \<and>
    list_all2 (\<lambda>f c. ch_name c = rarBaseName (rf_name f) \<and> volIndex c = vi \<and> unpSize c = uint (rf_unp f) \<and>
      stored c = (rf_method f = 0x30) \<and> encrypted c = rf_pass f \<and> packSize c = int (length (rf_data f)) \<and>
      slice (rar4_write fs) (nat (dataOffset c)) (nat (dataOffset c + packSize c)) = rf_data f) fs cs"
  using rar4_written_chunks [OF assms] by blast

theorem rar4_volume_roundtrip_witness:
  "\<exists>cs. parseVolume (bytes_volume (rar4_write [sample_file])) 0 = Some (Inr cs) \<and> map packSize cs = [3]"
proof -
  have "list_all rar4_file_ok [sample_file]" by (simp add: rar4_file_ok_def sample_file_def)
  moreover have "int (length (rar4_write [sample_file])) \<le> max_i64"
    by (simp add: rar4_write_def rar4_hdr_def rar4_main_def rar4_end_def rar4Marker_def sample_file_def)
  ultimately show ?thesis
    using rar4_volume_roundtrip [of "[sample_file]" 0] by (auto simp: list_all2_Cons1 sample_file_def)
qed




text \<open>
  C28. Hostile headers: there is a 34-byte RAR5 volume on which \<open>parseVolume\<close> never returns (a record size of
  \<open>2\<^sup>6\<^sup>4 - 10\<close> in the extra area leads \<open>rar5HasCrypt\<close> back to the same record) and one on which it panics (a name
  length of \<open>2\<^sup>6\<^sup>3\<close> passes the bound check of \<open>rar5FileName\<close> and its slice expression is out of range). A 48-byte RAR4 volume of one
  block is walked over and over until the block limit: a 64-bit packed size of minus the header's length leads back to
  the block, and 100,000 chunks are returned.
\<close>

theorem hostile_headers:
  "parseVolume (bytes_volume spin_volume) vi = None \<and> parseVolume (bytes_volume panic_volume) vi = Some (Inl Panic) \<and>
   (\<exists>c. parseVolume (bytes_volume (rar4Marker @ loop_header)) vi = Some (Inr (replicate 100000 c)))"
proof (intro conjI loop_header_walk)
  show "parseVolume (bytes_volume spin_volume) vi = None"
    by (rule rar5_one_block(1) [of _ 21 spin_header 21])
      (use spin_header_no_return in \<open>simp_all add: spin_volume_def spin_header_def back_ten_def int64_def
        readVint_def readVint_loop.simps [of _ 0 0] byte_at_def\<close>)
  show "parseVolume (bytes_volume panic_volume) vi = Some (Inl Panic)"
    by (rule rar5_one_block(2) [of _ 18 panic_header 18])
      (use panic_header_panics in \<open>simp_all add: panic_volume_def panic_header_def int64_def
        readVint_def readVint_loop.simps [of _ 0 0] byte_at_def\<close>)
qed

end
