(* ===== verification/Rar_Store_Props.thy ===== *)
theory Rar_Store_Props
  imports Rar_Store Offset_Index_Props Rar_Parse_Props
begin

text \<open>
  The release store: which chunks become the video, that its extents tile it (a second instance of the range
  contract of the offset index), and what the concurrent header probe returns.
\<close>

section \<open>Extents\<close>

fun laid_out :: "int \<Rightarrow> extent list \<Rightarrow> int \<Rightarrow> bool" where
  "laid_out start [] tot \<longleftrightarrow> start = tot"
| "laid_out start (e # es) tot \<longleftrightarrow> videoStart e = start \<and> 0 \<le> ex_length e \<and> laid_out (start + ex_length e) es tot"

lemma laid_out_nth:
  assumes "laid_out start es tot" "i < length es"
  shows "0 \<le> ex_length (es ! i) \<and> start \<le> videoStart (es ! i) \<and> videoStart (es ! i) + ex_length (es ! i) \<le> tot \<and>
    (if Suc i < length es then videoStart (es ! Suc i) else tot) = videoStart (es ! i) + ex_length (es ! i)"
  using assms
proof (induction es arbitrary: start i)
  case (Cons e es)
  have tot: "start + ex_length e \<le> tot"
    using Cons.IH [of "start + ex_length e" 0] Cons.prems by (cases es) auto
  show ?case
  proof (cases i)
    case 0
    then show ?thesis using Cons.prems tot by (cases es) auto
  next
    case (Suc j)
    then show ?thesis using Cons.IH [of "start + ex_length e" j] Cons.prems by auto
  qed
qed simp

lemma laid_out_mono:
  assumes "laid_out start es tot" "i \<le> j" "j < length es"
  shows "videoStart (es ! i) \<le> videoStart (es ! j)"
  using assms(2,3)
proof (induction j)
  case (Suc j)
  show ?case
  proof (cases "i = Suc j")
    case False
    then have "videoStart (es ! i) \<le> videoStart (es ! j)" using Suc by simp
    then show ?thesis using laid_out_nth [OF assms(1), of j] Suc.prems by simp
  qed simp
qed simp

text \<open>The search finds the last extent that begins at or before the offset.\<close>

lemma findExtent_laid_out:
  assumes "laid_out 0 es tot" "tot \<le> max_i64"
  shows "findExtent es off = Some e \<Longrightarrow> e \<in> set es \<and> videoStart e \<le> off \<and> off < videoStart e + ex_length e"
    and "findExtent es off \<noteq> None \<longleftrightarrow> 0 \<le> off \<and> off < tot"
proof -
  let ?p = "\<lambda>k. off < videoStart (es ! k)" and ?n = "length es"
  define r where "r = sort_Search ?n ?p"
  have up: "upward ?n ?p"
    unfolding upward_def using laid_out_mono [OF assms(1)] by (metis less_le_trans)
  have r: "r \<le> ?n" "\<And>k. k < r \<Longrightarrow> videoStart (es ! k) \<le> off" "\<And>k. r \<le> k \<Longrightarrow> k < ?n \<Longrightarrow> off < videoStart (es ! k)"
    using sort_Search_correct [OF up] by (auto simp: r_def false_below_def true_from_def not_less)
  have fit: "i64 (videoStart (es ! k) + ex_length (es ! k)) = videoStart (es ! k) + ex_length (es ! k)" if "k < ?n" for k
    using laid_out_nth [OF assms(1) that] assms(2) by (intro i64_nonneg) auto
  have f: "findExtent es off = (if r = 0 then None else if off < videoStart (es ! (r - 1)) + ex_length (es ! (r - 1))
      then Some (es ! (r - 1)) else None)"
    using r(1) r(2) [of "r - 1"] fit [of "r - 1"]
    by (auto simp: findExtent_def Let_def nat_diff_distrib simp flip: r_def)
  show "findExtent es off = Some e \<Longrightarrow> e \<in> set es \<and> videoStart e \<le> off \<and> off < videoStart e + ex_length e"
    using f r(1) r(2) [of "r - 1"] by (auto split: if_splits)
  show "findExtent es off \<noteq> None \<longleftrightarrow> 0 \<le> off \<and> off < tot"
  proof (cases "r = 0")
    case True
    then show ?thesis
      using f assms(1) r(3) [of 0] by (cases es) auto
  next
    case False
    let ?e = "es ! (r - 1)"
    have k: "r - 1 < ?n" using False r(1) by simp
    have "off < videoStart ?e + ex_length ?e \<longleftrightarrow> off < tot"
      using laid_out_nth [OF assms(1) k] r(3) [of r] False by (auto split: if_splits)
    moreover have "0 \<le> off" using laid_out_nth [OF assms(1) k] r(2) [of "r - 1"] False by simp
    ultimately show ?thesis using f False by simp
  qed
qed

lemma extents_loop_nonneg: "extents_loop g start = Inr r \<Longrightarrow> d \<in> set g \<Longrightarrow> 0 \<le> packSize d"
  by (induction g arbitrary: start r) (auto simp: bindR_Inr split: if_splits)

lemma extents_loop_laid_out:
  assumes "extents_loop g start = Inr (es, tot)" "0 \<le> start" "start + sum_list (map packSize g) \<le> max_i64"
  shows "laid_out start es tot \<and> tot = start + sum_list (map packSize g) \<and>
    map (\<lambda>e. (ex_volIndex e, ex_dataOffset e, ex_length e)) es = map (\<lambda>c. (volIndex c, dataOffset c, packSize c)) g"
  using assms
proof (induction g arbitrary: start es)
  case (Cons c g)
  then obtain es' where c: "0 \<le> packSize c" "extents_loop g (i64 (start + packSize c)) = Inr (es', tot)"
    "es = \<lparr>videoStart = start, ex_length = packSize c, ex_volIndex = volIndex c, ex_dataOffset = dataOffset c\<rparr> # es'"
    by (auto simp: bindR_Inr split: if_splits)
  have "0 \<le> sum_list (map packSize g)"
    using extents_loop_nonneg [OF c(2)] by (intro sum_list_nonneg) auto
  then have "i64 (start + packSize c) = start + packSize c"
    using Cons.prems c(1) by (intro i64_nonneg) auto
  then show ?case
    using Cons.IH [of "start + packSize c" es'] Cons.prems c by auto
qed simp

text \<open>A store whose sizes do not overflow is a range locator, like the offset index of a volume.\<close>

definition store_ok :: "rar_store \<Rightarrow> bool" where
  "store_ok st \<longleftrightarrow> laid_out 0 (rs_extents st) (videoSize st) \<and> videoSize st \<le> max_i64"

definition extent_range :: "rar_store \<Rightarrow> int \<Rightarrow> (nat \<times> int \<times> int) option" where
  "extent_range st off =
     map_option (\<lambda>e. (nat (ex_volIndex e), videoStart e, videoStart e + ex_length e)) (findExtent (rs_extents st) off)"

interpretation store_ranges: range_locator store_ok videoSize extent_range
proof
  show "b \<le> off \<and> off < e" if "store_ok st" "extent_range st off = Some (i, b, e)" for st off i b e
    using that findExtent_laid_out(1) by (fastforce simp: store_ok_def extent_range_def)
  show "(extent_range st off \<noteq> None) = (0 \<le> off \<and> off < videoSize st)" if "store_ok st" for st off
    using that findExtent_laid_out(2) by (auto simp: store_ok_def extent_range_def)
qed

section \<open>The video among the chunks\<close>

text \<open>What the first loop has collected from the chunks it has seen.\<close>

definition groups :: "rarChunk list \<Rightarrow> (bytes \<rightharpoonup> rarChunk list) \<Rightarrow> bytes list \<Rightarrow> bool" where
  "groups seen byName names \<longleftrightarrow>
     (\<forall>n. byName n = (let g = filter (\<lambda>c. ch_name c = n) seen in if g = [] then None else Some g)) \<and>
     distinct names \<and> set names = ch_name ` set seen"

lemma groups_snoc:
  assumes "groups seen byName names"
  shows "groups (seen @ [c]) (byName(ch_name c \<mapsto> (case byName (ch_name c) of None \<Rightarrow> [] | Some g \<Rightarrow> g) @ [c]))
    (if byName (ch_name c) = None then names @ [ch_name c] else names)"
proof -
  have "byName n = None \<longleftrightarrow> n \<notin> ch_name ` set seen" for n
    using assms by (auto simp: groups_def Let_def filter_empty_conv)
  moreover have "byName n = (if filter (\<lambda>c. ch_name c = n) seen = [] then None else Some (filter (\<lambda>c. ch_name c = n) seen))" for n
    using assms by (simp add: groups_def Let_def)
  moreover have "distinct names" "set names = ch_name ` set seen"
    using assms by (simp_all add: groups_def)
  ultimately show ?thesis
    by (auto simp: groups_def Let_def)
qed

lemma group_chunks_spec:
  assumes "groups seen byName names"
  shows "if list_ex encrypted cs then group_chunks cs byName names = Inl (NotStreamable ''encrypted file'')
    else \<exists>b ns. group_chunks cs byName names = Inr (b, ns) \<and> groups (seen @ cs) b ns"
  using assms
proof (induction cs arbitrary: seen byName names)
  case (Cons c cs)
  then show ?case
    using Cons.IH [OF groups_snoc [OF Cons.prems, of c]] by (auto simp: Let_def)
qed simp

lemma distinct_single: "distinct ys \<Longrightarrow> ys = [x] \<longleftrightarrow> set ys = {x}"
proof (cases ys)
  case (Cons y zs)
  moreover assume "distinct ys"
  ultimately show ?thesis by (cases zs) auto
qed simp

lemma filter_single: "distinct ns \<Longrightarrow> filter P ns = [x] \<longleftrightarrow> {n \<in> set ns. P n} = {x}"
  using distinct_single [of "filter P ns" x] by simp

lemma selectVideo_iff:
  "selectVideo u chunks = Inr g \<longleftrightarrow>
     \<not> list_ex encrypted chunks \<and>
     (\<exists>name. {n \<in> ch_name ` set chunks. isVideoName u n} = {name} \<and>
        g = sort_key volIndex (filter (\<lambda>c. ch_name c = name) chunks) \<and> list_all stored g)"
proof (cases "list_ex encrypted chunks \<or> chunks = []")
  case True
  then show ?thesis
    using group_chunks_spec [of "[]" Map.empty "[]" chunks] by (auto simp: selectVideo_def groups_def)
next
  case False
  have "groups [] Map.empty []" by (simp add: groups_def)
  with False obtain b ns where b: "group_chunks chunks Map.empty [] = Inr (b, ns)" "groups chunks b ns"
    using group_chunks_spec [of "[]" Map.empty "[]" chunks] by auto
  let ?vs = "filter (isVideoName u) ns"
  have ns: "distinct ns" "set ns = ch_name ` set chunks" using b(2) by (simp_all add: groups_def)
  have one: "?vs = [name] \<longleftrightarrow> {n \<in> ch_name ` set chunks. isVideoName u n} = {name}" for name
    using filter_single [OF ns(1)] ns(2) by simp
  have sel: "selectVideo u chunks = (case ?vs of [] \<Rightarrow> Inl (NotStreamable ''no video file in archive'')
      | [name] \<Rightarrow> let g = filter (\<lambda>c. ch_name c = name) chunks in
          if list_ex (\<lambda>c. \<not> stored c) g then Inl (NotStreamable ''video is compressed, not stored'') else Inr (sort_key volIndex g)
      | _ \<Rightarrow> Inl (NotStreamable ''multiple video files (ambiguous)''))"
    using False b by (auto simp: selectVideo_def groups_def Let_def split: list.split)
  show ?thesis
  proof (cases "\<exists>name. ?vs = [name]")
    case True
    then obtain name where vs: "?vs = [name]" by blast
    let ?g = "filter (\<lambda>c. ch_name c = name) chunks"
    have "selectVideo u chunks = (if list_ex (\<lambda>c. \<not> stored c) ?g then Inl (NotStreamable ''video is compressed, not stored'')
        else Inr (sort_key volIndex ?g))"
      unfolding sel vs by (simp add: Let_def)
    moreover have "{n \<in> ch_name ` set chunks. isVideoName u n} = {n} \<longleftrightarrow> n = name" for n
      using one [of n] vs by auto
    ultimately show ?thesis
      using False by (auto simp: list_ex_iff list_all_iff)
  next
    case no: False
    then have "selectVideo u chunks \<noteq> Inr g"
      unfolding sel by (auto split: list.split)
    then show ?thesis using no one by blast
  qed
qed

lemma sum_list_sort_key [simp]: "sum_list (map f (sort_key k xs)) = sum_list (map f xs)" for f :: "'a \<Rightarrow> int"
  by (metis mset_map mset_sort sum_mset_sum_list)

lemma store_of_chunks_facts:
  assumes "store_of_chunks u chunks = Inr st" "g = sort_key volIndex (filter (\<lambda>c. ch_name c = videoName st) chunks)"
  shows "\<not> list_ex encrypted chunks" "{n \<in> ch_name ` set chunks. isVideoName u n} = {videoName st}" "list_all stored g"
    "extents_loop g 0 = Inr (rs_extents st, videoSize st)"
proof -
  obtain video exts tot where v: "selectVideo u chunks = Inr video" "buildExtents video = Inr (exts, tot)"
      "st = \<lparr>rs_extents = exts, videoName = ch_name (hd video), videoSize = tot\<rparr>"
    using assms(1) by (auto simp: store_of_chunks_def bindR_Inr)
  obtain name where n: "\<not> list_ex encrypted chunks" "{n \<in> ch_name ` set chunks. isVideoName u n} = {name}"
      "video = sort_key volIndex (filter (\<lambda>c. ch_name c = name) chunks)" "list_all stored video"
    using v(1) unfolding selectVideo_iff by blast
  have ne: "video \<noteq> []" "extents_loop video 0 = Inr (exts, tot)"
    using v(2) by (auto simp: buildExtents_def bindR_Inr Let_def split: if_splits)
  then have "hd video \<in> set video" by simp
  then have "ch_name (hd video) = name" unfolding n(3) by (auto simp del: hd_in_set)
  then have st: "videoName st = name" "video = g" using v(3) n(3) assms(2) by auto
  show "\<not> list_ex encrypted chunks" "{n \<in> ch_name ` set chunks. isVideoName u n} = {videoName st}" "list_all stored g"
    "extents_loop g 0 = Inr (rs_extents st, videoSize st)"
    using n ne st v(3) by auto
qed

lemma store_of_chunks_ok:
  assumes "store_of_chunks u chunks = Inr st"
    and "sum_list (map packSize (filter (\<lambda>c. ch_name c = videoName st) chunks)) \<le> max_i64"
  shows "store_ok st"
  using extents_loop_laid_out [OF store_of_chunks_facts(4) [OF assms(1) refl]] assms(2)
  by (auto simp: store_ok_def)

section \<open>The concurrent probe\<close>

text \<open>How many goroutines were launched.\<close>

definition launched :: "nat \<Rightarrow> probe_state \<Rightarrow> nat" where
  "launched n s = (case pc s of CheckErr k \<Rightarrow> k | Acquire k \<Rightarrow> k | WaitAll \<Rightarrow> n)"

definition probed :: "(nat \<Rightarrow> (open_error + volumeSource) set) \<Rightarrow> nat \<Rightarrow> rarChunk list parsed \<Rightarrow> bool" where
  "probed opens i r \<longleftrightarrow> (\<exists>vo \<in> opens i. probe_volume i vo = Some r)"

definition probe_inv :: "nat \<Rightarrow> int \<Rightarrow> (nat \<Rightarrow> (open_error + volumeSource) set) \<Rightarrow> probe_state \<Rightarrow> bool" where
  "probe_inv n lim opens s \<longleftrightarrow>
     launched n s \<le> n \<and> (\<forall>i. pc s = Acquire i \<longrightarrow> i < n) \<and>
     running s \<subseteq> {..<launched n s} \<and> int (card (running s)) \<le> lim \<and> length (perVol s) = n \<and>
     (firstErr s = None \<longrightarrow> (\<forall>i < launched n s. i \<notin> running s \<longrightarrow> probed opens i (Inr (perVol s ! i)))) \<and>
     (\<forall>e. firstErr s = Some e \<longrightarrow> e \<noteq> Panic \<and> (\<exists>i < n. probed opens i (Inl e)))"

lemma probe_inv_step:
  assumes "probe_step n lim opens s s'" "probe_inv n lim opens s" "0 \<le> lim"
  shows "probe_inv n lim opens s'"
  using assms(1)
proof cases
  case (check_go i)
  then show ?thesis using assms(2) by (simp add: probe_inv_def launched_def)
next
  case (check_stop i)
  then show ?thesis using assms(2) by (auto simp: probe_inv_def launched_def)
next
  case (loop_done i)
  then have "i = n" using assms(2) by (simp add: probe_inv_def launched_def)
  then show ?thesis using loop_done assms(2) by (simp add: probe_inv_def launched_def)
next
  case (launch i)
  then have fin: "finite (running s)" "i \<notin> running s"
    using assms(2) finite_subset by (fastforce simp: probe_inv_def launched_def)+
  then show ?thesis
    using launch assms(2) by (auto simp: probe_inv_def launched_def less_Suc_eq)
next
  case (finish_ok i vo chunks)
  have fin: "finite (running s)"
    using assms(2) finite_subset by (fastforce simp: probe_inv_def)
  then have "int (card (running s - {i})) \<le> lim"
    using assms(2) card_Diff1_le [of "running s" i] by (simp add: probe_inv_def)
  moreover have "i < n" "launched n s' = launched n s"
    using finish_ok assms(2) by (auto simp: probe_inv_def launched_def)
  moreover have "probed opens i (Inr chunks)" using finish_ok by (auto simp: probed_def)
  ultimately show ?thesis
    using finish_ok(1) assms(2) by (auto simp: probe_inv_def nth_list_update)
next
  case (finish_err i vo e)
  have fin: "finite (running s)"
    using assms(2) finite_subset by (fastforce simp: probe_inv_def)
  then have "int (card (running s - {i})) \<le> lim"
    using assms(2) card_Diff1_le [of "running s" i] by (simp add: probe_inv_def)
  moreover have "i < n" "launched n s' = launched n s"
    using finish_err assms(2) by (auto simp: probe_inv_def launched_def)
  moreover have "probed opens i (Inl e)" using finish_err by (auto simp: probed_def)
  ultimately show ?thesis
    using finish_err(1,5) assms(2) by (auto simp: probe_inv_def)
qed

lemma probe_inv_reach:
  assumes "(probe_step n lim opens)\<^sup>*\<^sup>* (probe_init n) s" "0 \<le> lim"
  shows "probe_inv n lim opens s"
  using assms(1)
proof induction
  case base
  then show ?case using assms(2) by (simp add: probe_inv_def probe_init_def launched_def)
next
  case (step s s')
  then show ?case using probe_inv_step assms(2) by blast
qed

text \<open>As long as every volume's reader answers, some goroutine can go on.\<close>

lemma probe_progress:
  assumes "probe_inv n lim opens s" "1 \<le> lim" "\<not> probe_finished s"
    and ret: "\<And>i. i < n \<Longrightarrow> \<exists>vo \<in> opens i. \<exists>r. probe_volume i vo = Some r \<and> r \<noteq> Inl Panic"
  shows "\<exists>s'. probe_step n lim opens s s'"
proof -
  have fin: "\<exists>s'. probe_step n lim opens s s'" if "running s \<noteq> {}"
  proof -
    have "running s \<subseteq> {..<n}" using assms(1) by (fastforce simp: probe_inv_def)
    with that obtain i where i: "i \<in> running s" "i < n" by blast
    obtain vo r where vo: "vo \<in> opens i" "probe_volume i vo = Some r" "r \<noteq> Inl Panic"
      using ret [OF i(2)] by blast
    then show ?thesis
      using finish_ok [of i s vo opens] finish_err [of i s vo opens] i(1) by (cases r) blast+
  qed
  show ?thesis
  proof (cases "pc s")
    case (CheckErr i)
    then show ?thesis
      by (cases "i < n"; cases "firstErr s = None") (blast intro: check_go check_stop loop_done leI)+
  next
    case (Acquire i)
    then show ?thesis
    proof (cases "int (card (running s)) < lim")
      case False
      then have "running s \<noteq> {}" using assms(2) by auto
      then show ?thesis by (rule fin)
    qed (use launch in blast)
  next
    case WaitAll
    then have "running s \<noteq> {}" using assms(3) by (auto simp: probe_finished_def)
    then show ?thesis by (rule fin)
  qed
qed

section \<open>Properties\<close>


definition sample_chunks :: "rarChunk list" where
  "sample_chunks =
     [\<lparr>ch_name = str ''a.mkv'', volIndex = 1, dataOffset = 40, packSize = 20, unpSize = 120, stored = True, encrypted = False\<rparr>,
      \<lparr>ch_name = str ''a.nfo'', volIndex = 0, dataOffset = 9, packSize = 5, unpSize = 5, stored = False, encrypted = False\<rparr>,
      \<lparr>ch_name = str ''a.mkv'', volIndex = 0, dataOffset = 50, packSize = 100, unpSize = 120, stored = True, encrypted = False\<rparr>]"

definition sample_store :: rar_store where
  "sample_store = \<lparr>rs_extents =
     [\<lparr>videoStart = 0, ex_length = 100, ex_volIndex = 0, ex_dataOffset = 50\<rparr>,
      \<lparr>videoStart = 100, ex_length = 20, ex_volIndex = 1, ex_dataOffset = 40\<rparr>], videoName = str ''a.mkv'', videoSize = 120\<rparr>"

lemma sample_store_of_chunks: "store_of_chunks id sample_chunks = Inr sample_store"
  by code_simp

lemma sample_chunks_size:
  "sum_list (map packSize (sort_key volIndex (filter (\<lambda>c. ch_name c = videoName sample_store) sample_chunks))) \<le> max_i64"
  by code_simp




end
