(* ===== verification/Article_Cache.thy ===== *)
theory Article_Cache
  imports Go_Prelude "HOL-Library.AList"
begin

text \<open>
  The shared cache of decoded articles, \<open>internal/usenet/stream/articlecache.go\<close>, with its dead-article memo
  (\<open>deadmemo.go\<close>) and the reference counts and buffer pool of \<open>bufpool.go\<close>. Every method runs under the cache's
  mutex, so each is one function on the state. Pointers (scopes, flights, parts) are numbers; the capacity of a
  part's buffer is given by \<open>cap\<close>, and sums of capacities do not wrap. Maps that are iterated over or counted are association lists.
\<close>

section \<open>State\<close>

type_synonym cache_key = "nat \<times> bytes"

datatype fetch_err =
    Unavailable bool \<comment> \<open>\<open>ArticleUnavailableError\<close>; true when the server stalled\<close>
  | Canceled
  | DeadlineExceeded
  | FetchBudgetExhausted
  | PrefetchDropped
  | FetchFailed

record cache_entry =
  ce_key :: cache_key
  ce_part :: nat
  ce_size :: int

record flight =
  fl_part :: "nat option"
  fl_err :: "fetch_err option"
  fl_retry :: bool
  fl_waiters :: int
  fl_finished :: bool

record dead_mark =
  dm_err :: fetch_err
  dm_until :: "int option" \<comment> \<open>\<open>None\<close>: for the scope's lifetime\<close>

record cache_scope =
  sc_released :: bool
  sc_refs :: int

record article_cache =
  maxBytes :: int
  used :: int
  lru :: "cache_entry list" \<comment> \<open>most recently used first\<close>
  entries :: "cache_key \<rightharpoonup> cache_entry"
  flights :: "(cache_key \<times> nat) list"
  dead :: "(cache_key \<times> dead_mark) list"
  readers :: int
  baseBytes :: int
  boostCeiling :: int
  boosted :: int
  part_refs :: "nat \<rightharpoonup> int"
  scopes :: "nat \<Rightarrow> cache_scope"
  flight_at :: "nat \<Rightarrow> flight"
  next_flight :: nat
  recycled :: "nat list" \<comment> \<open>parts whose \<open>Data\<close> was cleared and whose buffer went to the pool\<close>

definition new_flight :: flight where
  "new_flight = \<lparr>fl_part = None, fl_err = None, fl_retry = False, fl_waiters = 0, fl_finished = False\<rparr>"

definition NewArticleCache :: "int \<Rightarrow> article_cache" where
  "NewArticleCache m =
     \<lparr>maxBytes = m, used = 0, lru = [], entries = Map.empty, flights = [], dead = [], readers = 0, baseBytes = m,
      boostCeiling = 0, boosted = 0, part_refs = Map.empty, scopes = (\<lambda>_. \<lparr>sc_released = False, sc_refs = 0\<rparr>),
      flight_at = (\<lambda>_. new_flight), next_flight = 0, recycled = []\<rparr>"

section \<open>The buffer pool\<close>

record buffer_pool =
  free :: "int list" \<comment> \<open>capacities, oldest first\<close>
  pool_bytes :: int

definition maxPooledBufferBytes :: int where
  "maxPooledBufferBytes = 32 * 2 ^ 20"

definition maxPooledBuffers :: nat where
  "maxPooledBuffers = 64"

text \<open>The scan of \<open>take\<close>: the index of the smallest idle buffer that fits and is not too large.\<close>

fun best_fit :: "int list \<Rightarrow> nat \<Rightarrow> int \<Rightarrow> int \<Rightarrow> (nat \<times> int) option \<Rightarrow> (nat \<times> int) option" where
  "best_fit [] i need lim best = best"
| "best_fit (c # cs) i need lim best =
     best_fit cs (Suc i) need lim
       (if need \<le> c \<and> c \<le> lim \<and> (case best of None \<Rightarrow> True | Some (_, b) \<Rightarrow> c < b) then Some (i, c) else best)"

definition pool_take :: "int \<Rightarrow> int \<Rightarrow> buffer_pool \<Rightarrow> int option \<times> buffer_pool" where
  "pool_take pageSize need p =
     (case best_fit (free p) 0 need (need + max (need div 8) pageSize) None of
        None \<Rightarrow> (None, p)
      | Some (i, c) \<Rightarrow>
          (Some c, p\<lparr>free := take i (free p) @ drop (Suc i) (free p), pool_bytes := pool_bytes p - c\<rparr>))"

text \<open>The oldest buffers go until there is room for one of \<open>c\<close> bytes.\<close>

fun drop_oldest :: "int \<Rightarrow> int list \<Rightarrow> int \<Rightarrow> int list \<times> int" where
  "drop_oldest c [] b = ([], b)"
| "drop_oldest c (x # xs) b =
     (if maxPooledBuffers \<le> length (x # xs) \<or> maxPooledBufferBytes < b + c
      then drop_oldest c xs (b - x) else (x # xs, b))"

definition pool_put :: "int \<Rightarrow> buffer_pool \<Rightarrow> buffer_pool" where
  "pool_put c p =
     (if c = 0 then p
      else if maxPooledBufferBytes < c then p
      else let (xs, b) = drop_oldest c (free p) (pool_bytes p) in \<lparr>free = xs @ [c], pool_bytes = b + c\<rparr>)"

definition pool_drain :: "buffer_pool \<Rightarrow> buffer_pool" where
  "pool_drain p = \<lparr>free = [], pool_bytes = 0\<rparr>"

section \<open>Reference counts\<close>

definition trackPart :: "nat \<Rightarrow> article_cache \<Rightarrow> article_cache" where
  "trackPart part c = c\<lparr>part_refs := (part_refs c)(part \<mapsto> 1)\<rparr>"

definition retainLocked :: "nat \<Rightarrow> int \<Rightarrow> article_cache \<Rightarrow> article_cache" where
  "retainLocked part n c =
     (case part_refs c part of
        Some k \<Rightarrow> if 0 < n then c\<lparr>part_refs := (part_refs c)(part \<mapsto> k + n)\<rparr> else c
      | None \<Rightarrow> c)"

definition releaseLocked :: "nat \<Rightarrow> article_cache \<Rightarrow> article_cache" where
  "releaseLocked part c =
     (case part_refs c part of
        None \<Rightarrow> c
      | Some n \<Rightarrow>
          if 1 < n then c\<lparr>part_refs := (part_refs c)(part \<mapsto> n - 1)\<rparr>
          else c\<lparr>part_refs := (part_refs c)(part := None), recycled := part # recycled c\<rparr>)"

definition releasePart :: "nat option \<Rightarrow> article_cache \<Rightarrow> article_cache" where
  "releasePart part c = (case part of None \<Rightarrow> c | Some p \<Rightarrow> releaseLocked p c)"

section \<open>Entries\<close>

definition removeLocked :: "cache_entry \<Rightarrow> article_cache \<Rightarrow> article_cache" where
  "removeLocked e c =
     releaseLocked (ce_part e)
       (c\<lparr>lru := filter (\<lambda>x. ce_key x \<noteq> ce_key e) (lru c), entries := (entries c)(ce_key e := None),
          used := used c - ce_size e\<rparr>)"

text \<open>The eviction loop: the coldest entries go while the cache is above its bound.\<close>

function evict_loop :: "article_cache \<Rightarrow> article_cache" where
  "evict_loop c =
     (if maxBytes c < used c \<and> lru c \<noteq> [] then evict_loop (removeLocked (last (lru c)) c) else c)"
  by pat_completeness auto

lemma releaseLocked_sel [simp]:
  "lru (releaseLocked p c) = lru c" "entries (releaseLocked p c) = entries c" "used (releaseLocked p c) = used c"
  "maxBytes (releaseLocked p c) = maxBytes c" "flights (releaseLocked p c) = flights c" "dead (releaseLocked p c) = dead c"
  "readers (releaseLocked p c) = readers c" "baseBytes (releaseLocked p c) = baseBytes c"
  "boostCeiling (releaseLocked p c) = boostCeiling c" "boosted (releaseLocked p c) = boosted c"
  "scopes (releaseLocked p c) = scopes c" "flight_at (releaseLocked p c) = flight_at c"
  "next_flight (releaseLocked p c) = next_flight c"
  by (auto simp: releaseLocked_def split: option.split)

lemma removeLocked_sel [simp]:
  "lru (removeLocked e c) = filter (\<lambda>x. ce_key x \<noteq> ce_key e) (lru c)"
  "entries (removeLocked e c) = (entries c)(ce_key e := None)" "used (removeLocked e c) = used c - ce_size e"
  "maxBytes (removeLocked e c) = maxBytes c" "flights (removeLocked e c) = flights c" "dead (removeLocked e c) = dead c"
  "readers (removeLocked e c) = readers c" "baseBytes (removeLocked e c) = baseBytes c"
  "boostCeiling (removeLocked e c) = boostCeiling c" "boosted (removeLocked e c) = boosted c"
  "scopes (removeLocked e c) = scopes c" "flight_at (removeLocked e c) = flight_at c"
  "next_flight (removeLocked e c) = next_flight c"
  by (simp_all add: removeLocked_def)

termination evict_loop
  by (relation "measure (\<lambda>c. length (lru c))")
    (auto simp: intro!: length_filter_less)

declare evict_loop.simps [simp del]

definition storeLocked :: "(nat \<Rightarrow> int) \<Rightarrow> cache_key \<Rightarrow> nat \<Rightarrow> article_cache \<Rightarrow> article_cache" where
  "storeLocked cap key part c =
     (let size = cap part in
      if maxBytes c < size then c
      else
        let c = (case entries c key of Some e \<Rightarrow> removeLocked e c | None \<Rightarrow> c);
            e = \<lparr>ce_key = key, ce_part = part, ce_size = size\<rparr>;
            c = c\<lparr>lru := e # lru c, entries := (entries c)(key \<mapsto> e)\<rparr>;
            c = retainLocked part 1 c
        in evict_loop (c\<lparr>used := used c + size\<rparr>))"

definition resizeBoost :: "int \<Rightarrow> int \<Rightarrow> article_cache \<Rightarrow> int \<times> article_cache" where
  "resizeBoost held want c =
     (let grant = max 0 (min want (boostCeiling c - (boosted c - held)));
          c = c\<lparr>boosted := boosted c + (grant - held)\<rparr>
      in (grant, evict_loop (c\<lparr>maxBytes := baseBytes c + boosted c\<rparr>)))"

definition readaheadShare :: "article_cache \<Rightarrow> int" where
  "readaheadShare c = baseBytes c div (2 * max 1 (readers c))"

definition countReadahead :: "int \<Rightarrow> article_cache \<Rightarrow> article_cache" where
  "countReadahead delta c = c\<lparr>readers := readers c + delta\<rparr>"

section \<open>The dead-article memo\<close>

definition maxDeadArticles :: nat where
  "maxDeadArticles = 4096"

text \<open>\<open>StalledArticleTTL\<close>, in nanoseconds.\<close>

definition StalledArticleTTL :: int where
  "StalledArticleTTL = 30 * 10 ^ 9"

definition expired :: "int \<Rightarrow> dead_mark \<Rightarrow> bool" where
  "expired now m = (case dm_until m of None \<Rightarrow> False | Some t \<Rightarrow> t < now)"

definition deadLocked :: "cache_key \<Rightarrow> int \<Rightarrow> article_cache \<Rightarrow> fetch_err option \<times> article_cache" where
  "deadLocked key now c =
     (case map_of (dead c) key of
        None \<Rightarrow> (None, c)
      | Some m \<Rightarrow> if expired now m then (None, c\<lparr>dead := AList.delete key (dead c)\<rparr>) else (Some (dm_err m), c))"

text \<open>\<open>ord\<close> is the order in which the map is iterated over.\<close>

fun evict_some :: "cache_key list \<Rightarrow> (cache_key \<times> dead_mark) list \<Rightarrow> (cache_key \<times> dead_mark) list" where
  "evict_some [] d = d"
| "evict_some (k # ks) d = (if length d < maxDeadArticles then d else evict_some ks (AList.delete k d))"

definition evictDeadLocked :: "(cache_key list \<Rightarrow> cache_key list) \<Rightarrow> int \<Rightarrow> article_cache \<Rightarrow> article_cache" where
  "evictDeadLocked ord now c =
     (let d = filter (\<lambda>(k, m). \<not> expired now m) (dead c) in c\<lparr>dead := evict_some (ord (map fst d)) d\<rparr>)"

definition markDeadLocked :: "(cache_key list \<Rightarrow> cache_key list) \<Rightarrow> cache_key \<Rightarrow> fetch_err \<Rightarrow> int \<Rightarrow> article_cache \<Rightarrow> article_cache" where
  "markDeadLocked ord key err now c =
     (case err of
        Unavailable stalled \<Rightarrow>
          let c = (if maxDeadArticles \<le> length (dead c) then evictDeadLocked ord now c else c);
              m = \<lparr>dm_err = err, dm_until = (if stalled then Some (now + StalledArticleTTL) else None)\<rparr>
          in c\<lparr>dead := AList.update key m (dead c)\<rparr>
      | _ \<Rightarrow> c)"

definition purgeDeadLocked :: "nat \<Rightarrow> article_cache \<Rightarrow> article_cache" where
  "purgeDeadLocked s c = c\<lparr>dead := filter (\<lambda>(k, m). fst k \<noteq> s) (dead c)\<rparr>"

section \<open>Scopes\<close>

definition dormantLocked :: "nat \<Rightarrow> article_cache \<Rightarrow> bool" where
  "dormantLocked s c \<longleftrightarrow> sc_released (scopes c s) \<and> sc_refs (scopes c s) \<le> 0"

text \<open>Removes the scope's entries one by one, in list order.\<close>

fun purge_entries :: "nat \<Rightarrow> cache_entry list \<Rightarrow> article_cache \<Rightarrow> article_cache" where
  "purge_entries s [] c = c"
| "purge_entries s (e # es) c = purge_entries s es (if fst (ce_key e) = s then removeLocked e c else c)"

definition purgeLocked :: "nat \<Rightarrow> article_cache \<Rightarrow> bool \<times> article_cache" where
  "purgeLocked s c =
     (let removed = list_ex (\<lambda>e. fst (ce_key e) = s) (lru c);
          c = purge_entries s (lru c) c;
          c = c\<lparr>flights := filter (\<lambda>(k, f). fst k \<noteq> s) (flights c)\<rparr>;
          c = purgeDeadLocked s c
      in (removed \<and> lru c = [] \<and> flights c = [], c))"

definition set_scope :: "nat \<Rightarrow> cache_scope \<Rightarrow> article_cache \<Rightarrow> article_cache" where
  "set_scope s v c = c\<lparr>scopes := (scopes c)(s := v)\<rparr>"

definition scope_retain :: "nat \<Rightarrow> article_cache \<Rightarrow> article_cache" where
  "scope_retain s c = set_scope s ((scopes c s)\<lparr>sc_refs := sc_refs (scopes c s) + 1\<rparr>) c"

text \<open>\<open>Release\<close> and \<open>unretain\<close>; the flag says whether \<open>onEmpty\<close> runs.\<close>

definition Release :: "nat \<Rightarrow> article_cache \<Rightarrow> bool \<times> article_cache" where
  "Release s c =
     (let c = set_scope s ((scopes c s)\<lparr>sc_released := True\<rparr>) c in
      if sc_refs (scopes c s) = 0 then purgeLocked s c else (False, c))"

definition unretain :: "nat \<Rightarrow> article_cache \<Rightarrow> bool \<times> article_cache" where
  "unretain s c =
     (let c = set_scope s ((scopes c s)\<lparr>sc_refs := sc_refs (scopes c s) - 1\<rparr>) c in
      if dormantLocked s c then purgeLocked s c else (False, c))"

definition scope_bytes :: "nat \<Rightarrow> article_cache \<Rightarrow> int" where
  "scope_bytes s c = sum_list (map ce_size (filter (\<lambda>e. fst (ce_key e) = s) (lru c)))"

section \<open>Flights\<close>

datatype begun = Cached nat | Join nat | Lead nat

definition alloc_flight :: "flight \<Rightarrow> article_cache \<Rightarrow> nat \<times> article_cache" where
  "alloc_flight f c =
     (next_flight c, c\<lparr>flight_at := (flight_at c)(next_flight c := f), next_flight := Suc (next_flight c)\<rparr>)"

definition settledFlight :: "fetch_err \<Rightarrow> flight" where
  "settledFlight err = new_flight\<lparr>fl_err := Some err, fl_finished := True\<rparr>"

definition begin_load :: "nat \<Rightarrow> bytes \<Rightarrow> bool \<Rightarrow> int \<Rightarrow> article_cache \<Rightarrow> begun \<times> article_cache" where
  "begin_load s mid hold now c =
     (if dormantLocked s c then (let (fl, c) = alloc_flight new_flight c in (Lead fl, c))
      else
        let key = (s, mid); (verdict, c) = deadLocked key now c in
        case verdict of
          Some err \<Rightarrow> (let (fl, c) = alloc_flight (settledFlight err) c in (Join fl, c))
        | None \<Rightarrow>
            case entries c key of
              Some e \<Rightarrow>
                let c = c\<lparr>lru := e # filter (\<lambda>x. ce_key x \<noteq> key) (lru c)\<rparr>
                in (Cached (ce_part e), if hold then retainLocked (ce_part e) 1 c else c)
            | None \<Rightarrow>
                case map_of (flights c) key of
                  Some fl \<Rightarrow>
                    (Join fl, if hold then c\<lparr>flight_at := (flight_at c)(fl := (flight_at c fl)\<lparr>fl_waiters := fl_waiters (flight_at c fl) + 1\<rparr>)\<rparr> else c)
                | None \<Rightarrow>
                    let (fl, c) = alloc_flight new_flight c in (Lead fl, c\<lparr>flights := AList.update key fl (flights c)\<rparr>))"

definition leaderSpecific :: "fetch_err \<Rightarrow> bool" where
  "leaderSpecific e \<longleftrightarrow> e \<in> {Canceled, DeadlineExceeded, FetchBudgetExhausted, PrefetchDropped}"

text \<open>\<open>finish\<close> with the part or the error of the fetch.\<close>

definition finish_load ::
  "(nat \<Rightarrow> int) \<Rightarrow> (cache_key list \<Rightarrow> cache_key list) \<Rightarrow> nat \<Rightarrow> bytes \<Rightarrow> nat \<Rightarrow> fetch_err + nat \<Rightarrow> int \<Rightarrow> article_cache \<Rightarrow> article_cache" where
  "finish_load cap ord s mid fl r now c =
     (let key = (s, mid);
          c = (if map_of (flights c) key = Some fl then c\<lparr>flights := AList.delete key (flights c)\<rparr> else c);
          c = (if dormantLocked s c then c
               else case r of Inr part \<Rightarrow> storeLocked cap key part c | Inl err \<Rightarrow> markDeadLocked ord key err now c);
          c = (case r of Inr part \<Rightarrow> retainLocked part (fl_waiters (flight_at c fl)) c | Inl _ \<Rightarrow> c)
      in c\<lparr>flight_at := (flight_at c)(fl := (flight_at c fl)\<lparr>
           fl_part := (case r of Inr part \<Rightarrow> Some part | Inl _ \<Rightarrow> None),
           fl_err := (case r of Inl err \<Rightarrow> Some err | Inr _ \<Rightarrow> None), fl_finished := True,
           fl_retry := (case r of Inl err \<Rightarrow> leaderSpecific err | Inr _ \<Rightarrow> False)\<rparr>)\<rparr>)"

definition abandon :: "nat \<Rightarrow> article_cache \<Rightarrow> article_cache" where
  "abandon fl c =
     (let f = flight_at c fl in
      if \<not> fl_finished f then c\<lparr>flight_at := (flight_at c)(fl := f\<lparr>fl_waiters := fl_waiters f - 1\<rparr>)\<rparr>
      else releasePart (fl_part f) c)"

end
