(* ===== verification/Article_Cache_Props.thy ===== *)
theory Article_Cache_Props
  imports Article_Cache
begin

text \<open>
  The article cache: its index, byte count and bounds are kept by every operation, a buffer is recycled exactly when its
  part has no holder left, and an article is fetched once at a time.
\<close>

section \<open>Reference counts\<close>

text \<open>The counts agree with a balance \<open>b\<close> of holders: a counted part has as many as its count, a recycled one none.\<close>

definition refs_ok :: "article_cache \<Rightarrow> (nat \<Rightarrow> int) \<Rightarrow> bool" where
  "refs_ok c b \<longleftrightarrow>
     (\<forall>p. case part_refs c p of None \<Rightarrow> True | Some n \<Rightarrow> 0 < n \<and> b p = n) \<and>
     (\<forall>p \<in> set (recycled c). part_refs c p = None \<and> b p = 0) \<and> distinct (recycled c)"

lemma refs_okD:
  assumes "refs_ok c b"
  shows "part_refs c p = Some n \<Longrightarrow> 0 < n \<and> b p = n" "p \<in> set (recycled c) \<Longrightarrow> part_refs c p = None \<and> b p = 0"
    "distinct (recycled c)"
  using assms unfolding refs_ok_def by (auto dest!: spec [of _ p])

lemma refs_okI:
  assumes "\<And>p n. part_refs c p = Some n \<Longrightarrow> 0 < n \<and> b p = n"
    and "\<And>p. p \<in> set (recycled c) \<Longrightarrow> part_refs c p = None \<and> b p = 0" "distinct (recycled c)"
  shows "refs_ok c b"
  using assms unfolding refs_ok_def by (auto split: option.split)

lemma refs_ok_release:
  assumes "refs_ok c b" "0 < b p"
  shows "refs_ok (releaseLocked p c) (b(p := b p - 1))"
proof (rule refs_okI)
  have p: "p \<notin> set (recycled c)" using refs_okD(2) [OF assms(1), of p] assms(2) by auto
  show "0 < n \<and> (b(p := b p - 1)) q = n" if "part_refs (releaseLocked p c) q = Some n" for q n
    using that refs_okD(1) [OF assms(1), of q] refs_okD(1) [OF assms(1), of p]
    by (cases "part_refs c p") (auto simp: releaseLocked_def split: if_splits)
  show "part_refs (releaseLocked p c) q = None \<and> (b(p := b p - 1)) q = 0" if "q \<in> set (recycled (releaseLocked p c))" for q
    using that p refs_okD(2) [OF assms(1), of q] refs_okD(1) [OF assms(1), of p]
    by (cases "part_refs c p") (auto simp: releaseLocked_def split: if_splits)
  show "distinct (recycled (releaseLocked p c))"
    using p refs_okD(3) [OF assms(1)] by (auto simp: releaseLocked_def split: option.split)
qed

lemma refs_ok_retain:
  assumes "refs_ok c b" "0 < b p" "0 \<le> n"
  shows "refs_ok (retainLocked p n c) (b(p := b p + n))"
proof (rule refs_okI)
  have p: "p \<notin> set (recycled c)" using refs_okD(2) [OF assms(1), of p] assms(2) by auto
  show "0 < k \<and> (b(p := b p + n)) q = k" if "part_refs (retainLocked p n c) q = Some k" for q k
    using that assms(3) refs_okD(1) [OF assms(1), of q] refs_okD(1) [OF assms(1), of p]
    by (cases "part_refs c p") (auto simp: retainLocked_def split: if_splits)
  show "part_refs (retainLocked p n c) q = None \<and> (b(p := b p + n)) q = 0" if "q \<in> set (recycled (retainLocked p n c))" for q
    using that p refs_okD(2) [OF assms(1), of q]
    by (cases "part_refs c p") (auto simp: retainLocked_def split: if_splits)
  show "distinct (recycled (retainLocked p n c))"
    using refs_okD(3) [OF assms(1)] by (auto simp: retainLocked_def split: option.split)
qed

lemma refs_ok_track:
  assumes "refs_ok c b" "b p = 0" "p \<notin> set (recycled c)"
  shows "refs_ok (trackPart p c) (b(p := 1))"
proof (rule refs_okI)
  show "0 < n \<and> (b(p := 1)) q = n" if "part_refs (trackPart p c) q = Some n" for q n
    using that refs_okD(1) [OF assms(1), of q n] by (auto simp: trackPart_def split: if_splits)
  show "part_refs (trackPart p c) q = None \<and> (b(p := 1)) q = 0" if "q \<in> set (recycled (trackPart p c))" for q
    using that assms(3) refs_okD(2) [OF assms(1), of q] by (auto simp: trackPart_def)
qed (use refs_okD(3) [OF assms(1)] in \<open>simp add: trackPart_def\<close>)

lemma refs_ok_cong:
  "part_refs c = part_refs c' \<Longrightarrow> recycled c = recycled c' \<Longrightarrow> b = b' \<Longrightarrow> refs_ok c b = refs_ok c' b'"
  by (simp add: refs_ok_def)

lemma retainLocked_sel [simp]:
  "lru (retainLocked p n c) = lru c" "entries (retainLocked p n c) = entries c" "used (retainLocked p n c) = used c"
  "maxBytes (retainLocked p n c) = maxBytes c" "flights (retainLocked p n c) = flights c" "dead (retainLocked p n c) = dead c"
  "readers (retainLocked p n c) = readers c" "baseBytes (retainLocked p n c) = baseBytes c"
  "boostCeiling (retainLocked p n c) = boostCeiling c" "boosted (retainLocked p n c) = boosted c"
  "scopes (retainLocked p n c) = scopes c" "flight_at (retainLocked p n c) = flight_at c"
  "next_flight (retainLocked p n c) = next_flight c" "recycled (retainLocked p n c) = recycled c"
  by (auto simp: retainLocked_def split: option.split)

section \<open>The entries\<close>

text \<open>The index lists exactly the entries of the list, and the byte count is theirs.\<close>

definition index_of :: "cache_entry list \<Rightarrow> cache_key \<rightharpoonup> cache_entry" where
  "index_of es = map_of (map (\<lambda>e. (ce_key e, e)) es)"

definition store_inv :: "article_cache \<Rightarrow> bool" where
  "store_inv c \<longleftrightarrow>
     distinct (map ce_key (lru c)) \<and> entries c = index_of (lru c) \<and> used c = sum_list (map ce_size (lru c)) \<and>
     (\<forall>e \<in> set (lru c). 0 \<le> ce_size e)"

text \<open>How many entries hold a part.\<close>

definition held_by_cache :: "article_cache \<Rightarrow> nat \<Rightarrow> int" where
  "held_by_cache c p = int (length (filter (\<lambda>e. ce_part e = p) (lru c)))"

text \<open>The counts are balanced by the entries and by \<open>ext\<close> holders outside the cache.\<close>

definition balanced :: "(nat \<Rightarrow> int) \<Rightarrow> article_cache \<Rightarrow> bool" where
  "balanced ext c \<longleftrightarrow> refs_ok c (\<lambda>p. held_by_cache c p + ext p) \<and> (\<forall>p. 0 \<le> ext p)"

lemma index_of_filter:
  "index_of (filter (\<lambda>x. ce_key x \<noteq> k) es) = (index_of es)(k := None)"
  by (induction es) (auto simp: index_of_def)

lemma index_of_Some: "index_of es k = Some e \<Longrightarrow> e \<in> set es \<and> ce_key e = k"
  by (auto simp: index_of_def dest!: map_of_SomeD)

lemma index_of_member:
  "distinct (map ce_key es) \<Longrightarrow> e \<in> set es \<Longrightarrow> index_of es (ce_key e) = Some e"
  unfolding index_of_def by (rule map_of_is_SomeI) (auto simp: comp_def)

lemma split_key:
  assumes "distinct (map ce_key es)" "e \<in> set es"
  obtains xs ys where "es = xs @ e # ys" "filter (\<lambda>x. ce_key x \<noteq> ce_key e) es = xs @ ys"
proof -
  obtain xs ys where es: "es = xs @ e # ys" using assms(2) by (auto simp: in_set_conv_decomp)
  then have "filter (\<lambda>x. ce_key x \<noteq> ce_key e) es = xs @ ys"
    using assms(1) by (auto intro!: arg_cong2 [of _ _ _ _ "(@)"] filter_True) (metis image_eqI)+
  with es show thesis by (rule that)
qed

lemma store_inv_remove:
  assumes "store_inv c" "e \<in> set (lru c)"
  shows "store_inv (removeLocked e c)"
proof -
  have d: "distinct (map ce_key (lru c))" using assms(1) by (simp add: store_inv_def)
  obtain xs ys where es: "lru c = xs @ e # ys" "filter (\<lambda>x. ce_key x \<noteq> ce_key e) (lru c) = xs @ ys"
    using split_key [OF d assms(2)] .
  moreover have "entries (removeLocked e c) = index_of (lru (removeLocked e c))"
    using assms(1) by (simp add: store_inv_def index_of_filter)
  ultimately show ?thesis using assms(1) by (auto simp: store_inv_def)
qed

lemma balanced_remove:
  assumes "store_inv c" "e \<in> set (lru c)" "balanced ext c"
  shows "balanced ext (removeLocked e c)"
proof -
  have d: "distinct (map ce_key (lru c))" using assms(1) by (simp add: store_inv_def)
  obtain xs ys where es: "lru c = xs @ e # ys" "filter (\<lambda>x. ce_key x \<noteq> ce_key e) (lru c) = xs @ ys"
    using split_key [OF d assms(2)] .
  let ?c = "c\<lparr>lru := xs @ ys, entries := (entries c)(ce_key e := None), used := used c - ce_size e\<rparr>"
  let ?b = "\<lambda>p. held_by_cache c p + ext p"
  have "refs_ok ?c ?b"
    using assms(3) unfolding balanced_def by (subst refs_ok_cong [of ?c c]) auto
  moreover have "0 < ?b (ce_part e)"
    using assms(3) es(1) by (auto simp: held_by_cache_def balanced_def add_pos_nonneg)
  ultimately have "refs_ok (releaseLocked (ce_part e) ?c) (?b(ce_part e := ?b (ce_part e) - 1))"
    by (rule refs_ok_release)
  moreover have "?b(ce_part e := ?b (ce_part e) - 1) = (\<lambda>p. held_by_cache (removeLocked e c) p + ext p)"
    using es by (auto simp: held_by_cache_def)
  ultimately show ?thesis
    using assms(3) es(2) by (simp add: balanced_def removeLocked_def)
qed

text \<open>The eviction loop ends with the cache inside its bound.\<close>

lemma evict_loop_keeps:
  assumes "store_inv c" "balanced ext c"
  shows "store_inv (evict_loop c) \<and> balanced ext (evict_loop c)"
  using assms
proof (induction c rule: evict_loop.induct)
  case (1 c)
  show ?case
  proof (cases "maxBytes c < used c \<and> lru c \<noteq> []")
    case True
    then have "last (lru c) \<in> set (lru c)" by simp
    then show ?thesis
      using 1 True store_inv_remove balanced_remove by (subst (1 2) evict_loop.simps) auto
  next
    case False
    then show ?thesis using 1 by (subst (1 2) evict_loop.simps) auto
  qed
qed

lemma evict_loop_sel [simp]:
  "maxBytes (evict_loop c) = maxBytes c" "flights (evict_loop c) = flights c" "dead (evict_loop c) = dead c"
  "readers (evict_loop c) = readers c" "baseBytes (evict_loop c) = baseBytes c" "boostCeiling (evict_loop c) = boostCeiling c"
  "boosted (evict_loop c) = boosted c" "scopes (evict_loop c) = scopes c" "flight_at (evict_loop c) = flight_at c"
  "next_flight (evict_loop c) = next_flight c"
proof (induction c rule: evict_loop.induct)
  case (1 c)
  { case 1 then show ?case using "1.IH" by (subst evict_loop.simps) simp }
  { case 2 then show ?case using "1.IH" by (subst evict_loop.simps) simp }
  { case 3 then show ?case using "1.IH" by (subst evict_loop.simps) simp }
  { case 4 then show ?case using "1.IH" by (subst evict_loop.simps) simp }
  { case 5 then show ?case using "1.IH" by (subst evict_loop.simps) simp }
  { case 6 then show ?case using "1.IH" by (subst evict_loop.simps) simp }
  { case 7 then show ?case using "1.IH" by (subst evict_loop.simps) simp }
  { case 8 then show ?case using "1.IH" by (subst evict_loop.simps) simp }
  { case 9 then show ?case using "1.IH" by (subst evict_loop.simps) simp }
  { case 10 then show ?case using "1.IH" by (subst evict_loop.simps) simp }
qed

lemma evict_loop_bound:
  assumes "store_inv c" "0 \<le> maxBytes c"
  shows "used (evict_loop c) \<le> maxBytes c"
  using assms
proof (induction c rule: evict_loop.induct)
  case (1 c)
  show ?case
  proof (cases "maxBytes c < used c \<and> lru c \<noteq> []")
    case True
    then show ?thesis
      using 1 store_inv_remove [of c "last (lru c)"] by (subst evict_loop.simps) simp
  next
    case False
    then show ?thesis using 1 by (subst evict_loop.simps) (auto simp: store_inv_def)
  qed
qed

text \<open>Storing keeps the part's new holder, the entry, in the balance; the part itself must have a holder.\<close>

lemma retainLocked_updates:
  "retainLocked p n (c\<lparr>lru := l, entries := m\<rparr>) = (retainLocked p n c)\<lparr>lru := l, entries := m\<rparr>"
  "(retainLocked p n c)\<lparr>used := u\<rparr> = retainLocked p n (c\<lparr>used := u\<rparr>)"
  by (auto simp: retainLocked_def split: option.split)

lemma store_insert_inv:
  assumes "store_inv c" "entries c key = None" "0 \<le> ce_size e" "ce_key e = key"
    and "lru c' = e # lru c" "entries c' = (entries c)(key \<mapsto> e)" "used c' = used c + ce_size e"
  shows "store_inv c'"
proof -
  have "key \<notin> ce_key ` set (lru c)"
    using assms(1,2) index_of_member by (fastforce simp: store_inv_def)
  then show ?thesis
    using assms by (auto simp: store_inv_def index_of_def)
qed

lemma store_insert:
  assumes "store_inv c" "balanced ext c" "entries c key = None" "0 < ext part" "0 \<le> sz"
  defines "e \<equiv> \<lparr>ce_key = key, ce_part = part, ce_size = sz\<rparr>"
  defines "c' \<equiv> retainLocked part 1 (c\<lparr>lru := e # lru c, entries := (entries c)(key \<mapsto> e)\<rparr>)"
  shows "store_inv (c'\<lparr>used := used c' + sz\<rparr>) \<and> balanced ext (c'\<lparr>used := used c' + sz\<rparr>)"
proof
  show "store_inv (c'\<lparr>used := used c' + sz\<rparr>)"
    by (rule store_insert_inv [where e = e, OF assms(1,3)]) (use assms(5) in \<open>simp_all add: c'_def e_def\<close>)
  let ?b = "\<lambda>p. held_by_cache c p + ext p"
  have "refs_ok (retainLocked part 1 c) (?b(part := ?b part + 1))"
    using assms(2,4) by (intro refs_ok_retain) (auto simp: balanced_def held_by_cache_def)
  moreover have "?b(part := ?b part + 1) = (\<lambda>p. held_by_cache (c'\<lparr>used := used c' + sz\<rparr>) p + ext p)"
    by (auto simp: held_by_cache_def c'_def e_def)
  ultimately show "balanced ext (c'\<lparr>used := used c' + sz\<rparr>)"
    using assms(2) unfolding balanced_def c'_def retainLocked_updates
    by (subst refs_ok_cong [of _ "retainLocked part 1 c"]) auto
qed

text \<open>Eviction takes the coldest entries first, so an entry that fits stays when it was just stored.\<close>

lemma evict_loop_front:
  assumes "store_inv c" "lru c = e # es" "ce_size e \<le> maxBytes c"
  shows "store_inv (evict_loop c) \<and> e \<in> set (lru (evict_loop c))"
  using assms
proof (induction c arbitrary: es rule: evict_loop.induct)
  case (1 c)
  show ?case
  proof (cases "maxBytes c < used c \<and> lru c \<noteq> []")
    case True
    then have "es \<noteq> []" using "1.prems" by (auto simp: store_inv_def)
    then have l: "last (lru c) = last es" "last es \<in> set es" using "1.prems"(2) by auto
    then have "ce_key (last es) \<noteq> ce_key e" using "1.prems"(1,2) by (auto simp: store_inv_def) (metis image_eqI)
    then have "lru (removeLocked (last (lru c)) c) = e # filter (\<lambda>x. ce_key x \<noteq> ce_key (last es)) es"
      using l "1.prems"(2) by simp
    moreover have "store_inv (removeLocked (last (lru c)) c)"
      using True "1.prems"(1) store_inv_remove by simp
    ultimately show ?thesis
      using "1.IH" [OF True] "1.prems"(3) True by (subst (1 2) evict_loop.simps) simp
  next
    case False
    then show ?thesis using "1.prems" by (subst (1 2) evict_loop.simps) auto
  qed
qed

lemma storeLocked_hit:
  assumes "store_inv c" "0 \<le> cap p" "cap p \<le> maxBytes c"
  shows "entries (storeLocked cap key p c) key = Some \<lparr>ce_key = key, ce_part = p, ce_size = cap p\<rparr>"
proof -
  let ?e = "\<lparr>ce_key = key, ce_part = p, ce_size = cap p\<rparr>"
  define c1 where "c1 = (case entries c key of Some e \<Rightarrow> removeLocked e c | None \<Rightarrow> c)"
  have "store_inv c1 \<and> entries c1 key = None \<and> maxBytes c1 = maxBytes c"
  proof (cases "entries c key")
    case (Some e)
    then have "e \<in> set (lru c)" "ce_key e = key"
      using assms(1) index_of_Some by (auto simp: store_inv_def)
    then show ?thesis using Some assms store_inv_remove by (simp add: c1_def)
  qed (use assms in \<open>simp add: c1_def\<close>)
  then have c1: "store_inv c1" "entries c1 key = None" "maxBytes c1 = maxBytes c" by auto
  let ?c = "retainLocked p 1 (c1\<lparr>lru := ?e # lru c1, entries := (entries c1)(key \<mapsto> ?e)\<rparr>)"
  let ?c2 = "?c\<lparr>used := used ?c + cap p\<rparr>"
  have "store_inv ?c2"
    by (rule store_insert_inv [where e = ?e, OF c1(1,2)]) (use assms(2) in simp_all)
  then have "store_inv (evict_loop ?c2) \<and> ?e \<in> set (lru (evict_loop ?c2))"
    by (rule evict_loop_front [where es = "lru c1"]) (use c1(3) assms(3) in simp_all)
  then have "index_of (lru (evict_loop ?c2)) (ce_key ?e) = Some ?e" "entries (evict_loop ?c2) = index_of (lru (evict_loop ?c2))"
    using index_of_member unfolding store_inv_def by blast+
  then have "entries (evict_loop ?c2) key = Some ?e" by simp
  then show ?thesis
    using assms(3) by (simp add: storeLocked_def Let_def flip: c1_def)
qed

lemma storeLocked_evicts:
  assumes "store_inv c" "balanced ext c" "0 < ext part" "0 \<le> cap part" "\<not> maxBytes c < cap part"
  obtains c2 where "storeLocked cap key part c = evict_loop c2" "store_inv c2" "balanced ext c2" "maxBytes c2 = maxBytes c"
proof -
  define c1 where "c1 = (case entries c key of Some e \<Rightarrow> removeLocked e c | None \<Rightarrow> c)"
  have "store_inv c1 \<and> balanced ext c1 \<and> entries c1 key = None \<and> maxBytes c1 = maxBytes c"
  proof (cases "entries c key")
    case (Some e)
    then have "e \<in> set (lru c)" "ce_key e = key"
      using assms(1) index_of_Some by (auto simp: store_inv_def)
    then show ?thesis
      using Some assms store_inv_remove balanced_remove by (simp add: c1_def)
  qed (use assms in \<open>simp add: c1_def\<close>)
  then have c1: "store_inv c1" "balanced ext c1" "entries c1 key = None" "maxBytes c1 = maxBytes c" by auto
  let ?e = "\<lparr>ce_key = key, ce_part = part, ce_size = cap part\<rparr>"
  let ?c = "retainLocked part 1 (c1\<lparr>lru := ?e # lru c1, entries := (entries c1)(key \<mapsto> ?e)\<rparr>)"
  show thesis
  proof (rule that [of "?c\<lparr>used := used ?c + cap part\<rparr>"])
    show "storeLocked cap key part c = evict_loop (?c\<lparr>used := used ?c + cap part\<rparr>)"
      using assms(5) by (simp add: storeLocked_def Let_def flip: c1_def)
    show "store_inv (?c\<lparr>used := used ?c + cap part\<rparr>)" "balanced ext (?c\<lparr>used := used ?c + cap part\<rparr>)"
      using store_insert [where key = key and part = part and sz = "cap part", OF c1(1-3) assms(3,4)] by blast+
    show "maxBytes (?c\<lparr>used := used ?c + cap part\<rparr>) = maxBytes c" using c1(4) by simp
  qed
qed

lemma storeLocked_keeps:
  assumes "store_inv c" "balanced ext c" "0 < ext part" "0 \<le> cap part"
  shows "store_inv (storeLocked cap key part c) \<and> balanced ext (storeLocked cap key part c)"
proof (cases "maxBytes c < cap part")
  case False
  then show ?thesis
    using storeLocked_evicts [where cap = cap and part = part and key = key, OF assms] evict_loop_keeps by metis
qed (use assms in \<open>simp add: storeLocked_def\<close>)

lemma storeLocked_sel [simp]:
  "maxBytes (storeLocked cap key part c) = maxBytes c" "flights (storeLocked cap key part c) = flights c"
  "dead (storeLocked cap key part c) = dead c" "readers (storeLocked cap key part c) = readers c"
  "baseBytes (storeLocked cap key part c) = baseBytes c" "boostCeiling (storeLocked cap key part c) = boostCeiling c"
  "boosted (storeLocked cap key part c) = boosted c" "scopes (storeLocked cap key part c) = scopes c"
  "flight_at (storeLocked cap key part c) = flight_at c" "next_flight (storeLocked cap key part c) = next_flight c"
  by (simp_all add: storeLocked_def Let_def split: option.split)

lemma storeLocked_bound:
  assumes "store_inv c" "balanced ext c" "0 < ext part" "0 \<le> cap part" "used c \<le> maxBytes c" "0 \<le> maxBytes c"
  shows "used (storeLocked cap key part c) \<le> maxBytes c"
proof (cases "maxBytes c < cap part")
  case False
  then show ?thesis
    using storeLocked_evicts [where cap = cap and part = part and key = key, OF assms(1-4)] evict_loop_bound assms(6) by metis
qed (use assms(5) in \<open>simp add: storeLocked_def\<close>)

text \<open>Dropping a scope's entries.\<close>

lemma purge_entries_keeps:
  assumes "store_inv c" "balanced ext c" "set es \<subseteq> set (lru c)" "distinct (map ce_key es)"
  shows "store_inv (purge_entries s es c) \<and> balanced ext (purge_entries s es c) \<and>
    used (purge_entries s es c) \<le> used c"
  using assms
proof (induction es arbitrary: c)
  case (Cons e es)
  show ?case
  proof (cases "fst (ce_key e) = s")
    case True
    have e: "e \<in> set (lru c)" using Cons.prems by simp
    have "set es \<subseteq> set (lru (removeLocked e c))" using Cons.prems(3,4) by (auto simp: image_iff)
    then have "store_inv (purge_entries s es (removeLocked e c)) \<and> balanced ext (purge_entries s es (removeLocked e c)) \<and>
        used (purge_entries s es (removeLocked e c)) \<le> used (removeLocked e c)"
      using Cons.prems e store_inv_remove balanced_remove by (intro Cons.IH) auto
    moreover have "0 \<le> ce_size e" using Cons.prems(1) e by (simp add: store_inv_def)
    ultimately show ?thesis using True by simp
  qed (use Cons in simp)
qed simp

lemma purge_entries_sel [simp]:
  "maxBytes (purge_entries s es c) = maxBytes c" "flights (purge_entries s es c) = flights c"
  "dead (purge_entries s es c) = dead c" "readers (purge_entries s es c) = readers c"
  "baseBytes (purge_entries s es c) = baseBytes c" "boostCeiling (purge_entries s es c) = boostCeiling c"
  "boosted (purge_entries s es c) = boosted c" "scopes (purge_entries s es c) = scopes c"
  "flight_at (purge_entries s es c) = flight_at c" "next_flight (purge_entries s es c) = next_flight c"
  by (induction es arbitrary: c) auto

section \<open>The buffer pool\<close>

definition pool_ok :: "buffer_pool \<Rightarrow> bool" where
  "pool_ok p \<longleftrightarrow> pool_bytes p = sum_list (free p) \<and> (\<forall>c \<in> set (free p). 0 < c) \<and>
     length (free p) \<le> maxPooledBuffers \<and> pool_bytes p \<le> maxPooledBufferBytes"

lemma drop_oldest_room:
  assumes "drop_oldest c xs b = (ys, b')" "b = sum_list xs" "c \<le> maxPooledBufferBytes"
  shows "length ys < maxPooledBuffers \<and> b' + c \<le> maxPooledBufferBytes \<and> b' = sum_list ys \<and> set ys \<subseteq> set xs"
  using assms by (induction c xs b rule: drop_oldest.induct) (auto simp: maxPooledBuffers_def split: if_splits)

lemma pool_put_ok:
  assumes "pool_ok p" "0 \<le> c"
  shows "pool_ok (pool_put c p)"
proof (cases "c = 0 \<or> maxPooledBufferBytes < c")
  case True
  then show ?thesis using assms by (auto simp: pool_put_def)
next
  case False
  obtain ys b where d: "drop_oldest c (free p) (pool_bytes p) = (ys, b)" by force
  show ?thesis
    using drop_oldest_room [OF d] False assms d by (auto simp: pool_put_def pool_ok_def)
qed

lemma best_fit_nth:
  assumes "best_fit cs i need lim best = Some (j, c)" "best = None \<or> best = Some (j', c')"
  shows "(\<exists>k. j = i + k \<and> k < length cs \<and> cs ! k = c \<and> need \<le> c \<and> c \<le> lim) \<or> best = Some (j, c)"
  using assms
proof (induction cs arbitrary: i best j' c')
  case (Cons x cs)
  let ?b = "if need \<le> x \<and> x \<le> lim \<and> (case best of None \<Rightarrow> True | Some (_, b) \<Rightarrow> x < b) then Some (i, x) else best"
  have ih: "(\<exists>k. j = Suc i + k \<and> k < length cs \<and> cs ! k = c \<and> need \<le> c \<and> c \<le> lim) \<or> ?b = Some (j, c)"
    using Cons.prems Cons.IH [of "Suc i" ?b "if ?b = best then j' else i" "if ?b = best then c' else x"] by (auto split: if_splits)
  show ?case
  proof (cases "?b = Some (j, c)")
    case True
    then show ?thesis by (cases "?b = best") (auto intro!: exI [of _ 0] split: if_splits)
  next
    case False
    with ih obtain k where "j = Suc i + k" "k < length cs" "cs ! k = c" "need \<le> c" "c \<le> lim" by blast
    then show ?thesis by (intro disjI1 exI [of _ "Suc k"]) auto
  qed
qed auto

lemma pool_take_ok:
  assumes "pool_ok p" "pool_take pageSize need p = (r, p')"
  shows "pool_ok p' \<and> (\<forall>c. r = Some c \<longrightarrow> c \<in> set (free p) \<and> need \<le> c \<and> c \<le> need + max (need div 8) pageSize)"
proof (cases "best_fit (free p) 0 need (need + max (need div 8) pageSize) None")
  case None
  then show ?thesis using assms by (auto simp: pool_take_def)
next
  case (Some jc)
  obtain j c where jc: "jc = (j, c)" by force
  have b: "j < length (free p)" "free p ! j = c" "need \<le> c" "c \<le> need + max (need div 8) pageSize"
    using best_fit_nth [OF Some [unfolded jc], of 0 0] by auto
  have split: "free p = take j (free p) @ c # drop (Suc j) (free p)"
    using b(1,2) id_take_nth_drop by metis
  have "sum_list (free p) = c + sum_list (take j (free p) @ drop (Suc j) (free p))"
    by (subst split) simp
  moreover have sub: "x \<in> set (free p)" if "x \<in> set (take j (free p)) \<or> x \<in> set (drop (Suc j) (free p))" for x
    using that by (meson in_set_takeD in_set_dropD)
  moreover have "0 < c" using assms(1) b by (auto simp: pool_ok_def)
  ultimately show ?thesis
    using assms Some jc b sub by (auto simp: pool_take_def pool_ok_def)
qed

end
