(* ===== verification/Article_Cache_Machine.thy ===== *)
theory Article_Cache_Machine
  imports Article_Cache_Props
begin

text \<open>
  The article cache under any sequence of client actions: loads that hit, join or lead a fetch, claims of the read-ahead,
  fetches that finish, waiters that wake or give up, readers that let go of a part, scopes that come and go, and boosts.
  The machine records who holds what outside the cache.
\<close>

section \<open>Clients\<close>

record cache_sys =
  cs :: article_cache
  holds :: "nat \<Rightarrow> nat" \<comment> \<open>references to a part held by readers and fetches\<close>
  waits :: "nat \<Rightarrow> nat" \<comment> \<open>load calls waiting on a flight\<close>
  leads :: "(nat \<times> cache_key) set" \<comment> \<open>fetches under way\<close>
  boosts :: "int list" \<comment> \<open>the boost each reader holds\<close>

text \<open>A waiter of a finished flight has a reference to its part, taken for it when the flight finished.\<close>

definition owed :: "(nat \<Rightarrow> flight) \<Rightarrow> nat \<Rightarrow> (nat \<Rightarrow> nat) \<Rightarrow> nat \<Rightarrow> int" where
  "owed fa n w p = (\<Sum>fl<n. if fl_part (fa fl) = Some p then int (w fl) else 0)"

text \<open>The holders of a part outside the cache, and a part that nothing refers to: what an allocation returns.\<close>

definition ext :: "cache_sys \<Rightarrow> nat \<Rightarrow> int" where
  "ext S p = int (holds S p) + owed (flight_at (cs S)) (next_flight (cs S)) (waits S) p"

definition unused :: "cache_sys \<Rightarrow> nat \<Rightarrow> bool" where
  "unused S p \<longleftrightarrow> held_by_cache (cs S) p = 0 \<and> ext S p = 0 \<and> p \<notin> set (recycled (cs S))"

inductive cache_step :: "(nat \<Rightarrow> int) \<Rightarrow> (cache_key list \<Rightarrow> cache_key list) \<Rightarrow> cache_sys \<Rightarrow> cache_sys \<Rightarrow> bool"
  for cap ord where
  hit: "begin_load s mid True now (cs S) = (Cached p, c) \<Longrightarrow>
    cache_step cap ord S (S\<lparr>cs := c, holds := (holds S)(p := Suc (holds S p))\<rparr>)"
| join: "begin_load s mid True now (cs S) = (Join fl, c) \<Longrightarrow>
    cache_step cap ord S (S\<lparr>cs := c, waits := (if fl_finished (flight_at c fl) then waits S else (waits S)(fl := Suc (waits S fl)))\<rparr>)"
| lead: "begin_load s mid hold now (cs S) = (Lead fl, c) \<Longrightarrow>
    cache_step cap ord S (S\<lparr>cs := c, leads := insert (fl, (s, mid)) (leads S)\<rparr>)"
| no_claim: "begin_load s mid False now (cs S) = (b, c) \<Longrightarrow> (\<And>fl. b \<noteq> Lead fl) \<Longrightarrow> cache_step cap ord S (S\<lparr>cs := c\<rparr>)"
| fetched: "unused S p \<Longrightarrow> cache_step cap ord S (S\<lparr>cs := trackPart p (cs S), holds := (holds S)(p := 1)\<rparr>)"
| fetched_heap: "unused S p \<Longrightarrow> cache_step cap ord S (S\<lparr>holds := (holds S)(p := 1)\<rparr>)"
| finish_ok: "(fl, (s, mid)) \<in> leads S \<Longrightarrow> 0 < holds S p \<Longrightarrow>
    cache_step cap ord S (S\<lparr>cs := finish_load cap ord s mid fl (Inr p) now (cs S), leads := leads S - {(fl, (s, mid))}\<rparr>)"
| finish_err: "(fl, (s, mid)) \<in> leads S \<Longrightarrow>
    cache_step cap ord S (S\<lparr>cs := finish_load cap ord s mid fl (Inl e) now (cs S), leads := leads S - {(fl, (s, mid))}\<rparr>)"
| wake: "fl_finished (flight_at (cs S) fl) \<Longrightarrow> 0 < waits S fl \<Longrightarrow>
    cache_step cap ord S (S\<lparr>waits := (waits S)(fl := waits S fl - 1),
      holds := (case fl_part (flight_at (cs S) fl) of None \<Rightarrow> holds S | Some p \<Rightarrow> (holds S)(p := Suc (holds S p)))\<rparr>)"
| give_up: "0 < waits S fl \<Longrightarrow> cache_step cap ord S (S\<lparr>cs := abandon fl (cs S), waits := (waits S)(fl := waits S fl - 1)\<rparr>)"
| let_go: "0 < holds S p \<Longrightarrow>
    cache_step cap ord S (S\<lparr>cs := releasePart (Some p) (cs S), holds := (holds S)(p := holds S p - 1)\<rparr>)"
| scope_open: "cache_step cap ord S (S\<lparr>cs := scope_retain s (cs S)\<rparr>)"
| scope_close: "cache_step cap ord S (S\<lparr>cs := snd (unretain s (cs S))\<rparr>)"
| scope_release: "cache_step cap ord S (S\<lparr>cs := snd (Release s (cs S))\<rparr>)"
| boost: "i < length (boosts S) \<Longrightarrow> resizeBoost (boosts S ! i) want (cs S) = (grant, c) \<Longrightarrow>
    cache_step cap ord S (S\<lparr>cs := c, boosts := (boosts S)[i := grant]\<rparr>)"
| reader: "cache_step cap ord S (S\<lparr>cs := countReadahead d (cs S)\<rparr>)"

definition sys_init :: "int \<Rightarrow> int \<Rightarrow> nat \<Rightarrow> cache_sys" where
  "sys_init m ceiling k = \<lparr>cs = (NewArticleCache m)\<lparr>boostCeiling := ceiling\<rparr>, holds = (\<lambda>_. 0), waits = (\<lambda>_. 0), leads = {},
     boosts = replicate k 0\<rparr>"

section \<open>References owed to waiters\<close>

lemma owed_nonneg: "0 \<le> owed fa n w p"
  by (simp add: owed_def sum_nonneg)

lemma owed_alloc: "fl_part f = None \<Longrightarrow> owed (fa(n := f)) (Suc n) w p = owed fa n w p"
  by (simp add: owed_def)

lemma owed_upd:
  assumes "fl < n"
  shows "owed (fa(fl := f)) n (w(fl := k)) p = owed fa n w p - (if fl_part (fa fl) = Some p then int (w fl) else 0) +
    (if fl_part f = Some p then int k else 0)"
proof -
  have "(\<Sum>i\<in>{..<n} - {fl}. if fl_part ((fa(fl := f)) i) = Some p then int ((w(fl := k)) i) else 0) =
      (\<Sum>i\<in>{..<n} - {fl}. if fl_part (fa i) = Some p then int (w i) else 0)"
    by (rule sum.cong) auto
  then show ?thesis
    using assms by (simp add: owed_def sum.remove [of "{..<n}" fl])
qed

lemma owed_flight: "fl < n \<Longrightarrow> fl_part f = fl_part (fa fl) \<Longrightarrow> owed (fa(fl := f)) n w p = owed fa n w p"
  using owed_upd [of fl n fa f w "w fl" p] by simp

lemma owed_wait:
  "fl < n \<Longrightarrow> owed fa n (w(fl := k)) p = owed fa n w p + (if fl_part (fa fl) = Some p then int k - int (w fl) else 0)"
  using owed_upd [of fl n fa "fa fl" w k p] by simp

lemma owed_finish:
  "fl < n \<Longrightarrow> fl_part (fa fl) = None \<Longrightarrow>
   owed (fa(fl := f)) n w p = owed fa n w p + (if fl_part f = Some p then int (w fl) else 0)"
  using owed_upd [of fl n fa f w "w fl" p] by simp

section \<open>The invariant\<close>

definition flights_ok :: "('k \<times> nat) list \<Rightarrow> (nat \<Rightarrow> flight) \<Rightarrow> nat \<Rightarrow> (nat \<times> 'k) set \<Rightarrow> (nat \<Rightarrow> nat) \<Rightarrow> bool" where
  "flights_ok fs fa n ld w \<longleftrightarrow>
     (\<forall>k fl. map_of fs k = Some fl \<longrightarrow> (fl, k) \<in> ld) \<and> distinct (map fst fs) \<and>
     (\<forall>fl k. (fl, k) \<in> ld \<longrightarrow> fl < n \<and> \<not> fl_finished (fa fl) \<and> (\<forall>k'. (fl, k') \<in> ld \<longrightarrow> k' = k)) \<and>
     (\<forall>fl. \<not> fl_finished (fa fl) \<longrightarrow> fl_waiters (fa fl) = int (w fl) \<and> fl_part (fa fl) = None) \<and>
     (\<forall>fl. n \<le> fl \<longrightarrow> w fl = 0 \<and> fa fl = new_flight)"

definition flights_inv :: "cache_sys \<Rightarrow> bool" where
  "flights_inv S \<longleftrightarrow> flights_ok (flights (cs S)) (flight_at (cs S)) (next_flight (cs S)) (leads S) (waits S)"

definition bytes_inv :: "cache_sys \<Rightarrow> bool" where
  "bytes_inv S \<longleftrightarrow>
     used (cs S) \<le> maxBytes (cs S) \<and> maxBytes (cs S) = baseBytes (cs S) + boosted (cs S) \<and> 0 \<le> baseBytes (cs S) \<and>
     boosted (cs S) = sum_list (boosts S) \<and> (\<forall>b \<in> set (boosts S). 0 \<le> b) \<and> boosted (cs S) \<le> boostCeiling (cs S)"

lemma flights_okD:
  assumes "flights_ok fs fa n ld w"
  shows "map_of fs k = Some fl \<Longrightarrow> (fl, k) \<in> ld" "distinct (map fst fs)" "(fl, k) \<in> ld \<Longrightarrow> fl < n"
    "(fl, k) \<in> ld \<Longrightarrow> \<not> fl_finished (fa fl)" "(fl, k) \<in> ld \<Longrightarrow> (fl, k') \<in> ld \<Longrightarrow> k' = k"
    "\<not> fl_finished (fa fl) \<Longrightarrow> fl_waiters (fa fl) = int (w fl)" "\<not> fl_finished (fa fl) \<Longrightarrow> fl_part (fa fl) = None"
    "n \<le> fl \<Longrightarrow> w fl = 0" "n \<le> fl \<Longrightarrow> fa fl = new_flight"
  using assms unfolding flights_ok_def by blast+

text \<open>The changes the actions make to the flights.\<close>

lemma flights_ok_alloc:
  assumes "flights_ok fs fa n ld w" "fl_part f = None" "fl_waiters f = 0"
  shows "flights_ok fs (fa(n := f)) (Suc n) ld w"
    and "\<not> fl_finished f \<Longrightarrow> flights_ok fs (fa(n := f)) (Suc n) (insert (n, k) ld) w"
    and "\<not> fl_finished f \<Longrightarrow> map_of fs k = None \<Longrightarrow>
      flights_ok (AList.update k n fs) (fa(n := f)) (Suc n) (insert (n, k) ld) w"
proof -
  note d = flights_okD [OF assms(1)]
  have lt: "fl \<noteq> n" if "(fl, k') \<in> ld" for fl k' using d(3) that by blast
  show "flights_ok fs (fa(n := f)) (Suc n) ld w"
    unfolding flights_ok_def using d lt assms(2,3) by (auto simp: less_SucI)
  show *: "flights_ok fs (fa(n := f)) (Suc n) (insert (n, k) ld) w" if "\<not> fl_finished f"
    unfolding flights_ok_def using d lt assms(2,3) that by (auto simp: less_SucI)
  show "flights_ok (AList.update k n fs) (fa(n := f)) (Suc n) (insert (n, k) ld) w" if "\<not> fl_finished f" "map_of fs k = None"
    using * [OF that(1)] d(2) unfolding flights_ok_def by (auto simp: update_conv' distinct_update)
qed

lemma flights_ok_wait:
  assumes "flights_ok fs fa n ld w" "fl < n" "fl_finished f = fl_finished (fa fl)" "fl_part f = fl_part (fa fl)"
    and "\<not> fl_finished (fa fl) \<Longrightarrow> fl_waiters f = int v"
  shows "flights_ok fs (fa(fl := f)) n ld (w(fl := v))"
  using flights_okD [OF assms(1)] assms(2-5) unfolding flights_ok_def by auto

lemma flights_ok_finish:
  assumes "flights_ok fs fa n ld w" "(fl, k) \<in> ld" "fl_finished f"
  shows "flights_ok (if map_of fs k = Some fl then AList.delete k fs else fs) (fa(fl := f)) n (ld - {(fl, k)}) w"
proof -
  note d = flights_okD [OF assms(1)]
  have m: "(fl', k') \<in> ld - {(fl, k)}" if "map_of (if map_of fs k = Some fl then AList.delete k fs else fs) k' = Some fl'" for fl' k'
    using that d(1) by (auto simp: delete_conv' split: if_splits)
  have "fl' \<noteq> fl" if "(fl', k') \<in> ld - {(fl, k)}" for fl' k'
    using that d(5) [OF assms(2)] by auto
  moreover have "\<not> n \<le> fl" using d(3) [OF assms(2)] by simp
  ultimately show ?thesis
    unfolding flights_ok_def using d m assms(2,3) by (auto simp: distinct_delete)
qed

lemma flights_ok_drop:
  assumes "flights_ok fs fa n ld w"
  shows "flights_ok (filter P fs) fa n ld w"
proof -
  note d = flights_okD [OF assms]
  have "map_of fs k = Some fl" if "map_of (filter P fs) k = Some fl" for k fl
    using that d(2) by (auto dest!: map_of_SomeD)
  moreover have "distinct (map fst (filter P fs))"
    using d(2) by (simp add: distinct_map_filter)
  ultimately show ?thesis using assms unfolding flights_ok_def by blast
qed

definition dead_inv :: "article_cache \<Rightarrow> bool" where
  "dead_inv c \<longleftrightarrow> distinct (map fst (dead c)) \<and> length (dead c) \<le> maxDeadArticles"

definition sys_inv :: "cache_sys \<Rightarrow> bool" where
  "sys_inv S \<longleftrightarrow> store_inv (cs S) \<and> balanced (ext S) (cs S) \<and> flights_inv S \<and> bytes_inv S \<and> dead_inv (cs S)"

lemma ext_nonneg: "0 \<le> ext S p"
  by (simp add: ext_def owed_nonneg)

text \<open>Preservation is shown conjunct by conjunct; most actions change what only one of them speaks about.\<close>

lemma refs_eq_balanced:
  assumes "balanced e c" "part_refs c' = part_refs c" "recycled c' = recycled c" "held_by_cache c' = held_by_cache c" "e' = e"
  shows "balanced e' c'"
  using assms by (simp add: balanced_def refs_ok_def)

lemma held_front:
  assumes "store_inv c" "entries c key = Some e"
  shows "store_inv (c\<lparr>lru := e # filter (\<lambda>x. ce_key x \<noteq> key) (lru c)\<rparr>)"
    and "held_by_cache (c\<lparr>lru := e # filter (\<lambda>x. ce_key x \<noteq> key) (lru c)\<rparr>) = held_by_cache c"
proof -
  have e: "e \<in> set (lru c)" "ce_key e = key" and d: "distinct (map ce_key (lru c))"
    using assms index_of_Some by (auto simp: store_inv_def)
  obtain xs ys where es: "lru c = xs @ e # ys" "filter (\<lambda>x. ce_key x \<noteq> ce_key e) (lru c) = xs @ ys"
    using split_key [OF d e(1)] .
  have "index_of (e # xs @ ys) = index_of (xs @ e # ys)"
    using d es(1) e by (auto simp: index_of_def map_add_def fun_eq_iff dest!: map_of_SomeD split: option.split)
  then show "store_inv (c\<lparr>lru := e # filter (\<lambda>x. ce_key x \<noteq> key) (lru c)\<rparr>)"
    using assms(1) es e d by (auto simp: store_inv_def)
  show "held_by_cache (c\<lparr>lru := e # filter (\<lambda>x. ce_key x \<noteq> key) (lru c)\<rparr>) = held_by_cache c"
    using es e by (auto simp: held_by_cache_def fun_eq_iff)
qed

lemma deadLocked_cases:
  assumes "deadLocked key now c = (v, c')"
  obtains d where "c' = c\<lparr>dead := d\<rparr>" "dead_inv c \<Longrightarrow> dead_inv (c\<lparr>dead := d\<rparr>)"
proof (rule that [of "dead c'"])
  show "c' = c\<lparr>dead := dead c'\<rparr>"
    using assms by (auto simp: deadLocked_def split: option.splits if_splits)
  have "length (AList.delete key (dead c)) \<le> length (dead c)" by (rule length_delete_le)
  then show "dead_inv c \<Longrightarrow> dead_inv (c\<lparr>dead := dead c'\<rparr>)"
    using assms by (auto simp: deadLocked_def dead_inv_def distinct_delete split: option.splits if_splits)
qed

text \<open>What \<open>begin\<close> returns and changes, up to the dead-article memo.\<close>

lemma begin_load_cases:
  assumes "begin_load s mid hold now c = (r, c')"
  obtains (cached) d e where "dead_inv c \<Longrightarrow> dead_inv (c\<lparr>dead := d\<rparr>)" "r = Cached (ce_part e)" "entries c (s, mid) = Some e"
      "c' = (let c1 = c\<lparr>dead := d, lru := e # filter (\<lambda>x. ce_key x \<noteq> (s, mid)) (lru c)\<rparr> in
         if hold then retainLocked (ce_part e) 1 c1 else c1)"
  | (dead) d err where "dead_inv c \<Longrightarrow> dead_inv (c\<lparr>dead := d\<rparr>)" "r = Join (next_flight c)"
      "c' = snd (alloc_flight (settledFlight err) (c\<lparr>dead := d\<rparr>))"
  | (joined) d fl where "dead_inv c \<Longrightarrow> dead_inv (c\<lparr>dead := d\<rparr>)" "r = Join fl" "map_of (flights c) (s, mid) = Some fl"
      "c' = (if hold then c\<lparr>dead := d, flight_at := (flight_at c)(fl := (flight_at c fl)\<lparr>fl_waiters := fl_waiters (flight_at c fl) + 1\<rparr>)\<rparr>
             else c\<lparr>dead := d\<rparr>)"
  | (dormant) "r = Lead (next_flight c)" "c' = snd (alloc_flight new_flight c)"
  | (leading) d where "dead_inv c \<Longrightarrow> dead_inv (c\<lparr>dead := d\<rparr>)" "r = Lead (next_flight c)" "map_of (flights c) (s, mid) = None"
      "c' = (snd (alloc_flight new_flight (c\<lparr>dead := d\<rparr>)))\<lparr>flights := AList.update (s, mid) (next_flight c) (flights c)\<rparr>"
proof (cases "dormantLocked s c")
  case True
  then show thesis using assms dormant by (simp add: begin_load_def alloc_flight_def)
next
  case False
  obtain v c1 where v: "deadLocked (s, mid) now c = (v, c1)" by force
  obtain d where d: "c1 = c\<lparr>dead := d\<rparr>" "dead_inv c \<Longrightarrow> dead_inv (c\<lparr>dead := d\<rparr>)"
    using deadLocked_cases [OF v] by metis
  show thesis
  proof (cases v)
    case (Some err)
    then show thesis using assms False v d dead [of d err] by (simp add: begin_load_def alloc_flight_def)
  next
    case None
    show thesis
    proof (cases "entries c (s, mid)")
      case (Some e)
      then show thesis using assms False v d None cached [of d e] by (simp add: begin_load_def Let_def)
    next
      case no_entry: None
      show thesis
      proof (cases "map_of (flights c) (s, mid)")
        case (Some fl)
        then show thesis
          using assms False v d(1) None no_entry joined [of d fl, OF d(2)] by (cases hold) (simp_all add: begin_load_def Let_def)
      next
        case no_flight: None
        then show thesis using assms False v d None no_entry leading [of d] by (simp add: begin_load_def alloc_flight_def)
      qed
    qed
  qed
qed

lemma store_inv_cong:
  "store_inv c \<Longrightarrow> lru c' = lru c \<Longrightarrow> entries c' = entries c \<Longrightarrow> used c' = used c \<Longrightarrow> store_inv c'"
  by (simp add: store_inv_def)

lemma dead_inv_cong: "dead_inv c \<Longrightarrow> dead c' = dead c \<Longrightarrow> dead_inv c'"
  by (simp add: dead_inv_def)

lemma balanced_retain:
  assumes "balanced e c" "0 < held_by_cache c p + e p" "0 \<le> n" "e' = e(p := e p + n)"
  shows "balanced e' (retainLocked p n c)"
proof -
  let ?b = "\<lambda>p. held_by_cache c p + e p"
  have "refs_ok (retainLocked p n c) (?b(p := ?b p + n))"
    using assms(1-3) by (intro refs_ok_retain) (simp_all add: balanced_def)
  moreover have "?b(p := ?b p + n) = (\<lambda>q. held_by_cache (retainLocked p n c) q + e' q)"
    using assms(4) by (auto simp: held_by_cache_def)
  ultimately show ?thesis using assms by (auto simp: balanced_def)
qed

lemma balanced_release:
  assumes "balanced e c" "0 < e p" "e' = e(p := e p - 1)"
  shows "balanced e' (releaseLocked p c)"
proof -
  let ?b = "\<lambda>p. held_by_cache c p + e p"
  have "refs_ok (releaseLocked p c) (?b(p := ?b p - 1))"
    using assms(1,2) by (intro refs_ok_release) (simp_all add: balanced_def held_by_cache_def)
  moreover have "?b(p := ?b p - 1) = (\<lambda>q. held_by_cache (releaseLocked p c) q + e' q)"
    using assms(3) by (auto simp: held_by_cache_def)
  ultimately show ?thesis using assms by (auto simp: balanced_def)
qed

lemma sys_invD:
  assumes "sys_inv S"
  shows "store_inv (cs S)" "balanced (ext S) (cs S)" "flights_inv S" "bytes_inv S" "dead_inv (cs S)"
  using assms by (simp_all add: sys_inv_def)

lemma inv_begin_cached:
  assumes "sys_inv S" "entries (cs S) (s, mid) = Some e" "dead_inv (cs S) \<Longrightarrow> dead_inv ((cs S)\<lparr>dead := d\<rparr>)"
  defines "c1 \<equiv> (cs S)\<lparr>dead := d, lru := e # filter (\<lambda>x. ce_key x \<noteq> (s, mid)) (lru (cs S))\<rparr>"
  shows "sys_inv (S\<lparr>cs := c1\<rparr>)"
    and "sys_inv (S\<lparr>cs := retainLocked (ce_part e) 1 c1, holds := (holds S)(ce_part e := Suc (holds S (ce_part e)))\<rparr>)"
proof -
  note inv = sys_invD [OF assms(1)]
  note f = held_front [OF inv(1) assms(2)]
  have st: "store_inv c1" using f(1) by (rule store_inv_cong) (simp_all add: c1_def)
  have h: "held_by_cache c1 = held_by_cache (cs S)" using f(2) by (auto simp: c1_def held_by_cache_def fun_eq_iff)
  have b: "balanced (ext S) c1" by (rule refs_eq_balanced [OF inv(2)]) (auto simp: h, auto simp: c1_def)
  have dd: "dead_inv c1" using assms(3) inv(5) by (auto simp: c1_def dead_inv_def)
  have e1: "ext (S\<lparr>cs := c1\<rparr>) = ext S" by (simp add: ext_def c1_def fun_eq_iff)
  show "sys_inv (S\<lparr>cs := c1\<rparr>)"
    using st b dd inv(3,4) e1 by (simp add: sys_inv_def flights_inv_def bytes_inv_def) (simp add: c1_def)
  let ?S = "S\<lparr>cs := retainLocked (ce_part e) 1 c1, holds := (holds S)(ce_part e := Suc (holds S (ce_part e)))\<rparr>"
  have "e \<in> set (lru (cs S))" using inv(1) assms(2) index_of_Some by (auto simp: store_inv_def)
  then have pos: "0 < held_by_cache c1 (ce_part e) + ext S (ce_part e)"
    unfolding h using ext_nonneg [of S "ce_part e"] by (auto simp: held_by_cache_def filter_empty_conv intro!: add_pos_nonneg)
  have "balanced (ext ?S) (retainLocked (ce_part e) 1 c1)"
    by (rule balanced_retain [OF b pos]) (simp_all add: ext_def fun_eq_iff c1_def)
  moreover have "store_inv (retainLocked (ce_part e) 1 c1)" using st by (rule store_inv_cong) simp_all
  moreover have "dead_inv (retainLocked (ce_part e) 1 c1)" using dd by (rule dead_inv_cong) simp
  ultimately show "sys_inv ?S"
    using inv(3,4) by (simp add: sys_inv_def flights_inv_def bytes_inv_def) (simp add: c1_def)
qed

text \<open>A new flight, for a leader or for a memoised failure.\<close>

lemma inv_alloc:
  assumes "sys_inv S" "dead_inv (cs S) \<Longrightarrow> dead_inv ((cs S)\<lparr>dead := d\<rparr>)" "fl_part f = None" "fl_waiters f = 0"
  defines "c1 \<equiv> snd (alloc_flight f ((cs S)\<lparr>dead := d\<rparr>))"
  shows "sys_inv (S\<lparr>cs := c1\<rparr>)"
    and "\<not> fl_finished f \<Longrightarrow> sys_inv (S\<lparr>cs := c1, leads := insert (next_flight (cs S), k) (leads S)\<rparr>)"
    and "\<not> fl_finished f \<Longrightarrow> map_of (flights (cs S)) k = None \<Longrightarrow>
      sys_inv (S\<lparr>cs := c1\<lparr>flights := AList.update k (next_flight (cs S)) (flights (cs S))\<rparr>,
                 leads := insert (next_flight (cs S), k) (leads S)\<rparr>)"
proof -
  note inv = sys_invD [OF assms(1)]
  let ?n = "next_flight (cs S)"
  have c1: "c1 = (cs S)\<lparr>dead := d, flight_at := (flight_at (cs S))(?n := f), next_flight := Suc ?n\<rparr>"
    by (simp add: c1_def alloc_flight_def)
  have st: "store_inv (c1\<lparr>flights := x\<rparr>)" "store_inv c1" for x
    using inv(1) by (auto intro: store_inv_cong simp: c1)
  have dd: "dead_inv c1" "dead_inv (c1\<lparr>flights := x\<rparr>)" for x using assms(2) inv(5) by (auto simp: c1 dead_inv_def)
  have e1: "ext (S\<lparr>cs := c1\<lparr>flights := x\<rparr>, leads := l\<rparr>) = ext S" "ext (S\<lparr>cs := c1, leads := l\<rparr>) = ext S" for x l
    using owed_alloc [OF assms(3)] by (simp_all add: ext_def c1 fun_eq_iff)
  have b: "balanced (ext S) c1" "balanced (ext S) (c1\<lparr>flights := x\<rparr>)" for x
    by (rule refs_eq_balanced [OF inv(2)]; simp add: c1 held_by_cache_def fun_eq_iff)+
  have byt: "bytes_inv (S\<lparr>cs := c1\<lparr>flights := x\<rparr>, leads := l\<rparr>)" "bytes_inv (S\<lparr>cs := c1, leads := l\<rparr>)" for x l
    using inv(4) by (simp_all add: bytes_inv_def c1)
  note fo = flights_ok_alloc [OF inv(3) [unfolded flights_inv_def] assms(3,4)]
  show "sys_inv (S\<lparr>cs := c1\<rparr>)"
    using st dd b byt(2) [of "leads S"] e1(2) [of "leads S"] fo(1) by (simp add: sys_inv_def flights_inv_def) (simp add: c1)
  show "sys_inv (S\<lparr>cs := c1, leads := insert (next_flight (cs S), k) (leads S)\<rparr>)" if "\<not> fl_finished f"
    using st dd b byt(2) e1(2) fo(2) [OF that] by (simp add: sys_inv_def flights_inv_def) (simp add: c1)
  show "sys_inv (S\<lparr>cs := c1\<lparr>flights := AList.update k (next_flight (cs S)) (flights (cs S))\<rparr>,
      leads := insert (next_flight (cs S), k) (leads S)\<rparr>)" if "\<not> fl_finished f" "map_of (flights (cs S)) k = None"
    using st dd b byt(1) e1(1) fo(3) [OF that] by (simp add: sys_inv_def flights_inv_def) (simp add: c1)
qed

section \<open>The dead-article memo\<close>

lemma evict_some_room:
  assumes "distinct (map fst d)" "fst ` set d \<subseteq> set ks"
  shows "distinct (map fst (evict_some ks d)) \<and> length (evict_some ks d) < maxDeadArticles"
  using assms
proof (induction ks arbitrary: d)
  case (Cons k ks)
  have "fst ` set (AList.delete k d) \<subseteq> set ks"
    using Cons.prems(2) by (auto simp: AList.delete_eq)
  then show ?case
    using Cons.IH [of "AList.delete k d"] Cons.prems(1) by (auto simp: distinct_delete)
qed (simp add: maxDeadArticles_def)

lemma dead_inv_mark:
  assumes "dead_inv c" "\<And>ks. set (ord ks) = set ks"
  shows "dead_inv (markDeadLocked ord key err now c)"
proof (cases err)
  case (Unavailable stalled)
  let ?c = "if maxDeadArticles \<le> length (dead c) then evictDeadLocked ord now c else c"
  let ?d = "filter (\<lambda>(k, m). \<not> expired now m) (dead c)"
  have "distinct (map fst ?d)" using assms(1) by (simp add: dead_inv_def distinct_map_filter)
  then have "distinct (map fst (dead ?c)) \<and> length (dead ?c) < maxDeadArticles"
    using assms(1) evict_some_room [of ?d "ord (map fst ?d)"] assms(2)
    by (auto simp: dead_inv_def evictDeadLocked_def Let_def)
  moreover have "length (AList.update key m xs) \<le> Suc (length xs)" for m and xs :: "(cache_key \<times> dead_mark) list"
    by (induction xs) auto
  then have "length xs < maxDeadArticles \<Longrightarrow> length (AList.update key m xs) \<le> maxDeadArticles" for m and xs :: "(cache_key \<times> dead_mark) list"
    by (meson Suc_leI order_trans)
  ultimately show ?thesis
    using Unavailable by (auto simp: markDeadLocked_def dead_inv_def Let_def distinct_update)
qed (use assms(1) in \<open>simp_all add: markDeadLocked_def\<close>)

lemma markDeadLocked_only: "\<exists>d. markDeadLocked ord key err now c = c\<lparr>dead := d\<rparr>"
proof (cases err)
  case (Unavailable stalled)
  have "\<exists>d. c = c\<lparr>dead := d\<rparr>" by (rule exI [of _ "dead c"]) simp
  then show ?thesis
    using Unavailable by (auto simp: markDeadLocked_def evictDeadLocked_def Let_def)
qed (auto simp: markDeadLocked_def intro!: exI [of _ "dead c"])

lemma markDeadLocked_sel [simp]:
  "flights (markDeadLocked ord key err now c) = flights c" "flight_at (markDeadLocked ord key err now c) = flight_at c"
  "next_flight (markDeadLocked ord key err now c) = next_flight c" "maxBytes (markDeadLocked ord key err now c) = maxBytes c"
  "baseBytes (markDeadLocked ord key err now c) = baseBytes c" "boosted (markDeadLocked ord key err now c) = boosted c"
  "boostCeiling (markDeadLocked ord key err now c) = boostCeiling c"
  by (simp_all add: markDeadLocked_def evictDeadLocked_def Let_def split: fetch_err.split)

section \<open>The actions\<close>

lemma inv_cache_only:
  assumes "sys_inv S" "c = (cs S)\<lparr>dead := d, readers := r, scopes := sc\<rparr>" "dead_inv ((cs S)\<lparr>dead := d\<rparr>)"
  shows "sys_inv (S\<lparr>cs := c\<rparr>)"
proof -
  note inv = sys_invD [OF assms(1)]
  have "ext (S\<lparr>cs := c\<rparr>) = ext S" by (simp add: ext_def assms(2) fun_eq_iff)
  moreover have "store_inv c" using inv(1) by (rule store_inv_cong) (simp_all add: assms(2))
  moreover have "balanced (ext S) c" by (rule refs_eq_balanced [OF inv(2)]) (auto simp: assms(2) held_by_cache_def)
  moreover have "dead_inv c" using assms(3) by (simp add: assms(2) dead_inv_def)
  ultimately show ?thesis
    using inv(3,4) by (simp add: sys_inv_def flights_inv_def bytes_inv_def assms(2))
qed

lemma inv_wait:
  assumes "sys_inv S" "fl < next_flight (cs S)" "\<not> fl_finished (flight_at (cs S) fl)" "dead_inv ((cs S)\<lparr>dead := d\<rparr>)"
    and f_def: "f = (flight_at (cs S) fl)\<lparr>fl_waiters := int v\<rparr>"
  shows "sys_inv (S\<lparr>cs := (cs S)\<lparr>dead := d, flight_at := (flight_at (cs S))(fl := f)\<rparr>, waits := (waits S)(fl := v)\<rparr>)" (is "sys_inv ?S")
proof -
  note inv = sys_invD [OF assms(1)]
  note fo = inv(3) [unfolded flights_inv_def]
  have "fl_part (flight_at (cs S) fl) = None" using flights_okD(7) [OF fo assms(3)] .
  then have e: "ext ?S = ext S"
    using owed_upd [OF assms(2), of "flight_at (cs S)" f "waits S" v] by (simp add: ext_def f_def fun_eq_iff)
  have "store_inv (cs ?S)" using inv(1) by (rule store_inv_cong) simp_all
  moreover have "balanced (ext ?S) (cs ?S)" unfolding e by (rule refs_eq_balanced [OF inv(2)]) (auto simp: held_by_cache_def)
  moreover have "flights_inv ?S"
    unfolding flights_inv_def using flights_ok_wait [OF fo assms(2), of f v] by (simp add: f_def)
  ultimately show ?thesis
    using inv(4) assms(4) by (simp add: sys_inv_def bytes_inv_def dead_inv_def)
qed

lemma inv_finish:
  assumes "sys_inv S" "(fl, (s, mid)) \<in> leads S" "\<And>ks. set (ord ks) = set ks" "\<And>p. 0 \<le> cap p"
    and "\<And>p. r = Inr p \<Longrightarrow> 0 < holds S p"
  shows "sys_inv (S\<lparr>cs := finish_load cap ord s mid fl r now (cs S), leads := leads S - {(fl, (s, mid))}\<rparr>)" (is "sys_inv ?S")
proof -
  note inv = sys_invD [OF assms(1)]
  note fo = inv(3) [unfolded flights_inv_def]
  let ?c = "cs S" and ?k = "(s, mid)"
  have fl: "fl < next_flight ?c" "\<not> fl_finished (flight_at ?c fl)" "fl_part (flight_at ?c fl) = None"
      "fl_waiters (flight_at ?c fl) = int (waits S fl)"
    using flights_okD [OF fo] assms(2) by blast+
  define fs where "fs = (if map_of (flights ?c) ?k = Some fl then AList.delete ?k (flights ?c) else flights ?c)"
  define c0 where "c0 = ?c\<lparr>flights := fs\<rparr>"
  have c0: "store_inv c0" "balanced (ext S) c0" "dead_inv c0"
    using store_inv_cong [OF inv(1), of c0] refs_eq_balanced [OF inv(2), of c0 "ext S"] dead_inv_cong [OF inv(5), of c0]
    by (simp_all add: c0_def held_by_cache_def fun_eq_iff)
  define c1 where "c1 = (if dormantLocked s c0 then c0
      else case r of Inr part \<Rightarrow> storeLocked cap ?k part c0 | Inl err \<Rightarrow> markDeadLocked ord ?k err now c0)"
  have pos: "0 < ext S p" if "r = Inr p" for p
    using assms(5) [OF that] owed_nonneg by (simp add: ext_def add_pos_nonneg)
  have keep: "flights c1 = fs" "flight_at c1 = flight_at ?c" "next_flight c1 = next_flight ?c" "maxBytes c1 = maxBytes ?c"
      "baseBytes c1 = baseBytes ?c" "boosted c1 = boosted ?c" "boostCeiling c1 = boostCeiling ?c"
    by (simp_all add: c1_def c0_def split: sum.split)
  have c1: "store_inv c1 \<and> balanced (ext S) c1 \<and> dead_inv c1 \<and> used c1 \<le> maxBytes ?c"
  proof (cases r)
    case (Inl err)
    obtain d where d: "markDeadLocked ord ?k err now c0 = c0\<lparr>dead := d\<rparr>" using markDeadLocked_only by blast
    have "store_inv (c0\<lparr>dead := d\<rparr>)" using c0(1) by (rule store_inv_cong) simp_all
    moreover have "balanced (ext S) (c0\<lparr>dead := d\<rparr>)" by (rule refs_eq_balanced [OF c0(2)]) (auto simp: held_by_cache_def)
    moreover have "dead_inv (c0\<lparr>dead := d\<rparr>)" using dead_inv_mark [OF c0(3) assms(3)] d by metis
    ultimately show ?thesis using Inl d c0 inv(4) by (simp add: c1_def bytes_inv_def) (simp add: c0_def)
  next
    case (Inr p)
    have "used c0 \<le> maxBytes c0" "0 \<le> maxBytes c0" "maxBytes c0 = maxBytes ?c"
      using inv(4) by (auto simp: bytes_inv_def c0_def sum_list_nonneg)
    then show ?thesis
      using Inr c0 storeLocked_keeps [OF c0(1,2) pos [OF Inr] assms(4)]
        storeLocked_bound [OF c0(1,2) pos [OF Inr] assms(4)] dead_inv_cong [OF c0(3)]
      by (auto simp: c1_def)
  qed
  define f where "f = (flight_at ?c fl)\<lparr>fl_part := (case r of Inr part \<Rightarrow> Some part | Inl _ \<Rightarrow> None),
      fl_err := (case r of Inl err \<Rightarrow> Some err | Inr _ \<Rightarrow> None), fl_finished := True,
      fl_retry := (case r of Inl err \<Rightarrow> leaderSpecific err | Inr _ \<Rightarrow> False)\<rparr>"
  define c2 where "c2 = (case r of Inr part \<Rightarrow> retainLocked part (int (waits S fl)) c1 | Inl _ \<Rightarrow> c1)"
  have c2: "finish_load cap ord s mid fl r now ?c = c2\<lparr>flight_at := (flight_at ?c)(fl := f)\<rparr>"
    using keep(2) fl(4) by (simp add: finish_load_def Let_def f_def c2_def c1_def c0_def fs_def split: sum.split)
  have e: "ext ?S = (case r of Inr p \<Rightarrow> (ext S)(p := ext S p + int (waits S fl)) | Inl _ \<Rightarrow> ext S)"
    using owed_finish [of fl "next_flight ?c" "flight_at ?c" f, OF fl(1,3)] keep(3)
    by (auto simp: ext_def c2 fun_eq_iff f_def c2_def split: sum.split)
  have "balanced (ext ?S) c2"
  proof (cases r)
    case (Inr p)
    have "0 < held_by_cache c1 p + ext S p" using pos [OF Inr] by (simp add: held_by_cache_def add_nonneg_pos)
    then show ?thesis
      using Inr balanced_retain [of "ext S" c1 p "int (waits S fl)"] c1 e by (simp add: c2_def)
  qed (use c1 e in \<open>simp add: c2_def\<close>)
  then have "balanced (ext ?S) (cs ?S)"
    by (rule refs_eq_balanced) (auto simp: c2 held_by_cache_def)
  moreover have "store_inv c2" "dead_inv c2"
    using c1 by (auto simp: c2_def store_inv_def dead_inv_def split: sum.split)
  then have "store_inv (cs ?S)" "dead_inv (cs ?S)"
    by (auto simp: c2 store_inv_def dead_inv_def)
  moreover have "flights c2 = fs" "next_flight c2 = next_flight ?c"
    using keep by (simp_all add: c2_def split: sum.split)
  then have "flights_inv ?S"
    using flights_ok_finish [OF fo assms(2), of f, folded fs_def] by (simp add: flights_inv_def c2) (simp add: f_def)
  moreover have "bytes_inv ?S"
    using c1 inv(4) keep by (auto simp: bytes_inv_def c2 c2_def split: sum.split)
  ultimately show ?thesis by (simp add: sys_inv_def)
qed

lemma inv_let_go:
  assumes "sys_inv S" "0 < holds S p"
  shows "sys_inv (S\<lparr>cs := releaseLocked p (cs S), holds := (holds S)(p := holds S p - 1)\<rparr>)" (is "sys_inv ?S")
proof -
  note inv = sys_invD [OF assms(1)]
  have "balanced (ext ?S) (releaseLocked p (cs S))"
    using assms(2) owed_nonneg
    by (intro balanced_release [OF inv(2)]) (auto simp: ext_def fun_eq_iff add_pos_nonneg of_nat_diff)
  then show ?thesis
    using inv by (simp add: sys_inv_def flights_inv_def bytes_inv_def store_inv_def dead_inv_def)
qed

lemma inv_give_up:
  assumes "sys_inv S" "0 < waits S fl"
  shows "sys_inv (S\<lparr>cs := abandon fl (cs S), waits := (waits S)(fl := waits S fl - 1)\<rparr>)" (is "sys_inv ?S")
proof -
  note inv = sys_invD [OF assms(1)]
  note fo = inv(3) [unfolded flights_inv_def]
  let ?f = "flight_at (cs S) fl"
  have fl: "fl < next_flight (cs S)"
    using flights_okD(8) [OF fo, of fl] assms(2) by (metis leI less_irrefl)
  show ?thesis
  proof (cases "fl_finished ?f")
    case False
    have "fl_waiters ?f - 1 = int (waits S fl - 1)"
      using flights_okD(6) [OF fo False] assms(2) by simp
    then show ?thesis
      using inv_wait [OF assms(1) fl False, of "dead (cs S)" _ "waits S fl - 1"] inv(5) False by (simp add: abandon_def)
  next
    case True
    have e: "ext ?S = (case fl_part ?f of None \<Rightarrow> ext S | Some p \<Rightarrow> (ext S)(p := ext S p - 1))"
      using owed_wait [OF fl, of "flight_at (cs S)" "waits S" "waits S fl - 1"] assms(2) True
      by (auto simp: ext_def fun_eq_iff abandon_def releasePart_def split: option.split)
    have "0 < ext S p" if "fl_part ?f = Some p" for p
    proof -
      have "int (waits S fl) \<le> owed (flight_at (cs S)) (next_flight (cs S)) (waits S) p"
        using owed_wait [OF fl, of "flight_at (cs S)" "waits S" 0 p]
          owed_nonneg [of "flight_at (cs S)" "next_flight (cs S)" "(waits S)(fl := 0)" p] that by simp
      then show ?thesis using assms(2) by (simp add: ext_def)
    qed
    then have "balanced (ext ?S) (abandon fl (cs S))"
      using inv(2) e True balanced_release [OF inv(2)]
      by (auto simp: abandon_def releasePart_def split: option.split)
    moreover have "flights_ok (flights (cs S)) (flight_at (cs S)) (next_flight (cs S)) (leads S) ((waits S)(fl := waits S fl - 1))"
      using flights_ok_wait [OF fo fl, of ?f "waits S fl - 1"] True by simp
    ultimately show ?thesis
      using inv True
      by (auto simp: sys_inv_def flights_inv_def bytes_inv_def store_inv_def dead_inv_def abandon_def releasePart_def split: option.split)
  qed
qed

lemma inv_wake:
  assumes "sys_inv S" "fl_finished (flight_at (cs S) fl)" "0 < waits S fl"
  shows "sys_inv (S\<lparr>waits := (waits S)(fl := waits S fl - 1),
      holds := (case fl_part (flight_at (cs S) fl) of None \<Rightarrow> holds S | Some p \<Rightarrow> (holds S)(p := Suc (holds S p)))\<rparr>)" (is "sys_inv ?S")
proof -
  note inv = sys_invD [OF assms(1)]
  note fo = inv(3) [unfolded flights_inv_def]
  have fl: "fl < next_flight (cs S)"
    using flights_okD(8) [OF fo, of fl] assms(3) by (metis leI less_irrefl)
  have "ext ?S = ext S"
    using owed_wait [OF fl, of "flight_at (cs S)" "waits S" "waits S fl - 1"] assms(3)
    by (auto simp: ext_def fun_eq_iff split: option.split)
  moreover have "flights_ok (flights (cs S)) (flight_at (cs S)) (next_flight (cs S)) (leads S) ((waits S)(fl := waits S fl - 1))"
    using flights_ok_wait [OF fo fl, of "flight_at (cs S) fl" "waits S fl - 1"] assms(2) by simp
  ultimately show ?thesis
    using inv by (simp add: sys_inv_def flights_inv_def bytes_inv_def)
qed

lemma inv_purge:
  assumes "sys_inv S" "c = (cs S)\<lparr>scopes := sc\<rparr>"
  shows "sys_inv (S\<lparr>cs := snd (purgeLocked s c)\<rparr>)" (is "sys_inv ?S")
proof -
  note inv = sys_invD [OF assms(1)]
  let ?p = "purge_entries s (lru c) c"
  have c: "store_inv c" "balanced (ext S) c"
    using store_inv_cong [OF inv(1), of c] refs_eq_balanced [OF inv(2), of c "ext S"]
    by (simp_all add: assms(2) held_by_cache_def fun_eq_iff)
  have p: "store_inv ?p" "balanced (ext S) ?p" "used ?p \<le> used c"
    using purge_entries_keeps [OF c, of "lru c" s] c(1) by (simp_all add: store_inv_def)
  have cs: "cs ?S = ?p\<lparr>flights := filter (\<lambda>(k, f). fst k \<noteq> s) (flights (cs S)), dead := filter (\<lambda>(k, m). fst k \<noteq> s) (dead (cs S))\<rparr>"
    by (simp add: purgeLocked_def Let_def purgeDeadLocked_def assms(2))
  have "ext ?S = ext S" unfolding ext_def cs by (simp add: assms(2))
  moreover have "balanced (ext S) (cs ?S)" unfolding cs by (rule refs_eq_balanced [OF p(2)]) (auto simp: held_by_cache_def)
  moreover have "store_inv (cs ?S)" unfolding cs by (rule store_inv_cong [OF p(1)]) simp_all
  moreover have "dead_inv (cs ?S)"
    using inv(5) unfolding cs dead_inv_def by (auto simp: distinct_map_filter intro: order_trans [OF length_filter_le])
  moreover have "flights_inv ?S"
    unfolding flights_inv_def cs using flights_ok_drop [OF inv(3) [unfolded flights_inv_def]] by (simp add: assms(2))
  moreover have "bytes_inv ?S"
    using inv(4) p(3) unfolding bytes_inv_def cs by (auto simp: assms(2))
  ultimately show ?thesis by (simp add: sys_inv_def)
qed

lemma inv_scope:
  assumes "sys_inv S"
  shows "sys_inv (S\<lparr>cs := (cs S)\<lparr>scopes := sc\<rparr>\<rparr>)"
  using inv_cache_only [where d = "dead (cs S)" and r = "readers (cs S)" and sc = sc, OF assms] sys_invD(5) [OF assms] by simp

lemma inv_boost:
  assumes "sys_inv S" "i < length (boosts S)" "resizeBoost (boosts S ! i) want (cs S) = (grant, c)"
  shows "sys_inv (S\<lparr>cs := c, boosts := (boosts S)[i := grant]\<rparr>)" (is "sys_inv ?S")
proof -
  note inv = sys_invD [OF assms(1)]
  let ?held = "boosts S ! i"
  define c0 where "c0 = (cs S)\<lparr>boosted := boosted (cs S) + (grant - ?held), maxBytes := baseBytes (cs S) + (boosted (cs S) + (grant - ?held))\<rparr>"
  have g: "grant = max 0 (min want (boostCeiling (cs S) - (boosted (cs S) - ?held)))" "c = evict_loop c0"
    using assms(3) by (auto simp: resizeBoost_def Let_def c0_def)
  have held: "0 \<le> ?held" "?held \<le> boosted (cs S)"
    using inv(4) assms(2) member_le_sum_list [of ?held "boosts S"] by (auto simp: bytes_inv_def)
  have c0: "store_inv c0" "balanced (ext S) c0"
    using store_inv_cong [OF inv(1), of c0] refs_eq_balanced [OF inv(2), of c0 "ext S"]
    by (simp_all add: c0_def held_by_cache_def fun_eq_iff)
  have "ext ?S = ext S" unfolding ext_def g(2) by (simp add: c0_def)
  moreover have "store_inv c" "balanced (ext S) c" using evict_loop_keeps [OF c0] g(2) by auto
  moreover have "0 \<le> maxBytes c0" using inv(4) held g(1) by (simp add: c0_def bytes_inv_def)
  then have "used c \<le> maxBytes c0" using evict_loop_bound [OF c0(1)] g(2) by simp
  moreover have "boosted (cs S) \<le> boostCeiling (cs S)" using inv(4) by (simp add: bytes_inv_def)
  then have gr: "0 \<le> grant" "boosted (cs S) + (grant - ?held) \<le> boostCeiling (cs S)"
    using g(1) held by auto
  have bs: "sum_list ((boosts S)[i := grant]) = boosted (cs S) + (grant - ?held)"
    using sum_list_upd [OF assms(2), of "\<lambda>x. x" grant] inv(4) by (simp add: bytes_inv_def)
  have nn: "\<forall>b \<in> set ((boosts S)[i := grant]). 0 \<le> b"
    using inv(4) gr(1) by (auto simp: bytes_inv_def dest!: set_update_subset_insert [THEN subsetD])
  have "bytes_inv ?S"
    using inv(4) \<open>used c \<le> maxBytes c0\<close> gr bs nn unfolding bytes_inv_def g(2) by (simp add: c0_def)
  ultimately show ?thesis
    using inv(3,5) g(2) by (simp add: sys_inv_def flights_inv_def dead_inv_def) (simp add: c0_def)
qed

lemma inv_fetched:
  assumes "sys_inv S" "unused S p"
  shows "sys_inv (S\<lparr>cs := trackPart p (cs S), holds := (holds S)(p := 1)\<rparr>)" (is "sys_inv ?S1")
    and "sys_inv (S\<lparr>holds := (holds S)(p := 1)\<rparr>)" (is "sys_inv ?S2")
proof -
  note inv = sys_invD [OF assms(1)]
  let ?b = "\<lambda>q. held_by_cache (cs S) q + ext S q"
  have u: "held_by_cache (cs S) p = 0" "ext S p = 0" "p \<notin> set (recycled (cs S))" "holds S p = 0"
    using assms(2) owed_nonneg by (auto simp: unused_def ext_def add_nonneg_eq_0_iff)
  have e: "ext ?S1 = (ext S)(p := 1)" "ext ?S2 = (ext S)(p := 1)"
    using u(2,4) by (auto simp: ext_def fun_eq_iff trackPart_def)
  have b: "?b(p := 1) = (\<lambda>q. held_by_cache (cs ?S1) q + ext ?S1 q)" "?b(p := 1) = (\<lambda>q. held_by_cache (cs ?S2) q + ext ?S2 q)"
    unfolding e using u(1) by (auto simp: held_by_cache_def trackPart_def)
  have ok: "refs_ok (cs S) ?b" using inv(2) by (simp add: balanced_def)
  have "refs_ok (trackPart p (cs S)) (?b(p := 1))" using ok u by (intro refs_ok_track) auto
  then have b1: "balanced (ext ?S1) (cs ?S1)"
    unfolding balanced_def using b(1) ext_nonneg by simp
  have none: "part_refs (cs S) p = None" using refs_okD(1) [OF ok, of p] u by (cases "part_refs (cs S) p") auto
  have "refs_ok (cs S) (?b(p := 1))"
  proof (rule refs_okI)
    show "0 < n \<and> (?b(p := 1)) q = n" if "part_refs (cs S) q = Some n" for q n
      using refs_okD(1) [OF ok that] none that by auto
    show "part_refs (cs S) q = None \<and> (?b(p := 1)) q = 0" if "q \<in> set (recycled (cs S))" for q
      using refs_okD(2) [OF ok that] u(3) that by auto
  qed (rule refs_okD(3) [OF ok])
  then have b2: "balanced (ext ?S2) (cs ?S2)"
    unfolding balanced_def using b(2) ext_nonneg by simp
  show "sys_inv ?S1" "sys_inv ?S2"
    using inv b1 b2
    by (simp_all add: sys_inv_def flights_inv_def bytes_inv_def store_inv_def dead_inv_def) (simp_all add: trackPart_def)
qed

theorem sys_inv_step:
  assumes "cache_step cap ord S S'" "sys_inv S" "\<And>ks. set (ord ks) = set ks" "\<And>p. 0 \<le> cap p"
  shows "sys_inv S'"
  using assms(1)
proof cases
  case (hit s mid now p c)
  show ?thesis
    using hit(2)
    by (cases rule: begin_load_cases) (use hit(1) inv_begin_cached(2) [OF assms(2)] in \<open>auto simp: Let_def\<close>)
next
  case (join s mid now fl c)
  note fo = sys_invD(3) [OF assms(2), unfolded flights_inv_def]
  show ?thesis
    using join(2)
  proof (cases rule: begin_load_cases)
    case (dead d err)
    then show ?thesis
      using join(1) inv_alloc(1) [OF assms(2), of d "settledFlight err"]
      by (simp add: alloc_flight_def settledFlight_def new_flight_def)
  next
    case (joined d fl')
    have "(fl, (s, mid)) \<in> leads S" using flights_okD(1) [OF fo] joined by simp
    then have fl: "fl < next_flight (cs S)" "\<not> fl_finished (flight_at (cs S) fl)"
        "fl_waiters (flight_at (cs S) fl) = int (waits S fl)"
      using flights_okD [OF fo] by blast+
    then show ?thesis
      using join(1) joined inv_wait [OF assms(2) fl(1,2), of d _ "Suc (waits S fl)"] sys_invD(5) [OF assms(2)]
      by (simp add: add.commute)
  qed simp_all
next
  case (lead s mid hold now fl c)
  show ?thesis
    using lead(2)
  proof (cases rule: begin_load_cases)
    case dormant
    then show ?thesis
      using lead(1) inv_alloc(2) [OF assms(2), of "dead (cs S)" new_flight "(s, mid)"] by (simp add: new_flight_def)
  next
    case (leading d)
    then show ?thesis
      using lead(1) inv_alloc(3) [OF assms(2), of d new_flight "(s, mid)"] by (simp add: new_flight_def)
  qed simp_all
next
  case (no_claim s mid now b c)
  show ?thesis
    using no_claim(2)
  proof (cases rule: begin_load_cases)
    case (cached d e)
    then show ?thesis using no_claim(1) inv_begin_cached(1) [OF assms(2)] by simp
  next
    case (dead d err)
    then show ?thesis
      using no_claim(1) inv_alloc(1) [OF assms(2), of d "settledFlight err"] by (simp add: settledFlight_def new_flight_def)
  next
    case (joined d fl)
    then show ?thesis
      using no_claim(1) sys_invD(5) [OF assms(2)]
        inv_cache_only [where d = d and r = "readers (cs S)" and sc = "scopes (cs S)", OF assms(2)] by simp
  qed (use no_claim(3) in simp_all)
next
  case (fetched p)
  then show ?thesis using inv_fetched(1) [OF assms(2)] by simp
next
  case (fetched_heap p)
  then show ?thesis using inv_fetched(2) [OF assms(2)] by simp
next
  case (finish_ok fl s mid p now)
  then show ?thesis using inv_finish [where r = "Inr p" and now = now, OF assms(2) finish_ok(2) assms(3,4)] by simp
next
  case (finish_err fl s mid e now)
  then show ?thesis using inv_finish [where r = "Inl e" and now = now, OF assms(2) finish_err(2) assms(3,4)] by simp
next
  case (wake fl)
  then show ?thesis using inv_wake [OF assms(2)] by simp
next
  case (give_up fl)
  then show ?thesis using inv_give_up [OF assms(2)] by simp
next
  case (let_go p)
  then show ?thesis using inv_let_go [OF assms(2)] by (simp add: releasePart_def)
next
  case (scope_open s)
  then show ?thesis using inv_scope [OF assms(2)] by (simp add: scope_retain_def set_scope_def)
next
  case (scope_close s)
  then show ?thesis
    using inv_scope [OF assms(2)] inv_purge [OF assms(2) refl] by (auto simp: unretain_def set_scope_def Let_def)
next
  case (scope_release s)
  then show ?thesis
    using inv_scope [OF assms(2)] inv_purge [OF assms(2) refl] by (auto simp: Release_def set_scope_def Let_def)
next
  case (boost i want grant c)
  then show ?thesis using inv_boost [OF assms(2)] by simp
next
  case (reader d)
  then show ?thesis
    using sys_invD(5) [OF assms(2)] inv_cache_only [where d = "dead (cs S)" and sc = "scopes (cs S)", OF assms(2)]
    by (simp add: countReadahead_def)
qed

lemma sys_inv_init:
  assumes "0 \<le> m" "0 \<le> ceiling"
  shows "sys_inv (sys_init m ceiling k)"
  using assms
  by (simp add: sys_inv_def sys_init_def NewArticleCache_def store_inv_def index_of_def balanced_def refs_ok_def
      held_by_cache_def ext_def owed_def flights_inv_def flights_ok_def bytes_inv_def dead_inv_def new_flight_def sum_list_replicate)

lemma sys_inv_reach:
  assumes "(cache_step cap ord)\<^sup>*\<^sup>* (sys_init m ceiling k) S" "0 \<le> m" "0 \<le> ceiling"
    and "\<And>ks. set (ord ks) = set ks" "\<And>p. 0 \<le> cap p"
  shows "sys_inv S"
  using assms(1)
proof induction
  case base
  then show ?case using sys_inv_init assms(2,3) by blast
next
  case (step S S')
  then show ?case using sys_inv_step assms(4,5) by blast
qed

section \<open>Properties\<close>

text \<open>
  C32. No use after free, and no leak: whatever readers, fetches, waiters and scopes do, a part whose buffer was handed to
  the pool is in no cache entry, is held by no reader and is owed to no waiter, and is handed over once only; and a part
  that is still counted has exactly as many references as it has holders, at least one.
\<close>

theorem buffers_recycled_exactly_when_unused:
  assumes "(cache_step cap ord)\<^sup>*\<^sup>* (sys_init m ceiling k) S" "0 \<le> m" "0 \<le> ceiling"
    and "\<And>ks. set (ord ks) = set ks" "\<And>p. 0 \<le> cap p"
  shows "distinct (recycled (cs S)) \<and>
    list_all (\<lambda>p. holds S p = 0 \<and> p \<notin> ce_part ` set (lru (cs S)) \<and>
      owed (flight_at (cs S)) (next_flight (cs S)) (waits S) p = 0) (recycled (cs S)) \<and>
    (case part_refs (cs S) q of None \<Rightarrow> True
     | Some n \<Rightarrow> 0 < n \<and> n = int (length (filter (\<lambda>e. ce_part e = q) (lru (cs S)))) + int (holds S q) +
         owed (flight_at (cs S)) (next_flight (cs S)) (waits S) q)"
proof -
  have b: "refs_ok (cs S) (\<lambda>p. held_by_cache (cs S) p + ext S p)"
    using sys_invD(2) [OF sys_inv_reach [OF assms]] by (simp add: balanced_def)
  have "holds S p = 0 \<and> p \<notin> ce_part ` set (lru (cs S)) \<and> owed (flight_at (cs S)) (next_flight (cs S)) (waits S) p = 0"
    if "p \<in> set (recycled (cs S))" for p
  proof -
    have "held_by_cache (cs S) p = 0" "ext S p = 0"
      using refs_okD(2) [OF b that] ext_nonneg [of S p] by (auto simp: held_by_cache_def add_nonneg_eq_0_iff)
    then show ?thesis
      using owed_nonneg by (auto simp: held_by_cache_def ext_def filter_empty_conv add_nonneg_eq_0_iff)
  qed
  moreover have "case part_refs (cs S) q of None \<Rightarrow> True
     | Some n \<Rightarrow> 0 < n \<and> n = int (length (filter (\<lambda>e. ce_part e = q) (lru (cs S)))) + int (holds S q) +
         owed (flight_at (cs S)) (next_flight (cs S)) (waits S) q"
    using refs_okD(1) [OF b, of q] by (auto simp: held_by_cache_def ext_def split: option.split)
  ultimately show ?thesis
    using refs_okD(3) [OF b] by (auto simp: list_all_iff)
qed

theorem buffers_recycled_exactly_when_unused_witness:
  "\<exists>S :: cache_sys. recycled (cs S) = [0] \<and> list_all (\<lambda>p. holds S p = 0 \<and> p \<notin> ce_part ` set (lru (cs S))) (recycled (cs S))"
proof -
  define i where "i = sys_init 100 0 1"
  define s1 where "s1 = i\<lparr>cs := trackPart 0 (cs i), holds := (holds i)(0 := 1)\<rparr>"
  define s2 where "s2 = s1\<lparr>cs := releasePart (Some 0) (cs s1), holds := (holds s1)(0 := holds s1 0 - 1)\<rparr>"
  let ?st = "cache_step (\<lambda>_. 10) id"
  have "unused i 0" by (simp add: i_def unused_def sys_init_def NewArticleCache_def held_by_cache_def ext_def owed_def)
  then have st1: "?st i s1" unfolding s1_def by (rule fetched)
  have "0 < holds s1 0" by (simp add: s1_def)
  then have st2: "?st s1 s2" unfolding s2_def by (rule let_go)
  have r: "?st\<^sup>*\<^sup>* i s2"
    using st1 r_into_rtranclp [where r = ?st, OF st2] by (rule converse_rtranclp_into_rtranclp)
  have "recycled (cs s2) = [0]"
    by (simp add: s2_def s1_def i_def releasePart_def releaseLocked_def trackPart_def sys_init_def NewArticleCache_def)
  then show ?thesis
    using buffers_recycled_exactly_when_unused [OF r [unfolded i_def]] by (intro exI [of _ s2]) (auto simp: list_all_iff)
qed

text \<open>
  C33. Memory stays bounded: the bytes counted are those of the entries, the index finds exactly the entries, the count is
  within the bound, the bound is the base plus the boosts the readers hold, which stay below the ceiling, and the
  dead-article memo has at most 4096 verdicts. The buffer pool keeps at most 64 idle buffers and 32 MiB through every
  \<open>put\<close> and \<open>get\<close>.
\<close>

theorem cache_memory_bounded:
  assumes "(cache_step cap ord)\<^sup>*\<^sup>* (sys_init m ceiling k) S" "0 \<le> m" "0 \<le> ceiling"
    and "\<And>ks. set (ord ks) = set ks" "\<And>p. 0 \<le> cap p" "pool_ok bp" "0 \<le> n"
  shows "used (cs S) = sum_list (map ce_size (lru (cs S))) \<and> entries (cs S) = index_of (lru (cs S)) \<and>
    distinct (map ce_key (lru (cs S))) \<and> used (cs S) \<le> maxBytes (cs S) \<and>
    maxBytes (cs S) = baseBytes (cs S) + sum_list (boosts S) \<and> sum_list (boosts S) \<le> boostCeiling (cs S) \<and>
    length (dead (cs S)) \<le> 4096 \<and>
    pool_ok (pool_put n bp) \<and> pool_ok (snd (pool_take pageSize n bp)) \<and>
    length (free (pool_put n bp)) \<le> 64 \<and> sum_list (free (pool_put n bp)) \<le> 32 * 2 ^ 20"
proof -
  note inv = sys_invD [OF sys_inv_reach [OF assms(1-5)]]
  have "pool_ok (pool_put n bp)" "pool_ok (snd (pool_take pageSize n bp))"
    using pool_put_ok [OF assms(6,7)] pool_take_ok [OF assms(6), of pageSize n] by (auto simp: prod_eq_iff)
  then show ?thesis
    using inv(1,4,5)
    by (simp add: store_inv_def bytes_inv_def dead_inv_def maxDeadArticles_def pool_ok_def maxPooledBuffers_def maxPooledBufferBytes_def)
qed

theorem cache_memory_bounded_witness:
  "\<exists>S :: cache_sys. used (cs S) \<le> maxBytes (cs S) \<and> maxBytes (cs S) = 100 + 5 \<and> boosts S = [5]"
proof -
  let ?i = "sys_init 100 8 1" and ?st = "cache_step (\<lambda>_. 10) id"
  obtain c where c: "resizeBoost 0 5 (cs ?i) = (5, c)" "maxBytes c = 105"
    by (simp add: resizeBoost_def sys_init_def NewArticleCache_def)
  let ?s = "?i\<lparr>cs := c, boosts := (boosts ?i)[0 := 5]\<rparr>"
  have "?st ?i ?s" by (rule boost [where want = 5]) (use c in \<open>simp_all add: sys_init_def\<close>)
  then have "?st\<^sup>*\<^sup>* ?i ?s" by (rule r_into_rtranclp)
  then have "used (cs ?s) \<le> maxBytes (cs ?s)"
    using cache_memory_bounded [of "\<lambda>_. 10" id 100 8 1 ?s "\<lparr>free = [], pool_bytes = 0\<rparr>" 0 4096]
    by (simp add: pool_ok_def maxPooledBufferBytes_def)
  then show ?thesis using c(2) by (intro exI [of _ ?s]) (simp add: sys_init_def)
qed

text \<open>
  An article is fetched once at a time: a load leads a fetch only when the article is neither cached nor being fetched;
  until that fetch finishes every other load of it joins it; after it succeeded with a part that fits, a load is served from
  the cache; after it failed as unavailable, a load gets that verdict without a fetch, for the scope's lifetime or, for a
  stall, until the verdict expires.
\<close>

theorem load_leads_once:
  assumes "begin_load s mid hold now c = (Lead fl, c1)" "\<not> dormantLocked s c"
  shows "entries c (s, mid) = None \<and> map_of (flights c) (s, mid) = None \<and>
    fst (begin_load s mid hold' now' c1) = Join fl \<and>
    (store_inv c \<and> 0 \<le> cap p \<and> cap p \<le> maxBytes c \<longrightarrow>
       fst (begin_load s mid hold' now' (finish_load cap ord s mid fl (Inr p) at c1)) = Cached p) \<and>
    (\<not> stalled \<or> now' \<le> at + StalledArticleTTL \<longrightarrow>
       (case begin_load s mid hold' now' (finish_load cap ord s mid fl (Inl (Unavailable stalled)) at c1) of
          (Join fl', c2) \<Rightarrow> fl_finished (flight_at c2 fl') \<and> fl_err (flight_at c2 fl') = Some (Unavailable stalled)
        | _ \<Rightarrow> False))"
proof -
  obtain v c0 where v: "deadLocked (s, mid) now c = (v, c0)" by force
  obtain d where d: "c0 = c\<lparr>dead := d\<rparr>" using deadLocked_cases [OF v] by metis
  have none: "v = None" "entries c (s, mid) = None" "map_of (flights c) (s, mid) = None"
    using assms v d by (auto simp: begin_load_def Let_def alloc_flight_def split: option.splits)
  have "map_of (dead c0) (s, mid) = None"
    using v none(1) by (auto simp: deadLocked_def AList.delete_conv' split: option.splits if_splits)
  then have dn: "map_of d (s, mid) = None" using d by simp
  have c1: "c1 = c\<lparr>dead := d, flight_at := (flight_at c)(fl := new_flight), next_flight := Suc fl,
      flights := AList.update (s, mid) fl (flights c)\<rparr>"
    using assms v d none by (auto simp: begin_load_def alloc_flight_def)
  have nd: "\<not> dormantLocked s c'" if "scopes c' = scopes c" for c'
    using assms(2) that by (simp add: dormantLocked_def)
  have dead0: "deadLocked (s, mid) now' c' = (None, c')" if "dead c' = d" for c'
    using dn that by (simp add: deadLocked_def)
  have join: "fst (begin_load s mid hold' now' c1) = Join fl"
    using dead0 [of c1] nd [of c1] none by (simp add: begin_load_def c1 AList.update_conv' Let_def)
  let ?f = "finish_load cap ord s mid fl (Inr p) at c1"
  have hit: "fst (begin_load s mid hold' now' ?f) = Cached p" if "store_inv c" "0 \<le> cap p" "cap p \<le> maxBytes c"
  proof -
    let ?c = "c1\<lparr>flights := AList.delete (s, mid) (AList.update (s, mid) fl (flights c))\<rparr>"
    have "store_inv ?c" using that(1) by (rule store_inv_cong) (simp_all add: c1)
    then have e: "entries (storeLocked cap (s, mid) p ?c) (s, mid) = Some \<lparr>ce_key = (s, mid), ce_part = p, ce_size = cap p\<rparr>"
      using that(2,3) by (intro storeLocked_hit) (simp_all add: c1)
    have "entries ?f (s, mid) = Some \<lparr>ce_key = (s, mid), ce_part = p, ce_size = cap p\<rparr>" "dead ?f = d" "scopes ?f = scopes c"
      using e nd [of ?c] by (simp_all add: finish_load_def Let_def c1 AList.update_conv')
    then show ?thesis using dead0 [of ?f] nd [of ?f] by (simp add: begin_load_def Let_def)
  qed
  let ?g = "finish_load cap ord s mid fl (Inl (Unavailable stalled)) at c1"
  let ?m = "\<lparr>dm_err = Unavailable stalled, dm_until = (if stalled then Some (at + StalledArticleTTL) else None)\<rparr>"
  have m: "map_of (dead ?g) (s, mid) = Some ?m" "scopes ?g = scopes c"
    using nd by (simp_all add: finish_load_def Let_def c1 AList.update_conv' markDeadLocked_def evictDeadLocked_def)
  have "deadLocked (s, mid) now' ?g = (Some (Unavailable stalled), ?g)" if "\<not> stalled \<or> now' \<le> at + StalledArticleTTL"
    using m(1) that by (auto simp: deadLocked_def expired_def)
  then have dead1: "case begin_load s mid hold' now' ?g of
        (Join fl', c2) \<Rightarrow> fl_finished (flight_at c2 fl') \<and> fl_err (flight_at c2 fl') = Some (Unavailable stalled)
      | _ \<Rightarrow> False" if "\<not> stalled \<or> now' \<le> at + StalledArticleTTL"
    using that nd [OF m(2)] by (simp add: begin_load_def alloc_flight_def settledFlight_def)
  show ?thesis using none join hit dead1 by blast
qed

theorem load_leads_once_witness:
  "\<exists>c1. begin_load 0 [97] True 0 (NewArticleCache 100) = (Lead 0, c1) \<and> fst (begin_load 0 [97] True 1 c1) = Join 0 \<and>
     fst (begin_load 0 [97] True 1 (finish_load (\<lambda>_. 10) id 0 [97] 0 (Inr 7) 1 c1)) = Cached 7"
proof -
  let ?c = "NewArticleCache 100"
  obtain c1 where c1: "begin_load 0 [97] True 0 ?c = (Lead 0, c1)" "\<not> dormantLocked 0 ?c"
    by (simp add: begin_load_def dormantLocked_def NewArticleCache_def deadLocked_def alloc_flight_def)
  have "store_inv ?c" "maxBytes ?c = 100" by (simp_all add: store_inv_def NewArticleCache_def index_of_def)
  then show ?thesis
    using load_leads_once [OF c1, of True 1 "\<lambda>_. 10" 7 id 1 True] c1(1) by auto
qed

end
