(* ===== verification/Stream_Reader.thy ===== *)
theory Stream_Reader
  imports Offset_Index Article_Cache
begin

text \<open>
  The streaming reader, \<open>internal/usenet/stream/reader.go\<close>, with its read-ahead window (\<open>readahead.go\<close>) and its
  side of the arriving articles (\<open>arriving.go\<close>). The index and the window are the models of their own; what the reader
  waits for (the cache and the flights of other readers, the clock) is answered by an environment, at every call
  anew.
\<close>

section \<open>The environment\<close>

datatype stream_err =
    EndOfFile
  | FetchError fetch_err
  | CannotLocate
  | PrecedesFirst
  | OutsideArticle
  | NegativePosition
  | InvalidWhence
  | EstablishSize fetch_err
  | ServedArticleFailed

text \<open>How a wait for the article at the read position ends: it is cached, its arriving front serves some bytes, the front
  shows that it does not cover the position, its fetch ends (tainted or not), or the reader's context does.\<close>

datatype arrival_answer =
    ArrivedCached part
  | ArrivedFront bytes
  | ArrivedOutside
  | ArrivedDone bool "fetch_err + part"
  | ArrivedCancelled

record reader_env =
  env_load :: "nat \<Rightarrow> bytes \<Rightarrow> fetch_err + part" \<comment> \<open>\<open>CacheScope.load\<close>\<close>
  env_await :: "nat \<Rightarrow> bytes \<Rightarrow> int \<Rightarrow> nat \<Rightarrow> arrival_answer"
  env_slow :: "nat \<Rightarrow> bool" \<comment> \<open>the load took longer than \<open>readaheadMissLatency\<close>\<close>
  env_idle :: "nat \<Rightarrow> bool" \<comment> \<open>\<open>readerIdle\<close>\<close>
  env_budget :: "nat \<Rightarrow> int \<Rightarrow> int" \<comment> \<open>\<open>boostedBudget\<close>\<close>
  env_pool :: "int option" \<comment> \<open>\<open>MaxConcurrency\<close>, when the fetcher has it\<close>

section \<open>The read-ahead window\<close>

record readahead =
  readaheadK :: int
  raScale :: int
  lastSeg :: int
  waited :: bool
  seqRun :: int
  calmRun :: int

definition ReadaheadMaxArticles :: int where
  "ReadaheadMaxArticles = 32"

definition rampCeiling :: "int option \<Rightarrow> readahead \<Rightarrow> int" where
  "rampCeiling pool ra = (case pool of Some m \<Rightarrow> max (readaheadK ra) (2 * m) | None \<Rightarrow> readaheadK ra)"

definition scaleReadahead :: "int option \<Rightarrow> readahead \<Rightarrow> readahead" where
  "scaleReadahead pool ra =
     (if \<not> waited ra then
        let ra = ra\<lparr>calmRun := calmRun ra + 1\<rparr> in
        if 1 < raScale ra \<and> readaheadK ra * raScale ra \<le> calmRun ra
        then ra\<lparr>raScale := raScale ra div 2, calmRun := 0\<rparr> else ra
      else
        let ra = ra\<lparr>calmRun := 0\<rparr> in
        if 0 < readaheadK ra \<and> readaheadK ra \<le> seqRun ra \<and>
           readaheadK ra * raScale ra < min (rampCeiling pool ra) ReadaheadMaxArticles
        then ra\<lparr>raScale := raScale ra * 2\<rparr> else ra)"

definition rampReadahead :: "int option \<Rightarrow> int \<Rightarrow> readahead \<Rightarrow> readahead" where
  "rampReadahead pool fromSeg ra =
     (if fromSeg = lastSeg ra then ra
      else if fromSeg = lastSeg ra + 1
      then (scaleReadahead pool (ra\<lparr>seqRun := seqRun ra + 1\<rparr>))\<lparr>lastSeg := fromSeg\<rparr>
      else ra\<lparr>raScale := 1, seqRun := 0, calmRun := 0, lastSeg := fromSeg\<rparr>)"

definition readaheadSlots :: "int option \<Rightarrow> readahead \<Rightarrow> int" where
  "readaheadSlots pool ra = min (case pool of Some m \<Rightarrow> max 1 (m - 1) | None \<Rightarrow> max 1 (readaheadK ra)) 8"

definition readaheadWindow :: "(int \<Rightarrow> int) \<Rightarrow> int option \<Rightarrow> int \<Rightarrow> readahead \<Rightarrow> int" where
  "readaheadWindow bst pool articleBytes ra =
     (let k = readaheadK ra in
      if k \<le> 0 then 0
      else
        let k = (if 1 < raScale ra then min (k * raScale ra) (rampCeiling pool ra) else k);
            k = min k ReadaheadMaxArticles
        in if 0 < articleBytes then
             let bdg = bst (k * articleBytes) in
             if 0 < bdg then min k (bdg div articleBytes) else k
           else k)"

section \<open>The prefetch queue\<close>

record prefetch_queue =
  pending :: "(nat \<times> bytes) list" \<comment> \<open>segment and message-id\<close>
  workers :: int
  front :: int
  dropped :: bool
  lastFront :: int

definition enqueue :: "int \<Rightarrow> int \<Rightarrow> (nat \<times> bytes) list \<Rightarrow> prefetch_queue \<Rightarrow> prefetch_queue" where
  "enqueue slots fr want q =
     q\<lparr>front := fr, pending := want, workers := workers q + max 0 (min (int (length want)) (slots - workers q))\<rparr>"

definition dropReadahead :: "prefetch_queue \<Rightarrow> prefetch_queue" where
  "dropReadahead q = q\<lparr>pending := [], lastFront := - 1\<rparr>"

definition takeDropped :: "prefetch_queue \<Rightarrow> bool \<times> prefetch_queue" where
  "takeDropped q = (dropped q, q\<lparr>dropped := False\<rparr>)"

text \<open>\<open>next\<close>: what is at or behind the front is discarded, the lowest segment ahead of it is taken.\<close>

definition next_prefetch :: "prefetch_queue \<Rightarrow> (nat \<times> bytes) option \<times> prefetch_queue" where
  "next_prefetch q =
     (let ahead = filter (\<lambda>(seg, _). front q < int seg) (pending q) in
      case sort_key fst ahead of
        [] \<Rightarrow> (None, q\<lparr>pending := [], workers := workers q - 1\<rparr>)
      | a # _ \<Rightarrow> (Some a, q\<lparr>pending := filter (\<lambda>(seg, _). seg \<noteq> fst a) ahead\<rparr>))"

definition retire_worker :: "prefetch_queue \<Rightarrow> prefetch_queue" where
  "retire_worker q = q\<lparr>workers := workers q - 1\<rparr>"

section \<open>The reader\<close>

record reader =
  r_ix :: offset_index
  r_pos :: int
  r_cur :: "part option"
  r_curID :: bytes
  r_ra :: readahead
  r_pq :: prefetch_queue
  r_clock :: nat \<comment> \<open>counts what was asked of the environment\<close>
  r_fetches :: nat \<comment> \<open>counts the articles asked for by the current call of \<open>articleForOffset\<close>\<close>

definition tick :: "reader \<Rightarrow> reader" where
  "tick r = r\<lparr>r_clock := Suc (r_clock r)\<rparr>"

definition openReader :: "offset_index \<Rightarrow> reader" where
  "openReader ix =
     \<lparr>r_ix = ix, r_pos = 0, r_cur = None, r_curID = [],
      r_ra = \<lparr>readaheadK = 4, raScale = 1, lastSeg = - 1, waited = False, seqRun = 0, calmRun = 0\<rparr>,
      r_pq = \<lparr>pending = [], workers = 0, front = 0, dropped = False, lastFront = 0\<rparr>, r_clock = 0, r_fetches = 0\<rparr>"

definition DisableReadahead :: "reader \<Rightarrow> reader" where
  "DisableReadahead r = r\<lparr>r_ra := (r_ra r)\<lparr>readaheadK := 0\<rparr>\<rparr>"

definition holds_pos :: "int \<Rightarrow> reader \<Rightarrow> bool" where
  "holds_pos pos r =
     (case r_cur r of None \<Rightarrow> False | Some pt \<Rightarrow> i64 (Begin pt - 1) \<le> pos \<and> pos < i64 (i64 (Begin pt - 1) + int (length (Data pt))))"

text \<open>Where a position sits relative to a part's range.\<close>

definition classifyOffset :: "int \<Rightarrow> part \<Rightarrow> int" where
  "classifyOffset pos pt = (if pos < i64 (Begin pt - 1) then - 1 else if End pt \<le> pos then 1 else 0)"

definition nextCandidate :: "offset_index \<Rightarrow> int \<Rightarrow> nat \<Rightarrow> int \<Rightarrow> nat list \<Rightarrow> stream_err + nat" where
  "nextCandidate ix pos from dir tried =
     (case Locate ix pos of
        Some (seg, _, _) \<Rightarrow>
          if seg \<notin> set tried \<and> (0 < dir \<and> from < seg \<or> dir < 0 \<and> seg < from) then Inr seg
          else if dir < 0 then (if from = 0 then Inl PrecedesFirst else Inr (from - 1))
          else if SegmentCount ix \<le> from + 1 then Inl EndOfFile else Inr (from + 1)
      | None \<Rightarrow>
          if dir < 0 then (if from = 0 then Inl PrecedesFirst else Inr (from - 1))
          else if SegmentCount ix \<le> from + 1 then Inl EndOfFile else Inr (from + 1))"

definition fetchArticle :: "reader_env \<Rightarrow> nat \<Rightarrow> reader \<Rightarrow> (fetch_err + part) \<times> reader" where
  "fetchArticle env segIdx r =
     (let mid = sg_MessageID (Segment (r_ix r) segIdx) in
      case (if r_curID r = mid then r_cur r else None) of
        Some pt \<Rightarrow> (Inr pt, r)
      | None \<Rightarrow>
          let r' = (tick r)\<lparr>r_ra := (r_ra r)\<lparr>waited := env_slow env (r_clock r)\<rparr>\<rparr> in
          case env_load env (r_clock r) mid of
            Inr pt \<Rightarrow> (Inr pt, r'\<lparr>r_cur := Some pt, r_curID := mid\<rparr>)
          | Inl e \<Rightarrow> (Inl e, r'))"

definition maxLocateFetches :: nat where
  "maxLocateFetches = 16"

function locate_loop :: "reader_env \<Rightarrow> int \<Rightarrow> nat \<Rightarrow> nat list \<Rightarrow> reader \<Rightarrow> (stream_err + part \<times> nat) \<times> reader" where
  "locate_loop env pos segIdx tried r =
     (if maxLocateFetches \<le> r_fetches r then (Inl CannotLocate, r)
      else case fetchArticle env segIdx r of
        (Inl e, r1) \<Rightarrow> (Inl (FetchError e), r1)
      | (Inr pt, r1) \<Rightarrow>
          let r2 = r1\<lparr>r_ix := Observe (int segIdx) (Some pt) (r_ix r1), r_fetches := Suc (r_fetches r)\<rparr>;
              dir = classifyOffset pos pt
          in if dir = 0 then (Inr (pt, segIdx), r2)
             else case nextCandidate (r_ix r2) pos segIdx dir (segIdx # tried) of
               Inl e \<Rightarrow> (Inl e, r2)
             | Inr next \<Rightarrow> locate_loop env pos next (segIdx # tried) r2)"
  by pat_completeness auto
termination
  by (relation "measure (\<lambda>(env, pos, segIdx, tried, r). maxLocateFetches - r_fetches r)") auto

declare locate_loop.simps [simp del]

definition articleForOffset :: "reader_env \<Rightarrow> int \<Rightarrow> reader \<Rightarrow> (stream_err + part \<times> nat) \<times> reader" where
  "articleForOffset env pos r =
     (if SegmentCount (r_ix r) = 0 then (Inl EndOfFile, r)
      else case Locate (r_ix r) pos of
        None \<Rightarrow> (Inl EndOfFile, r)
      | Some (segIdx, _, _) \<Rightarrow> locate_loop env pos segIdx [] (r\<lparr>r_fetches := 0\<rparr>))"

definition ensureSizeExact :: "reader_env \<Rightarrow> reader \<Rightarrow> stream_err option \<times> reader" where
  "ensureSizeExact env r =
     (if SizeExact (r_ix r) \<or> SegmentCount (r_ix r) = 0 then (None, r)
      else case fetchArticle env 0 r of
        (Inl e, r1) \<Rightarrow> (Some (EstablishSize e), r1)
      | (Inr pt, r1) \<Rightarrow> (None, r1\<lparr>r_ix := Observe 0 (Some pt) (r_ix r1)\<rparr>))"

datatype whence = SeekStart | SeekCurrent | SeekEnd | OtherWhence

definition seek_to :: "int \<Rightarrow> reader \<Rightarrow> (stream_err + int) \<times> reader" where
  "seek_to dest r =
     (if dest < 0 then (Inl NegativePosition, r)
      else (Inr dest, r\<lparr>r_pos := dest, r_pq := (if dest \<noteq> r_pos r then dropReadahead (r_pq r) else r_pq r)\<rparr>))"

definition Seek :: "reader_env \<Rightarrow> int \<Rightarrow> whence \<Rightarrow> reader \<Rightarrow> (stream_err + int) \<times> reader" where
  "Seek env offset wh r =
     (case wh of
        SeekStart \<Rightarrow> seek_to offset r
      | SeekCurrent \<Rightarrow> seek_to (i64 (r_pos r + offset)) r
      | SeekEnd \<Rightarrow>
          (case ensureSizeExact env r of
             (Some e, r1) \<Rightarrow> (Inl e, r1)
           | (None, r1) \<Rightarrow> seek_to (i64 (FileSize (r_ix r1) + offset)) r1)
      | OtherWhence \<Rightarrow> (Inl InvalidWhence, r))"

text \<open>\<open>readArriving\<close> with \<open>awaitArticle\<close> and \<open>takeArrived\<close>: bytes served, or the read is left to
  \<open>articleForOffset\<close> (\<open>None\<close>), or an error.\<close>

definition readArriving :: "reader_env \<Rightarrow> nat \<Rightarrow> reader \<Rightarrow> (stream_err + bytes option) \<times> reader" where
  "readArriving env n r =
     (if holds_pos (r_pos r) r then (Inr None, r)
      else case Locate (r_ix r) (r_pos r) of
        None \<Rightarrow> (Inr None, r)
      | Some (seg, _, _) \<Rightarrow>
          let mid = sg_MessageID (Segment (r_ix r) seg) in
          if mid = r_curID r then (Inr None, r)
          else case env_await env (r_clock r) mid (r_pos r) n of
            ArrivedCached pt \<Rightarrow> (Inr None, (tick r)\<lparr>r_cur := Some pt, r_curID := mid, r_ra := (r_ra r)\<lparr>waited := False\<rparr>\<rparr>)
          | ArrivedFront bs \<Rightarrow> (Inr (Some (take n bs)), tick r)
          | ArrivedOutside \<Rightarrow> (Inr None, tick r)
          | ArrivedDone tainted res \<Rightarrow>
              if tainted then (Inl ServedArticleFailed, tick r)
              else (case res of
                      Inl e \<Rightarrow> (if leaderSpecific e then Inr None else Inl (FetchError e), tick r)
                    | Inr pt \<Rightarrow> (Inr None, (tick r)\<lparr>r_cur := Some pt, r_curID := mid, r_ra := (r_ra r)\<lparr>waited := env_slow env (r_clock r)\<rparr>\<rparr>))
          | ArrivedCancelled \<Rightarrow> (Inl (FetchError Canceled), tick r))"

text \<open>The message-ids of the segments \<open>j\<close> with \<open>from < j <= from + k\<close>.\<close>

definition wanted :: "offset_index \<Rightarrow> nat \<Rightarrow> int \<Rightarrow> (nat \<times> bytes) list" where
  "wanted ix from k = map (\<lambda>j. (j, sg_MessageID (Segment ix j))) [Suc from..<min (Suc from + nat k) (SegmentCount ix)]"

definition arrivedAt :: "reader_env \<Rightarrow> reader \<Rightarrow> nat option" where
  "arrivedAt env r =
     (if readaheadK (r_ra r) \<le> 0 \<or> holds_pos (r_pos r) r then None
      else if (case env_pool env of Some m \<Rightarrow> m \<le> 2 | None \<Rightarrow> False) then None
      else case LocateExact (r_ix r) (r_pos r) of
        None \<Rightarrow> None
      | Some (seg, exact) \<Rightarrow>
          if \<not> exact \<or> int seg = lastSeg (r_ra r) \<or> (0 \<le> lastSeg (r_ra r) \<and> int seg = lastSeg (r_ra r) + 1)
          then None else Some seg)"

definition readaheadOnArrival :: "reader_env \<Rightarrow> reader \<Rightarrow> reader" where
  "readaheadOnArrival env r =
     (case arrivedAt env r of
        None \<Rightarrow> r
      | Some seg \<Rightarrow>
          let ra = rampReadahead (env_pool env) (int seg) (r_ra r); r = r\<lparr>r_ra := ra\<rparr>;
              bytes = sg_Bytes (Segment (r_ix r) seg)
          in if bytes \<le> 0 then r
             else let k = min 2 (readaheadWindow (env_budget env (r_clock r)) (env_pool env) bytes ra)
                  in r\<lparr>r_pq := enqueue (readaheadSlots (env_pool env) ra) (int seg) (wanted (r_ix r) seg k) (r_pq r)\<rparr>)"

definition triggerReadahead :: "reader_env \<Rightarrow> nat \<Rightarrow> nat \<Rightarrow> reader \<Rightarrow> reader" where
  "triggerReadahead env fromSeg articleBytes r =
     (if readaheadK (r_ra r) \<le> 0 then r
      else
        let ra = rampReadahead (env_pool env) (int fromSeg) (r_ra r); r = r\<lparr>r_ra := ra\<rparr>;
            same = (int fromSeg = lastFront (r_pq r));
            drp = (if same then dropped (r_pq r) else False);
            q = (if same then snd (takeDropped (r_pq r)) else r_pq r)
        in if same \<and> \<not> drp then r\<lparr>r_pq := q\<rparr>
           else
             let q = q\<lparr>lastFront := int fromSeg\<rparr>;
                 k = readaheadWindow (env_budget env (r_clock r)) (env_pool env) (int articleBytes) ra
             in if k \<le> 0 then r\<lparr>r_pq := q\<rparr>
                else r\<lparr>r_pq := enqueue (readaheadSlots (env_pool env) ra) (int fromSeg) (wanted (r_ix r) fromSeg k) q\<rparr>)"

definition Read :: "reader_env \<Rightarrow> nat \<Rightarrow> reader \<Rightarrow> bytes \<times> stream_err option \<times> reader" where
  \<comment> \<open>the bytes copied into a buffer of \<open>n\<close> bytes\<close>
  "Read env n r =
     (if n = 0 then ([], None, r)
      else if SizeExact (r_ix r) \<and> FileSize (r_ix r) \<le> r_pos r then ([], Some EndOfFile, r)
      else
        let resumed = env_idle env (r_clock r); r = readaheadOnArrival env r in
        case readArriving env n r of
          (Inl e, r1) \<Rightarrow> ([], Some e, r1)
        | (Inr (Some bs), r1) \<Rightarrow> (bs, None, r1\<lparr>r_pos := i64 (r_pos r1 + int (length bs))\<rparr>)
        | (Inr None, r1) \<Rightarrow>
            (case articleForOffset env (r_pos r1) r1 of
               (Inl e, r2) \<Rightarrow> ([], Some e, r2)
             | (Inr (pt, segIdx), r2) \<Rightarrow>
                 let r2 = (if resumed then r2\<lparr>r_ra := (r_ra r2)\<lparr>waited := False\<rparr>\<rparr> else r2);
                     off = i64 (r_pos r2 - i64 (Begin pt - 1))
                 in if off < 0 \<or> int (length (Data pt)) \<le> off then ([], Some OutsideArticle, r2)
                    else let bs = take n (drop (nat off) (Data pt));
                             r3 = r2\<lparr>r_pos := i64 (r_pos r2 + int (length bs))\<rparr>
                         in (bs, None, triggerReadahead env segIdx (length (Data pt)) r3)))"

end
