(* ===== verification/Rar_Video.thy ===== *)
theory Rar_Video
  imports Stream_Reader Rar_Store
begin

text \<open>
  Reading the video out of a RAR release, \<open>internal/usenet/stream/rarvideo.go\<close>, and the volume readers of
  \<open>rarvolume.go\<close> it reads through. Every volume has an environment of its own, which answers its reader; the index of a volume is
  shared by the readers opened over it one after the other.
\<close>

section \<open>Volume readers\<close>

datatype volume_err = VolumeStream stream_err | UnexpectedEOF

record volume_reader =
  vr_r :: reader
  vr_sz :: int

text \<open>\<open>openReaderVolume\<close>; the reader goes on counting its requests where the last one over the volumes stopped.\<close>

definition openReaderVolume :: "reader_env \<Rightarrow> nat \<Rightarrow> offset_index \<Rightarrow> bool \<Rightarrow> (stream_err + volume_reader) \<times> reader" where
  "openReaderVolume env clk ix readahead =
     (let r = (openReader ix)\<lparr>r_clock := clk\<rparr>;
          r = (if readahead then r else DisableReadahead r)
      in case Seek env 0 SeekEnd r of
           (Inl e, r1) \<Rightarrow> (Inl e, r1)
         | (Inr sz, r1) \<Rightarrow> (Inr \<lparr>vr_r = r1, vr_sz = sz\<rparr>, r1))"

definition newReaderVolume :: "reader_env \<Rightarrow> nat \<Rightarrow> offset_index \<Rightarrow> (stream_err + volume_reader) \<times> reader" where
  "newReaderVolume env clk ix = openReaderVolume env clk ix True"

definition newProbeVolume :: "reader_env \<Rightarrow> nat \<Rightarrow> offset_index \<Rightarrow> (stream_err + volume_reader) \<times> reader" where
  "newProbeVolume env clk ix = openReaderVolume env clk ix False"

text \<open>\<open>io.ReadFull\<close>: reads until the buffer is full or a read fails; it does not end when reads keep returning nothing.\<close>

partial_function (option) read_full ::
  "reader_env \<Rightarrow> nat \<Rightarrow> bytes \<Rightarrow> reader \<Rightarrow> ((volume_err + bytes) \<times> reader) option" where
  "read_full env n acc r =
     (if n \<le> length acc then Some (Inr acc, r)
      else case Read env (n - length acc) r of
        (bs, err, r1) \<Rightarrow>
          (case err of
             None \<Rightarrow> read_full env n (acc @ bs) r1
           | Some e \<Rightarrow>
               if n \<le> length (acc @ bs) then Some (Inr (acc @ bs), r1)
               else if e = EndOfFile \<and> acc @ bs \<noteq> [] then Some (Inl UnexpectedEOF, r1)
               else Some (Inl (VolumeStream e), r1)))"

definition volume_readAt :: "reader_env \<Rightarrow> int \<Rightarrow> int \<Rightarrow> volume_reader \<Rightarrow> ((volume_err + bytes) \<times> volume_reader) option" where
  "volume_readAt env off n v =
     (if off < 0 \<or> n < 0 then Some (Inl UnexpectedEOF, v)
      else if vr_sz v < n \<or> i64 (vr_sz v - n) < off then Some (Inl UnexpectedEOF, v)
      else case Seek env off SeekStart (vr_r v) of
        (Inl e, r1) \<Rightarrow> Some (Inl (VolumeStream e), v\<lparr>vr_r := r1\<rparr>)
      | (Inr _, r1) \<Rightarrow> map_option (\<lambda>(res, r2). (res, v\<lparr>vr_r := r2\<rparr>)) (read_full env (nat n) [] r1))"

section \<open>The video reader\<close>

datatype video_err =
    VideoEOF
  | NoExtent
  | OpenVolume stream_err
  | SeekVolume stream_err
  | ReadVolume stream_err
  | VideoNegative
  | VideoInvalidWhence
  | VolumePanic

record video_reader =
  v_pos :: int
  curVol :: int
  curReader :: "volume_reader option"
  v_ixs :: "offset_index list" \<comment> \<open>\<open>rs.indexes\<close>, as the readers left them\<close>
  v_clock :: nat

definition OpenVideo :: "offset_index list \<Rightarrow> video_reader" where
  "OpenVideo ixs = \<lparr>v_pos = 0, curVol = - 1, curReader = None, v_ixs = ixs, v_clock = 0\<rparr>"

text \<open>What a volume's reader learned stays in the shared index.\<close>

definition keep_index :: "int \<Rightarrow> reader \<Rightarrow> video_reader \<Rightarrow> video_reader" where
  "keep_index vol r v = v\<lparr>v_ixs := (v_ixs v)[nat vol := r_ix r], v_clock := r_clock r\<rparr>"

definition closeCurrent :: "video_reader \<Rightarrow> video_reader" where
  "closeCurrent v = (case curReader v of None \<Rightarrow> v | Some _ \<Rightarrow> v\<lparr>curReader := None, curVol := - 1\<rparr>)"

definition useVolume :: "(nat \<Rightarrow> reader_env) \<Rightarrow> int \<Rightarrow> video_reader \<Rightarrow> video_err option \<times> video_reader" where
  "useVolume envs vol v =
     (if curVol v = vol \<and> curReader v \<noteq> None then (None, v)
      else
        let v = closeCurrent v in
        if vol < 0 \<or> int (length (v_ixs v)) \<le> vol then (Some VolumePanic, v)
        else case newReaderVolume (envs (nat vol)) (v_clock v) (v_ixs v ! nat vol) of
          (Inl e, r) \<Rightarrow> (Some (OpenVolume e), keep_index vol r v)
        | (Inr rv, r) \<Rightarrow> (None, (keep_index vol r v)\<lparr>curReader := Some rv, curVol := vol\<rparr>))"

definition video_Read :: "(nat \<Rightarrow> reader_env) \<Rightarrow> rar_store \<Rightarrow> nat \<Rightarrow> video_reader \<Rightarrow> bytes \<times> video_err option \<times> video_reader" where
  "video_Read envs st n v =
     (if n = 0 then ([], None, v)
      else if videoSize st \<le> v_pos v then ([], Some VideoEOF, v)
      else case findExtent (rs_extents st) (v_pos v) of
        None \<Rightarrow> ([], Some NoExtent, v)
      | Some ext \<Rightarrow>
          (case useVolume envs (ex_volIndex ext) v of
             (Some e, v1) \<Rightarrow> ([], Some e, v1)
           | (None, v1) \<Rightarrow>
               let vol = ex_volIndex ext;
                   env = envs (nat vol);
                   rv = the (curReader v1);
                   containerOff = i64 (ex_dataOffset ext + i64 (v_pos v1 - videoStart ext))
               in case Seek env containerOff SeekStart (vr_r rv) of
                    (Inl e, r1) \<Rightarrow> ([], Some (SeekVolume e), (keep_index vol r1 v1)\<lparr>curReader := Some (rv\<lparr>vr_r := r1\<rparr>)\<rparr>)
                  | (Inr _, r1) \<Rightarrow>
                      let remaining = i64 (i64 (videoStart ext + ex_length ext) - v_pos v1);
                          lim = min (int n) remaining
                      in case Read env (nat lim) r1 of
                           (bs, err, r2) \<Rightarrow>
                             (bs,
                              (case err of
                                 None \<Rightarrow> None
                               | Some EndOfFile \<Rightarrow> if 0 < length bs then None else Some VideoEOF
                               | Some e \<Rightarrow> Some (ReadVolume e)),
                              (keep_index vol r2 v1)\<lparr>curReader := Some (rv\<lparr>vr_r := r2\<rparr>), v_pos := i64 (v_pos v1 + int (length bs))\<rparr>)))"

definition video_Seek :: "rar_store \<Rightarrow> int \<Rightarrow> whence \<Rightarrow> video_reader \<Rightarrow> (video_err + int) \<times> video_reader" where
  "video_Seek st offset wh v =
     (let go = (\<lambda>dest. if dest < 0 then (Inl VideoNegative, v) else (Inr dest, v\<lparr>v_pos := dest\<rparr>)) in
      case wh of
        SeekStart \<Rightarrow> go offset
      | SeekCurrent \<Rightarrow> go (i64 (v_pos v + offset))
      | SeekEnd \<Rightarrow> go (i64 (videoSize st + offset))
      | OtherWhence \<Rightarrow> (Inl VideoInvalidWhence, v))"

end
