(* ===== verification/Stream_Reader_Props.thy ===== *)
theory Stream_Reader_Props
  imports Stream_Reader Offset_Index_Props Yenc_Props
begin

text \<open>
  The streaming reader over a posted file: it serves the file's own bytes whatever the estimates were, spends a bounded
  number of fetches on finding an article, and keeps its read-ahead window within its bounds.
\<close>

section \<open>The article source\<close>

text \<open>The part article \<open>i\<close> of a posting of \<open>content\<close> decodes to, its articles having the decoded lengths \<open>L\<close>.\<close>

definition is_article :: "int list \<Rightarrow> bytes \<Rightarrow> nat \<Rightarrow> part \<Rightarrow> bool" where
  "is_article L content i pt \<longleftrightarrow>
     Begin pt = true_start L i + 1 \<and> End pt = true_start L (Suc i) \<and> Size pt = int (length content) \<and>
     Data pt = slice content (nat (true_start L i)) (nat (true_start L (Suc i)))"

text \<open>
  The articles of a uniform posting have one decoded length and close encoded sizes, the last one aside. Its index has
  nothing to go by until such an article is seen, and is anchored from then on.
\<close>

definition uniform_shape :: "int list \<Rightarrow> int list \<Rightarrow> bool" where
  "uniform_shape est L \<longleftrightarrow>
     (\<forall>i j. Suc i < length L \<and> Suc j < length L \<longrightarrow> L ! i = L ! j \<and> sameEncodedShape (est ! i) (est ! j))"

definition homing :: "int list \<Rightarrow> offset_index \<Rightarrow> bool" where
  "homing L ix \<longleftrightarrow> tracks L ix \<and> (anchorLen ix = 0 \<and> (\<forall>i. Suc i < length L \<longrightarrow> exactLen ix ! i < 0) \<or> 0 < anchorLen ix)"

lemma if_field: "f x = c \<Longrightarrow> f y = c \<Longrightarrow> f (if b then x else y) = c"
  by simp

lemma Observe_estLen [simp]: "estLen (Observe k p ix) = estLen ix"
proof (cases p)
  case (Some pt)
  show ?thesis
    unfolding Some Observe_def Let_def option.case
    by (intro if_field [of estLen] refl) (simp add: if_distrib [of estLen] cong: if_weak_cong)
qed (simp add: Observe_def)

lemma Observe_homing:
  assumes "homing L ix" "uniform_shape (estLen ix) L" "posting_ok L" "truthful L (int i, Some pt)" "i < length L" "0 < Size pt"
  defines "ix' \<equiv> Observe (int i) (Some pt) ix"
  shows "homing L ix' \<and> sizeExact ix' \<and> (Suc i < length L \<or> 0 < anchorLen ix \<longrightarrow> 0 < anchorLen ix')"
proof -
  have t: "tracks L ix" and n: "SegmentCount ix = length L" and lens: "length (exactLen ix) = length L"
    using assms(1) by (auto simp: homing_def tracks_def tracks_data_def index_ok_def SegmentCount_def)
  have t': "tracks L ix'" using Observe_tracks [OF t assms(3,4)] by (simp add: ix'_def)
  have pt: "Begin pt = true_start L i + 1" "End pt - Begin pt + 1 = L ! i"
    using assms(4,5) by (auto simp: truthful_def true_start_Suc)
  have len: "0 < L ! i" "i64 (End pt - Begin pt + 1) = L ! i"
    using posting_len [OF assms(3,5)] pt by (simp_all add: i64_nonneg)
  have valid: "\<not> (Begin pt < 1 \<or> End pt < Begin pt)" using pt len(1) true_start_bounds(1) [OF assms(3), of i] by simp
  have est: "0 < estLen ix ! i" if "Suc i < length L"
  proof -
    have "sameEncodedShape (estLen ix ! i) (estLen ix ! i)" using assms(2) that unfolding uniform_shape_def by blast
    then show ?thesis by (simp add: sameEncodedShape_def split: if_splits)
  qed
  have anchor: "anchorLen ix = L ! i" if "0 < anchorLen ix" "Suc i < length L"
    using t that assms(2) unfolding tracks_def tracks_data_def uniform_shape_def by metis
  have seen: "0 < anchorLen ix" if "Suc i < length L" "\<not> exactLen ix ! i < 0"
    using assms(1) that by (auto simp: homing_def)
  have "sizeExact ix'" using valid n assms(5,6) by (simp add: ix'_def Observe_def Let_def)
  moreover have "anchorLen ix' = (if Suc i < length L \<and> exactLen ix ! i < 0 \<and> anchorLen ix = 0 then L ! i else anchorLen ix)"
    using valid n assms(1,5,6) len est anchor lens
    by (auto simp: ix'_def Observe_def Let_def note_evidence_def SegmentCount_def homing_def)
  moreover have "\<forall>j. Suc j < length L \<longrightarrow> exactLen ix' ! j < 0" if "\<not> Suc i < length L" "\<forall>j. Suc j < length L \<longrightarrow> exactLen ix ! j < 0"
    using valid n that assms(5) by (auto simp: ix'_def Observe_def Let_def SegmentCount_def nth_list_update)
  ultimately show ?thesis
    using t' assms(1) len seen by (auto simp: homing_def)
qed

text \<open>An anchored index places every offset of the file in the article that carries it.\<close>

lemma anchored_locates:
  assumes "homing L ix" "uniform_shape (estLen ix) L" "posting_ok L" "0 < anchorLen ix" "sizeExact ix" "0 \<le> off" "off < sum_list L"
  shows "\<exists>i b e. Locate ix off = Some (i, b, e) \<and> i < length L \<and> true_start L i \<le> off \<and> off < true_start L (Suc i)"
proof -
  have t: "tracks L ix" and n: "SegmentCount ix = length L"
    using assms(1) by (auto simp: homing_def tracks_def tracks_data_def)
  obtain k where k: "Suc k < length L" "anchorEst ix = estLen ix ! k"
    using t assms(4) by (auto simp: tracks_def tracks_data_def)
  have "stepExact ix i" if "Suc i < length L" for i
  proof -
    have "sameEncodedShape (estLen ix ! i) (estLen ix ! k)" using assms(2) k(1) that unfolding uniform_shape_def by blast
    then show ?thesis using assms(4) k(2) that n by (simp add: stepExact_def)
  qed
  note ex = uniform_all_exact [OF t assms(3) this]
  have "FileSize ix = sum_list L" using t assms(5) by (simp add: FileSize_def tracks_def tracks_data_def)
  then obtain i where i: "locateLocked ix off = Some i"
    using locateLocked_total [of ix off] t assms(6,7) by (auto simp: tracks_def)
  have il: "i < length L" using locateLocked_range [of ix off i] t i n by (simp add: tracks_def)
  then have "LocateExact ix off = Some (i, True)"
    using i ex assms(5) t n by (auto simp: LocateExact_def tracks_def index_ok_def)
  from LocateExact_sound [OF t assms(3) this] il i show ?thesis by (auto simp: Locate_def)
qed

lemma NewOffsetIndex_homing:
  assumes "SegmentCount (NewOffsetIndex shuffle f) = length L" "uniform_shape (estLen (NewOffsetIndex shuffle f)) L"
  shows "homing L (NewOffsetIndex shuffle f)"
proof -
  have "shapes_agree (estLen (NewOffsetIndex shuffle f)) L"
    using assms(2) unfolding shapes_agree_def uniform_shape_def by blast
  then show ?thesis using NewOffsetIndex_tracks [OF assms(1)] assms(1) by (simp add: homing_def NewOffsetIndex_sel)
qed

text \<open>What a consumer calls, one call after the other.\<close>

datatype reader_call = CallRead nat | CallSeek int whence

fun after_calls :: "reader_env \<Rightarrow> reader_call list \<Rightarrow> reader \<Rightarrow> reader" where
  "after_calls env [] r = r"
| "after_calls env (CallRead n # cs) r = after_calls env cs (snd (snd (Read env n r)))"
| "after_calls env (CallSeek off wh # cs) r = after_calls env cs (snd (Seek env off wh r))"

text \<open>
  What the reader relies on: the cache returns, for the message-id of an article, that article's part, or an error; bytes
  of an arriving front are bytes of the file.
\<close>

lemma take_self: "xs = take m ys \<Longrightarrow> xs = take (length xs) ys"
  by (simp add: min_def)

text \<open>What the reader needs of its index, whatever its estimates are.\<close>

definition sized :: "int list \<Rightarrow> offset_index \<Rightarrow> bool" where
  "sized L ix \<longleftrightarrow> index_ok ix \<and> SegmentCount ix = length L \<and> (sizeExact ix \<longrightarrow> ix_fileSize ix = sum_list L)"

lemma Observe_sel [simp]: "ix_segs (Observe k p ix) = ix_segs ix"
  by (auto simp: Observe_def Let_def split: option.split)

lemma Observe_size:
  "sizeExact (Observe k (Some pt) ix) \<Longrightarrow> sizeExact ix \<and> ix_fileSize (Observe k (Some pt) ix) = ix_fileSize ix \<or>
     ix_fileSize (Observe k (Some pt) ix) = Size pt"
  by (auto simp: Observe_def Let_def split: if_splits)

lemma Observe_sized:
  assumes "sized L ix" "Size pt = sum_list L"
  shows "sized L (Observe k (Some pt) ix)"
  using assms Observe_ok [of ix k "Some pt"] Observe_size [of k pt ix] by (auto simp: sized_def SegmentCount_def)

locale article_source =
  fixes env :: reader_env and L :: "int list" and content :: bytes and ids :: "bytes list"
  assumes posted: "posting_ok L" "sum_list L = int (length content)" "length ids = length L"
    and load_true: "i < length L \<Longrightarrow> env_load env t (ids ! i) = Inr pt \<Longrightarrow> is_article L content i pt"
    and cached_true: "i < length L \<Longrightarrow> env_await env t (ids ! i) pos n = ArrivedCached pt \<Longrightarrow> is_article L content i pt"
    and done_true: "i < length L \<Longrightarrow> env_await env t (ids ! i) pos n = ArrivedDone tainted (Inr pt) \<Longrightarrow> is_article L content i pt"
    and front_true: "i < length L \<Longrightarrow> env_await env t (ids ! i) pos n = ArrivedFront bs \<Longrightarrow>
      bs \<noteq> [] \<and> bs = take (length bs) (drop (nat pos) content)"
begin

definition reader_ok :: "reader \<Rightarrow> bool" where
  "reader_ok r \<longleftrightarrow> sized L (r_ix r) \<and> (uniform_shape (estLen (r_ix r)) L \<longrightarrow> homing L (r_ix r)) \<and> map sg_MessageID (ix_segs (r_ix r)) = ids \<and> 0 \<le> r_pos r \<and>
     (\<forall>pt i. r_cur r = Some pt \<longrightarrow> i < length L \<longrightarrow> r_curID r = ids ! i \<longrightarrow> is_article L content i pt)"

lemma reader_ok_cong:
  "reader_ok r \<Longrightarrow> r_ix r' = r_ix r \<Longrightarrow> r_pos r' = r_pos r \<Longrightarrow> r_cur r' = r_cur r \<Longrightarrow> r_curID r' = r_curID r \<Longrightarrow> reader_ok r'"
  by (simp add: reader_ok_def)

lemma ids_of_index:
  assumes "reader_ok r" "i < length L"
  shows "sg_MessageID (Segment (r_ix r) i) = ids ! i"
proof -
  have "i < length (ix_segs (r_ix r))" using assms by (simp add: reader_ok_def sized_def SegmentCount_def)
  then show ?thesis using assms(1) by (auto simp: reader_ok_def Segment_def)
qed

text \<open>An article is not empty, and its data is as long as its range.\<close>

lemma article_data:
  assumes "is_article L content i pt" "i < length L"
  shows "int (length (Data pt)) = L ! i" "End pt = Begin pt - 1 + L ! i"
    "\<lbrakk>Begin pt - 1 \<le> pos; pos < End pt\<rbrakk> \<Longrightarrow> 0 \<le> pos - (Begin pt - 1) \<and> pos - (Begin pt - 1) < int (length (Data pt)) \<and>
       drop (nat (pos - (Begin pt - 1))) (Data pt) = slice content (nat pos) (nat (End pt))"
proof -
  have s: "0 \<le> true_start L i" "true_start L (Suc i) = true_start L i + L ! i" "true_start L (Suc i) \<le> int (length content)"
      "0 < L ! i"
    using true_start_bounds [OF posted(1)] true_start_Suc [OF assms(2)] posting_len [OF posted(1) assms(2)] posted(2) by metis+
  show l: "int (length (Data pt)) = L ! i" "End pt = Begin pt - 1 + L ! i"
    using assms(1) s by (simp_all add: is_article_def)
  assume p: "Begin pt - 1 \<le> pos" "pos < End pt"
  moreover have "drop (nat (pos - (Begin pt - 1))) (Data pt) = slice content (nat pos) (nat (End pt))"
    using assms(1) s p by (auto simp: is_article_def slice_def drop_take add.commute nat_diff_distrib intro!: arg_cong2 [of _ _ _ _ take])
  ultimately show "0 \<le> pos - (Begin pt - 1) \<and> pos - (Begin pt - 1) < int (length (Data pt)) \<and>
       drop (nat (pos - (Begin pt - 1))) (Data pt) = slice content (nat pos) (nat (End pt))"
    using l by simp
qed

lemma fetchArticle_ok:
  assumes "reader_ok r" "i < length L" "fetchArticle env i r = (res, r')"
  shows "reader_ok r' \<and> r_pos r' = r_pos r \<and> r_ix r' = r_ix r \<and> (\<forall>pt. res = Inr pt \<longrightarrow> is_article L content i pt)"
proof (cases "r_curID r = ids ! i \<and> r_cur r \<noteq> None")
  case True
  then show ?thesis
    using assms ids_of_index [OF assms(1,2)] by (auto simp: fetchArticle_def reader_ok_def)
next
  case False
  then have none: "(if r_curID r = ids ! i then r_cur r else None) = None" by auto
  show ?thesis
  proof (cases "env_load env (r_clock r) (ids ! i)")
    case (Inl e)
    then show ?thesis
      using assms(1,3) none ids_of_index [OF assms(1,2)]
      by (auto simp: fetchArticle_def tick_def intro: reader_ok_cong)
  next
    case (Inr pt)
    have a: "is_article L content j pt" if "j < length L" "ids ! j = ids ! i" for j
      using load_true [OF that(1)] Inr that(2) by metis
    have r': "res = Inr pt" "r_ix r' = r_ix r" "r_pos r' = r_pos r" "r_cur r' = Some pt" "r_curID r' = ids ! i"
      using assms(3) none Inr ids_of_index [OF assms(1,2)] by (auto simp: fetchArticle_def tick_def)
    then show ?thesis
      using assms(1,2) a by (simp add: reader_ok_def)
  qed
qed

lemma article_truthful: "is_article L content i pt \<Longrightarrow> truthful L (int i, Some pt)"
  using posted(2) by (simp add: is_article_def truthful_def)

lemma article_size: "is_article L content i pt \<Longrightarrow> i < length L \<Longrightarrow> 0 < Size pt"
  using true_start_bounds(1) [OF posted(1), of i] true_start_bounds(2) [OF posted(1), of "Suc i"] true_start_Suc [of i L]
    posting_len(1) [OF posted(1), of i] posted(2) by (cases "content = []") (simp_all add: is_article_def)

lemma observe_ok:
  assumes "reader_ok r" "is_article L content i pt" "i < length L"
  shows "reader_ok (r\<lparr>r_ix := Observe (int i) (Some pt) (r_ix r)\<rparr>)"
proof -
  have "homing L (Observe (int i) (Some pt) (r_ix r))" if "uniform_shape (estLen (r_ix r)) L"
    using Observe_homing [OF _ that posted(1) article_truthful [OF assms(2)] assms(3) article_size [OF assms(2,3)]] assms(1) that
    by (auto simp: reader_ok_def)
  then show ?thesis using assms posted(2) by (simp add: reader_ok_def is_article_def Observe_sized)
qed

lemma article_start:
  assumes "is_article L content i pt"
  shows "i64 (Begin pt - 1) = Begin pt - 1"
  using assms true_start_bounds [OF posted(1), of i] posted(1) by (simp add: is_article_def i64_nonneg posting_ok_def)

lemma locate_bound:
  assumes "reader_ok r" "Locate (r_ix r) pos = Some (seg, b, e)"
  shows "seg < length L"
  using assms locateLocked_range [of "r_ix r" pos seg] by (auto simp: reader_ok_def sized_def Locate_def)

lemma exact_size: "reader_ok r \<Longrightarrow> SizeExact (r_ix r) \<Longrightarrow> FileSize (r_ix r) = int (length content)"
  using posted(2) by (simp add: reader_ok_def sized_def SizeExact_def FileSize_def)

text \<open>Where the next candidate is taken from: on the side of the position, or the position is past the last article.\<close>

lemma nextCandidate_ok:
  assumes "reader_ok r" "i < length L" "is_article L content i pt" "0 \<le> pos" "classifyOffset pos pt = dir" "dir \<noteq> 0"
  shows "case nextCandidate (r_ix r) pos i dir tried of
      Inr j \<Rightarrow> j < length L | Inl e \<Rightarrow> e = EndOfFile \<and> int (length content) \<le> pos"
proof -
  have n: "SegmentCount (r_ix r) = length L" using assms(1) by (simp add: reader_ok_def sized_def)
  have first: "\<not> (dir < 0 \<and> i = 0)"
  proof (cases "i = 0")
    case True
    then have "i64 (Begin pt - 1) = 0" using article_start [OF assms(3)] assms(3) by (simp add: is_article_def true_start_def)
    then show ?thesis using assms(4,5) by (auto simp: classifyOffset_def split: if_splits)
  qed simp
  have last: "int (length content) \<le> pos" if "\<not> dir < 0" "length L \<le> i + 1"
  proof -
    have "Suc i = length L" using that(2) assms(2) by simp
    then have "End pt = int (length content)" using assms(3) posted(2) by (simp add: is_article_def true_start_def)
    then show ?thesis using that(1) assms(5,6) by (auto simp: classifyOffset_def split: if_splits)
  qed
  show ?thesis
    using first last n assms(2) locate_bound [OF assms(1), of pos]
    by (auto simp: nextCandidate_def split: option.splits if_splits)
qed

lemma locate_loop_ok:
  assumes "reader_ok r" "i < length L" "0 \<le> pos" "locate_loop env pos i tried r = (res, r')" "r_fetches r \<le> maxLocateFetches"
  shows "reader_ok r' \<and> r_pos r' = r_pos r \<and> r_clock r' \<le> r_clock r + (maxLocateFetches - r_fetches r) \<and>
    (case res of
       Inr (pt, j) \<Rightarrow> j < length L \<and> is_article L content j pt \<and> Begin pt - 1 \<le> pos \<and> pos < End pt
     | Inl e \<Rightarrow> e = CannotLocate \<or> (\<exists>f. e = FetchError f) \<or> e = EndOfFile \<and> int (length content) \<le> pos)"
  using assms
proof (induction "maxLocateFetches - r_fetches r" arbitrary: i tried r)
  case 0
  then have "locate_loop env pos i tried r = (Inl CannotLocate, r)" by (subst locate_loop.simps) simp
  then show ?case using 0 by simp
next
  case (Suc k)
  have lt: "\<not> maxLocateFetches \<le> r_fetches r" using Suc.hyps(2) by simp
  obtain fr r1 where f: "fetchArticle env i r = (fr, r1)" by force
  note fo = fetchArticle_ok [OF Suc.prems(1,2) f]
  have ff: "r_fetches r1 = r_fetches r" "r_clock r1 \<le> Suc (r_clock r)"
    using f by (auto simp: fetchArticle_def tick_def Let_def split: option.splits sum.splits)
  show ?case
  proof (cases fr)
    case (Inl e)
    then have "locate_loop env pos i tried r = (Inl (FetchError e), r1)"
      using f lt by (subst locate_loop.simps) simp
    then show ?thesis using Suc.prems fo ff lt by auto
  next
    case (Inr pt)
    let ?r = "r1\<lparr>r_ix := Observe (int i) (Some pt) (r_ix r1), r_fetches := Suc (r_fetches r)\<rparr>"
    have a: "is_article L content i pt" using fo Inr by blast
    have ro: "reader_ok ?r"
      using observe_ok [OF conjunct1 [OF fo] a Suc.prems(2)] by (rule reader_ok_cong) simp_all
    have step: "locate_loop env pos i tried r =
        (if classifyOffset pos pt = 0 then (Inr (pt, i), ?r)
         else case nextCandidate (r_ix ?r) pos i (classifyOffset pos pt) (i # tried) of
           Inl e \<Rightarrow> (Inl e, ?r) | Inr nxt \<Rightarrow> locate_loop env pos nxt (i # tried) ?r)"
      using f Inr lt by (subst locate_loop.simps) (simp add: Let_def)
    show ?thesis
    proof (cases "classifyOffset pos pt = 0")
      case True
      then have "res = Inr (pt, i)" "r' = ?r" using Suc.prems(4) step by auto
      then show ?thesis
        using True ro a fo Suc.prems(2) lt ff by (auto simp: classifyOffset_def article_start split: if_splits)
    next
      case False
      note nc = nextCandidate_ok [OF ro Suc.prems(2) a Suc.prems(3) refl False, of "i # tried"]
      show ?thesis
      proof (cases "nextCandidate (r_ix ?r) pos i (classifyOffset pos pt) (i # tried)")
        case (Inl e)
        then show ?thesis using Suc.prems(4) step False nc ro fo lt ff by auto
      next
        case (Inr nxt)
        have "locate_loop env pos nxt (i # tried) ?r = (res, r')" using Suc.prems(4) step False Inr by simp
        moreover have "nxt < length L" using nc Inr by simp
        ultimately have "reader_ok r' \<and> r_pos r' = r_pos ?r \<and> r_clock r' \<le> r_clock ?r + (maxLocateFetches - r_fetches ?r) \<and>
            (case res of
               Inr (pt, j) \<Rightarrow> j < length L \<and> is_article L content j pt \<and> Begin pt - 1 \<le> pos \<and> pos < End pt
             | Inl e \<Rightarrow> e = CannotLocate \<or> (\<exists>f. e = FetchError f) \<or> e = EndOfFile \<and> int (length content) \<le> pos)"
          using Suc.hyps ro Suc.prems(3) lt by (intro Suc.hyps(1)) auto
        moreover have "r_clock ?r + (maxLocateFetches - r_fetches ?r) \<le> r_clock r + (maxLocateFetches - r_fetches r)"
          using ff lt by simp
        ultimately show ?thesis using fo by simp
      qed
    qed
  qed
qed

lemma articleForOffset_ok:
  assumes "reader_ok r" "0 \<le> pos" "articleForOffset env pos r = (res, r')"
  shows "reader_ok r' \<and> r_pos r' = r_pos r \<and> r_clock r' \<le> r_clock r + maxLocateFetches \<and>
    (case res of
       Inr (pt, j) \<Rightarrow> j < length L \<and> is_article L content j pt \<and> Begin pt - 1 \<le> pos \<and> pos < End pt
     | Inl e \<Rightarrow> e = CannotLocate \<or> (\<exists>f. e = FetchError f) \<or>
         e = EndOfFile \<and> (int (length content) \<le> pos \<or> \<not> SizeExact (r_ix r) \<and> FileSize (r_ix r) \<le> pos))"
proof (cases "Locate (r_ix r) pos")
  case None
  have ok: "index_ok (r_ix r)" "SegmentCount (r_ix r) = length L" using assms(1) by (simp_all add: reader_ok_def sized_def)
  have "res = Inl EndOfFile \<and> r' = r" using assms(3) None by (simp add: articleForOffset_def split: if_splits)
  moreover have "FileSize (r_ix r) \<le> pos"
    using None assms(2) index_ranges.locate_total [OF ok(1), of pos] by auto
  ultimately show ?thesis using assms(1) exact_size [OF assms(1)] by (cases "SizeExact (r_ix r)") auto
next
  case (Some sbe)
  obtain seg b e where sbe: "sbe = (seg, b, e)" by (cases sbe) auto
  have seg: "seg < length L" using locate_bound [OF assms(1)] Some sbe by blast
  moreover have "SegmentCount (r_ix r) = length L" using assms(1) by (simp add: reader_ok_def sized_def)
  ultimately have loop: "locate_loop env pos seg [] (r\<lparr>r_fetches := 0\<rparr>) = (res, r')"
    using assms(3) Some sbe by (cases "L = []") (simp_all add: articleForOffset_def)
  have "reader_ok (r\<lparr>r_fetches := 0\<rparr>)" using assms(1) by (rule reader_ok_cong) simp_all
  from locate_loop_ok [OF this seg assms(2) loop] show ?thesis by (auto split: sum.splits)
qed

text \<open>One call of \<open>Read\<close>.\<close>

definition read_ok :: "nat \<Rightarrow> reader \<Rightarrow> bytes \<times> stream_err option \<times> reader \<Rightarrow> bool" where
  "read_ok n r res =
     (case res of (bs, err, r') \<Rightarrow>
        reader_ok r' \<and> r_pos r' = r_pos r + int (length bs) \<and> length bs \<le> n \<and>
        bs = take (length bs) (drop (nat (r_pos r)) content) \<and>
        r_clock r' \<le> r_clock r + maxLocateFetches + 1 \<and>
        (case err of
           None \<Rightarrow> 0 < n \<longrightarrow> bs \<noteq> []
         | Some e \<Rightarrow> bs = [] \<and>
             (e = EndOfFile \<and> (int (length content) \<le> r_pos r \<or> \<not> SizeExact (r_ix r) \<and> FileSize (r_ix r) \<le> r_pos r) \<or>
              e = CannotLocate \<or> e = ServedArticleFailed \<or> (\<exists>f. e = FetchError f))))"

lemma readahead_ok:
  assumes "reader_ok r"
  shows "reader_ok (readaheadOnArrival env r)" "r_pos (readaheadOnArrival env r) = r_pos r"
    "r_ix (readaheadOnArrival env r) = r_ix r" "r_clock (readaheadOnArrival env r) = r_clock r"
    "r_clock (triggerReadahead env i k r) = r_clock r" "reader_ok (triggerReadahead env i k r)" "r_pos (triggerReadahead env i k r) = r_pos r"
  using assms
  by (auto simp: readaheadOnArrival_def triggerReadahead_def Let_def reader_ok_def split: option.split)

lemma readArriving_ok:
  assumes "reader_ok r" "readArriving env n r = (res, r')"
  shows "reader_ok r' \<and> r_pos r' = r_pos r \<and> r_ix r' = r_ix r \<and> r_clock r' \<le> Suc (r_clock r) \<and>
    (case res of
       Inl e \<Rightarrow> e = ServedArticleFailed \<or> (\<exists>f. e = FetchError f)
     | Inr (Some bs) \<Rightarrow> length bs \<le> n \<and> (0 < n \<longrightarrow> bs \<noteq> []) \<and> bs = take (length bs) (drop (nat (r_pos r)) content)
     | Inr None \<Rightarrow> True)"
proof -
  have keep: "reader_ok (tick r)" using assms(1) by (rule reader_ok_cong) (simp_all add: tick_def)
  show ?thesis
  proof (cases "holds_pos (r_pos r) r")
    case True
    then show ?thesis using assms by (auto simp: readArriving_def)
  next
    case False
    show ?thesis
    proof (cases "Locate (r_ix r) (r_pos r)")
      case None
      then show ?thesis using assms False by (auto simp: readArriving_def)
    next
      case (Some sbe)
      obtain seg b e where sbe: "sbe = (seg, b, e)" by (cases sbe) auto
      have seg: "seg < length L" using locate_bound [OF assms(1)] Some sbe by blast
      let ?a = "env_await env (r_clock r) (ids ! seg) (r_pos r) n"
      have id: "sg_MessageID (Segment (r_ix r) seg) = ids ! seg" using ids_of_index [OF assms(1) seg] .
      have took: "reader_ok ((tick r)\<lparr>r_cur := Some pt, r_curID := ids ! seg, r_ra := ra\<rparr>)"
        if "\<And>j. j < length L \<Longrightarrow> ids ! j = ids ! seg \<Longrightarrow> is_article L content j pt" for pt ra
        using assms(1) that by (simp add: reader_ok_def tick_def)
      show ?thesis
      proof (cases "ids ! seg = r_curID r")
        case True
        then show ?thesis using assms False Some sbe id by (auto simp: readArriving_def)
      next
        case no_cur: False
        note u = assms(2) [unfolded readArriving_def]
        show ?thesis
        proof (cases ?a)
          case (ArrivedCached pt)
          have "reader_ok ((tick r)\<lparr>r_cur := Some pt, r_curID := ids ! seg, r_ra := (r_ra r)\<lparr>waited := False\<rparr>\<rparr>)"
            using took cached_true ArrivedCached by metis
          then show ?thesis
            using u False Some sbe id no_cur ArrivedCached by (auto simp: tick_def)
        next
          case (ArrivedFront bs)
          note ft = front_true [OF seg ArrivedFront]
          have r': "res = Inr (Some (take n bs))" "r' = tick r"
            using u False Some sbe id no_cur ArrivedFront by simp_all
          have "take n bs = take (length (take n bs)) (drop (nat (r_pos r)) content)"
            using ft by (metis length_take min.commute take_take)
          moreover have "length (take n bs) \<le> n" "0 < n \<longrightarrow> take n bs \<noteq> []" using ft by simp_all
          moreover have "r_pos (tick r) = r_pos r" "r_ix (tick r) = r_ix r" "r_clock (tick r) \<le> Suc (r_clock r)" by (simp_all add: tick_def)
          ultimately show ?thesis
            unfolding r' using keep by (simp only: sum.case option.case simp_thms)
        next
          case ArrivedOutside
          then show ?thesis using u False Some sbe id no_cur keep by (auto simp: tick_def)
        next
          case (ArrivedDone tainted dr)
          show ?thesis
          proof (cases dr)
            case (Inl e)
            then show ?thesis
              using u False Some sbe id no_cur keep ArrivedDone by (auto simp: tick_def split: if_splits)
          next
            case (Inr pt)
            have "reader_ok ((tick r)\<lparr>r_cur := Some pt, r_curID := ids ! seg, r_ra := (r_ra r)\<lparr>waited := env_slow env (r_clock r)\<rparr>\<rparr>)"
              using took done_true ArrivedDone Inr by metis
            then show ?thesis
              using u False Some sbe id no_cur keep ArrivedDone Inr by (auto simp: tick_def split: if_splits)
          qed
        next
          case ArrivedCancelled
          then show ?thesis using u False Some sbe id no_cur keep by (auto simp: tick_def)
        qed
      qed
    qed
  qed
qed

text \<open>Serving a slice of the content that starts at the position.\<close>

lemma advance_ok:
  assumes "reader_ok r" "bs = take (length bs) (drop (nat (r_pos r)) content)" "bs \<noteq> []"
  shows "i64 (r_pos r + int (length bs)) = r_pos r + int (length bs)" "reader_ok (r\<lparr>r_pos := r_pos r + int (length bs)\<rparr>)"
proof -
  have "length bs \<le> length content - nat (r_pos r)" by (subst assms(2)) simp
  moreover have "0 < length bs" "0 \<le> r_pos r" using assms(1,3) by (simp_all add: reader_ok_def)
  ultimately have "r_pos r + int (length bs) \<le> int (length content)" "0 \<le> r_pos r" by linarith+
  then show "i64 (r_pos r + int (length bs)) = r_pos r + int (length bs)"
    using posted(1,2) by (simp add: posting_ok_def i64_nonneg)
  show "reader_ok (r\<lparr>r_pos := r_pos r + int (length bs)\<rparr>)" using assms(1) by (simp add: reader_ok_def)
qed

lemma served_slice:
  assumes "is_article L content j pt" "j < length L" "Begin pt - 1 \<le> pos" "pos < End pt"
    and bs_def: "bs = take n (drop (nat (pos - (Begin pt - 1))) (Data pt))"
  shows "bs = take (length bs) (drop (nat pos) content)" "0 < n \<Longrightarrow> bs \<noteq> []"
proof -
  note a = article_data(3) [OF assms(1-4)]
  then have "bs = take n (take (nat (End pt) - nat pos) (drop (nat pos) content))" by (simp add: bs_def slice_def drop_take)
  then have "bs = take (min n (nat (End pt) - nat pos)) (drop (nat pos) content)" by simp
  then show "bs = take (length bs) (drop (nat pos) content)" by (rule take_self)
  show "0 < n \<Longrightarrow> bs \<noteq> []" using a by (auto simp: bs_def)
qed

lemma Read_ok:
  assumes "reader_ok r"
  shows "read_ok n r (Read env n r)"
proof (cases "n = 0 \<or> SizeExact (r_ix r) \<and> FileSize (r_ix r) \<le> r_pos r")
  case True
  then show ?thesis using assms exact_size [OF assms] by (auto simp: Read_def read_ok_def)
next
  case False
  define r0 where "r0 = readaheadOnArrival env r"
  have r0: "reader_ok r0" "r_pos r0 = r_pos r" "r_ix r0 = r_ix r" "r_clock r0 = r_clock r"
    using readahead_ok [OF assms] by (simp_all add: r0_def)
  obtain ra r1 where ra: "readArriving env n r0 = (ra, r1)" by force
  note ao = readArriving_ok [OF r0(1) ra]
  have n: "0 < n" using False by simp
  show ?thesis
  proof (cases ra)
    case (Inl e)
    then have "Read env n r = ([], Some e, r1)" using False ra by (auto simp: Read_def r0_def)
    then show ?thesis using ao Inl r0 by (auto simp: read_ok_def)
  next
    case (Inr ans)
    show ?thesis
    proof (cases ans)
      case (Some bs)
      have "bs = take (length bs) (drop (nat (r_pos r1)) content)" "bs \<noteq> []" using ao Inr Some n r0 by auto
      note adv = advance_ok [OF conjunct1 [OF ao] this]
      have "Read env n r = (bs, None, r1\<lparr>r_pos := i64 (r_pos r1 + int (length bs))\<rparr>)"
        using False ra Inr Some by (auto simp: Read_def r0_def)
      then show ?thesis unfolding adv(1) using adv(2) ao Inr Some r0 n by (auto simp: read_ok_def)
    next
      case None
      obtain af r2 where af: "articleForOffset env (r_pos r1) r1 = (af, r2)" by force
      have "0 \<le> r_pos r1" using ao by (simp add: reader_ok_def)
      note fo = articleForOffset_ok [OF conjunct1 [OF ao] this af]
      show ?thesis
      proof (cases af)
        case (Inl e)
        then have "Read env n r = ([], Some e, r2)" using False ra Inr None af by (auto simp: Read_def r0_def)
        then show ?thesis using ao fo Inl r0 by (auto simp: read_ok_def)
      next
        case (Inr p)
        obtain pt j where p: "p = (pt, j)" by (cases p)
        define r3 where "r3 = (if env_idle env (r_clock r) then r2\<lparr>r_ra := (r_ra r2)\<lparr>waited := False\<rparr>\<rparr> else r2)"
        have r3: "reader_ok r3" "r_pos r3 = r_pos r" "r_clock r3 = r_clock r2"
          using fo ao r0 by (auto simp: r3_def intro: reader_ok_cong)
        have pt: "is_article L content j pt" "j < length L" "Begin pt - 1 \<le> r_pos r" "r_pos r < End pt"
          using fo Inr p ao r0 by auto
        note d = article_data [OF pt(1,2)] and d3 = article_data(3) [OF pt]
        have off: "i64 (r_pos r3 - i64 (Begin pt - 1)) = r_pos r - (Begin pt - 1)"
          using d3 d(1) posting_len(2) [OF posted(1) pt(2)] by (simp add: article_start [OF pt(1)] r3 i64_nonneg)
        define bs where "bs = take n (drop (nat (r_pos r - (Begin pt - 1))) (Data pt))"
        have len: "length bs \<le> n" by (simp add: bs_def)
        have bs: "bs = take (length bs) (drop (nat (r_pos r3)) content)" "bs \<noteq> []"
          using served_slice(1) [OF pt bs_def] served_slice(2) [OF pt bs_def n] unfolding r3 .
        note adv = advance_ok [OF r3(1) bs(1,2)]
        have "Read env n r = (bs, None, triggerReadahead env j (length (Data pt)) (r3\<lparr>r_pos := i64 (r_pos r3 + int (length bs))\<rparr>))"
          using False ra \<open>ra = Inr ans\<close> None af Inr p d3 off
          by (auto simp: Read_def r0_def [symmetric] r3_def [symmetric] Let_def bs_def)
        then show ?thesis
          unfolding adv(1) using readahead_ok [OF adv(2)] bs len r3 ao fo r0 by (auto simp: read_ok_def)
      qed
    qed
  qed
qed

lemma ensureSizeExact_ok:
  assumes "reader_ok r" "ensureSizeExact env r = (err, r')"
  shows "reader_ok r' \<and> r_pos r' = r_pos r \<and> (err = None \<longrightarrow> FileSize (r_ix r') = int (length content)) \<and>
    (err = None \<longrightarrow> L \<noteq> [] \<longrightarrow> SizeExact (r_ix r'))"
proof (cases "SizeExact (r_ix r) \<or> SegmentCount (r_ix r) = 0")
  case True
  have "FileSize (r_ix r) = int (length content)" if "\<not> SizeExact (r_ix r)"
    using True that assms(1) posted(2)
    by (auto simp: reader_ok_def sized_def FileSize_def estimatedSize_def SizeExact_def)
  then show ?thesis using assms True exact_size by (auto simp: ensureSizeExact_def reader_ok_def sized_def)
next
  case False
  have n: "0 < length L" using False assms(1) by (auto simp: reader_ok_def sized_def)
  obtain fr r1 where f: "fetchArticle env 0 r = (fr, r1)" by force
  note fo = fetchArticle_ok [OF assms(1) n f]
  show ?thesis
  proof (cases fr)
    case (Inl e)
    then show ?thesis using assms(2) False f fo by (auto simp: ensureSizeExact_def)
  next
    case (Inr pt)
    have a: "is_article L content 0 pt" using fo Inr by blast
    have r': "err = None" "r' = r1\<lparr>r_ix := Observe 0 (Some pt) (r_ix r1)\<rparr>"
      using assms(2) False f Inr by (simp_all add: ensureSizeExact_def)
    have ok: "reader_ok r'" using observe_ok [OF conjunct1 [OF fo] a n] r' by simp
    moreover have "SizeExact (r_ix r')"
      using a n posting_len [OF posted(1) n] article_data(2) [OF a n] true_start_bounds(2) [OF posted(1), of 1] posted(2) False fo
      by (auto simp: r' Observe_def Let_def SizeExact_def is_article_def true_start_def)
    ultimately show ?thesis using exact_size [OF ok] r' fo by simp
  qed
qed

text \<open>\<open>Seek\<close> with a whence the reader knows and no failing fetch moves the position to where \<open>io.Seeker\<close> says; on an
  error the position stays.\<close>

definition seek_target :: "int \<Rightarrow> whence \<Rightarrow> reader \<Rightarrow> int" where
  "seek_target offset wh r =
     (case wh of SeekStart \<Rightarrow> offset | SeekCurrent \<Rightarrow> i64 (r_pos r + offset) | _ \<Rightarrow> i64 (int (length content) + offset))"

lemma seek_to_ok:
  assumes "reader_ok r" "seek_to dest r = (res, r')"
  shows "reader_ok r' \<and>
    (case res of Inr p \<Rightarrow> p = dest \<and> 0 \<le> dest \<and> r_pos r' = dest | Inl e \<Rightarrow> e = NegativePosition \<and> dest < 0 \<and> r_pos r' = r_pos r)"
  using assms by (auto simp: seek_to_def reader_ok_def split: if_splits)

lemma Seek_ok:
  assumes "reader_ok r" "Seek env offset wh r = (res, r')"
  shows "reader_ok r' \<and>
    (case res of
       Inr p \<Rightarrow> p = seek_target offset wh r \<and> wh \<noteq> OtherWhence \<and> 0 \<le> p \<and> r_pos r' = p
     | Inl e \<Rightarrow> r_pos r' = r_pos r)"
proof (cases wh)
  case SeekEnd
  obtain err r1 where e: "ensureSizeExact env r = (err, r1)" by force
  note eo = ensureSizeExact_ok [OF assms(1) e]
  show ?thesis
    using assms(2) SeekEnd e eo seek_to_ok [OF conjunct1 [OF eo], of "i64 (FileSize (r_ix r1) + offset)" res r']
    by (cases err) (auto simp: Seek_def seek_target_def split: sum.splits)
qed (use assms seek_to_ok [OF assms(1), of offset res r'] seek_to_ok [OF assms(1), of "i64 (r_pos r + offset)" res r']
     in \<open>auto simp: Seek_def seek_target_def split: sum.splits\<close>)

lemma after_calls_ok: "reader_ok r \<Longrightarrow> reader_ok (after_calls env cs r)"
proof (induction cs arbitrary: r)
  case (Cons c cs)
  show ?case
  proof (cases c)
    case (CallRead n)
    then show ?thesis using Cons Read_ok [OF Cons.prems, of n] by (cases "Read env n r") (auto simp: read_ok_def)
  next
    case (CallSeek off wh)
    then show ?thesis using Cons Seek_ok [OF Cons.prems] by (cases "Seek env off wh r") auto
  qed
qed simp

lemma reader_ok_index: "reader_ok r \<Longrightarrow> reader_ok ((openReader (r_ix r))\<lparr>r_clock := t\<rparr>)"
  by (simp add: reader_ok_def openReader_def)

text \<open>A reader that knows the end of its file.\<close>

lemma Seek_end:
  assumes "reader_ok r" "L \<noteq> []" "Seek env 0 SeekEnd r = (Inr p, r')"
  shows "reader_ok r' \<and> SizeExact (r_ix r') \<and> p = int (length content)"
proof -
  obtain err r1 where e: "ensureSizeExact env r = (err, r1)" by force
  note eo = ensureSizeExact_ok [OF assms(1) e]
  have n: "err = None" "seek_to (i64 (FileSize (r_ix r1))) r1 = (Inr p, r')"
    using assms(3) e by (cases err; simp add: Seek_def)+
  then have "r_ix r' = r_ix r1" "p = i64 (int (length content))"
    using eo by (auto simp: seek_to_def split: if_splits)
  then show ?thesis
    using Seek_ok [OF assms(1,3)] eo n(1) assms(2) posted(1,2) by (simp add: i64_nonneg posting_ok_def)
qed

lemma openReader_ok:
  assumes "map sg_MessageID (ix_segs (NewOffsetIndex shuffle f)) = ids"
  shows "reader_ok (openReader (NewOffsetIndex shuffle f))"
proof -
  have "SegmentCount (NewOffsetIndex shuffle f) = length L"
    using arg_cong [OF assms, of length] posted(3) by (simp add: SegmentCount_def)
  then show ?thesis
    using assms NewOffsetIndex_homing by (simp add: reader_ok_def sized_def openReader_def NewOffsetIndex_ok NewOffsetIndex_sel)
qed

end

section \<open>A posted file\<close>

text \<open>
  A file posted in several articles: its name, and the message-id and the data of each. Article \<open>i\<close> is the yEnc encoding
  of its data as part \<open>i + 1\<close>.
\<close>

definition posting_wf :: "bytes \<times> (bytes \<times> bytes) list \<Rightarrow> bool" where
  "posting_wf = (\<lambda>(name, arts). encodable_name name \<and> 1 < length arts \<and> int (length arts) \<le> max_i64 \<and> distinct (map fst arts) \<and>
     (\<forall>a \<in> set arts. snd a \<noteq> []) \<and> int (length (concat (map snd arts))) \<le> max_i64)"

typedef posting = "{P. posting_wf P}"
proof
  show "([], [([0], [0]), ([1], [1])]) \<in> {P. posting_wf P}"
    by (simp add: posting_wf_def encodable_name_def trimmed_def space_seqs_def max_token_def upt_rec)
qed

definition posting_name :: "posting \<Rightarrow> bytes" where
  "posting_name P = fst (Rep_posting P)"

definition posting_articles :: "posting \<Rightarrow> (bytes \<times> bytes) list" where
  "posting_articles P = snd (Rep_posting P)"

definition posting_ids :: "posting \<Rightarrow> bytes list" where
  "posting_ids P = map fst (posting_articles P)"

definition posting_content :: "posting \<Rightarrow> bytes" where
  "posting_content P = concat (map snd (posting_articles P))"

definition posting_lens :: "posting \<Rightarrow> int list" where
  "posting_lens P = map (\<lambda>a. int (length (snd a))) (posting_articles P)"

lemma posting_facts:
  "encodable_name (posting_name P)" "1 < length (posting_articles P)" "int (length (posting_articles P)) \<le> max_i64"
  "distinct (posting_ids P)" "a \<in> set (posting_articles P) \<Longrightarrow> snd a \<noteq> []" "int (length (posting_content P)) \<le> max_i64"
  using Rep_posting [of P]
  by (auto simp: posting_wf_def posting_ids_def posting_content_def posting_name_def posting_articles_def case_prod_beta)

lemma posting_len_ok:
  "sum_list (posting_lens P) = int (length (posting_content P))" "posting_ok (posting_lens P)"
  "length (posting_lens P) = length (posting_articles P)" "length (posting_ids P) = length (posting_articles P)"
proof -
  show s: "sum_list (posting_lens P) = int (length (posting_content P))"
    by (simp add: posting_lens_def posting_content_def length_concat sum_list_of_nat [symmetric] o_def)
  show "posting_ok (posting_lens P)"
    unfolding posting_ok_def s using posting_facts(5,6) by (auto simp: posting_lens_def)
qed (simp_all add: posting_lens_def posting_ids_def)

text \<open>Article \<open>i\<close> covers its own stretch of the content.\<close>

lemma posting_starts:
  assumes "i < length (posting_articles P)"
  shows "nat (true_start (posting_lens P) i) = length (concat (map snd (take i (posting_articles P))))"
    "true_start (posting_lens P) (Suc i) = true_start (posting_lens P) i + int (length (snd (posting_articles P ! i)))"
    "slice (posting_content P) (nat (true_start (posting_lens P) i)) (nat (true_start (posting_lens P) (Suc i))) =
       snd (posting_articles P ! i)"
proof -
  let ?A = "posting_articles P"
  have t: "true_start (posting_lens P) j = int (length (concat (map snd (take j ?A))))" for j
    by (simp add: true_start_def posting_lens_def take_map length_concat sum_list_of_nat [symmetric] o_def)
  show "nat (true_start (posting_lens P) i) = length (concat (map snd (take i ?A)))" by (simp add: t)
  show "true_start (posting_lens P) (Suc i) = true_start (posting_lens P) i + int (length (snd (?A ! i)))"
    unfolding t using assms by (simp add: take_Suc_conv_app_nth)
  have "?A = take i ?A @ ?A ! i # drop (Suc i) ?A" using assms by (simp add: id_take_nth_drop)
  then have "posting_content P = concat (map snd (take i ?A)) @ snd (?A ! i) @ concat (map snd (drop (Suc i) ?A))"
    unfolding posting_content_def by (metis concat.simps(2) concat_append list.simps(9) map_append)
  then show "slice (posting_content P) (nat (true_start (posting_lens P) i)) (nat (true_start (posting_lens P) (Suc i))) = snd (?A ! i)"
    unfolding t using assms by (simp add: slice_def take_Suc_conv_app_nth)
qed

definition posted_article :: "posting \<Rightarrow> nat \<Rightarrow> bytes" where
  "posted_article P i =
     Encode (posting_name P) (int i + 1) (int (length (posting_articles P))) (true_start (posting_lens P) i + 1)
       (true_start (posting_lens P) (Suc i)) (int (length (posting_content P))) (snd (posting_articles P ! i))"

lemma posted_article_Decode:
  assumes "i < length (posting_articles P)"
  shows "\<exists>pt. Decode (posted_article P i) = Inr pt \<and> is_article (posting_lens P) (posting_content P) i pt"
proof -
  note s = posting_starts [OF assms]
  have ne: "snd (posting_articles P ! i) \<noteq> []" using assms posting_facts(5) nth_mem by blast
  have b: "0 \<le> true_start (posting_lens P) i" "true_start (posting_lens P) (Suc i) \<le> int (length (posting_content P))"
    using true_start_bounds [OF posting_len_ok(2)] posting_len_ok(1) by metis+
  have "Decode (posted_article P i) = Inr
      \<lparr>Name = posting_name P, Number = int i + 1, Total = int (length (posting_articles P)), Begin = true_start (posting_lens P) i + 1,
       End = true_start (posting_lens P) (Suc i), Size = int (length (posting_content P)),
       CRC32 = ChecksumIEEE (snd (posting_articles P ! i)), Data = snd (posting_articles P ! i)\<rparr>"
    unfolding posted_article_def
    using assms posting_facts(2,3,6) [of P] ne b s(2) by (intro Decode_Encode_part [OF posting_facts(1)]) auto
  then show ?thesis using s(3) by (simp add: is_article_def)
qed

text \<open>
  The environment of a reader over the posting: at every moment a load may fail, and a wait may end in any of its ways; but
  what comes back of an article is what its encoding decodes to, and a front is a stretch of it.
\<close>

datatype wait_choice = WaitCached | WaitFront nat | WaitOutside | WaitDone bool | WaitCancelled

definition article_of :: "posting \<Rightarrow> bytes \<Rightarrow> nat option" where
  "article_of P mid = find (\<lambda>i. posting_ids P ! i = mid) [0..<length (posting_ids P)]"

definition posted_load :: "posting \<Rightarrow> (nat \<Rightarrow> fetch_err option) \<Rightarrow> nat \<Rightarrow> bytes \<Rightarrow> fetch_err + part" where
  "posted_load P fault t mid =
     (case fault t of Some e \<Rightarrow> Inl e
      | None \<Rightarrow>
          (case article_of P mid of
             None \<Rightarrow> Inl (Unavailable False)
           | Some i \<Rightarrow> (case Decode (posted_article P i) of Inl _ \<Rightarrow> Inl FetchFailed | Inr pt \<Rightarrow> Inr pt)))"

definition posted_await ::
  "posting \<Rightarrow> (nat \<Rightarrow> fetch_err option) \<Rightarrow> (nat \<Rightarrow> wait_choice) \<Rightarrow> nat \<Rightarrow> bytes \<Rightarrow> int \<Rightarrow> nat \<Rightarrow> arrival_answer" where
  "posted_await P fault pick t mid pos n =
     (case posted_load P fault t mid of
        Inl e \<Rightarrow> ArrivedDone False (Inl e)
      | Inr pt \<Rightarrow>
          (case pick t of
             WaitCached \<Rightarrow> ArrivedCached pt
           | WaitFront k \<Rightarrow>
               if Begin pt - 1 \<le> pos \<and> pos < End pt
               then ArrivedFront (take (Suc k) (drop (nat (pos - (Begin pt - 1))) (Data pt))) else ArrivedOutside
           | WaitOutside \<Rightarrow> ArrivedOutside
           | WaitDone tainted \<Rightarrow> ArrivedDone tainted (Inr pt)
           | WaitCancelled \<Rightarrow> ArrivedCancelled))"

definition posted_env :: "posting \<Rightarrow> (nat \<Rightarrow> fetch_err option) \<Rightarrow> (nat \<Rightarrow> wait_choice) \<Rightarrow> reader_env \<Rightarrow> reader_env" where
  "posted_env P fault pick env = env\<lparr>env_load := posted_load P fault, env_await := posted_await P fault pick\<rparr>"

lemma article_of_id:
  assumes "i < length (posting_ids P)"
  shows "article_of P (posting_ids P ! i) = Some i"
  using assms posting_facts(4) [of P] by (auto simp: article_of_def find_Some_iff nth_eq_iff_index_eq)

lemma posted_load_true:
  assumes "i < length (posting_lens P)" "posted_load P fault t (posting_ids P ! i) = Inr pt"
  shows "is_article (posting_lens P) (posting_content P) i pt"
  using assms article_of_id [of i P] posted_article_Decode [of i P] posting_len_ok [of P]
  by (auto simp: posted_load_def split: option.splits sum.splits)

text \<open>The bytes at the position, out of an article that covers it.\<close>

lemma article_front:
  assumes "is_article L content i pt" "Begin pt - 1 \<le> pos" "pos < End pt" "0 \<le> true_start L i" "End pt \<le> int (length content)"
  shows "take (Suc k) (drop (nat (pos - (Begin pt - 1))) (Data pt)) =
    take (min (Suc k) (nat (End pt) - nat pos)) (drop (nat pos) content)"
  using assms by (auto simp: is_article_def slice_def drop_take add.commute nat_diff_distrib min.commute)

interpretation posted: article_source "posted_env P fault pick env" "posting_lens P" "posting_content P" "posting_ids P"
  for P fault pick env
proof
  fix i t pt
  assume i: "i < length (posting_lens P)"
  let ?env = "posted_env P fault pick env"
  show "is_article (posting_lens P) (posting_content P) i pt" if "env_load ?env t (posting_ids P ! i) = Inr pt"
    using posted_load_true [OF i] that by (simp add: posted_env_def)
  fix pos n
  show "is_article (posting_lens P) (posting_content P) i pt" if "env_await ?env t (posting_ids P ! i) pos n = ArrivedCached pt"
    using posted_load_true [OF i] that
    by (auto simp: posted_env_def posted_await_def split: sum.splits wait_choice.splits if_splits)
  show "is_article (posting_lens P) (posting_content P) i pt"
    if "env_await ?env t (posting_ids P ! i) pos n = ArrivedDone tainted (Inr pt)" for tainted
    using posted_load_true [OF i] that
    by (auto simp: posted_env_def posted_await_def split: sum.splits wait_choice.splits if_splits)
  show "bs \<noteq> [] \<and> bs = take (length bs) (drop (nat pos) (posting_content P))"
    if await: "env_await ?env t (posting_ids P ! i) pos n = ArrivedFront bs" for bs
  proof -
    obtain q k where q: "posted_load P fault t (posting_ids P ! i) = Inr q" "Begin q - 1 \<le> pos" "pos < End q"
        "bs = take (Suc k) (drop (nat (pos - (Begin q - 1))) (Data q))"
      using await by (auto simp: posted_env_def posted_await_def split: sum.splits wait_choice.splits if_splits)
    have a: "is_article (posting_lens P) (posting_content P) i q" using posted_load_true [OF i q(1)] .
    have s: "0 \<le> true_start (posting_lens P) i" "End q \<le> int (length (posting_content P))"
      using true_start_bounds [OF posting_len_ok(2)] posting_len_ok(1) a unfolding is_article_def by metis+
    have bs: "bs = take (min (Suc k) (nat (End q) - nat pos)) (drop (nat pos) (posting_content P))"
      using article_front [OF a q(2,3) s] q(4) by simp
    have "bs \<noteq> []" using bs q(2,3) s a by (auto simp: is_article_def)
    then show ?thesis using take_self [OF bs] by blast
  qed
qed (simp_all add: posting_len_ok)

lemma open_posted:
  "map sg_MessageID (ix_segs (NewOffsetIndex shuffle f)) = posting_ids P \<Longrightarrow>
   posted.reader_ok P (after_calls (posted_env P fault pick env) cs (openReader (NewOffsetIndex shuffle f)))"
  by (intro posted.after_calls_ok posted.openReader_ok)

text \<open>
  C35. A reader over a posted file serves that file, whatever the encoded sizes the NZB claims, whatever was read and sought
  before, and however the loads and the arriving articles behave. Every \<open>Read\<close> into \<open>n\<close> bytes returns a
  stretch of the content from the position on, at most \<open>n\<close> bytes and at least one unless it fails, and moves the
  position past it. A failed \<open>Read\<close> serves nothing; it reports the end of the file only at or after the end, or, while no
  article was seen, at or after the estimated end. One \<open>Read\<close> asks for at most 17 articles.
\<close>

theorem Read_serves_the_file:
  assumes "map sg_MessageID (ix_segs (NewOffsetIndex shuffle f)) = posting_ids P"
  shows "let E = posted_env P fault pick env; r = after_calls E calls (openReader (NewOffsetIndex shuffle f)) in
    case Read E n r of (bs, err, r') \<Rightarrow>
      length bs \<le> n \<and> bs = take (length bs) (drop (nat (r_pos r)) (posting_content P)) \<and>
      r_pos r' = r_pos r + int (length bs) \<and> r_clock r' \<le> r_clock r + 17 \<and>
      (case err of
         None \<Rightarrow> n = 0 \<or> bs \<noteq> []
       | Some e \<Rightarrow> bs = [] \<and>
           (e = EndOfFile \<and> (int (length (posting_content P)) \<le> r_pos r \<or> \<not> SizeExact (r_ix r) \<and> FileSize (r_ix r) \<le> r_pos r) \<or>
            e = CannotLocate \<or> e = ServedArticleFailed \<or> (\<exists>x. e = FetchError x)))"
proof -
  let ?E = "posted_env P fault pick env"
  let ?r = "after_calls ?E calls (openReader (NewOffsetIndex shuffle f))"
  have "posted.read_ok P n ?r (Read ?E n ?r)" using open_posted [OF assms] by (rule posted.Read_ok)
  then show ?thesis
    by (auto simp: posted.read_ok_def Let_def maxLocateFetches_def split: option.splits)
qed

definition sample_articles :: "bytes \<times> (bytes \<times> bytes) list" where
  "sample_articles = (str ''a.mkv'', [([97], [10, 20]), ([98], [30, 40]), ([99], [50])])"

lemma sample_articles_wf: "posting_wf sample_articles"
  by (simp add: sample_articles_def posting_wf_def encodable_name_def trimmed_def space_seqs_def max_token_def upt_rec)

lemma sample_articles_ids:
  "map sg_MessageID (ix_segs (NewOffsetIndex id sample_posting)) = posting_ids (Abs_posting sample_articles)"
proof -
  have "map sg_MessageID (ix_segs (NewOffsetIndex id sample_posting)) = [[97], [98], [99]]" by code_simp
  then show ?thesis
    using sample_articles_wf by (simp add: posting_ids_def posting_articles_def Abs_posting_inverse sample_articles_def)
qed

definition sample_env :: reader_env where
  "sample_env = \<lparr>env_load = \<lambda>_ _. Inl FetchFailed, env_await = \<lambda>_ _ _ _. ArrivedCancelled, env_slow = \<lambda>_. False,
     env_idle = \<lambda>_. False, env_budget = \<lambda>_ _. 0, env_pool = Some 8\<rparr>"

theorem Read_serves_the_file_witness:
  "let E = posted_env (Abs_posting sample_articles) (\<lambda>_. None) (\<lambda>_. WaitOutside) sample_env;
       r = after_calls E [CallSeek 3 SeekStart] (openReader (NewOffsetIndex id sample_posting)) in
   case Read E 5 r of (bs, err, r') \<Rightarrow>
     length bs \<le> 5 \<and> bs = take (length bs) (drop 3 (posting_content (Abs_posting sample_articles))) \<and> r_pos r' = 3 + int (length bs)"
proof -
  let ?E = "posted_env (Abs_posting sample_articles) (\<lambda>_. None) (\<lambda>_. WaitOutside) sample_env"
  let ?r = "after_calls ?E [CallSeek 3 SeekStart] (openReader (NewOffsetIndex id sample_posting))"
  have "r_pos ?r = 3" by (simp add: Seek_def seek_to_def)
  then show ?thesis
    using Read_serves_the_file [OF sample_articles_ids, of "\<lambda>_. None" "\<lambda>_. WaitOutside" sample_env "[CallSeek 3 SeekStart]" 5]
    unfolding Let_def by (auto split: prod.splits)
qed

end
