(* ===== verification/Stream_Locate_Props.thy ===== *)
theory Stream_Locate_Props
  imports Stream_Reader_Props
begin

text \<open>
  How fast the reader homes in on the article of a read position: in a uniform posting whose articles can be fetched, three
  articles are always enough, so \<open>Read\<close> never runs into its cap on fetches.
\<close>

definition covers :: "int list \<Rightarrow> int \<Rightarrow> nat \<Rightarrow> bool" where
  "covers L pos j \<longleftrightarrow> j < length L \<and> true_start L j \<le> pos \<and> pos < true_start L (Suc j)"

section \<open>What an index goes through\<close>

text \<open>The calls of a reader change its index by observations only, so they keep the estimates, and a size known to be exact.\<close>

inductive learned :: "offset_index \<Rightarrow> offset_index \<Rightarrow> bool" for ix where
  learned_refl: "learned ix ix"
| learned_step: "learned ix ix' \<Longrightarrow> learned ix (Observe k p ix')"

lemma learned_estLen: "learned ix ix' \<Longrightarrow> estLen ix' = estLen ix"
  by (induction rule: learned.induct) simp_all

lemma Observe_exact: "sizeExact ix \<Longrightarrow> sizeExact (Observe k p ix)"
  by (auto simp: Observe_def Let_def split: option.split)

lemma learned_exact: "learned ix ix' \<Longrightarrow> sizeExact ix \<Longrightarrow> sizeExact ix'"
  by (induction rule: learned.induct) (simp_all add: Observe_exact)

lemma learned_trans: "learned ix' ix'' \<Longrightarrow> learned ix ix' \<Longrightarrow> learned ix ix''"
  by (induction rule: learned.induct) (auto intro: learned.intros)

definition ix_after :: "reader \<Rightarrow> reader \<Rightarrow> bool" where
  "ix_after r r' \<longleftrightarrow> learned (r_ix r) (r_ix r')"

lemma ix_after_same: "r_ix r' = r_ix r \<Longrightarrow> ix_after r r'"
  by (simp add: ix_after_def learned_refl)

lemma ix_after_trans: "ix_after r r' \<Longrightarrow> ix_after r' r'' \<Longrightarrow> ix_after r r''"
  by (auto simp: ix_after_def intro: learned_trans)

lemma fetchArticle_ix: "fetchArticle env i r = (res, r') \<Longrightarrow> r_ix r' = r_ix r"
  by (auto simp: fetchArticle_def tick_def Let_def split: option.splits sum.splits)

lemma locate_loop_ix: "ix_after r (snd (locate_loop env pos i tried r))"
proof (induction env pos i tried r rule: locate_loop.induct)
  case (1 env pos i tried r)
  obtain fr r1 where f: "fetchArticle env i r = (fr, r1)" by force
  have ix: "r_ix r1 = r_ix r" using fetchArticle_ix [OF f] .
  show ?case
  proof (cases fr)
    case (Inl e)
    then show ?thesis using f ix by (subst locate_loop.simps) (simp add: ix_after_same)
  next
    case (Inr pt)
    let ?r = "r1\<lparr>r_ix := Observe (int i) (Some pt) (r_ix r1), r_fetches := Suc (r_fetches r)\<rparr>"
    have o: "ix_after r ?r" using ix learned_step [OF learned_refl] by (simp add: ix_after_def)
    have "ix_after r (snd (locate_loop env pos nxt (i # tried) ?r))" 
      if "\<not> maxLocateFetches \<le> r_fetches r" "classifyOffset pos pt \<noteq> 0"
        "nextCandidate (r_ix ?r) pos i (classifyOffset pos pt) (i # tried) = Inr nxt" for nxt
      using 1 [OF that(1) f [symmetric] Inr refl refl that(2,3)] ix_after_trans [OF o] by blast
    then show ?thesis
      using f Inr o by (subst locate_loop.simps) (simp add: Let_def ix_after_same split: sum.split)
  qed
qed

lemma articleForOffset_ix: "ix_after r (snd (articleForOffset env pos r))"
  using locate_loop_ix [of "r\<lparr>r_fetches := 0\<rparr>" env pos _ "[]"]
  by (auto simp: articleForOffset_def ix_after_def learned_refl split: option.split)

lemma readArriving_ix: "r_ix (snd (readArriving env n r)) = r_ix r"
  by (auto simp: readArriving_def tick_def Let_def split: option.split arrival_answer.split sum.split)

lemma readahead_ix: "r_ix (readaheadOnArrival env r) = r_ix r" "r_ix (triggerReadahead env i k r) = r_ix r"
  by (auto simp: readaheadOnArrival_def triggerReadahead_def Let_def split: option.split)

lemma Read_ix: "ix_after r (snd (snd (Read env n r)))"
proof -
  obtain a r1 where a: "readArriving env n (readaheadOnArrival env r) = (a, r1)" by force
  obtain b r2 where b: "articleForOffset env (r_pos r1) r1 = (b, r2)" by force
  have "r_ix r1 = r_ix r" using readArriving_ix [of env n "readaheadOnArrival env r"] a by (simp add: readahead_ix)
  then have e: "learned (r_ix r) (r_ix r1)" "learned (r_ix r) (r_ix r2)"
    using articleForOffset_ix [of r1 env "r_pos r1"] b by (simp_all add: ix_after_def learned_refl)
  show ?thesis
    using a b e by (auto simp: Read_def Let_def ix_after_def readahead_ix learned_refl split: sum.split option.split)
qed

lemma seek_to_ix [simp]: "r_ix (snd (seek_to d r)) = r_ix r"
  by (simp add: seek_to_def)

lemma Seek_ix: "ix_after r (snd (Seek env off wh r))"
proof -
  obtain fr r1 where f: "fetchArticle env 0 r = (fr, r1)" by force
  have "ix_after r (snd (ensureSizeExact env r))"
    using fetchArticle_ix [OF f] f learned_step [OF learned_refl, of "r_ix r" 0]
    by (auto simp: ensureSizeExact_def ix_after_def learned_refl split: sum.split)
  then show ?thesis
    by (auto simp: Seek_def ix_after_def learned_refl split: whence.split prod.split option.split)
qed

lemma after_calls_ix: "ix_after r (after_calls env cs r)"
  by (induction env cs r rule: after_calls.induct)
    (auto intro: ix_after_same ix_after_trans [OF Read_ix] ix_after_trans [OF Seek_ix])

section \<open>Convergence\<close>

context article_source
begin

definition serving :: bool where
  "serving \<longleftrightarrow> (\<forall>t. \<forall>i < length L. \<exists>pt. env_load env t (ids ! i) = Inr pt)"

lemma classify_covers:
  assumes "is_article L content i pt" "i < length L"
  shows "(classifyOffset pos pt = 0) = covers L pos i"
    "classifyOffset pos pt = (if pos < true_start L i then - 1 else if true_start L (Suc i) \<le> pos then 1 else 0)"
  using article_start [OF assms(1)] assms by (auto simp: classifyOffset_def covers_def is_article_def)

lemma true_start_mono: "i \<le> j \<Longrightarrow> true_start L i \<le> true_start L j"
proof (induction rule: dec_induct)
  case (step j)
  show ?case
  proof (cases "j < length L")
    case True
    then show ?thesis using step posting_len(1) [OF posted(1) True] by (simp add: true_start_Suc)
  qed (use step in \<open>simp add: true_start_def\<close>)
qed simp

text \<open>The article that covers the position lies on the side the classification names.\<close>

lemma covers_side:
  assumes "covers L pos j" "i < length L" "is_article L content i pt" "classifyOffset pos pt \<noteq> 0"
  shows "j \<noteq> i \<and> (if classifyOffset pos pt < 0 then j < i else i < j \<and> 0 < classifyOffset pos pt)"
proof (cases "pos < true_start L i")
  case True
  then have "\<not> i \<le> j" using assms(1) true_start_mono [of i j] by (auto simp: covers_def)
  then show ?thesis using True classify_covers(2) [OF assms(3,2)] by simp
next
  case False
  then have "true_start L (Suc i) \<le> pos" "classifyOffset pos pt = 1"
    using assms(4) classify_covers(2) [OF assms(3,2), of pos] by (auto split: if_splits)
  moreover from this have "\<not> j \<le> i" using assms(1) true_start_mono [of "Suc j" "Suc i"] by (auto simp: covers_def)
  ultimately show ?thesis by simp
qed

text \<open>One round of the loop in a posting that serves.\<close>

lemma locate_round:
  assumes "reader_ok r" "serving" "i < length L" "r_fetches r < maxLocateFetches"
  obtains pt r2 where
    "is_article L content i pt" "reader_ok r2" "r_clock r2 \<le> Suc (r_clock r)" "r_fetches r2 = Suc (r_fetches r)"
    "r_ix r2 = Observe (int i) (Some pt) (r_ix r)"
    "locate_loop env pos i tried r =
       (if covers L pos i then (Inr (pt, i), r2)
        else case nextCandidate (r_ix r2) pos i (classifyOffset pos pt) (i # tried) of
          Inl e \<Rightarrow> (Inl e, r2) | Inr nxt \<Rightarrow> locate_loop env pos nxt (i # tried) r2)"
proof -
  obtain fr r1 where f: "fetchArticle env i r = (fr, r1)" by force
  note fo = fetchArticle_ok [OF assms(1,3) f]
  obtain pt where fr: "fr = Inr pt"
    using f assms(2,3) ids_of_index [OF assms(1,3)]
    by (fastforce simp: fetchArticle_def serving_def Let_def split: option.splits sum.splits)
  have a: "is_article L content i pt" using fo fr by blast
  have c: "r_fetches r1 = r_fetches r" "r_clock r1 \<le> Suc (r_clock r)"
    using f by (auto simp: fetchArticle_def tick_def Let_def split: option.splits sum.splits)
  let ?r = "r1\<lparr>r_ix := Observe (int i) (Some pt) (r_ix r1), r_fetches := Suc (r_fetches r)\<rparr>"
  have "reader_ok ?r"
    using observe_ok [OF conjunct1 [OF fo] a assms(3)] by (rule reader_ok_cong) simp_all
  moreover have "locate_loop env pos i tried r =
       (if covers L pos i then (Inr (pt, i), ?r)
        else case nextCandidate (r_ix ?r) pos i (classifyOffset pos pt) (i # tried) of
          Inl e \<Rightarrow> (Inl e, ?r) | Inr nxt \<Rightarrow> locate_loop env pos nxt (i # tried) ?r)"
    using f fr assms(4) classify_covers(1) [OF a assms(3)] by (subst locate_loop.simps) (simp add: Let_def)
  ultimately show thesis using that [OF a, of ?r] c fo by simp
qed

text \<open>From the covering article it is one fetch.\<close>

lemma locate_land:
  assumes "reader_ok r" "serving" "covers L pos j" "r_fetches r < maxLocateFetches"
  shows "\<exists>pt r'. locate_loop env pos j tried r = (Inr (pt, j), r') \<and> r_clock r' \<le> r_clock r + 1"
proof -
  have "j < length L" using assms(3) by (simp add: covers_def)
  then show ?thesis using locate_round [OF assms(1,2) _ assms(4), of j pos tried] assms(3) by (metis Suc_eq_plus1)
qed

text \<open>From an article that is not the last it is at most two: seeing it anchors the index.\<close>

lemma locate_anchor:
  assumes "reader_ok r" "serving" "uniform_shape (estLen (r_ix r)) L" "Suc i < length L" "r_fetches r + 1 < maxLocateFetches"
    and "0 \<le> pos" "pos < sum_list L" "\<forall>t \<in> set tried. \<not> covers L pos t"
  shows "\<exists>pt j r'. locate_loop env pos i tried r = (Inr (pt, j), r') \<and> covers L pos j \<and> r_clock r' \<le> r_clock r + 2"
proof -
  have il: "i < length L" "r_fetches r < maxLocateFetches" using assms(4,5) by simp_all
  obtain pt r2 where l: "is_article L content i pt" "reader_ok r2" "r_clock r2 \<le> Suc (r_clock r)" "r_fetches r2 = Suc (r_fetches r)"
    "r_ix r2 = Observe (int i) (Some pt) (r_ix r)"
    "locate_loop env pos i tried r =
       (if covers L pos i then (Inr (pt, i), r2)
        else case nextCandidate (r_ix r2) pos i (classifyOffset pos pt) (i # tried) of
          Inl e \<Rightarrow> (Inl e, r2) | Inr nxt \<Rightarrow> locate_loop env pos nxt (i # tried) r2)"
    using locate_round [OF assms(1,2) il] by metis
  show ?thesis
  proof (cases "covers L pos i")
    case False
    have h: "homing L (r_ix r)" using assms(1,3) by (simp add: reader_ok_def)
    note o = Observe_homing [OF h assms(3) posted(1) article_truthful [OF l(1)] il(1) article_size [OF l(1) il(1)]]
    obtain j b e where j: "Locate (r_ix r2) pos = Some (j, b, e)" "covers L pos j"
      using anchored_locates [of L "r_ix r2" pos] o assms(3,4,6,7) posted(1) l(5) by (auto simp: covers_def)
    have "classifyOffset pos pt \<noteq> 0" using classify_covers(1) [OF l(1) il(1)] False by simp
    from covers_side [OF j(2) il(1) l(1) this]
    have "nextCandidate (r_ix r2) pos i (classifyOffset pos pt) (i # tried) = Inr j"
      using j assms(8) by (auto simp: nextCandidate_def split: if_splits)
    moreover have "r_fetches r2 < maxLocateFetches" using l(4) assms(5) by simp
    ultimately show ?thesis using locate_land [OF l(2) assms(2) j(2), of "i # tried"] l(3,6) False j(2) by fastforce
  qed (use l in auto)
qed

text \<open>From the last article at most three.\<close>

lemma locate_converges:
  assumes "reader_ok r" "serving" "uniform_shape (estLen (r_ix r)) L" "i < length L" "r_fetches r + 2 < maxLocateFetches"
    and "0 \<le> pos" "pos < sum_list L"
  shows "\<exists>pt j r'. locate_loop env pos i [] r = (Inr (pt, j), r') \<and> covers L pos j \<and> r_clock r' \<le> r_clock r + 3"
proof (cases "Suc i < length L")
  case True
  then show ?thesis using locate_anchor [OF assms(1-3) True _ assms(6,7), of "[]"] assms(5) by fastforce
next
  case False
  then have last: "Suc i = length L" using assms(4) by simp
  have lt: "r_fetches r < maxLocateFetches" using assms(5) by simp
  obtain pt r2 where l: "is_article L content i pt" "reader_ok r2" "r_clock r2 \<le> Suc (r_clock r)" "r_fetches r2 = Suc (r_fetches r)"
    "r_ix r2 = Observe (int i) (Some pt) (r_ix r)"
    "locate_loop env pos i [] r =
       (if covers L pos i then (Inr (pt, i), r2)
        else case nextCandidate (r_ix r2) pos i (classifyOffset pos pt) [i] of
          Inl e \<Rightarrow> (Inl e, r2) | Inr nxt \<Rightarrow> locate_loop env pos nxt [i] r2)"
    using locate_round [OF assms(1,2,4) lt] by metis
  show ?thesis
  proof (cases "covers L pos i")
    case no: False
    have before: "pos < true_start L i"
      using no assms(4,7) last by (auto simp: covers_def true_start_def)
    then have dir: "classifyOffset pos pt = - 1" using classify_covers(2) [OF l(1) assms(4)] by simp
    have "0 < i" using before assms(6) by (cases i) (simp_all add: true_start_def)
    then have "\<exists>nxt. nextCandidate (r_ix r2) pos i (- 1) [i] = Inr nxt \<and> nxt < i"
      by (cases "Locate (r_ix r2) pos") (auto simp: nextCandidate_def)
    then obtain nxt where nxt: "nextCandidate (r_ix r2) pos i (- 1) [i] = Inr nxt" "nxt < i" by blast
    have "\<forall>t \<in> set [i]. \<not> covers L pos t" using no by simp
    moreover have "Suc nxt < length L" "r_fetches r2 + 1 < maxLocateFetches" using nxt(2) last l(4) assms(5) by simp_all
    ultimately obtain q j r' where "locate_loop env pos nxt [i] r2 = (Inr (q, j), r')" "covers L pos j" "r_clock r' \<le> r_clock r2 + 2"
      using locate_anchor [OF l(2) assms(2), of nxt pos "[i]"] assms(3,6,7) l(5) by fastforce
    then show ?thesis using l(3,6) no dir nxt(1) by auto
  qed (use l in auto)
qed

lemma articleForOffset_converges:
  assumes "reader_ok r" "serving" "uniform_shape (estLen (r_ix r)) L" "0 \<le> pos" "pos < sum_list L" "pos < FileSize (r_ix r)"
  shows "\<exists>pt j r'. articleForOffset env pos r = (Inr (pt, j), r') \<and> covers L pos j \<and> r_clock r' \<le> r_clock r + 3"
proof -
  have ok: "index_ok (r_ix r)" "SegmentCount (r_ix r) = length L" using assms(1) by (simp_all add: reader_ok_def sized_def)
  have "L \<noteq> []" using assms(4,5) by auto
  then obtain seg b e where s: "Locate (r_ix r) pos = Some (seg, b, e)"
    using index_ranges.locate_total [OF ok(1), of pos] assms(4,6) ok(2) by force
  have seg: "seg < length L" using locate_bound [OF assms(1) s] .
  have "reader_ok (r\<lparr>r_fetches := 0\<rparr>)" using assms(1) by (rule reader_ok_cong) simp_all
  then have "\<exists>pt j r'. locate_loop env pos seg [] (r\<lparr>r_fetches := 0\<rparr>) = (Inr (pt, j), r') \<and> covers L pos j \<and> r_clock r' \<le> r_clock r + 3"
    using locate_converges [of "r\<lparr>r_fetches := 0\<rparr>" seg pos] assms(2-5) seg by (simp add: maxLocateFetches_def)
  then show ?thesis using s ok(2) \<open>L \<noteq> []\<close> by (simp add: articleForOffset_def)
qed

text \<open>A wait is kind when it neither fails nor cuts the read short.\<close>

definition kind :: bool where
  "kind \<longleftrightarrow> (\<forall>t. \<forall>i < length L. \<forall>pos n. env_await env t (ids ! i) pos n \<noteq> ArrivedCancelled \<and>
     (\<forall>tainted res. env_await env t (ids ! i) pos n = ArrivedDone tainted res \<longrightarrow> \<not> tainted \<and> (\<exists>pt. res = Inr pt)))"

lemma readArriving_kind:
  assumes "reader_ok r" "kind"
  shows "\<exists>ans r'. readArriving env n r = (Inr ans, r')"
proof (cases "Locate (r_ix r) (r_pos r)")
  case (Some sbe)
  obtain seg b e where sbe: "sbe = (seg, b, e)" by (cases sbe) auto
  have seg: "seg < length L" using locate_bound [OF assms(1)] Some sbe by blast
  let ?a = "env_await env (r_clock r) (ids ! seg) (r_pos r) n"
  have "?a \<noteq> ArrivedCancelled" "\<And>tainted res. ?a = ArrivedDone tainted res \<Longrightarrow> \<not> tainted \<and> (\<exists>pt. res = Inr pt)"
    using assms(2) seg unfolding kind_def by blast+
  then show ?thesis
    using Some sbe ids_of_index [OF assms(1) seg] by (cases ?a) (auto simp: readArriving_def Let_def)
qed (auto simp: readArriving_def)

lemma Read_converges:
  assumes "reader_ok r" "serving" "kind" "uniform_shape (estLen (r_ix r)) L" "0 < n"
    and "r_pos r < sum_list L" "r_pos r < FileSize (r_ix r)"
  shows "\<exists>bs r'. Read env n r = (bs, None, r') \<and> r_clock r' \<le> r_clock r + 4"
proof -
  have "\<not> (n = 0 \<or> SizeExact (r_ix r) \<and> FileSize (r_ix r) \<le> r_pos r)" using assms(5,7) by simp
  define r0 where "r0 = readaheadOnArrival env r"
  have r0: "reader_ok r0" "r_pos r0 = r_pos r" "r_ix r0 = r_ix r" "r_clock r0 = r_clock r"
    using readahead_ok [OF assms(1)] by (simp_all add: r0_def)
  obtain ans r1 where ra: "readArriving env n r0 = (Inr ans, r1)" using readArriving_kind [OF r0(1) assms(3)] by blast
  note ao = readArriving_ok [OF r0(1) ra]
  show ?thesis
  proof (cases ans)
    case (Some bs)
    then show ?thesis using ra ao r0 assms(5,7) by (auto simp: Read_def r0_def [symmetric])
  next
    case None
    have "0 \<le> r_pos r1" using ao by (simp add: reader_ok_def)
    then obtain pt j r2 where af: "articleForOffset env (r_pos r1) r1 = (Inr (pt, j), r2)" "r_clock r2 \<le> r_clock r1 + 3"
      using articleForOffset_converges [OF conjunct1 [OF ao] assms(2), of "r_pos r1"] assms(4,6,7) ao r0 by auto
    have pt: "j < length L" "is_article L content j pt" "Begin pt - 1 \<le> r_pos r1" "r_pos r1 < End pt"
      using articleForOffset_ok [OF conjunct1 [OF ao] \<open>0 \<le> r_pos r1\<close> af(1)] by auto
    define r3 where "r3 = (if env_idle env (r_clock r) then r2\<lparr>r_ra := (r_ra r2)\<lparr>waited := False\<rparr>\<rparr> else r2)"
    define r4 where "r4 = r3\<lparr>r_pos := i64 (r_pos r3 + int (length (take n (drop (nat (i64 (r_pos r3 - i64 (Begin pt - 1)))) (Data pt)))))\<rparr>"
    have "r_pos r2 = r_pos r1" using articleForOffset_ok [OF conjunct1 [OF ao] \<open>0 \<le> r_pos r1\<close> af(1)] by simp
    then have r3: "r_pos r3 = r_pos r1" "r_clock r3 = r_clock r2" by (simp_all add: r3_def)
    note d = article_data(1) [OF pt(2,1)] and d3 = article_data(3) [OF pt(2,1,3,4)]
    have off: "i64 (r_pos r3 - i64 (Begin pt - 1)) = r_pos r1 - (Begin pt - 1)"
      using d3 d posting_len(2) [OF posted(1) pt(1)] by (simp add: article_start [OF pt(2)] r3 i64_nonneg)
    have "Read env n r = (take n (drop (nat (i64 (r_pos r3 - i64 (Begin pt - 1)))) (Data pt)), None,
        triggerReadahead env j (length (Data pt)) r4)"
      using assms(5,7) ra None af d3 off
      by (auto simp: Read_def r0_def [symmetric] r3_def [symmetric] r4_def Let_def)
    moreover have "r_clock (triggerReadahead env j (length (Data pt)) r4) \<le> r_clock r + 4"
      using r3 af(2) ao r0 by (auto simp: triggerReadahead_def r4_def Let_def)
    ultimately show ?thesis by blast
  qed
qed

end

section \<open>A posted file\<close>

lemma posted_load_serves:
  assumes "i < length (posting_lens P)"
  shows "\<exists>pt. posted_load P (\<lambda>_. None) t (posting_ids P ! i) = Inr pt"
  using assms article_of_id [of i P] posted_article_Decode [of i P] posting_len_ok [of P] by (auto simp: posted_load_def)

lemma posted_serving: "posted.serving P (\<lambda>_. None) pick env"
  unfolding posted.serving_def using posted_load_serves by (simp add: posted_env_def)

lemma posted_kind:
  assumes "\<forall>t. pick t \<noteq> WaitCancelled \<and> pick t \<noteq> WaitDone True"
  shows "posted.kind P (\<lambda>_. None) pick env"
  unfolding posted.kind_def
proof (intro allI impI)
  fix t i pos n
  assume "i < length (posting_lens P)"
  then obtain pt where pt: "posted_load P (\<lambda>_. None) t (posting_ids P ! i) = Inr pt" using posted_load_serves by blast
  show "env_await (posted_env P (\<lambda>_. None) pick env) t (posting_ids P ! i) pos n \<noteq> ArrivedCancelled \<and>
    (\<forall>tainted res. env_await (posted_env P (\<lambda>_. None) pick env) t (posting_ids P ! i) pos n = ArrivedDone tainted res \<longrightarrow>
      \<not> tainted \<and> (\<exists>pt. res = Inr pt))"
    using spec [OF assms, of t] pt by (cases "pick t") (auto simp: posted_env_def posted_await_def)
qed

text \<open>
  C36. In a uniform posting whose articles can be fetched, a \<open>Read\<close> below both the real and the currently assumed
  size succeeds, after any reads and seeks before it, and asks for at most four articles: one wait for an arriving article
  and three fetches to find the right one. The cap of 16 fetches is not reached.
\<close>

theorem uniform_Read_succeeds:
  assumes "map sg_MessageID (ix_segs (NewOffsetIndex shuffle f)) = posting_ids P"
    and "uniform_shape (estLen (NewOffsetIndex shuffle f)) (posting_lens P)"
    and "\<forall>t. pick t \<noteq> WaitCancelled \<and> pick t \<noteq> WaitDone True" "0 < n"
    and "r = after_calls (posted_env P (\<lambda>_. None) pick env) calls (openReader (NewOffsetIndex shuffle f))"
    and "r_pos r < int (length (posting_content P))" "r_pos r < FileSize (r_ix r)"
  shows "\<exists>bs r'. Read (posted_env P (\<lambda>_. None) pick env) n r = (bs, None, r') \<and> bs \<noteq> [] \<and>
    bs = take (length bs) (drop (nat (r_pos r)) (posting_content P)) \<and> r_clock r' \<le> r_clock r + 4"
proof -
  let ?E = "posted_env P (\<lambda>_. None) pick env"
  have ok: "posted.reader_ok P r" using open_posted [OF assms(1)] assms(5) by simp
  have "estLen (r_ix r) = estLen (NewOffsetIndex shuffle f)"
    using learned_estLen [OF after_calls_ix [unfolded ix_after_def]] assms(5) by (simp add: openReader_def)
  then have "uniform_shape (estLen (r_ix r)) (posting_lens P)" using assms(2) by simp
  then obtain bs r' where "Read ?E n r = (bs, None, r')" "r_clock r' \<le> r_clock r + 4"
    using posted.Read_converges [OF ok posted_serving posted_kind [OF assms(3)] _ assms(4)] assms(6,7) posting_len_ok(1) by metis
  moreover have "posted.read_ok P n r (Read ?E n r)" using ok by (rule posted.Read_ok)
  ultimately show ?thesis using assms(4) by (auto simp: posted.read_ok_def)
qed

lemma sample_uniform: "uniform_shape (estLen (NewOffsetIndex id sample_posting)) (posting_lens (Abs_posting sample_articles))"
proof -
  have "posting_lens (Abs_posting sample_articles) = [2, 2, 1]"
    using sample_articles_wf by (simp add: posting_lens_def posting_articles_def Abs_posting_inverse sample_articles_def)
  then show ?thesis
    using sample_index sample_shapes by (auto simp: uniform_shape_def less_Suc_eq numeral_3_eq_3)
qed

theorem uniform_Read_succeeds_witness:
  "\<exists>bs r'. Read (posted_env (Abs_posting sample_articles) (\<lambda>_. None) (\<lambda>_. WaitOutside) sample_env) 5
     (after_calls (posted_env (Abs_posting sample_articles) (\<lambda>_. None) (\<lambda>_. WaitOutside) sample_env) [CallSeek 3 SeekStart]
       (openReader (NewOffsetIndex id sample_posting))) = (bs, None, r') \<and> bs \<noteq> []"
proof -
  let ?E = "posted_env (Abs_posting sample_articles) (\<lambda>_. None) (\<lambda>_. WaitOutside) sample_env"
  let ?r = "after_calls ?E [CallSeek 3 SeekStart] (openReader (NewOffsetIndex id sample_posting))"
  have r: "r_pos ?r = 3" "r_ix ?r = NewOffsetIndex id sample_posting"
    by (simp_all add: Seek_def seek_to_def openReader_def)
  have "FileSize (NewOffsetIndex id sample_posting) = 237" by code_simp
  moreover have "length (posting_content (Abs_posting sample_articles)) = 5"
    using sample_articles_wf by (simp add: posting_content_def posting_articles_def Abs_posting_inverse sample_articles_def)
  ultimately show ?thesis
    using uniform_Read_succeeds [OF sample_articles_ids sample_uniform, of "\<lambda>_. WaitOutside" 5 ?r sample_env "[CallSeek 3 SeekStart]"] r
    by auto
qed

end
