(* ===== verification/Rar_Video_Props.thy ===== *)
theory Rar_Video_Props
  imports Rar_Video Rar_Store_Props Stream_Locate_Props
begin

text \<open>
  The video reader: read through the volumes of a posted release, the video is the concatenation of its stored chunks. The contract
  of a reader of bytes is a locale, of which the reader over a posted file and the video reader are both instances.
\<close>

section \<open>Readers of bytes\<close>

text \<open>A consumer that reads with buffers of the given sizes until a read fails.\<close>

fun reads :: "(nat \<Rightarrow> 'r \<Rightarrow> bytes \<times> 'e option \<times> 'r) \<Rightarrow> nat list \<Rightarrow> 'r \<Rightarrow> bytes \<times> 'e option \<times> 'r" where
  "reads rd [] r = ([], None, r)"
| "reads rd (n # ns) r =
     (case rd n r of
        (bs, Some e, r') \<Rightarrow> (bs, Some e, r')
      | (bs, None, r') \<Rightarrow> (case reads rd ns r' of (cs, err, r'') \<Rightarrow> (bs @ cs, err, r'')))"

locale byte_reader =
  fixes ok :: "'r \<Rightarrow> bool" and content :: bytes and pos_of :: "'r \<Rightarrow> int"
    and rd :: "nat \<Rightarrow> 'r \<Rightarrow> bytes \<times> 'e option \<times> 'r" and eof :: 'e
  assumes pos_nonneg: "ok r \<Longrightarrow> 0 \<le> pos_of r"
    and serves: "ok r \<Longrightarrow> rd n r = (bs, err, r') \<Longrightarrow> ok r' \<and> pos_of r' = pos_of r + int (length bs) \<and> length bs \<le> n \<and>
      bs = take (length bs) (drop (nat (pos_of r)) content)"
    and progress: "ok r \<Longrightarrow> rd n r = (bs, None, r') \<Longrightarrow> n = 0 \<or> bs \<noteq> []"
    and fails_empty: "ok r \<Longrightarrow> rd n r = (bs, Some e, r') \<Longrightarrow> bs = []"
    and eof_at_end: "ok r \<Longrightarrow> rd n r = (bs, Some eof, r') \<Longrightarrow> int (length content) \<le> pos_of r"
begin

lemma take_append_drop:
  "xs = take (length xs) zs \<Longrightarrow> ys = take (length ys) (drop (length xs) zs) \<Longrightarrow> xs @ ys = take (length xs + length ys) zs"
  by (metis take_add)

text \<open>A run of reads returns a stretch of the content, all the rest of it when it ends with the end of the file.\<close>

lemma reads_serve:
  assumes "ok r" "reads rd ns r = (bs, err, r')"
  shows "ok r' \<and> pos_of r' = pos_of r + int (length bs) \<and> bs = take (length bs) (drop (nat (pos_of r)) content) \<and>
    (err = Some eof \<longrightarrow> bs = drop (nat (pos_of r)) content)"
  using assms
proof (induction ns arbitrary: r bs)
  case (Cons n ns)
  obtain xs e r1 where x: "rd n r = (xs, e, r1)" by (metis prod_cases3)
  note s = serves [OF Cons.prems(1) x]
  show ?case
  proof (cases e)
    case None
    obtain ys where y: "reads rd ns r1 = (ys, err, r')" "bs = xs @ ys"
      using Cons.prems(2) x None by (auto split: prod.splits)
    have d: "drop (nat (pos_of r1)) content = drop (length xs) (drop (nat (pos_of r)) content)"
      using s pos_nonneg [OF Cons.prems(1)] by (simp add: nat_add_distrib add.commute)
    note IH = Cons.IH [OF conjunct1 [OF s] y(1)]
    have "bs = take (length bs) (drop (nat (pos_of r)) content)"
      unfolding y(2) length_append using s IH d by (intro take_append_drop) metis+
    moreover have "bs = drop (nat (pos_of r)) content" if "err = Some eof"
      using s IH d y(2) that by (metis append_take_drop_id)
    moreover have "pos_of r' = pos_of r + int (length bs)" using s IH unfolding y(2) by simp
    ultimately show ?thesis using IH by blast
  next
    case (Some e')
    then have "bs = xs" "err = Some e'" "r' = r1" using Cons.prems(2) x by auto
    then show ?thesis using s Some x fails_empty [OF Cons.prems(1)] eof_at_end [OF Cons.prems(1)] by fastforce
  qed
qed simp

text \<open>Without failures, one read per missing byte is enough to read on to the end or to the size asked for.\<close>

lemma reads_enough:
  assumes "ok r" "list_all (\<lambda>n. 0 < n) ns" "reads rd ns r = (bs, None, r')"
  shows "length ns \<le> length bs"
  using assms
proof (induction ns arbitrary: r bs)
  case (Cons n ns)
  obtain xs e r1 where x: "rd n r = (xs, e, r1)" by (metis prod_cases3)
  have e: "e = None" using Cons.prems(3) x by (cases e) auto
  then obtain ys where y: "reads rd ns r1 = (ys, None, r')" "bs = xs @ ys"
    using Cons.prems(3) x by (auto split: prod.splits)
  have "xs \<noteq> []" using progress [OF Cons.prems(1), of n xs r1] x e Cons.prems(2) by auto
  moreover have "length ns \<le> length ys" using Cons.IH [OF _ _ y(1)] serves [OF Cons.prems(1) x] Cons.prems(2) by simp
  ultimately show ?case using y(2) by (cases xs) auto
qed simp

end

text \<open>The reader over a posted file, once it knows the size.\<close>

lemma Read_exact: "SizeExact (r_ix r) \<Longrightarrow> Read env n r = (bs, err, r') \<Longrightarrow> SizeExact (r_ix r')"
  using Read_ix [of r env n] learned_exact by (simp add: ix_after_def SizeExact_def)

interpretation posted_reader: byte_reader "\<lambda>r. posted.reader_ok P r \<and> SizeExact (r_ix r)" "posting_content P" r_pos
  "Read (posted_env P fault pick env)" EndOfFile for P fault pick env
proof
  fix r n bs err r' e
  assume r: "posted.reader_ok P r \<and> SizeExact (r_ix r)"
  then show "0 \<le> r_pos r" by (simp add: posted.reader_ok_def)
  have ro: "posted.read_ok P n r (Read (posted_env P fault pick env) n r)" using r by (intro posted.Read_ok) simp
  show "(posted.reader_ok P r' \<and> SizeExact (r_ix r')) \<and> r_pos r' = r_pos r + int (length bs) \<and> length bs \<le> n \<and>
      bs = take (length bs) (drop (nat (r_pos r)) (posting_content P))" if "Read (posted_env P fault pick env) n r = (bs, err, r')"
    using ro that Read_exact [OF _ that] r unfolding posted.read_ok_def by auto
  show "n = 0 \<or> bs \<noteq> []" if "Read (posted_env P fault pick env) n r = (bs, None, r')"
    using ro that unfolding posted.read_ok_def by auto
  show "bs = []" if "Read (posted_env P fault pick env) n r = (bs, Some e, r')"
    using ro that unfolding posted.read_ok_def by simp
  show "int (length (posting_content P)) \<le> r_pos r" if "Read (posted_env P fault pick env) n r = (bs, Some EndOfFile, r')"
    using ro that r unfolding posted.read_ok_def by auto
qed

section \<open>A posted release\<close>

text \<open>
  The volumes are posted files, each with faults and waits of its own. The extents lie inside the volumes; the video is
  what they hold, one after the other.
\<close>

definition release_env :: "posting list \<Rightarrow> (nat \<Rightarrow> nat \<Rightarrow> fetch_err option) \<Rightarrow> (nat \<Rightarrow> nat \<Rightarrow> wait_choice) \<Rightarrow> (nat \<Rightarrow> reader_env) \<Rightarrow> nat \<Rightarrow> reader_env" where
  "release_env Ps fault pick env i = posted_env (Ps ! i) (fault i) (pick i) (env i)"

definition volume_content :: "posting list \<Rightarrow> int \<Rightarrow> bytes" where
  "volume_content Ps vol = posting_content (Ps ! nat vol)"

definition release_ok :: "posting list \<Rightarrow> rar_store \<Rightarrow> bool" where
  "release_ok Ps st \<longleftrightarrow> store_ok st \<and>
     (\<forall>e \<in> set (rs_extents st). 0 \<le> ex_volIndex e \<and> ex_volIndex e < int (length Ps) \<and> 0 \<le> ex_dataOffset e \<and>
        ex_dataOffset e + ex_length e \<le> int (length (volume_content Ps (ex_volIndex e))))"

definition extent_bytes :: "posting list \<Rightarrow> extent \<Rightarrow> bytes" where
  "extent_bytes Ps e = slice (volume_content Ps (ex_volIndex e)) (nat (ex_dataOffset e)) (nat (ex_dataOffset e + ex_length e))"

definition video_content :: "posting list \<Rightarrow> rar_store \<Rightarrow> bytes" where
  "video_content Ps st = concat (map (extent_bytes Ps) (rs_extents st))"

text \<open>Where the bytes of an extent are found in the video.\<close>

lemma laid_out_bytes:
  assumes "laid_out start es tot" "\<forall>e \<in> set es. int (length (f e)) = ex_length e"
  shows "tot = start + int (length (concat (map f es)))"
    and "e \<in> set es \<Longrightarrow> videoStart e \<le> pos \<Longrightarrow> pos < videoStart e + ex_length e \<Longrightarrow>
      start \<le> pos \<and> (\<exists>rest. drop (nat (pos - start)) (concat (map f es)) = drop (nat (pos - videoStart e)) (f e) @ rest)"
  using assms
proof (induction es arbitrary: start)
  case (Cons d es)
  { case 1
    then show ?case using Cons.IH(1) [of "start + ex_length d"] by simp
  next
    case 2
    have l: "laid_out (start + ex_length d) es tot" "videoStart d = start" "int (length (f d)) = ex_length d" "0 \<le> ex_length d"
      using 2 by simp_all
    show ?case
    proof (cases "start + ex_length d \<le> pos")
      case True
      have "e \<in> set es" using 2 l True by auto
      then obtain rest where r: "drop (nat (pos - (start + ex_length d))) (concat (map f es)) = drop (nat (pos - videoStart e)) (f e) @ rest"
        using Cons.IH(2) [of "start + ex_length d"] 2 l by auto
      have "nat (pos - start) = length (f d) + nat (pos - (start + ex_length d))" using True l by linarith
      then have "drop (nat (pos - start)) (f d @ concat (map f es)) = drop (nat (pos - (start + ex_length d))) (concat (map f es))" by simp
      then show ?thesis using r True l by auto
    next
      case False
      have "e = d"
      proof (rule ccontr)
        assume "e \<noteq> d"
        then have "e \<in> set es" using 2 by simp
        then have "start + ex_length d \<le> pos" using Cons.IH(2) [of "start + ex_length d"] 2 l by auto
        then show False using False by simp
      qed
      then show ?thesis using 2 l by auto
    qed
  }
qed simp_all

lemma extent_bytes_length:
  assumes "release_ok Ps st" "e \<in> set (rs_extents st)"
  shows "int (length (extent_bytes Ps e)) = ex_length e" "0 \<le> ex_length e"
proof -
  have "laid_out 0 (rs_extents st) (videoSize st)" using assms(1) by (simp add: release_ok_def store_ok_def)
  then show l: "0 \<le> ex_length e" using laid_out_nth assms(2) by (metis in_set_conv_nth)
  have "0 \<le> ex_dataOffset e" "ex_dataOffset e + ex_length e \<le> int (length (volume_content Ps (ex_volIndex e)))"
    using assms by (auto simp: release_ok_def)
  then show "int (length (extent_bytes Ps e)) = ex_length e" using l by (simp add: extent_bytes_def)
qed

lemma video_content_length: "release_ok Ps st \<Longrightarrow> videoSize st = int (length (video_content Ps st))"
  using laid_out_bytes(1) [of 0 "rs_extents st" "videoSize st" "extent_bytes Ps"] extent_bytes_length(1)
  by (auto simp: release_ok_def store_ok_def video_content_def)

text \<open>Bytes of the volume at the translated offset are bytes of the video at the position, up to the end of the extent.\<close>

lemma extent_shift:
  assumes "release_ok Ps st" "findExtent (rs_extents st) pos = Some e"
    and "bs = take (length bs) (drop (nat (ex_dataOffset e + (pos - videoStart e))) (volume_content Ps (ex_volIndex e)))"
    and "int (length bs) \<le> videoStart e + ex_length e - pos"
  shows "bs = take (length bs) (drop (nat pos) (video_content Ps st))"
proof -
  have lo: "laid_out 0 (rs_extents st) (videoSize st)" "videoSize st \<le> max_i64" using assms(1) by (simp_all add: release_ok_def store_ok_def)
  have e: "e \<in> set (rs_extents st)" "videoStart e \<le> pos" "pos < videoStart e + ex_length e"
    using findExtent_laid_out(1) [OF lo assms(2)] by simp_all
  note l = extent_bytes_length [OF assms(1) e(1)]
  obtain rest where r: "drop (nat pos) (video_content Ps st) = drop (nat (pos - videoStart e)) (extent_bytes Ps e) @ rest"
    using laid_out_bytes(2) [OF lo(1) _ e, of "extent_bytes Ps"] extent_bytes_length(1) [OF assms(1)] by (auto simp: video_content_def)
  have off: "0 \<le> ex_dataOffset e" using assms(1) e(1) by (auto simp: release_ok_def)
  have "nat (ex_dataOffset e + (pos - videoStart e)) = nat (ex_dataOffset e) + nat (pos - videoStart e)"
    using off e(2) by (simp add: nat_add_distrib)
  then have "drop (nat (pos - videoStart e)) (extent_bytes Ps e) =
      take (nat (ex_dataOffset e + ex_length e) - nat (ex_dataOffset e) - nat (pos - videoStart e))
        (drop (nat (ex_dataOffset e + (pos - videoStart e))) (volume_content Ps (ex_volIndex e)))"
    by (simp add: extent_bytes_def slice_def drop_take add.commute)
  moreover have "length bs \<le> nat (ex_dataOffset e + ex_length e) - nat (ex_dataOffset e) - nat (pos - videoStart e)"
    using assms(4) off e(2) l(2) by linarith
  ultimately have "take (length bs) (drop (nat (pos - videoStart e)) (extent_bytes Ps e)) = bs"
    using assms(3) by (simp add: min_absorb1)
  moreover have "length bs \<le> length (drop (nat (pos - videoStart e)) (extent_bytes Ps e))"
    using assms(4) l e(2) by simp
  ultimately show ?thesis unfolding r by simp
qed

section \<open>The state of a video reader\<close>

text \<open>Every volume's index belongs to its posting, and the open reader to its volume.\<close>

definition index_for :: "posting \<Rightarrow> offset_index \<Rightarrow> bool" where
  "index_for P ix \<longleftrightarrow> posted.reader_ok P (openReader ix)"

definition indexes_ok :: "posting list \<Rightarrow> video_reader \<Rightarrow> bool" where
  "indexes_ok Ps v \<longleftrightarrow> length (v_ixs v) = length Ps \<and> (\<forall>i < length Ps. index_for (Ps ! i) (v_ixs v ! i)) \<and> 0 \<le> v_pos v"

definition video_ok :: "posting list \<Rightarrow> video_reader \<Rightarrow> bool" where
  "video_ok Ps v \<longleftrightarrow> indexes_ok Ps v \<and>
     (\<forall>rv. curReader v = Some rv \<longrightarrow>
        0 \<le> curVol v \<and> curVol v < int (length Ps) \<and> posted.reader_ok (Ps ! nat (curVol v)) (vr_r rv) \<and> SizeExact (r_ix (vr_r rv)))"

lemma index_for_reader: "posted.reader_ok P r \<Longrightarrow> index_for P (r_ix r)"
  unfolding index_for_def using posted.reader_ok_index [of P r 0] by (simp add: openReader_def)

lemma keep_index_ok:
  assumes "indexes_ok Ps v" "posted.reader_ok (Ps ! nat vol) r"
  shows "indexes_ok Ps (keep_index vol r v)"
proof -
  have "index_for (Ps ! i) ((v_ixs v)[nat vol := r_ix r] ! i)" if "i < length Ps" for i
    using assms(1) index_for_reader [OF assms(2)] that by (cases "i = nat vol") (simp_all add: indexes_ok_def)
  then show ?thesis using assms(1) by (simp add: indexes_ok_def keep_index_def)
qed

lemma posting_lens_ne: "posting_lens P \<noteq> []"
  using posting_facts(2) [of P] posting_len_ok(3) [of P] by auto

lemma newReaderVolume_ok:
  assumes "index_for P ix" "newReaderVolume (posted_env P fault pick env) t ix = (res, r)"
  shows "posted.reader_ok P r \<and>
    (case res of Inl _ \<Rightarrow> True | Inr rv \<Rightarrow> vr_r rv = r \<and> SizeExact (r_ix r) \<and> vr_sz rv = int (length (posting_content P)))"
proof -
  let ?r = "(openReader ix)\<lparr>r_clock := t\<rparr>"
  have ok: "posted.reader_ok P ?r"
    using assms(1) posted.reader_ok_index [of P "openReader ix" t] by (simp add: index_for_def openReader_def)
  obtain a r1 where s: "Seek (posted_env P fault pick env) 0 SeekEnd ?r = (a, r1)" by force
  then show ?thesis
    using assms(2) posted.Seek_ok [OF ok s] posted.Seek_end [OF ok posting_lens_ne, of fault pick env] s
    by (cases a) (auto simp: newReaderVolume_def openReaderVolume_def)
qed

lemma useVolume_ok:
  assumes "video_ok Ps v" "0 \<le> vol" "vol < int (length Ps)" "useVolume (release_env Ps fault pick env) vol v = (err, v')"
  shows "video_ok Ps v' \<and> v_pos v' = v_pos v \<and> (err = None \<longrightarrow> curVol v' = vol \<and> curReader v' \<noteq> None) \<and>
    (err = None \<or> (\<exists>e. err = Some (OpenVolume e)))"
proof (cases "curVol v = vol \<and> curReader v \<noteq> None")
  case True
  then show ?thesis using assms by (auto simp: useVolume_def)
next
  case False
  define v0 where "v0 = closeCurrent v"
  have ix: "indexes_ok Ps v0" "v_pos v0 = v_pos v" "curReader v0 = None"
    using assms(1) by (auto simp: v0_def video_ok_def indexes_ok_def closeCurrent_def split: option.split)
  obtain res r where n: "newReaderVolume (posted_env (Ps ! nat vol) (fault (nat vol)) (pick (nat vol)) (env (nat vol)))
      (v_clock v0) (v_ixs v0 ! nat vol) = (res, r)" by force
  have "index_for (Ps ! nat vol) (v_ixs v0 ! nat vol)" using ix(1) assms(2,3) by (simp add: indexes_ok_def)
  note o = newReaderVolume_ok [OF this n]
  have k: "indexes_ok Ps (keep_index vol r v0)" using keep_index_ok [OF ix(1)] o by blast
  have len: "\<not> (vol < 0 \<or> int (length (v_ixs v0)) \<le> vol)" using ix(1) assms(2,3) by (simp add: indexes_ok_def)
  show ?thesis
  proof (cases res)
    case (Inl e)
    then have "err = Some (OpenVolume e)" "v' = keep_index vol r v0"
      using assms(4) False n len by (auto simp: useVolume_def release_env_def v0_def [symmetric])
    then show ?thesis using k ix by (simp add: video_ok_def keep_index_def)
  next
    case (Inr rv)
    then have v': "err = None" "v' = (keep_index vol r v0)\<lparr>curReader := Some rv, curVol := vol\<rparr>"
      using assms(4) False n len by (auto simp: useVolume_def release_env_def v0_def [symmetric])
    have "indexes_ok Ps v'" using k unfolding v' by (simp add: indexes_ok_def)
    then show ?thesis using v' o Inr ix assms(2,3) by (simp add: video_ok_def keep_index_def)
  qed
qed

text \<open>One call of \<open>Read\<close> on the video.\<close>

lemma video_Read_ok:
  assumes "release_ok Ps st" "video_ok Ps v" "video_Read (release_env Ps fault pick env) st n v = (bs, err, v')"
  shows "video_ok Ps v' \<and> v_pos v' = v_pos v + int (length bs) \<and> length bs \<le> n \<and>
    bs = take (length bs) (drop (nat (v_pos v)) (video_content Ps st)) \<and> (err = None \<longrightarrow> n = 0 \<or> bs \<noteq> []) \<and>
    (err \<noteq> None \<longrightarrow> bs = []) \<and> (err = Some VideoEOF \<longrightarrow> int (length (video_content Ps st)) \<le> v_pos v) \<and>
    err \<noteq> Some NoExtent \<and> err \<noteq> Some VolumePanic \<and> (\<forall>e. err \<noteq> Some (SeekVolume e))"
proof (cases "n = 0 \<or> videoSize st \<le> v_pos v")
  case True
  then show ?thesis using assms video_content_length [OF assms(1)] by (auto simp: video_Read_def split: if_splits)
next
  case False
  have lo: "laid_out 0 (rs_extents st) (videoSize st)" "videoSize st \<le> max_i64"
    using assms(1) by (simp_all add: release_ok_def store_ok_def)
  have p0: "0 \<le> v_pos v" using assms(2) by (simp add: video_ok_def indexes_ok_def)
  then obtain e where f: "findExtent (rs_extents st) (v_pos v) = Some e"
    using findExtent_laid_out(2) [OF lo, of "v_pos v"] False by auto
  have e: "e \<in> set (rs_extents st)" "videoStart e \<le> v_pos v" "v_pos v < videoStart e + ex_length e"
    using findExtent_laid_out(1) [OF lo f] by simp_all
  have ev: "0 \<le> ex_volIndex e" "ex_volIndex e < int (length Ps)" "0 \<le> ex_dataOffset e"
      "ex_dataOffset e + ex_length e \<le> int (length (volume_content Ps (ex_volIndex e)))"
    using assms(1) e(1) by (auto simp: release_ok_def)
  have ends: "0 \<le> videoStart e" "videoStart e + ex_length e \<le> videoSize st"
    using laid_out_nth [OF lo(1)] e(1) by (metis in_set_conv_nth)+
  let ?vol = "ex_volIndex e"
  let ?P = "Ps ! nat ?vol"
  obtain uerr v1 where u: "useVolume (release_env Ps fault pick env) ?vol v = (uerr, v1)" by force
  note uo = useVolume_ok [OF assms(2) ev(1,2) u]
  show ?thesis
  proof (cases uerr)
    case (Some x)
    then have "bs = []" "err = Some x" "v' = v1" using assms(3) False f u by (auto simp: video_Read_def)
    then show ?thesis using uo Some by auto
  next
    case None
    then obtain rv where rv: "curReader v1 = Some rv" "curVol v1 = ?vol" using uo by auto
    have ro: "posted.reader_ok ?P (vr_r rv)" "SizeExact (r_ix (vr_r rv))" using uo rv by (auto simp: video_ok_def)
    define coff where "coff = ex_dataOffset e + (v_pos v - videoStart e)"
    define lim where "lim = min (int n) (videoStart e + ex_length e - v_pos v)"
    have le: "ex_dataOffset e + ex_length e \<le> max_i64"
      using ev(4) posting_facts(6) [of ?P] by (simp add: volume_content_def)
    have arith: "i64 (ex_dataOffset e + i64 (v_pos v - videoStart e)) = coff"
        "i64 (i64 (videoStart e + ex_length e) - v_pos v) = videoStart e + ex_length e - v_pos v" "0 \<le> coff" "0 < lim"
      using e ev ends lo(2) p0 False le by (simp_all add: coff_def lim_def i64_nonneg)
    let ?env = "posted_env ?P (fault (nat ?vol)) (pick (nat ?vol)) (env (nat ?vol))"
    obtain sr r1 where s: "seek_to coff (vr_r rv) = (sr, r1)" by force
    have r1: "posted.reader_ok ?P r1 \<and> SizeExact (r_ix r1)" "r_pos r1 = coff" "sr = Inr coff"
      using posted.seek_to_ok [OF ro(1) s] ro(2) seek_to_ix [of coff "vr_r rv"] s arith(3) by (auto simp: seek_to_def split: if_splits)
    obtain xs xe r2 where x: "Read ?env (nat lim) r1 = (xs, xe, r2)" by (metis prod_cases3)
    note so = posted_reader.serves [OF r1(1) x]
    have res: "bs = xs" "err = (case xe of None \<Rightarrow> None | Some EndOfFile \<Rightarrow> if 0 < length xs then None else Some VideoEOF | Some y \<Rightarrow> Some (ReadVolume y))"
        "v' = (keep_index ?vol r2 v1)\<lparr>curReader := Some (rv\<lparr>vr_r := r2\<rparr>), v_pos := i64 (v_pos v + int (length xs))\<rparr>"
      using assms(3) False f u None rv s r1(3) x arith uo
      by (auto simp: video_Read_def release_env_def Seek_def Let_def lim_def)
    have fits: "int (length xs) \<le> videoStart e + ex_length e - v_pos v" "length xs \<le> n"
      using so arith(4) by (auto simp: lim_def)
    have adv: "i64 (v_pos v + int (length xs)) = v_pos v + int (length xs)"
      using fits(1) p0 ends lo(2) by (intro i64_nonneg) auto
    have bytes: "xs = take (length xs) (drop (nat (v_pos v)) (video_content Ps st))"
      by (rule extent_shift [OF assms(1) f _ fits(1)]) (use so r1(2) in \<open>simp add: coff_def volume_content_def\<close>)
    have "indexes_ok Ps (keep_index ?vol r2 v1)"
      using uo so by (intro keep_index_ok) (simp_all add: video_ok_def)
    then have ok: "video_ok Ps v'"
      using so rv(2) ev(1,2) p0 unfolding res(3) adv video_ok_def indexes_ok_def by (simp add: keep_index_def)
    have noeof: "xe \<noteq> Some EndOfFile"
    proof
      assume "xe = Some EndOfFile"
      then have "int (length (posting_content ?P)) \<le> coff" using posted_reader.eof_at_end [OF r1(1)] x r1(2) by simp
      then show False using ev(4) e(3) by (simp add: coff_def volume_content_def)
    qed
    have none: "xe = None \<Longrightarrow> xs \<noteq> []" using posted_reader.progress [OF r1(1)] x arith(4) by fastforce
    have empty: "xe \<noteq> None \<Longrightarrow> xs = []" using posted_reader.fails_empty [OF r1(1)] x by auto
    have pos: "v_pos v' = v_pos v + int (length xs)" using adv by (simp add: res(3))
    show ?thesis
      unfolding res(1) using ok pos fits(2) bytes none empty noeof res(2)
      by (cases xe) (auto split: stream_err.splits)
  qed
qed

interpretation rar_video: byte_reader "\<lambda>v. release_ok Ps st \<and> video_ok Ps v" "video_content Ps st" v_pos
  "video_Read (release_env Ps fault pick env) st" VideoEOF for Ps st fault pick env
proof
  fix v n bs err v' e
  assume v: "release_ok Ps st \<and> video_ok Ps v"
  then show "0 \<le> v_pos v" by (simp add: video_ok_def indexes_ok_def)
  note r = video_Read_ok [OF conjunct1 [OF v] conjunct2 [OF v]]
  show "(release_ok Ps st \<and> video_ok Ps v') \<and> v_pos v' = v_pos v + int (length bs) \<and> length bs \<le> n \<and>
      bs = take (length bs) (drop (nat (v_pos v)) (video_content Ps st))"
    if "video_Read (release_env Ps fault pick env) st n v = (bs, err, v')"
    using r [OF that] v by blast
  show "n = 0 \<or> bs \<noteq> []" if "video_Read (release_env Ps fault pick env) st n v = (bs, None, v')" using r [OF that] by blast
  show "bs = []" if "video_Read (release_env Ps fault pick env) st n v = (bs, Some e, v')" using r [OF that] by blast
  show "int (length (video_content Ps st)) \<le> v_pos v" if "video_Read (release_env Ps fault pick env) st n v = (bs, Some VideoEOF, v')"
    using r [OF that] by blast
qed

section \<open>A RAR4 release\<close>

text \<open>What the header probe collects over the volumes, in their order.\<close>

definition probed_chunks :: "posting list \<Rightarrow> rarChunk list" where
  "probed_chunks Ps = concat (map (\<lambda>i. case parseVolume (bytes_volume (posting_content (Ps ! i))) (int i) of
     Some (Inr cs) \<Rightarrow> cs | _ \<Rightarrow> []) [0..<length Ps])"

text \<open>The file a chunk was read from: its name, and its data at the chunk's place.\<close>

definition chunk_of :: "posting list \<Rightarrow> rar4_file \<Rightarrow> rarChunk \<Rightarrow> bool" where
  "chunk_of Ps f c \<longleftrightarrow> ch_name c = rarBaseName (rf_name f) \<and> packSize c = int (length (rf_data f)) \<and>
     0 \<le> volIndex c \<and> volIndex c < int (length Ps) \<and> 0 \<le> dataOffset c \<and>
     dataOffset c + packSize c \<le> int (length (volume_content Ps (volIndex c))) \<and>
     slice (volume_content Ps (volIndex c)) (nat (dataOffset c)) (nat (dataOffset c + packSize c)) = rf_data f"

definition posted_volume :: "rar4_file list \<Rightarrow> posting \<Rightarrow> bool" where
  "posted_volume fs P \<longleftrightarrow> list_all rar4_file_ok fs \<and> int (length fs) < 99998 \<and> posting_content P = rar4_write fs"

lemma bytes_volume_source: "int (length v) \<le> max_i64 \<Longrightarrow> volume_source (bytes_volume v)"
  by unfold_locales (auto simp: bytes_volume_readAt slice_def split: if_splits)

lemma volume_chunks:
  assumes "posted_volume fs (Ps ! i)" "i < length Ps"
  shows "\<exists>cs. parseVolume (bytes_volume (posting_content (Ps ! i))) (int i) = Some (Inr cs) \<and>
    list_all2 (chunk_of Ps) fs cs \<and> (\<forall>c \<in> set cs. volIndex c = int i)"
proof -
  let ?v = "rar4_write fs"
  have w: "list_all rar4_file_ok fs" "int (length fs) < 99998" "posting_content (Ps ! i) = ?v"
    using assms(1) by (simp_all add: posted_volume_def)
  have len: "int (length ?v) \<le> max_i64" using posting_facts(6) [of "Ps ! i"] w(3) by simp
  obtain cs where cs: "parseVolume (bytes_volume ?v) (int i) = Some (Inr cs)" "parseRar4 (bytes_volume ?v) (int i) = Inr cs"
    "list_all2 (\<lambda>f c. ch_name c = rarBaseName (rf_name f) \<and> volIndex c = int i \<and> unpSize c = uint (rf_unp f) \<and>
      stored c = (rf_method f = 0x30) \<and> encrypted c = rf_pass f \<and> packSize c = int (length (rf_data f)) \<and>
      slice ?v (nat (dataOffset c)) (nat (dataOffset c + packSize c)) = rf_data f) fs cs"
    using rar4_written_chunks [OF w(1,2) len] by blast
  have inside: "\<forall>c \<in> set cs. 0 \<le> dataOffset c \<and> dataOffset c \<le> int (length ?v) \<and> volIndex c = int i"
    using volume_source.rar4_chunks_inside [OF bytes_volume_source [OF len] cs(2)] by simp
  have fit: "dataOffset c + packSize c \<le> int (length ?v)"
    if "c \<in> set cs" "packSize c = int (length d)" "slice ?v (nat (dataOffset c)) (nat (dataOffset c + packSize c)) = d" for c d
  proof (cases d)
    case (Cons x xs)
    have "length (slice ?v (nat (dataOffset c)) (nat (dataOffset c + packSize c))) = length d" using that(3) by simp
    then show ?thesis using inside that Cons by (auto simp: slice_def min_def split: if_splits)
  qed (use inside that in auto)
  have "list_all2 (chunk_of Ps) fs cs"
    using cs(3) inside fit w(3) assms(2) by (auto simp: list_all2_conv_all_nth chunk_of_def volume_content_def)
  then show ?thesis using cs(1) inside w(3) by auto
qed

lemma list_all2_concat: "list_all2 (list_all2 R) xss yss \<Longrightarrow> list_all2 R (concat xss) (concat yss)"
  by (induction rule: list_all2_induct) (auto intro: list_all2_appendI)

lemma list_all2_filter: "list_all2 R xs ys \<Longrightarrow> (\<And>x y. R x y \<Longrightarrow> p x = q y) \<Longrightarrow> list_all2 R (filter p xs) (filter q ys)"
  by (induction rule: list_all2_induct) auto

lemma in_set_mapD: "map f xs = map g ys \<Longrightarrow> x \<in> set xs \<Longrightarrow> \<exists>y \<in> set ys. f x = g y"
  by (metis (no_types, lifting) image_iff list.set_map)

lemma list_all2_ex: "list_all2 R xs ys \<Longrightarrow> y \<in> set ys \<Longrightarrow> \<exists>x \<in> set xs. R x y"
  by (induction rule: list_all2_induct) auto

lemma probed_written:
  assumes "list_all2 posted_volume fss Ps"
  shows "list_all2 (chunk_of Ps) (concat fss) (probed_chunks Ps)" "sorted (map volIndex (probed_chunks Ps))"
proof -
  let ?n = "length Ps"
  define css where "css i = (case parseVolume (bytes_volume (posting_content (Ps ! i))) (int i) of Some (Inr cs) \<Rightarrow> cs | _ \<Rightarrow> [])" for i
  have n: "length fss = ?n" using assms by (rule list_all2_lengthD)
  have c: "list_all2 (chunk_of Ps) (fss ! i) (css i)" "\<forall>c \<in> set (css i). volIndex c = int i" if "i < ?n" for i
    using volume_chunks [of "fss ! i" Ps i] list_all2_nthD2 [OF assms that] that by (auto simp: css_def)
  have p: "probed_chunks Ps = concat (map css [0..<?n])" by (simp add: probed_chunks_def css_def [abs_def])
  have "list_all2 (list_all2 (chunk_of Ps)) fss (map css [0..<?n])"
    using n c(1) by (auto simp: list_all2_conv_all_nth)
  then show "list_all2 (chunk_of Ps) (concat fss) (probed_chunks Ps)" unfolding p by (rule list_all2_concat)
  have "sorted (map volIndex (concat (map css [0..<k])))" if "k \<le> ?n" for k
    using that
  proof (induction k)
    case (Suc k)
    have "volIndex c \<le> volIndex d" if before: "c \<in> set (concat (map css [0..<k]))" and here: "d \<in> set (css k)" for c d
    proof -
      obtain i where "i < k" "c \<in> set (css i)" using before by auto
      then have "volIndex c = int i" "volIndex d = int k" using here c(2) [of i] c(2) [of k] Suc.prems by auto
      then show ?thesis using \<open>i < k\<close> by simp
    qed
    moreover have "sorted (map volIndex (css k))" using c(2) [of k] Suc.prems by (auto simp: sorted_iff_nth_mono)
    ultimately show ?case using Suc by (auto simp: sorted_append)
  qed simp
  then show "sorted (map volIndex (probed_chunks Ps))" unfolding p by simp
qed

lemma chunk_lengths: "list_all2 (chunk_of Ps) fs cs \<Longrightarrow> sum_list (map packSize cs) = int (length (concat (map rf_data fs)))"
  by (induction rule: list_all2_induct) (auto simp: chunk_of_def)

text \<open>The extents of an accepted release hold the data of the video's files, in order.\<close>

lemma written_release:
  assumes "list_all2 posted_volume fss Ps" "store_of_chunks u (probed_chunks Ps) = Inr st"
    and "video = concat (map rf_data (filter (\<lambda>f. rarBaseName (rf_name f) = videoName st) (concat fss)))"
    and "int (length video) \<le> max_i64"
  shows "release_ok Ps st" "video_content Ps st = video"
proof -
  let ?g = "filter (\<lambda>c. ch_name c = videoName st) (probed_chunks Ps)"
  let ?fs = "filter (\<lambda>f. rarBaseName (rf_name f) = videoName st) (concat fss)"
  have fc: "list_all2 (chunk_of Ps) ?fs ?g"
    using probed_written(1) [OF assms(1)] by (rule list_all2_filter) (simp add: chunk_of_def)
  have "sorted (map volIndex ?g)" using probed_written(2) [OF assms(1)] by (rule sorted_filter)
  then have g: "sort_key volIndex ?g = ?g" by (rule sort_key_id_if_sorted)
  have tot: "sum_list (map packSize ?g) \<le> max_i64" using chunk_lengths [OF fc] assms(3,4) by simp
  note x = store_of_chunks_facts(4) [OF assms(2) refl, unfolded g]
  have e: "map (\<lambda>e. (ex_volIndex e, ex_dataOffset e, ex_length e)) (rs_extents st) = map (\<lambda>c. (volIndex c, dataOffset c, packSize c)) ?g"
    using extents_loop_laid_out [OF x] tot by simp
  have ok: "store_ok st" using store_of_chunks_ok [OF assms(2) tot] .
  have "\<exists>f. chunk_of Ps f c" if "c \<in> set ?g" for c
    using list_all2_ex [OF fc that] by blast
  moreover have "\<exists>c \<in> set ?g. (ex_volIndex d, ex_dataOffset d, ex_length d) = (volIndex c, dataOffset c, packSize c)" if "d \<in> set (rs_extents st)" for d
    using in_set_mapD [OF e that] .
  ultimately show "release_ok Ps st" using ok by (fastforce simp: release_ok_def chunk_of_def)
  have "map (extent_bytes Ps) (rs_extents st) =
      map (\<lambda>(v, a, l). slice (volume_content Ps v) (nat a) (nat (a + l))) (map (\<lambda>e. (ex_volIndex e, ex_dataOffset e, ex_length e)) (rs_extents st))"
    by (simp add: extent_bytes_def)
  also have "\<dots> = map rf_data ?fs"
    unfolding e using fc by (intro nth_equalityI) (auto simp: list_all2_conv_all_nth chunk_of_def)
  finally show "video_content Ps st = video" by (simp add: video_content_def assms(3))
qed

lemma OpenVideo_ok:
  assumes "list_all2 (\<lambda>P f. map sg_MessageID (ix_segs (NewOffsetIndex shuffle f)) = posting_ids P) Ps vols" "0 \<le> off"
  shows "video_ok Ps (snd (video_Seek st off SeekStart (OpenVideo (map (NewOffsetIndex shuffle) vols))))"
    "v_pos (snd (video_Seek st off SeekStart (OpenVideo (map (NewOffsetIndex shuffle) vols)))) = off"
proof -
  have "index_for (Ps ! i) (NewOffsetIndex shuffle (vols ! i))" if "i < length Ps" for i
    unfolding index_for_def using list_all2_nthD [OF assms(1) that] by (rule posted.openReader_ok)
  then show "video_ok Ps (snd (video_Seek st off SeekStart (OpenVideo (map (NewOffsetIndex shuffle) vols))))"
    using assms list_all2_lengthD [OF assms(1)] by (simp add: video_ok_def indexes_ok_def OpenVideo_def video_Seek_def)
qed (use assms(2) in \<open>simp add: video_Seek_def\<close>)


definition sample_volume :: "bytes \<times> (bytes \<times> bytes) list" where
  "sample_volume = (str ''a.rar'', [([97], take 30 (rar4_write [sample_file])), ([98], drop 30 (rar4_write [sample_file]))])"

definition sample_volume_nzb :: nzb_file where
  "sample_volume_nzb = \<lparr>fl_Poster = [], fl_Date = 0, fl_Subject = [], fl_Groups = [], fl_Segments =
     [\<lparr>sg_Bytes = 40, sg_Number = 2, sg_MessageID = [98]\<rparr>, \<lparr>sg_Bytes = 40, sg_Number = 1, sg_MessageID = [97]\<rparr>]\<rparr>"

lemma sample_volume_length: "length (rar4_write [sample_file]) = 67"
  by (simp add: rar4_write_def rar4_hdr_def rar4_main_def rar4_end_def rar4Marker_def sample_file_def rar4_base_def le16_def le32_def)

lemma sample_volume_wf: "posting_wf sample_volume"
  using sample_volume_length
  by (auto simp: sample_volume_def posting_wf_def encodable_name_def trimmed_def space_seqs_def max_token_def upt_rec)

lemma sample_volume_posted: "posted_volume [sample_file] (Abs_posting sample_volume)"
  using sample_volume_wf
  by (simp add: posted_volume_def posting_content_def posting_articles_def Abs_posting_inverse rar4_file_ok_def sample_file_def)
    (simp add: sample_volume_def sample_file_def)

lemma sample_volume_ids:
  "map sg_MessageID (ix_segs (NewOffsetIndex id sample_volume_nzb)) = posting_ids (Abs_posting sample_volume)"
proof -
  have "map sg_MessageID (ix_segs (NewOffsetIndex id sample_volume_nzb)) = [[97], [98]]" by code_simp
  then show ?thesis
    using sample_volume_wf by (simp add: posting_ids_def posting_articles_def Abs_posting_inverse sample_volume_def)
qed

lemma sample_volume_store:
  "\<exists>st. store_of_chunks id (probed_chunks [Abs_posting sample_volume]) = Inr st \<and> videoName st = str ''a.mkv''"
proof -
  have len: "int (length (rar4_write [sample_file])) \<le> max_i64" using sample_volume_length by simp
  have "list_all rar4_file_ok [sample_file]" by (simp add: rar4_file_ok_def sample_file_def)
  from rar4_written_chunks [OF this _ len, of 0] obtain c where
    c: "parseVolume (bytes_volume (rar4_write [sample_file])) 0 = Some (Inr [c])" "ch_name c = rarBaseName (str ''a.mkv'')"
      "stored c" "\<not> encrypted c" "packSize c = 3" "unpSize c = 3"
    by (auto simp: list_all2_Cons1 sample_file_def)
  have n: "rarBaseName (str ''a.mkv'') = str ''a.mkv''" "isVideoName id (str ''a.mkv'')" by code_simp+
  have "posting_content (Abs_posting sample_volume) = rar4_write [sample_file]"
    using sample_volume_posted by (simp add: posted_volume_def)
  then have "probed_chunks [Abs_posting sample_volume] = [c]" using c(1) by (simp add: probed_chunks_def)
  then show ?thesis
    using c n by (simp add: store_of_chunks_def selectVideo_def buildExtents_def i64_nonneg)
qed


section \<open>Volume readers refine the bytes of a volume\<close>

text \<open>\<open>io.ReadFull\<close> ends, with the bytes asked for or an error.\<close>

lemma read_full_ends:
  assumes "posted.reader_ok P r \<and> SizeExact (r_ix r)" "length acc \<le> n" "int (length acc) \<le> r_pos r"
    and "acc = take (length acc) (drop (nat (r_pos r) - length acc) (posting_content P))"
  shows "\<exists>res r'. read_full (posted_env P fault pick env) n acc r = Some (res, r') \<and> posted.reader_ok P r' \<and> SizeExact (r_ix r') \<and>
    (\<forall>b. res = Inr b \<longrightarrow> length b = n \<and> b = take n (drop (nat (r_pos r) - length acc) (posting_content P)))"
  using assms
proof (induction "n - length acc" arbitrary: acc r rule: less_induct)
  case less
  let ?E = "posted_env P fault pick env"
  show ?case
  proof (cases "length acc = n")
    case True
    have "read_full ?E n acc r = Some (Inr acc, r)" using True by (subst read_full.simps) simp
    then show ?thesis using less.prems(1,4) True by auto
  next
    case False
    then have lt: "length acc < n" using less.prems(2) by simp
    obtain bs err r1 where x: "Read ?E (n - length acc) r = (bs, err, r1)" by (metis prod_cases3)
    note s = posted_reader.serves [OF less.prems(1) x]
    show ?thesis
    proof (cases err)
      case None
      have ne: "bs \<noteq> []" using posted_reader.progress [OF less.prems(1)] x None lt by fastforce
      let ?start = "nat (r_pos r) - length acc"
      have st: "nat (r_pos r1) - length (acc @ bs) = ?start" "nat (r_pos r) = ?start + length acc"
        using s less.prems(3) by (auto simp: nat_add_distrib)
      have app: "acc @ bs = take (length (acc @ bs)) (drop (nat (r_pos r1) - length (acc @ bs)) (posting_content P))"
        unfolding st(1) unfolding length_append
      proof (rule posted_reader.take_append_drop)
        show "acc = take (length acc) (drop ?start (posting_content P))" using less.prems(4) .
        show "bs = take (length bs) (drop (length acc) (drop ?start (posting_content P)))"
          unfolding drop_drop add.commute [of "length acc"] st(2) [symmetric] using s by blast
      qed
      have shrink: "n - length (acc @ bs) < n - length acc" "length (acc @ bs) \<le> n" "int (length (acc @ bs)) \<le> r_pos r1"
        using ne lt s less.prems(3) by (cases bs; simp)+
      have "\<exists>res r'. read_full ?E n (acc @ bs) r1 = Some (res, r') \<and> posted.reader_ok P r' \<and> SizeExact (r_ix r') \<and>
          (\<forall>b. res = Inr b \<longrightarrow> length b = n \<and> b = take n (drop (nat (r_pos r1) - length (acc @ bs)) (posting_content P)))"
        using less.hyps [OF shrink(1) _ shrink(2,3) app] s by blast
      moreover have "read_full ?E n acc r = read_full ?E n (acc @ bs) r1"
        using x None lt by (subst read_full.simps) simp
      ultimately show ?thesis unfolding st(1) by simp
    next
      case (Some e)
      have "bs = []" using posted_reader.fails_empty [OF less.prems(1)] x Some by blast
      then have "\<exists>w. read_full ?E n acc r = Some (Inl w, r1)"
        using x Some lt by (subst read_full.simps) simp
      then show ?thesis using s by auto
    qed
  qed
qed

lemma volume_readAt_ok:
  assumes "posted.reader_ok P (vr_r rv) \<and> SizeExact (r_ix (vr_r rv))" "vr_sz rv = int (length (posting_content P))"
  shows "\<exists>res rv'. volume_readAt (posted_env P fault pick env) off n rv = Some (res, rv') \<and>
    posted.reader_ok P (vr_r rv') \<and> SizeExact (r_ix (vr_r rv')) \<and> vr_sz rv' = int (length (posting_content P)) \<and>
    (case vs_readAt (bytes_volume (posting_content P)) off n of
       None \<Rightarrow> res = Inl UnexpectedEOF | Some b \<Rightarrow> res = Inr b \<or> (\<exists>e. res = Inl e))"
proof (cases "0 \<le> off \<and> 0 \<le> n \<and> off + n \<le> int (length (posting_content P))")
  case True
  let ?E = "posted_env P fault pick env"
  have "i64 (vr_sz rv - n) = vr_sz rv - n"
    using True assms(2) posting_facts(6) [of P] by (intro i64_nonneg) auto
  then have guards: "\<not> (off < 0 \<or> n < 0)" "\<not> (vr_sz rv < n \<or> i64 (vr_sz rv - n) < off)" using True assms(2) by auto
  obtain sr r1 where s: "seek_to off (vr_r rv) = (sr, r1)" by force
  have r1: "posted.reader_ok P r1 \<and> SizeExact (r_ix r1)" "r_pos r1 = off" "sr = Inr off"
    using posted.seek_to_ok [OF conjunct1 [OF assms(1)] s] assms(1) seek_to_ix [of off "vr_r rv"] s True by (auto simp: seek_to_def split: if_splits)
  obtain res r2 where f: "read_full ?E (nat n) [] r1 = Some (res, r2)" "posted.reader_ok P r2" "SizeExact (r_ix r2)"
      "\<forall>b. res = Inr b \<longrightarrow> length b = nat n \<and> b = take (nat n) (drop (nat off) (posting_content P))"
    using read_full_ends [OF r1(1), of "[]" "nat n" fault pick env] r1(2) True by auto
  have "volume_readAt ?E off n rv = Some (res, rv\<lparr>vr_r := r2\<rparr>)"
    using guards s r1(3) f(1) by (simp add: volume_readAt_def Seek_def)
  moreover have "res = Inr b \<or> (\<exists>e. res = Inl e)" if "vs_readAt (bytes_volume (posting_content P)) off n = Some b" for b
    using that f(4) True by (cases res) (auto simp: bytes_volume_readAt slice_def nat_add_distrib split: if_splits)
  ultimately show ?thesis using f(2,3) assms(2) True by (auto simp: bytes_volume_readAt)
next
  case False
  have "volume_readAt (posted_env P fault pick env) off n rv = Some (Inl UnexpectedEOF, rv)"
  proof (cases "off < 0 \<or> n < 0 \<or> vr_sz rv < n")
    case no: False
    then have "i64 (vr_sz rv - n) = vr_sz rv - n"
      using assms(2) posting_facts(6) [of P] by (intro i64_nonneg) auto
    then show ?thesis using False no assms(2) by (auto simp: volume_readAt_def)
  qed (auto simp: volume_readAt_def)
  then show ?thesis using assms False by (auto simp: bytes_volume_readAt)
qed

text \<open>A sequence of requests to one volume reader.\<close>

fun readAts :: "reader_env \<Rightarrow> (int \<times> int) list \<Rightarrow> volume_reader \<Rightarrow> ((volume_err + bytes) list \<times> volume_reader) option" where
  "readAts env [] rv = Some ([], rv)"
| "readAts env ((off, n) # reqs) rv =
     (case volume_readAt env off n rv of
        None \<Rightarrow> None
      | Some (res, rv') \<Rightarrow> map_option (\<lambda>(rs, rv''). (res # rs, rv'')) (readAts env reqs rv'))"

definition answers :: "bytes \<Rightarrow> int \<times> int \<Rightarrow> volume_err + bytes \<Rightarrow> bool" where
  "answers v req res =
     (case vs_readAt (bytes_volume v) (fst req) (snd req) of
        None \<Rightarrow> res = Inl UnexpectedEOF | Some b \<Rightarrow> res = Inr b \<or> (\<exists>e. res = Inl e))"

lemma readAts_ok:
  assumes "posted.reader_ok P (vr_r rv) \<and> SizeExact (r_ix (vr_r rv))" "vr_sz rv = int (length (posting_content P))"
  shows "\<exists>rs rv'. readAts (posted_env P fault pick env) reqs rv = Some (rs, rv') \<and> list_all2 (answers (posting_content P)) reqs rs"
  using assms
proof (induction reqs arbitrary: rv)
  case (Cons req reqs)
  obtain off n where req: "req = (off, n)" by force
  obtain res rv1 where o: "volume_readAt (posted_env P fault pick env) off n rv = Some (res, rv1)"
      "posted.reader_ok P (vr_r rv1) \<and> SizeExact (r_ix (vr_r rv1))" "vr_sz rv1 = int (length (posting_content P))"
      "answers (posting_content P) (off, n) res"
    using volume_readAt_ok [OF Cons.prems, of fault pick env off n] by (auto simp: answers_def)
  obtain rs rv' where "readAts (posted_env P fault pick env) reqs rv1 = Some (rs, rv')" "list_all2 (answers (posting_content P)) reqs rs"
    using Cons.IH [OF o(2,3)] by blast
  then show ?case using o(1,4) req by auto
qed simp

text \<open>
  What the header parsers read through a volume reader is the volume: over a posted volume every sequence of
  \<open>readAt\<close> calls returns, and never with a wrong byte. Inside the volume a call returns exactly the bytes asked for or
  the error of a failed read; a request that leaves the volume is refused. The size the reader reports is that of the volume.
\<close>

theorem readAt_refines_volume:
  assumes "map sg_MessageID (ix_segs (NewOffsetIndex shuffle f)) = posting_ids P"
    and "newProbeVolume (posted_env P fault pick env) t (NewOffsetIndex shuffle f) = (Inr rv, r)"
  shows "vr_sz rv = vs_size (bytes_volume (posting_content P)) \<and>
    (\<exists>rs rv'. readAts (posted_env P fault pick env) reqs rv = Some (rs, rv') \<and> list_all2 (answers (posting_content P)) reqs rs)"
proof -
  let ?E = "posted_env P fault pick env" and ?r = "DisableReadahead ((openReader (NewOffsetIndex shuffle f))\<lparr>r_clock := t\<rparr>)"
  have ok: "posted.reader_ok P ?r"
    using posted.openReader_ok [OF assms(1)] by (rule posted.reader_ok_cong) (simp_all add: DisableReadahead_def)
  obtain sz r1 where s: "Seek ?E 0 SeekEnd ?r = (Inr sz, r1)" "rv = \<lparr>vr_r = r1, vr_sz = sz\<rparr>"
    using assms(2) by (auto simp: newProbeVolume_def openReaderVolume_def split: prod.splits sum.splits)
  have "posted.reader_ok P (vr_r rv) \<and> SizeExact (r_ix (vr_r rv))" "vr_sz rv = int (length (posting_content P))"
    using posted.Seek_end [OF ok posting_lens_ne s(1)] s(2) by simp_all
  then show ?thesis using readAts_ok by simp
qed

lemma posted_opens:
  assumes "index_for P ix"
  shows "\<exists>rv r. newProbeVolume (posted_env P (\<lambda>_. None) pick env) t ix = (Inr rv, r)"
proof -
  let ?E = "posted_env P (\<lambda>_. None) pick env" and ?r = "DisableReadahead ((openReader ix)\<lparr>r_clock := t\<rparr>)"
  have ok: "posted.reader_ok P ?r"
    using assms unfolding index_for_def by (rule posted.reader_ok_cong) (simp_all add: DisableReadahead_def)
  have n: "0 < length (posting_lens P)" using posting_lens_ne by simp
  obtain pt where pt: "posted_load P (\<lambda>_. None) (r_clock ?r) (posting_ids P ! 0) = Inr pt" using posted_load_serves [OF n] by blast
  have "r_cur ?r = None" by (simp add: openReader_def DisableReadahead_def)
  then have "\<exists>r1. fetchArticle ?E 0 ?r = (Inr pt, r1)"
    using pt posted.ids_of_index [OF ok n] by (simp add: fetchArticle_def posted_env_def Let_def)
  then have "\<exists>r1. ensureSizeExact ?E ?r = (None, r1)" by (auto simp: ensureSizeExact_def)
  then obtain r1 where e: "ensureSizeExact ?E ?r = (None, r1)" by blast
  have "0 \<le> i64 (FileSize (r_ix r1))"
    using posted.ensureSizeExact_ok [OF ok e] posting_facts(6) [of P] by (simp add: i64_nonneg)
  then show ?thesis using e by (simp add: newProbeVolume_def openReaderVolume_def Seek_def seek_to_def)
qed

theorem readAt_refines_volume_witness:
  "\<exists>rv r rs rv'. newProbeVolume (posted_env (Abs_posting sample_volume) (\<lambda>_. None) (\<lambda>_. WaitOutside) sample_env) 0
       (NewOffsetIndex id sample_volume_nzb) = (Inr rv, r) \<and> vr_sz rv = 67 \<and>
     readAts (posted_env (Abs_posting sample_volume) (\<lambda>_. None) (\<lambda>_. WaitOutside) sample_env) [(60, 8)] rv = Some (rs, rv') \<and>
     rs = [Inl UnexpectedEOF]"
proof -
  let ?P = "Abs_posting sample_volume"
  let ?E = "posted_env ?P (\<lambda>_. None) (\<lambda>_. WaitOutside) sample_env"
  let ?ix = "NewOffsetIndex id sample_volume_nzb"
  have c: "length (posting_content ?P) = 67"
    using sample_volume_posted sample_volume_length by (simp add: posted_volume_def)
  have "index_for ?P ?ix" unfolding index_for_def using sample_volume_ids by (rule posted.openReader_ok)
  then obtain rv r where n: "newProbeVolume ?E 0 ?ix = (Inr rv, r)" using posted_opens by blast
  obtain rs rv' where t: "vr_sz rv = 67" "readAts ?E [(60, 8)] rv = Some (rs, rv')" "list_all2 (answers (posting_content ?P)) [(60, 8)] rs"
    using readAt_refines_volume [OF sample_volume_ids n, of "[(60, 8)]"] c by auto
  then have "rs = [Inl UnexpectedEOF]" using c by (auto simp: list_all2_Cons1 answers_def bytes_volume_readAt)
  then show ?thesis using n t by blast
qed

end
