(* ===== verification/Go_Binary.thy ===== *)
theory Go_Binary
  imports Go_Prelude "HOL-Library.List_Lexorder"
begin

text \<open>
  What the download tracker uses of the Go library beyond strings: the little-endian numbers of
  \<open>encoding/binary\<close>, \<open>crypto/sha256\<close>, and the order of strings.
\<close>

section \<open>Little-endian numbers\<close>

fun put_le :: "nat \<Rightarrow> 'a::len word \<Rightarrow> bytes" where
  "put_le 0 w = []"
| "put_le (Suc k) w = ucast w # put_le k (drop_bit 8 w)"

fun get_le :: "bytes \<Rightarrow> 'a::len word" where
  "get_le [] = 0"
| "get_le (b # bs) = ucast b OR push_bit 8 (get_le bs)"

definition PutUint16 :: "uint16 \<Rightarrow> bytes" where
  "PutUint16 = put_le 2"

definition PutUint32 :: "uint32 \<Rightarrow> bytes" where
  "PutUint32 = put_le 4"

definition PutUint64 :: "uint64 \<Rightarrow> bytes" where
  "PutUint64 = put_le 8"

definition Uint16 :: "bytes \<Rightarrow> uint16" where
  "Uint16 b = get_le (take 2 b)"

definition Uint32 :: "bytes \<Rightarrow> uint32" where
  "Uint32 b = get_le (take 4 b)"

definition Uint64 :: "bytes \<Rightarrow> uint64" where
  "Uint64 b = get_le (take 8 b)"

lemma length_put_le [simp]: "length (put_le k w) = k"
  by (induction k arbitrary: w) simp_all

lemma bit_get_put_le: "bit (get_le (put_le k w) :: 'a::len word) i \<longleftrightarrow> i < 8 * k \<and> bit (w :: 'a word) i"
proof (induction k arbitrary: w i)
  case (Suc k)
  have "bit w i \<Longrightarrow> i < LENGTH('a)" by (rule bit_imp_le_length)
  then show ?case
    by (cases "i < 8") (auto simp: bit_simps Suc.IH)
qed (simp add: bit_simps)

lemma get_put_le: "LENGTH('a) \<le> 8 * k \<Longrightarrow> get_le (put_le k w) = (w :: 'a::len word)"
  by (rule bit_word_eqI) (simp add: bit_get_put_le)

lemma Put_simps [simp]:
  "length (PutUint16 a) = 2" "length (PutUint32 b) = 4" "length (PutUint64 c) = 8"
  "Uint16 (PutUint16 a @ r) = a" "Uint32 (PutUint32 b @ r) = b" "Uint64 (PutUint64 c @ r) = c"
  by (simp_all add: PutUint16_def PutUint32_def PutUint64_def Uint16_def Uint32_def Uint64_def get_put_le)

section \<open>SHA-256\<close>

definition sha_K :: "uint32 list" where
  "sha_K =
    [1116352408, 1899447441, 3049323471, 3921009573, 961987163, 1508970993, 2453635748, 2870763221,
     3624381080, 310598401, 607225278, 1426881987, 1925078388, 2162078206, 2614888103, 3248222580,
     3835390401, 4022224774, 264347078, 604807628, 770255983, 1249150122, 1555081692, 1996064986,
     2554220882, 2821834349, 2952996808, 3210313671, 3336571891, 3584528711, 113926993, 338241895,
     666307205, 773529912, 1294757372, 1396182291, 1695183700, 1986661051, 2177026350, 2456956037,
     2730485921, 2820302411, 3259730800, 3345764771, 3516065817, 3600352804, 4094571909, 275423344,
     430227734, 506948616, 659060556, 883997877, 958139571, 1322822218, 1537002063, 1747873779,
     1955562222, 2024104815, 2227730452, 2361852424, 2428436474, 2756734187, 3204031479, 3329325298]"

definition sha_H :: "uint32 list" where
  "sha_H = [1779033703, 3144134277, 1013904242, 2773480762, 1359893119, 2600822924, 528734635, 1541459225]"

definition rotr32 :: "nat \<Rightarrow> uint32 \<Rightarrow> uint32" where
  "rotr32 n w = drop_bit n w OR push_bit (32 - n) w"

definition put_be32 :: "uint32 \<Rightarrow> bytes" where
  "put_be32 w = rev (put_le 4 w)"

definition get_be32 :: "bytes \<Rightarrow> uint32" where
  "get_be32 b = get_le (rev (take 4 b))"

definition sha_pad :: "bytes \<Rightarrow> bytes" where
  "sha_pad m =
     m @ [0x80] @ replicate (nat ((55 - int (length m)) mod 64)) 0 @ rev (put_le 8 (of_nat (8 * length m) :: uint64))"

fun sha_words :: "nat \<Rightarrow> bytes \<Rightarrow> uint32 list" where
  "sha_words 0 b = []"
| "sha_words (Suc n) b = get_be32 b # sha_words n (drop 4 b)"

text \<open>The message schedule, newest word first.\<close>

definition sha_next :: "uint32 list \<Rightarrow> uint32" where
  "sha_next ws =
     (let w15 = ws ! 14; w2 = ws ! 1;
          s0 = rotr32 7 w15 XOR rotr32 18 w15 XOR drop_bit 3 w15;
          s1 = rotr32 17 w2 XOR rotr32 19 w2 XOR drop_bit 10 w2
      in ws ! 15 + s0 + ws ! 6 + s1)"

fun sha_schedule :: "nat \<Rightarrow> uint32 list \<Rightarrow> uint32 list" where
  "sha_schedule 0 ws = rev ws"
| "sha_schedule (Suc n) ws = sha_schedule n (sha_next ws # ws)"

definition sha_round :: "uint32 list \<Rightarrow> uint32 \<times> uint32 \<Rightarrow> uint32 list" where
  "sha_round st kw =
     (case st of
        [a, b, c, d, e, f, g, h] \<Rightarrow>
          let S1 = rotr32 6 e XOR rotr32 11 e XOR rotr32 25 e;
              ch = (e AND f) XOR (NOT e AND g);
              t1 = h + S1 + ch + fst kw + snd kw;
              S0 = rotr32 2 a XOR rotr32 13 a XOR rotr32 22 a;
              maj = (a AND b) XOR (a AND c) XOR (b AND c)
          in [t1 + (S0 + maj), a, b, c, d + t1, e, f, g]
      | _ \<Rightarrow> st)"

definition sha_block :: "uint32 list \<Rightarrow> bytes \<Rightarrow> uint32 list" where
  "sha_block H b = map2 (+) H (foldl sha_round H (zip sha_K (sha_schedule 48 (rev (sha_words 16 b)))))"

function sha_blocks :: "uint32 list \<Rightarrow> bytes \<Rightarrow> uint32 list" where
  "sha_blocks H b = (if b = [] then H else sha_blocks (sha_block H (take 64 b)) (drop 64 b))"
  by pat_completeness auto
termination
  by (relation "measure (\<lambda>(H, b). length b)") auto

declare sha_blocks.simps [simp del]

definition Sum256 :: "bytes \<Rightarrow> bytes" where
  "Sum256 m = concat (map put_be32 (sha_blocks sha_H (sha_pad m)))"

lemma length_sha_round [simp]: "length (sha_round st kw) = length st"
  by (auto simp: sha_round_def Let_def split: list.split)

lemma length_foldl_round [simp]: "length (foldl sha_round st kws) = length st"
  by (induction kws arbitrary: st) simp_all

lemma length_sha_blocks: "length (sha_blocks H b) = length H"
proof (induction H b rule: sha_blocks.induct)
  case (1 H b)
  then show ?case by (subst sha_blocks.simps) (simp add: sha_block_def)
qed

lemma length_Sum256 [simp]: "length (Sum256 m) = 32"
proof -
  have "length (concat (map put_be32 ws)) = 4 * length ws" for ws
    by (induction ws) (simp_all add: put_be32_def)
  then show ?thesis by (simp add: Sum256_def length_sha_blocks sha_H_def)
qed

end
