(* ===== verification/Download_Progress.thy ===== *)
theory Download_Progress
  imports Nzb Go_Binary
begin

text \<open>
  The resume state of a batch download, \<open>internal/usenet/download/progress.go\<close>: per file a bitset of the segments written
  and the highest end offset, kept in memory and flushed to a small binary file. Every method is atomic under the tracker's
  mutex, a flush apart, which is the subject of the machine in \<open>Download_Progress_Machine\<close>.
\<close>

record file_progress =
  segCount :: nat
  completed :: bytes
  doneCount :: int
  knownSize :: int

record tracker =
  fingerprint :: bytes
  tr_files :: "file_progress list"
  dirty :: bool
  markCount :: int
  lastFlush :: int

definition progressMagic :: bytes where
  "progressMagic = str ''UNRP''"

definition progressVersion :: byte where
  "progressVersion = 2"

definition headerSize :: nat where
  "headerSize = 40"

definition fileHeaderSize :: nat where
  "fileHeaderSize = 12"

definition flushSegmentFreq :: int where
  "flushSegmentFreq = 100"

definition flushInterval :: int where
  "flushInterval = 2000000000" \<comment> \<open>two seconds\<close>

section \<open>Creation\<close>

definition Fingerprint :: "nzb \<Rightarrow> bytes" where
  "Fingerprint n =
     (let ids = concat (map (\<lambda>f. map sg_MessageID (fl_Segments f)) (nz_Files n))
      in Sum256 (concat (map (\<lambda>i. i @ [10]) (sort ids))))"

definition NewProgressTracker :: "nzb \<Rightarrow> int \<Rightarrow> tracker" where
  "NewProgressTracker n now =
     \<lparr>fingerprint = Fingerprint n,
      tr_files = map (\<lambda>f. let c = length (fl_Segments f) in
        \<lparr>segCount = c, completed = replicate ((c + 7) div 8) 0, doneCount = 0, knownSize = 0\<rparr>) (nz_Files n),
      dirty = False, markCount = 0, lastFlush = now\<rparr>"

section \<open>Marking segments\<close>

definition seg_mask :: "nat \<Rightarrow> byte" where
  "seg_mask seg = push_bit (seg mod 8) 1"

definition seg_bit :: "bytes \<Rightarrow> nat \<Rightarrow> bool" where
  "seg_bit b seg \<longleftrightarrow> b ! (seg div 8) AND seg_mask seg \<noteq> 0"

text \<open>The guards of the methods: the file's entry, and the segment as an index into it.\<close>

definition file_at :: "tracker \<Rightarrow> int \<Rightarrow> file_progress option" where
  "file_at t i = (if i < 0 \<or> int (length (tr_files t)) \<le> i then None else Some (tr_files t ! nat i))"

definition upd_file :: "int \<Rightarrow> file_progress \<Rightarrow> tracker \<Rightarrow> tracker" where
  "upd_file i fp t = t\<lparr>tr_files := (tr_files t)[nat i := fp]\<rparr>"

text \<open>The result of \<open>MarkDone\<close> says whether it goes on to \<open>tryFlush\<close>.\<close>

definition MarkDone :: "int \<Rightarrow> int \<Rightarrow> int \<Rightarrow> tracker \<Rightarrow> bool \<times> tracker" where
  "MarkDone fileIndex segIndex now t =
     (case file_at t fileIndex of
        None \<Rightarrow> (False, t)
      | Some fp \<Rightarrow>
          if segIndex < 0 \<or> int (segCount fp) \<le> segIndex then (False, t)
          else
            let seg = nat segIndex in
            if seg_bit (completed fp) seg then (False, t)
            else
              let fp' = fp\<lparr>completed := (completed fp)[seg div 8 := completed fp ! (seg div 8) OR seg_mask seg],
                           doneCount := doneCount fp + 1\<rparr>;
                  t' = (upd_file fileIndex fp' t)\<lparr>dirty := True, markCount := markCount t + 1\<rparr>
              in (flushSegmentFreq \<le> markCount t' \<or> flushInterval \<le> now - lastFlush t', t'))"

definition IsDone :: "int \<Rightarrow> int \<Rightarrow> tracker \<Rightarrow> bool" where
  "IsDone fileIndex segIndex t =
     (case file_at t fileIndex of
        None \<Rightarrow> False
      | Some fp \<Rightarrow> if segIndex < 0 \<or> int (segCount fp) \<le> segIndex then False else seg_bit (completed fp) (nat segIndex))"

definition IsFileDone :: "int \<Rightarrow> tracker \<Rightarrow> bool" where
  "IsFileDone fileIndex t = (case file_at t fileIndex of None \<Rightarrow> False | Some fp \<Rightarrow> int (segCount fp) \<le> doneCount fp)"

definition CompletedSegments :: "int \<Rightarrow> tracker \<Rightarrow> int" where
  "CompletedSegments fileIndex t = (case file_at t fileIndex of None \<Rightarrow> 0 | Some fp \<Rightarrow> doneCount fp)"

definition CompletedBytes :: "int \<Rightarrow> segment list \<Rightarrow> tracker \<Rightarrow> int" where
  "CompletedBytes fileIndex segments t =
     (case file_at t fileIndex of
        None \<Rightarrow> 0
      | Some fp \<Rightarrow> foldl (\<lambda>tot (i, seg). if IsDone fileIndex (int i) t then i64 (tot + sg_Bytes seg) else tot) 0 (enumerate 0 segments))"

text \<open>\<open>NoteFileSize\<close>: the compare-and-swap on the size and, if it won, the dirty flag.\<close>

definition raise_size :: "int \<Rightarrow> int \<Rightarrow> tracker \<Rightarrow> bool \<times> tracker" where
  "raise_size fileIndex end t =
     (case file_at t fileIndex of
        None \<Rightarrow> (False, t)
      | Some fp \<Rightarrow> if end \<le> 0 \<or> end \<le> knownSize fp then (False, t) else (True, upd_file fileIndex (fp\<lparr>knownSize := end\<rparr>) t))"

definition markDirty :: "tracker \<Rightarrow> tracker" where
  "markDirty t = t\<lparr>dirty := True\<rparr>"

definition NoteFileSize :: "int \<Rightarrow> int \<Rightarrow> tracker \<Rightarrow> tracker" where
  "NoteFileSize fileIndex end t = (case raise_size fileIndex end t of (raised, t') \<Rightarrow> if raised then markDirty t' else t')"

definition KnownSize :: "int \<Rightarrow> tracker \<Rightarrow> int" where
  "KnownSize fileIndex t = (case file_at t fileIndex of None \<Rightarrow> 0 | Some fp \<Rightarrow> knownSize fp)"

definition ResetFile :: "int \<Rightarrow> tracker \<Rightarrow> tracker" where
  "ResetFile fileIndex t =
     (case file_at t fileIndex of
        None \<Rightarrow> t
      | Some fp \<Rightarrow>
          (upd_file fileIndex (fp\<lparr>completed := map (\<lambda>_. 0) (completed fp), doneCount := 0, knownSize := 0\<rparr>) t)\<lparr>dirty := True\<rparr>)"

definition TotalCompleted :: "tracker \<Rightarrow> int" where
  "TotalCompleted t = sum_list (map doneCount (tr_files t))"

section \<open>The progress file\<close>

definition file_record :: "file_progress \<Rightarrow> bytes" where
  "file_record fp =
     PutUint32 (of_nat (segCount fp)) @ PutUint64 (of_int (knownSize fp)) @ take ((segCount fp + 7) div 8) (completed fp)"

definition snapshot :: "tracker \<Rightarrow> bytes" where
  "snapshot t =
     progressMagic @ [progressVersion, 0] @ PutUint16 (of_nat (length (tr_files t))) @ fingerprint t @
     concat (map file_record (tr_files t))"

text \<open>The loop of \<open>Load\<close> over the files, from the bytes that are left: sizes and bitsets, or \<open>None\<close> for a
  file that is rejected.\<close>

fun load_files :: "file_progress list \<Rightarrow> bytes \<Rightarrow> (int \<times> bytes) list option" where
  "load_files [] d = Some []"
| "load_files (fp # fps) d =
     (if length d < fileHeaderSize then None
      else
        let sc = unat (Uint32 (slice d 0 4)); size = sint (Uint64 (slice d 4 fileHeaderSize)); d = drop fileHeaderSize d in
        if sc \<noteq> segCount fp then None
        else
          let bitsetLen = (sc + 7) div 8 in
          if length d < bitsetLen then None
          else map_option (\<lambda>rest. (size, take bitsetLen d) # rest) (load_files fps (drop bitsetLen d)))"

definition count_bits :: "nat \<Rightarrow> bytes \<Rightarrow> int" where
  "count_bits n b = int (length (filter (seg_bit b) [0..<n]))"

text \<open>\<open>copy\<close> overwrites as many bytes as the source has.\<close>

definition load_file :: "file_progress \<Rightarrow> int \<times> bytes \<Rightarrow> file_progress" where
  "load_file fp sb =
     fp\<lparr>completed := take (length (completed fp)) (snd sb) @ drop (length (snd sb)) (completed fp),
        doneCount := count_bits (segCount fp) (snd sb), knownSize := fst sb\<rparr>"

definition Load :: "bytes option \<Rightarrow> tracker \<Rightarrow> bool \<times> tracker" where
  "Load content t =
     (case content of
        None \<Rightarrow> (False, t)
      | Some d \<Rightarrow>
          if length d < headerSize then (False, t)
          else if take 4 d \<noteq> progressMagic then (False, t)
          else if d ! 4 \<noteq> progressVersion then (False, t)
          else if unat (Uint16 (slice d 6 8)) \<noteq> length (tr_files t) then (False, t)
          else if slice d 8 40 \<noteq> fingerprint t then (False, t)
          else (case load_files (tr_files t) (drop headerSize d) of
                  None \<Rightarrow> (False, t)
                | Some ls \<Rightarrow> (True, t\<lparr>tr_files := map2 load_file (tr_files t) ls\<rparr>)))"

section \<open>Flushing\<close>

text \<open>The part of \<open>flushLocked\<close> under the mutex: the bytes to write, with the flag cleared.\<close>

definition flush_snapshot :: "int \<Rightarrow> tracker \<Rightarrow> (bytes \<times> tracker) option" where
  "flush_snapshot now t =
     (if dirty t then Some (snapshot t, t\<lparr>dirty := False, markCount := 0, lastFlush := now\<rparr>) else None)"

datatype flush_io = MkdirFails | WriteFails | RenameFails | IoOk

text \<open>The whole flush, the file system's answers given: the error, the tracker and the progress file.\<close>

definition flushLocked :: "flush_io \<Rightarrow> int \<Rightarrow> tracker \<Rightarrow> bytes option \<Rightarrow> bool \<times> tracker \<times> bytes option" where
  "flushLocked io now t disk =
     (case flush_snapshot now t of
        None \<Rightarrow> (False, t, disk)
      | Some (buf, t') \<Rightarrow>
          (case io of
             MkdirFails \<Rightarrow> (True, t', disk)
           | WriteFails \<Rightarrow> (True, markDirty t', disk)
           | RenameFails \<Rightarrow> (True, markDirty t', disk)
           | IoOk \<Rightarrow> (False, t', Some buf)))"

definition Remove :: "tracker \<Rightarrow> tracker \<times> bytes option" where
  "Remove t = (t\<lparr>dirty := False\<rparr>, None)"

end
