(* ===== verification/Download_Progress_Props.thy ===== *)
theory Download_Progress_Props
  imports Download_Progress
begin

text \<open>
  The tracker as a set of marked segments, and its file as a faithful copy: what a flush writes, a restart reads back; what is
  not such a file is rejected as a whole.
\<close>

section \<open>Sets of marks\<close>

text \<open>What the download workers rely on, whichever order they finish in.\<close>

locale marked_set =
  fixes ok :: "'s \<Rightarrow> bool" and known :: "'s \<Rightarrow> 'a set" and marks :: "'s \<Rightarrow> 'a set"
    and mark :: "'a \<Rightarrow> 's \<Rightarrow> 's" and isin :: "'s \<Rightarrow> 'a \<Rightarrow> bool" and count :: "'s \<Rightarrow> int"
  assumes ok_mark: "ok s \<Longrightarrow> ok (mark a s)"
    and known_mark: "ok s \<Longrightarrow> known (mark a s) = known s"
    and marks_mark: "ok s \<Longrightarrow> marks (mark a s) = marks s \<union> ({a} \<inter> known s)"
    and isin_marks: "ok s \<Longrightarrow> isin s a \<longleftrightarrow> a \<in> marks s"
    and count_marks: "ok s \<Longrightarrow> count s = int (card (marks s))"
begin

lemma mark_all:
  "ok s \<Longrightarrow> ok (fold mark as s) \<and> known (fold mark as s) = known s \<and> marks (fold mark as s) = marks s \<union> (set as \<inter> known s)"
proof (induction as arbitrary: s)
  case (Cons a as)
  then show ?case using Cons.IH [of "mark a s"] ok_mark [of s a] known_mark [of s a] marks_mark [of s a] by auto
qed simp

text \<open>The order of the marks, and marking twice, make no difference to what is seen.\<close>

lemma mark_order:
  assumes "ok s" "set as = set bs"
  shows "isin (fold mark as s) = isin (fold mark bs s)" "count (fold mark as s) = count (fold mark bs s)"
  using mark_all [OF assms(1), of as] mark_all [OF assms(1), of bs] assms(2) isin_marks count_marks by (auto simp: fun_eq_iff)

end

section \<open>The bitset\<close>

lemma seg_bit_iff: "seg_bit b seg \<longleftrightarrow> bit (b ! (seg div 8)) (seg mod 8)"
  using and_exp_eq_0_iff_not_bit [of "b ! (seg div 8)" "seg mod 8"] by (simp add: seg_bit_def seg_mask_def push_bit_eq_mult)

lemma seg_bit_mark:
  assumes "seg div 8 < length b"
  shows "seg_bit (b[seg div 8 := b ! (seg div 8) OR seg_mask seg]) s \<longleftrightarrow> s = seg \<or> seg_bit b s"
proof (cases "s div 8 = seg div 8")
  case True
  then have "s mod 8 = seg mod 8 \<longleftrightarrow> s = seg" by (metis div_mult_mod_eq)
  moreover have "bit (seg_mask seg) (s mod 8) \<longleftrightarrow> s mod 8 = seg mod 8"
    by (auto simp: seg_mask_def bit_simps)
  ultimately show ?thesis using True assms by (auto simp: seg_bit_iff bit_simps)
qed (use assms in \<open>auto simp: seg_bit_iff\<close>)

lemma seg_byte: "seg < n \<Longrightarrow> seg div 8 < (n + 7) div (8 :: nat)"
  by linarith

lemma count_bits_card: "count_bits n b = int (card {s. s < n \<and> seg_bit b s})"
proof -
  have "distinct (filter (seg_bit b) [0..<n])" by simp
  from distinct_card [OF this] show ?thesis by (simp add: count_bits_def Collect_conj_eq lessThan_def [symmetric] atLeast0LessThan Int_commute)
qed

section \<open>Well-formed trackers\<close>

definition fp_ok :: "file_progress \<Rightarrow> bool" where
  "fp_ok fp \<longleftrightarrow> length (completed fp) = (segCount fp + 7) div 8 \<and> doneCount fp = count_bits (segCount fp) (completed fp) \<and>
     in_i64 (knownSize fp)"

definition tracker_ok :: "tracker \<Rightarrow> bool" where
  "tracker_ok t \<longleftrightarrow> length (fingerprint t) = 32 \<and> list_all fp_ok (tr_files t)"

definition shape :: "tracker \<Rightarrow> bytes \<times> nat list" where
  "shape t = (fingerprint t, map segCount (tr_files t))"

definition all_segments :: "tracker \<Rightarrow> (int \<times> int) set" where
  "all_segments t = {(i, j). 0 \<le> i \<and> i < int (length (tr_files t)) \<and> 0 \<le> j \<and> j < int (segCount (tr_files t ! nat i))}"

definition done_segments :: "tracker \<Rightarrow> (int \<times> int) set" where
  "done_segments t = {(i, j). (i, j) \<in> all_segments t \<and> seg_bit (completed (tr_files t ! nat i)) (nat j)}"

lemma file_at_Some:
  "file_at t i = Some fp \<longleftrightarrow> 0 \<le> i \<and> i < int (length (tr_files t)) \<and> fp = tr_files t ! nat i"
  by (auto simp: file_at_def)

lemma file_at_ok: "tracker_ok t \<Longrightarrow> file_at t i = Some fp \<Longrightarrow> fp_ok fp"
  by (auto simp: tracker_ok_def file_at_Some list_all_length)

lemma upd_file_ok:
  assumes "tracker_ok t" "fp_ok fp"
  shows "tracker_ok (upd_file i fp t)"
  using assms set_update_subset_insert [of "tr_files t" "nat i" fp] by (auto simp: tracker_ok_def upd_file_def list_all_iff)

lemma upd_file_shape:
  assumes "file_at t i = Some old" "segCount fp = segCount old"
  shows "shape (upd_file i fp t) = shape t"
  using assms by (auto simp: shape_def upd_file_def file_at_Some map_update list_update_same_conv [symmetric] intro: nth_equalityI simp: nth_list_update)

lemma tracker_ok_flags [simp]:
  "tracker_ok (t\<lparr>dirty := a\<rparr>) = tracker_ok t" "tracker_ok (t\<lparr>markCount := b\<rparr>) = tracker_ok t" "tracker_ok (t\<lparr>lastFlush := c\<rparr>) = tracker_ok t"
  "shape (t\<lparr>dirty := a\<rparr>) = shape t" "shape (t\<lparr>markCount := b\<rparr>) = shape t" "shape (t\<lparr>lastFlush := c\<rparr>) = shape t"
  by (simp_all add: tracker_ok_def shape_def)

lemma fp_ok_mark:
  assumes "fp_ok fp" "seg < segCount fp" "\<not> seg_bit (completed fp) seg"
  shows "fp_ok (fp\<lparr>completed := (completed fp)[seg div 8 := completed fp ! (seg div 8) OR seg_mask seg], doneCount := doneCount fp + 1\<rparr>)"
proof -
  let ?b = "(completed fp)[seg div 8 := completed fp ! (seg div 8) OR seg_mask seg]"
  have "{s. s < segCount fp \<and> seg_bit ?b s} = insert seg {s. s < segCount fp \<and> seg_bit (completed fp) s}"
    using assms(1,2) seg_bit_mark [of seg "completed fp"] seg_byte [OF assms(2)] by (auto simp: fp_ok_def)
  moreover have "card (insert seg {s. s < segCount fp \<and> seg_bit (completed fp) s}) = Suc (card {s. s < segCount fp \<and> seg_bit (completed fp) s})"
    using assms(3) by (subst card_insert_disjoint) auto
  ultimately show ?thesis using assms(1) by (simp add: fp_ok_def count_bits_card)
qed

lemma seg_bit_zero: "\<forall>c \<in> set b. c = 0 \<Longrightarrow> seg div 8 < length b \<Longrightarrow> \<not> seg_bit b seg"
  by (metis bit_0_eq bot_apply bot_bool_def nth_mem seg_bit_iff)

lemma fp_ok_zero:
  assumes "\<forall>c \<in> set b. c = 0" "length b = (segCount fp + 7) div 8"
  shows "fp_ok (fp\<lparr>completed := b, doneCount := 0, knownSize := 0\<rparr>)"
proof -
  have "{s. s < segCount fp \<and> seg_bit b s} = {}" using seg_bit_zero [OF assms(1)] seg_byte assms(2) by auto
  then show ?thesis using assms(2) by (simp add: fp_ok_def count_bits_card in_i64_def)
qed

text \<open>Every method keeps the tracker well-formed, and its shape.\<close>

lemma MarkDone_ok:
  assumes "tracker_ok t"
  shows "tracker_ok (snd (MarkDone i j now t))" "shape (snd (MarkDone i j now t)) = shape t"
proof -
  have "tracker_ok (snd (MarkDone i j now t)) \<and> shape (snd (MarkDone i j now t)) = shape t"
  proof (cases "file_at t i")
    case (Some fp)
    show ?thesis
    proof (cases "j < 0 \<or> int (segCount fp) \<le> j \<or> seg_bit (completed fp) (nat j)")
      case False
      then have j: "nat j < segCount fp" "\<not> seg_bit (completed fp) (nat j)" by auto
      note fp = fp_ok_mark [OF file_at_ok [OF assms Some] j]
      show ?thesis
        using False Some upd_file_ok [OF assms fp, of i] upd_file_shape [OF Some] by (simp add: MarkDone_def Let_def)
    qed (use assms Some in \<open>auto simp: MarkDone_def\<close>)
  qed (use assms in \<open>simp add: MarkDone_def\<close>)
  then show "tracker_ok (snd (MarkDone i j now t))" "shape (snd (MarkDone i j now t)) = shape t" by simp_all
qed

lemma raise_size_ok:
  assumes "tracker_ok t" "in_i64 end"
  shows "tracker_ok (snd (raise_size i end t))" "shape (snd (raise_size i end t)) = shape t"
proof -
  have "fp_ok fp \<Longrightarrow> fp_ok (fp\<lparr>knownSize := end\<rparr>)" for fp using assms(2) by (simp add: fp_ok_def)
  then show "tracker_ok (snd (raise_size i end t))"
    using assms(1) file_at_ok [OF assms(1)] upd_file_ok [OF assms(1)] by (auto simp: raise_size_def split: option.split)
  show "shape (snd (raise_size i end t)) = shape t"
    using upd_file_shape [of t i] by (auto simp: raise_size_def split: option.split)
qed

lemma NoteFileSize_ok:
  assumes "tracker_ok t" "in_i64 end"
  shows "tracker_ok (NoteFileSize i end t)" "shape (NoteFileSize i end t) = shape t"
  using raise_size_ok [OF assms, of i] by (auto simp: NoteFileSize_def markDirty_def split: prod.split)

lemma ResetFile_ok:
  assumes "tracker_ok t"
  shows "tracker_ok (ResetFile i t)" "shape (ResetFile i t) = shape t"
proof -
  have "fp_ok (fp\<lparr>completed := map (\<lambda>_. 0) (completed fp), doneCount := 0, knownSize := 0\<rparr>)" if "file_at t i = Some fp" for fp
    using file_at_ok [OF assms that] by (intro fp_ok_zero) (auto simp: fp_ok_def)
  then show "tracker_ok (ResetFile i t)" "shape (ResetFile i t) = shape t"
    using assms upd_file_ok [OF assms] upd_file_shape [of t i] by (auto simp: ResetFile_def split: option.split)
qed

lemma NewProgressTracker_ok: "tracker_ok (NewProgressTracker n now)"
proof -
  have "fp_ok \<lparr>segCount = c, completed = replicate ((c + 7) div 8) 0, doneCount = 0, knownSize = 0\<rparr>" for c
    using fp_ok_zero [of "replicate ((c + 7) div 8) 0" "\<lparr>segCount = c, completed = [], doneCount = 0, knownSize = 0\<rparr>"] by simp
  then show ?thesis by (simp add: tracker_ok_def NewProgressTracker_def Fingerprint_def Let_def list_all_iff)
qed

section \<open>The tracker is a set of marks\<close>

lemma all_segments_shape: "shape t = shape t' \<Longrightarrow> all_segments t = all_segments t'"
proof -
  assume "shape t = shape t'"
  then have m: "map segCount (tr_files t) = map segCount (tr_files t')" by (simp add: shape_def)
  then have n: "length (tr_files t) = length (tr_files t')" by (rule map_eq_imp_length_eq)
  have "segCount (tr_files t ! nat i) = segCount (tr_files t' ! nat i)" if "0 \<le> i" "i < int (length (tr_files t'))" for i
    using arg_cong [OF m, of "\<lambda>l. l ! nat i"] that n by (simp add: nat_less_iff)
  then show ?thesis using n by (auto simp: all_segments_def)
qed

lemma file_at_nth: "0 \<le> i \<Longrightarrow> i < int (length (tr_files t)) \<Longrightarrow> file_at t i = Some (tr_files t ! nat i)"
  by (simp add: file_at_def)

lemma MarkDone_marks:
  assumes "tracker_ok t"
  shows "done_segments (snd (MarkDone i j now t)) = done_segments t \<union> ({(i, j)} \<inter> all_segments t)"
proof (cases "(i, j) \<in> all_segments t \<and> \<not> seg_bit (completed (tr_files t ! nat i)) (nat j)")
  case False
  then have "snd (MarkDone i j now t) = t"
    by (auto simp: MarkDone_def file_at_def all_segments_def)
  then show ?thesis using False by (auto simp: done_segments_def)
next
  case True
  let ?fp = "tr_files t ! nat i" and ?s = "nat j"
  let ?b = "(completed ?fp)[?s div 8 := completed ?fp ! (?s div 8) OR seg_mask ?s]"
  have ij: "0 \<le> i" "i < int (length (tr_files t))" "0 \<le> j" "j < int (segCount ?fp)" using True by (auto simp: all_segments_def)
  have files: "tr_files (snd (MarkDone i j now t)) = (tr_files t)[nat i := ?fp\<lparr>completed := ?b, doneCount := doneCount ?fp + 1\<rparr>]"
    using True ij by (simp add: MarkDone_def file_at_nth Let_def upd_file_def)
  have "fp_ok ?fp" using file_at_ok [OF assms file_at_nth [OF ij(1,2)]] .
  then have len: "?s div 8 < length (completed ?fp)"
    using seg_byte [of ?s "segCount ?fp"] ij(3,4) by (simp add: fp_ok_def nat_less_iff)
  have all: "all_segments (snd (MarkDone i j now t)) = all_segments t"
    by (rule all_segments_shape) (rule MarkDone_ok(2) [OF assms])
  have "seg_bit (completed (tr_files (snd (MarkDone i j now t)) ! nat a)) (nat b) \<longleftrightarrow>
      seg_bit (completed (tr_files t ! nat a)) (nat b) \<or> (a, b) = (i, j)" if "(a, b) \<in> all_segments t" for a b
  proof (cases "a = i")
    case True
    then show ?thesis
      using seg_bit_mark [OF len, of "nat b"] ij that unfolding files by (auto simp: all_segments_def nat_less_iff)
  next
    case no: False
    then have "nat a \<noteq> nat i" using that ij by (auto simp: all_segments_def)
    then show ?thesis using no unfolding files by simp
  qed
  then show ?thesis using True unfolding done_segments_def all by auto
qed

lemma TotalCompleted_card:
  assumes "tracker_ok t"
  shows "TotalCompleted t = int (card (done_segments t))"
proof -
  let ?F = "tr_files t"
  define S where "S i = (\<lambda>s. (int i, int s)) ` {s. s < segCount (?F ! i) \<and> seg_bit (completed (?F ! i)) s}" for i :: nat
  have un: "done_segments t = (\<Union>i \<in> {..<length ?F}. S i)"
  proof (rule equalityI; rule subsetI)
    fix x assume "x \<in> done_segments t"
    then obtain i j where x: "x = (i, j)" "0 \<le> i" "i < int (length ?F)" "0 \<le> j" "j < int (segCount (?F ! nat i))"
        "seg_bit (completed (?F ! nat i)) (nat j)"
      by (auto simp: done_segments_def all_segments_def)
    then have "x = (int (nat i), int (nat j))" "nat i < length ?F" "nat j < segCount (?F ! nat i)" by auto
    then show "x \<in> (\<Union>i \<in> {..<length ?F}. S i)" using x(6) unfolding S_def by blast
  qed (auto simp: done_segments_def all_segments_def S_def)
  have card: "int (card (S i)) = doneCount (?F ! i)" if "i < length ?F" for i
  proof -
    have "inj_on (\<lambda>s. (int i, int s)) {s. s < segCount (?F ! i) \<and> seg_bit (completed (?F ! i)) s}" by (auto simp: inj_on_def)
    then have "card (S i) = card {s. s < segCount (?F ! i) \<and> seg_bit (completed (?F ! i)) s}"
      unfolding S_def by (rule card_image)
    then show ?thesis using assms that by (simp add: tracker_ok_def list_all_length fp_ok_def count_bits_card)
  qed
  have "card (done_segments t) = (\<Sum>i<length ?F. card (S i))"
    unfolding un by (rule card_UN_disjoint) (auto simp: S_def)
  then have "int (card (done_segments t)) = (\<Sum>i<length ?F. doneCount (?F ! i))" using card by (simp add: int_sum)
  also have "\<dots> = TotalCompleted t" by (simp add: TotalCompleted_def sum_list_sum_nth atLeast0LessThan)
  finally show ?thesis by simp
qed

definition mark_pair :: "int \<Rightarrow> int \<times> int \<Rightarrow> tracker \<Rightarrow> tracker" where
  "mark_pair now a t = snd (MarkDone (fst a) (snd a) now t)"

definition is_done :: "tracker \<Rightarrow> int \<times> int \<Rightarrow> bool" where
  "is_done t a = IsDone (fst a) (snd a) t"

interpretation tracker_marks: marked_set tracker_ok all_segments done_segments "mark_pair now" is_done TotalCompleted for now
proof
  fix t a
  assume ok: "tracker_ok t"
  show "tracker_ok (mark_pair now a t)" using MarkDone_ok(1) [OF ok] by (simp add: mark_pair_def)
  show "all_segments (mark_pair now a t) = all_segments t"
    unfolding mark_pair_def by (rule all_segments_shape) (rule MarkDone_ok(2) [OF ok])
  show "done_segments (mark_pair now a t) = done_segments t \<union> ({a} \<inter> all_segments t)"
    using MarkDone_marks [OF ok, of "fst a" "snd a" now] by (simp add: mark_pair_def)
  show "is_done t a = (a \<in> done_segments t)"
    by (cases a) (auto simp: is_done_def IsDone_def file_at_def done_segments_def all_segments_def)
  show "TotalCompleted t = int (card (done_segments t))" using TotalCompleted_card [OF ok] .
qed

section \<open>The progress file\<close>

text \<open>The numbers of a tracker fit the fields of its file.\<close>

definition fits :: "bytes \<times> nat list \<Rightarrow> bool" where
  "fits sh \<longleftrightarrow> length (snd sh) < 2 ^ 16 \<and> (\<forall>c \<in> set (snd sh). c < 2 ^ 32)"

lemma load_file_record:
  assumes "fp_ok fp" "segCount fp' = segCount fp" "segCount fp < 2 ^ 32"
  shows "load_files (fp' # fps) (file_record fp @ r) = map_option (\<lambda>ls. (knownSize fp, completed fp) # ls) (load_files fps r)"
proof -
  let ?n = "(segCount fp + 7) div 8"
  have c: "length (completed fp) = ?n" "take ?n (completed fp) = completed fp" using assms(1) by (simp_all add: fp_ok_def)
  have d: "file_record fp @ r = PutUint32 (of_nat (segCount fp)) @ PutUint64 (of_int (knownSize fp)) @ completed fp @ r"
    by (simp add: file_record_def c(2))
  have "unat (of_nat (segCount fp) :: uint32) = segCount fp" using assms(3) by (simp add: unat_of_nat)
  moreover have "sint (of_int (knownSize fp) :: uint64) = knownSize fp"
    using assms(1) signed_take_bit_int_eq_self [of 63 "knownSize fp"] by (simp add: fp_ok_def in_i64_def sint_sbintrunc')
  moreover have "slice (file_record fp @ r) 0 4 = PutUint32 (of_nat (segCount fp))"
    "slice (file_record fp @ r) 4 fileHeaderSize = PutUint64 (of_int (knownSize fp))"
    "drop fileHeaderSize (file_record fp @ r) = completed fp @ r" "fileHeaderSize \<le> length (file_record fp @ r)"
    unfolding d by (simp_all add: slice_def fileHeaderSize_def)
  ultimately show ?thesis
    using assms(2) c(1) Put_simps(5) [of "of_nat (segCount fp)" "[]"] Put_simps(6) [of "of_int (knownSize fp)" "[]"]
    by (simp add: Let_def)
qed

lemma load_files_records:
  assumes "list_all fp_ok fps" "map segCount fps' = map segCount fps" "\<forall>fp \<in> set fps. segCount fp < 2 ^ 32"
  shows "load_files fps' (concat (map file_record fps)) = Some (map (\<lambda>fp. (knownSize fp, completed fp)) fps)"
  using assms
proof (induction fps arbitrary: fps')
  case (Cons fp fps)
  then obtain fp' rest where f: "fps' = fp' # rest" "segCount fp' = segCount fp" "map segCount rest = map segCount fps"
    by (cases fps') auto
  have "load_files (fp' # rest) (file_record fp @ concat (map file_record fps)) =
      map_option (\<lambda>ls. (knownSize fp, completed fp) # ls) (load_files rest (concat (map file_record fps)))"
    using Cons.prems f by (intro load_file_record) auto
  then show ?case using Cons.IH [OF _ f(3)] Cons.prems f(1) by (simp del: load_files.simps)
qed simp

lemma load_file_same:
  assumes "fp_ok fp" "fp_ok fp'" "segCount fp' = segCount fp"
  shows "load_file fp' (knownSize fp, completed fp) = fp"
  using assms by (simp add: load_file_def fp_ok_def)

text \<open>A snapshot is loaded back into any tracker of the same shape.\<close>

lemma Load_snapshot:
  assumes "tracker_ok t" "tracker_ok t'" "shape t' = shape t" "fits (shape t)"
  shows "Load (Some (snapshot t)) t' = (True, t'\<lparr>tr_files := tr_files t\<rparr>)"
proof -
  let ?d = "snapshot t" and ?recs = "concat (map file_record (tr_files t))"
  have fp: "length (fingerprint t) = 32" "fingerprint t' = fingerprint t" using assms(1,3) by (simp_all add: tracker_ok_def shape_def)
  have m: "map segCount (tr_files t') = map segCount (tr_files t)" using assms(3) by (simp add: shape_def)
  have n: "length (tr_files t') = length (tr_files t)" using m by (rule map_eq_imp_length_eq)
  have cnt: "unat (of_nat (length (tr_files t)) :: uint16) = length (tr_files t)"
    using assms(4) by (simp add: fits_def shape_def unat_of_nat)
  have d: "?d = progressMagic @ [progressVersion, 0] @ PutUint16 (of_nat (length (tr_files t))) @ fingerprint t @ ?recs"
    by (simp add: snapshot_def)
  have magic: "length progressMagic = 4" by (simp add: progressMagic_def)
  have parts: "headerSize \<le> length ?d" "take 4 ?d = progressMagic" "?d ! 4 = progressVersion"
    "slice ?d 6 8 = PutUint16 (of_nat (length (tr_files t)))" "slice ?d 8 40 = fingerprint t" "drop headerSize ?d = ?recs"
    unfolding d using fp(1) magic by (simp_all add: headerSize_def slice_def nth_append)
  have ld: "load_files (tr_files t') ?recs = Some (map (\<lambda>fp. (knownSize fp, completed fp)) (tr_files t))"
    using assms(1,4) m by (intro load_files_records) (auto simp: tracker_ok_def fits_def shape_def)
  have "map2 load_file (tr_files t') (map (\<lambda>fp. (knownSize fp, completed fp)) (tr_files t)) = tr_files t"
  proof (rule nth_equalityI)
    fix i assume "i < length (map2 load_file (tr_files t') (map (\<lambda>fp. (knownSize fp, completed fp)) (tr_files t)))"
    then have i: "i < length (tr_files t)" "i < length (tr_files t')" by simp_all
    have "segCount (tr_files t' ! i) = segCount (tr_files t ! i)" using arg_cong [OF m, of "\<lambda>l. l ! i"] i by simp
    then show "map2 load_file (tr_files t') (map (\<lambda>fp. (knownSize fp, completed fp)) (tr_files t)) ! i = tr_files t ! i"
      using load_file_same [of "tr_files t ! i" "tr_files t' ! i"] assms(1,2) i by (simp add: tracker_ok_def list_all_length)
  qed (simp add: n)
  then show ?thesis
    using parts ld fp(2) n cnt Put_simps(4) [of "of_nat (length (tr_files t))" "[]"] by (simp add: Load_def)
qed

text \<open>Whatever the file holds, it is applied as a whole or not at all, and leaves a well-formed tracker.\<close>

lemma load_files_shape:
  assumes "load_files fps d = Some ls"
  shows "length ls = length fps \<and> (\<forall>i < length fps. length (snd (ls ! i)) = (segCount (fps ! i) + 7) div 8 \<and> in_i64 (fst (ls ! i)))"
  using assms
proof (induction fps d arbitrary: ls rule: load_files.induct)
  case (2 fp fps d)
  then obtain rest where r: "ls = (sint (Uint64 (slice d 4 fileHeaderSize)), take ((segCount fp + 7) div 8) (drop fileHeaderSize d)) # rest"
      "load_files fps (drop ((segCount fp + 7) div 8) (drop fileHeaderSize d)) = Some rest"
      "(segCount fp + 7) div 8 \<le> length (drop fileHeaderSize d)" "fileHeaderSize \<le> length d" "unat (Uint32 (slice d 0 4)) = segCount fp"
    by (auto simp: Let_def split: if_splits)
  have IH: "length rest = length fps \<and> (\<forall>i < length fps. length (snd (rest ! i)) = (segCount (fps ! i) + 7) div 8 \<and> in_i64 (fst (rest ! i)))"
    using "2.IH" r by (auto simp: Let_def)
  show ?case unfolding r(1) using IH r(3) by (auto simp: nth_Cons split: nat.split)
qed simp

lemma Load_ok:
  assumes "tracker_ok t"
  shows "tracker_ok (snd (Load d t)) \<and> shape (snd (Load d t)) = shape t \<and> (\<not> fst (Load d t) \<longrightarrow> snd (Load d t) = t)"
proof (cases "fst (Load d t)")
  case False
  then show ?thesis using assms by (auto simp: Load_def split: option.splits if_splits)
next
  case True
  then obtain b ls where l: "load_files (tr_files t) b = Some ls" "Load d t = (True, t\<lparr>tr_files := map2 load_file (tr_files t) ls\<rparr>)"
    by (auto simp: Load_def split: option.splits if_splits)
  note s = load_files_shape [OF l(1)]
  have "fp_ok (load_file (tr_files t ! i) (ls ! i)) \<and> segCount (load_file (tr_files t ! i) (ls ! i)) = segCount (tr_files t ! i)"
    if "i < length (tr_files t)" for i
    using s that assms by (auto simp: load_file_def fp_ok_def tracker_ok_def list_all_length)
  then show ?thesis
    using l(2) s assms by (auto simp: tracker_ok_def shape_def list_all_length intro: nth_equalityI)
qed

section \<open>Runs\<close>

text \<open>What happens to a tracker between two starts.\<close>

datatype tracker_op = OpMark int int int | OpNote int int | OpReset int | OpLoad "bytes option"

fun tracker_run :: "tracker_op list \<Rightarrow> tracker \<Rightarrow> tracker" where
  "tracker_run [] t = t"
| "tracker_run (OpMark i j now # ops) t = tracker_run ops (snd (MarkDone i j now t))"
| "tracker_run (OpNote i end # ops) t = tracker_run ops (NoteFileSize i end t)"
| "tracker_run (OpReset i # ops) t = tracker_run ops (ResetFile i t)"
| "tracker_run (OpLoad d # ops) t = tracker_run ops (snd (Load d t))"

fun op_ok :: "tracker_op \<Rightarrow> bool" where
  "op_ok (OpNote i end) \<longleftrightarrow> in_i64 end"
| "op_ok _ \<longleftrightarrow> True"

lemma tracker_run_ok: "tracker_ok t \<Longrightarrow> list_all op_ok ops \<Longrightarrow> tracker_ok (tracker_run ops t) \<and> shape (tracker_run ops t) = shape t"
proof (induction ops arbitrary: t)
  case (Cons x ops)
  then show ?case
    using MarkDone_ok NoteFileSize_ok ResetFile_ok Load_ok by (cases x) auto
qed simp

lemma shape_New: "shape (NewProgressTracker n now) = (Fingerprint n, map (\<lambda>f. length (fl_Segments f)) (nz_Files n))"
  by (simp add: shape_def NewProgressTracker_def Let_def)


definition sample_nzb :: nzb where
  "sample_nzb = \<lparr>nz_Files = [\<lparr>fl_Poster = [], fl_Date = 0, fl_Subject = [], fl_Groups = [], fl_Segments =
     [\<lparr>sg_Bytes = 9, sg_Number = 1, sg_MessageID = [97]\<rparr>, \<lparr>sg_Bytes = 9, sg_Number = 2, sg_MessageID = [98]\<rparr>]\<rparr>],
     nz_Password = [], nz_Meta = Map.empty\<rparr>"


end
