(* ===== verification/Download_Progress_Machine.thy ===== *)
theory Download_Progress_Machine
  imports Download_Progress_Props
begin

text \<open>
  The tracker in concurrent use: workers mark segments and note sizes while a flush is writing the file. The methods are atomic
  under the mutex, except that a size is raised by a compare-and-swap before the mutex is taken to set the flag, and
  that a flush, of which \<open>flushMu\<close> lets one run at a time, does its input and output outside the mutex.
  (The sizes a snapshot contains are taken to be read at one moment.)
\<close>

datatype flush_pc = AtMkdir bytes | AtWrite bytes | AtRename bytes

fun flush_buf :: "flush_pc \<Rightarrow> bytes" where
  "flush_buf (AtMkdir b) = b"
| "flush_buf (AtWrite b) = b"
| "flush_buf (AtRename b) = b"

record tr_sys =
  ts_t :: tracker
  ts_flush :: "flush_pc option"
  ts_notes :: nat \<comment> \<open>calls of \<open>NoteFileSize\<close> between the swap and the flag\<close>
  ts_disk :: "bytes option"
  ts_skipped :: bool \<comment> \<open>the last flush could not create the directory\<close>
  ts_past :: "file_progress list list" \<comment> \<open>the states the files went through\<close>

definition put_tracker :: "tracker \<Rightarrow> tr_sys \<Rightarrow> tr_sys" where
  "put_tracker t s = s\<lparr>ts_t := t, ts_past := tr_files t # ts_past s\<rparr>"

inductive tracker_step :: "tr_sys \<Rightarrow> tr_sys \<Rightarrow> bool" where
  mark: "tracker_step s (put_tracker (snd (MarkDone i j now (ts_t s))) s)"
| raise: "in_i64 end \<Longrightarrow> raise_size i end (ts_t s) = (True, t') \<Longrightarrow>
    tracker_step s ((put_tracker t' s)\<lparr>ts_notes := Suc (ts_notes s)\<rparr>)"
| note_dirty: "ts_notes s = Suc k \<Longrightarrow> tracker_step s ((put_tracker (markDirty (ts_t s)) s)\<lparr>ts_notes := k\<rparr>)"
| reset: "tracker_step s (put_tracker (ResetFile i (ts_t s)) s)"
| flush_start: "ts_flush s = None \<Longrightarrow> flush_snapshot now (ts_t s) = Some (buf, t') \<Longrightarrow>
    tracker_step s ((put_tracker t' s)\<lparr>ts_flush := Some (AtMkdir buf)\<rparr>)"
| mkdir_ok: "ts_flush s = Some (AtMkdir buf) \<Longrightarrow> tracker_step s (s\<lparr>ts_flush := Some (AtWrite buf)\<rparr>)"
| mkdir_fails: "ts_flush s = Some (AtMkdir buf) \<Longrightarrow> tracker_step s (s\<lparr>ts_flush := None, ts_skipped := True\<rparr>)"
| write_ok: "ts_flush s = Some (AtWrite buf) \<Longrightarrow> tracker_step s (s\<lparr>ts_flush := Some (AtRename buf)\<rparr>)"
| write_fails: "ts_flush s = Some (AtWrite buf) \<Longrightarrow> tracker_step s ((put_tracker (markDirty (ts_t s)) s)\<lparr>ts_flush := None\<rparr>)"
| rename_ok: "ts_flush s = Some (AtRename buf) \<Longrightarrow>
    tracker_step s (s\<lparr>ts_flush := None, ts_disk := Some buf, ts_skipped := False\<rparr>)"
| rename_fails: "ts_flush s = Some (AtRename buf) \<Longrightarrow> tracker_step s ((put_tracker (markDirty (ts_t s)) s)\<lparr>ts_flush := None\<rparr>)"

inductive_cases tracker_stepE: "tracker_step s s'"

text \<open>A start: the tracker of the NZB with whatever progress file there is.\<close>

definition started :: "nzb \<Rightarrow> int \<Rightarrow> bytes option \<Rightarrow> tr_sys" where
  "started n now d =
     (let t = snd (Load d (NewProgressTracker n now)) in
      \<lparr>ts_t = t, ts_flush = None, ts_notes = 0, ts_disk = d, ts_skipped = False, ts_past = [tr_files t]\<rparr>)"

text \<open>The files a restart would resume from.\<close>

definition resumed :: "nzb \<Rightarrow> bytes option \<Rightarrow> file_progress list" where
  "resumed n d = tr_files (snd (Load d (NewProgressTracker n 0)))"

section \<open>The invariant\<close>

definition nzb_fits :: "nzb \<Rightarrow> bool" where
  "nzb_fits n \<longleftrightarrow> fits (shape (NewProgressTracker n 0))"

lemma shape_New_now: "shape (NewProgressTracker n now) = shape (NewProgressTracker n 0)"
  by (simp add: shape_New)

text \<open>What is clean is on its way to the disk or there.\<close>

definition clean_saved :: "nzb \<Rightarrow> tr_sys \<Rightarrow> bool" where
  "clean_saved n s \<longleftrightarrow> dirty (ts_t s) \<or> 0 < ts_notes s \<or>
     (case ts_flush s of
        Some p \<Rightarrow> resumed n (Some (flush_buf p)) = tr_files (ts_t s)
      | None \<Rightarrow> ts_skipped s \<or> resumed n (ts_disk s) = tr_files (ts_t s))"

definition tr_inv :: "nzb \<Rightarrow> tr_sys \<Rightarrow> bool" where
  "tr_inv n s \<longleftrightarrow> tracker_ok (ts_t s) \<and> shape (ts_t s) = shape (NewProgressTracker n 0) \<and> clean_saved n s \<and>
     tr_files (ts_t s) \<in> set (ts_past s) \<and> resumed n (ts_disk s) \<in> set (ts_past s) \<and>
     (\<forall>p. ts_flush s = Some p \<longrightarrow> resumed n (Some (flush_buf p)) \<in> set (ts_past s))"

lemma resumed_snapshot:
  assumes "nzb_fits n" "tracker_ok t" "shape t = shape (NewProgressTracker n 0)"
  shows "resumed n (Some (snapshot t)) = tr_files t"
  using Load_snapshot [OF assms(2) NewProgressTracker_ok [of n 0]] assms by (simp add: resumed_def nzb_fits_def)

lemma Load_New_now: "tr_files (snd (Load d (NewProgressTracker n now))) = resumed n d"
  by (auto simp: resumed_def Load_def NewProgressTracker_def split: option.split)

lemma started_inv: "tr_inv n (started n now d)"
  using Load_ok [OF NewProgressTracker_ok [of n now], of d]
  by (auto simp: tr_inv_def started_def clean_saved_def Let_def Load_New_now shape_New)

lemma MarkDone_dirty: "tr_files (snd (MarkDone i j now t)) = tr_files t \<and> dirty (snd (MarkDone i j now t)) = dirty t \<or> dirty (snd (MarkDone i j now t))"
  by (auto simp: MarkDone_def Let_def split: option.split)

lemma ResetFile_dirty: "ResetFile i t = t \<or> dirty (ResetFile i t)"
  by (auto simp: ResetFile_def split: option.split)

text \<open>A change of the tracker that leaves it dirty, or leaves the files alone.\<close>

lemma put_tracker_inv:
  assumes "tr_inv n s" "tracker_ok t" "shape t = shape (ts_t s)"
    and "dirty t \<or> tr_files t = tr_files (ts_t s) \<and> dirty t = dirty (ts_t s)"
  shows "tr_inv n (put_tracker t s)"
  using assms by (auto simp: tr_inv_def put_tracker_def clean_saved_def split: option.split)

lemma tr_inv_step:
  assumes "nzb_fits n" "tr_inv n s" "tracker_step s s'"
  shows "tr_inv n s'"
proof -
  have ok: "tracker_ok (ts_t s)" "shape (ts_t s) = shape (NewProgressTracker n 0)" using assms(2) by (simp_all add: tr_inv_def)
  have md: "tr_inv n (put_tracker (markDirty (ts_t s)) s)"
    using ok(1) by (intro put_tracker_inv [OF assms(2)]) (simp_all add: markDirty_def)
  from assms(3) show ?thesis
  proof cases
    case (mark i j now)
    show ?thesis
      unfolding mark using MarkDone_ok [OF ok(1)] MarkDone_dirty [of i j now "ts_t s"] by (intro put_tracker_inv [OF assms(2)]) auto
  next
    case (raise end' i t')
    have "tracker_ok t'" "shape t' = shape (ts_t s)" using raise_size_ok [OF ok(1) raise(2), of i] raise(3) by simp_all
    then show ?thesis using assms(2) unfolding raise(1) by (auto simp: tr_inv_def put_tracker_def clean_saved_def)
  next
    case (note_dirty k)
    show ?thesis using md unfolding note_dirty(1) by (auto simp: tr_inv_def put_tracker_def clean_saved_def markDirty_def)
  next
    case (reset i)
    show ?thesis
      unfolding reset using ResetFile_ok [OF ok(1)] ResetFile_dirty [of i "ts_t s"] by (intro put_tracker_inv [OF assms(2)]) auto
  next
    case (flush_start now buf t')
    then have t': "buf = snapshot (ts_t s)" "t' = (ts_t s)\<lparr>dirty := False, markCount := 0, lastFlush := now\<rparr>"
      by (auto simp: flush_snapshot_def split: if_splits)
    have "resumed n (Some buf) = tr_files (ts_t s)" using resumed_snapshot [OF assms(1) ok] t'(1) by simp
    then show ?thesis using assms(2) unfolding flush_start(1) t'(2) by (auto simp: tr_inv_def put_tracker_def clean_saved_def)
  next
    case (write_fails buf)
    then show ?thesis using md by (auto simp: tr_inv_def put_tracker_def clean_saved_def markDirty_def)
  next
    case (rename_fails buf)
    then show ?thesis using md by (auto simp: tr_inv_def put_tracker_def clean_saved_def markDirty_def)
  qed (use assms(2) in \<open>auto simp: tr_inv_def clean_saved_def\<close>)
qed

lemma tr_inv_reach:
  assumes "nzb_fits n" "tracker_step\<^sup>*\<^sup>* (started n now d) s"
  shows "tr_inv n s"
  using assms(2) by (induction rule: rtranclp_induct) (auto intro: started_inv tr_inv_step [OF assms(1)])

section \<open>Properties\<close>


text \<open>A sample run: one segment of the sample NZB is marked.\<close>

definition marked_sample :: tr_sys where
  "marked_sample = put_tracker (snd (MarkDone 0 1 5 (ts_t (started sample_nzb 0 None)))) (started sample_nzb 0 None)"

lemma marked_sample_reached: "tracker_step\<^sup>*\<^sup>* (started sample_nzb 0 None) marked_sample"
  unfolding marked_sample_def by (rule r_into_rtranclp) (rule tracker_step.mark)

lemma sample_nzb_fits: "nzb_fits sample_nzb"
  by (simp add: nzb_fits_def fits_def shape_New sample_nzb_def)


text \<open>
  A flush that cannot create the directory clears the flag although nothing was written: the mark is lost, and until the next
  change every flush is skipped.
\<close>

definition forgetful_sample :: tr_sys where
  "forgetful_sample =
     (put_tracker ((ts_t marked_sample)\<lparr>dirty := False, markCount := 0, lastFlush := 9\<rparr>) marked_sample)\<lparr>ts_flush := None, ts_skipped := True\<rparr>"

lemma marked_sample_dirty: "dirty (ts_t marked_sample) \<and> ts_flush marked_sample = None \<and> ts_disk marked_sample = None \<and>
    IsDone 0 1 (ts_t marked_sample)"
  by (simp add: marked_sample_def put_tracker_def started_def Load_def NewProgressTracker_def MarkDone_def IsDone_def file_at_def
      upd_file_def sample_nzb_def seg_bit_def seg_mask_def)

lemma forgetful_sample_reached: "tracker_step\<^sup>*\<^sup>* (started sample_nzb 0 None) forgetful_sample"
proof -
  let ?t = "(ts_t marked_sample)\<lparr>dirty := False, markCount := 0, lastFlush := 9\<rparr>"
  let ?s = "(put_tracker ?t marked_sample)\<lparr>ts_flush := Some (AtMkdir (snapshot (ts_t marked_sample)))\<rparr>"
  have "tracker_step marked_sample ?s"
    by (rule tracker_step.flush_start [where now = 9]) (simp_all add: marked_sample_dirty flush_snapshot_def)
  moreover have "tracker_step ?s forgetful_sample"
    using tracker_step.mkdir_fails [of ?s] by (simp add: forgetful_sample_def)
  ultimately show ?thesis using marked_sample_reached by (meson rtranclp.rtrancl_into_rtrancl)
qed

theorem mkdir_failure_forgets:
  "tracker_step\<^sup>*\<^sup>* (started sample_nzb 0 None) forgetful_sample \<and> flush_snapshot now (ts_t forgetful_sample) = None \<and>
   IsDone 0 1 (ts_t forgetful_sample) \<and> ts_disk forgetful_sample = None"
proof -
  have "IsDone 0 1 (ts_t forgetful_sample) = IsDone 0 1 (ts_t marked_sample)"
    by (simp add: forgetful_sample_def put_tracker_def IsDone_def file_at_def)
  then show ?thesis using marked_sample_dirty forgetful_sample_reached by (simp add: forgetful_sample_def put_tracker_def flush_snapshot_def)
qed

end
