(* ===== verification/Go_Float.thy ===== *)
theory Go_Float
  imports Complex_Main Go_Prelude "HOL-Library.Log_Nat"
begin

text \<open>
  What the sources use of Go's \<open>float64\<close>: values as rationals, every operation rounded to 53 significant bits, to nearest
  with ties to even. Overflow and gradual underflow are left out: the values of the sources lie between \<open>2 ^ -60\<close> and
  \<open>2 ^ 80\<close>. Converting to \<open>int64\<close> drops the fraction; outside the range the result depends on the machine and is
  the parameter \<open>oor\<close>.
\<close>

definition fl_exp :: "rat \<Rightarrow> int" where
  "fl_exp x =
     (let (a, b) = quotient_of \<bar>x\<bar>; e = bitlen a - bitlen b - 53
      in if 2 ^ 53 \<le> \<bar>x\<bar> / 2 powi e then e + 1 else e)"

definition round_even :: "rat \<Rightarrow> int" where
  "round_even q =
     (let f = \<lfloor>q\<rfloor>; r = q - of_int f
      in if r < 1 / 2 then f else if 1 / 2 < r then f + 1 else if even f then f else f + 1)"

definition f64 :: "rat \<Rightarrow> rat" where
  "f64 x = (if x = 0 then 0 else of_int (round_even (x / 2 powi fl_exp x)) * 2 powi fl_exp x)"

definition trunc :: "rat \<Rightarrow> int" where
  "trunc x = (if 0 \<le> x then \<lfloor>x\<rfloor> else \<lceil>x\<rceil>)"

definition float_int :: "(rat \<Rightarrow> int) \<Rightarrow> rat \<Rightarrow> int" where
  "float_int oor x = (if in_i64 (trunc x) then trunc x else oor x)"

lemma round_even_error: "\<bar>of_int (round_even q) - q\<bar> \<le> 1 / 2"
proof -
  define f where "f = \<lfloor>q\<rfloor>"
  define r where "r = q - of_int f"
  have r: "0 \<le> r" "r < 1" unfolding r_def f_def by linarith+
  have q: "q = of_int f + r" by (simp add: r_def)
  show ?thesis
    unfolding round_even_def Let_def f_def [symmetric] r_def [symmetric] using r by (auto simp: q abs_if)
qed

lemma round_even_int [simp]: "round_even (of_int k) = k"
  by (simp add: round_even_def)

lemma round_even_mono: "x \<le> of_int k \<Longrightarrow> round_even x \<le> k"
proof -
  assume x: "x \<le> of_int k"
  define r where "r = round_even x"
  have "\<bar>of_int r - x\<bar> \<le> 1 / 2" unfolding r_def by (rule round_even_error)
  then have "of_int r \<le> of_int k + (1 / 2 :: rat)" using x by linarith
  then show "round_even x \<le> k" unfolding r_def [symmetric] by linarith
qed

lemma powi_two_pos [simp]: "(0 :: rat) < 2 powi e"
  by simp

lemma bitlen_powi:
  assumes "0 < a"
  shows "(2 :: rat) powi (bitlen a - 1) \<le> of_int a \<and> of_int a < (2 :: rat) powi bitlen a"
proof -
  have b: "0 < bitlen a" using assms bitlen_eq_zero_iff [of a] bitlen_nonneg [of a] by linarith
  have "2 ^ nat (bitlen a - 1) \<le> a" "a < 2 ^ nat (bitlen a)" using bitlen_bounds [of a] assms by auto
  then have "(of_int (2 ^ nat (bitlen a - 1)) :: rat) \<le> of_int a" "(of_int a :: rat) < of_int (2 ^ nat (bitlen a))"
    by (simp_all only: of_int_le_iff of_int_less_iff)
  then show ?thesis using b by (simp add: power_int_def)
qed

lemma fl_exp_lower:
  assumes "x \<noteq> 0"
  shows "2 ^ 52 \<le> \<bar>x\<bar> / 2 powi fl_exp x"
proof -
  obtain a b where ab: "quotient_of \<bar>x\<bar> = (a, b)" by (cases "quotient_of \<bar>x\<bar>")
  have x: "\<bar>x\<bar> = of_int a / of_int b" and b: "0 < b" using quotient_of_div [OF ab] quotient_of_denom_pos [OF ab] by auto
  have a: "0 < a" using x b assms by (metis abs_le_zero_iff divide_le_0_iff not_le of_int_0_less_iff order_less_imp_le)
  define e where "e = bitlen a - bitlen b - 53"
  have "(2 :: rat) ^ 52 * 2 powi e * 2 powi bitlen b = 2 powi 52 * 2 powi e * 2 powi bitlen b" by simp
  also have "\<dots> = 2 powi (52 + e + bitlen b)" by (simp add: power_int_add)
  also have "52 + e + bitlen b = bitlen a - 1" by (simp add: e_def)
  finally have "(2 :: rat) ^ 52 * 2 powi e * 2 powi bitlen b = 2 powi (bitlen a - 1)" .
  moreover have "(2 :: rat) ^ 52 * 2 powi e * of_int b \<le> 2 ^ 52 * 2 powi e * 2 powi bitlen b"
    using bitlen_powi [OF b] by (intro mult_left_mono) auto
  ultimately have "(2 :: rat) ^ 52 * 2 powi e * of_int b \<le> of_int a" using bitlen_powi [OF a] by linarith
  then have lo: "2 ^ 52 \<le> \<bar>x\<bar> / 2 powi e" using b unfolding x by (simp add: pos_le_divide_eq mult.commute mult.left_commute)
  show ?thesis
  proof (cases "2 ^ 53 \<le> \<bar>x\<bar> / 2 powi e")
    case True
    then have "fl_exp x = e + 1" by (simp add: fl_exp_def ab e_def)
    then show ?thesis using True by (simp add: power_int_add field_simps)
  next
    case False
    then have "fl_exp x = e" by (simp add: fl_exp_def ab e_def)
    then show ?thesis using lo by simp
  qed
qed

text \<open>The rounding error is at most \<open>2 ^ -53\<close> of the value.\<close>

lemma f64_error: "\<bar>f64 x - x\<bar> \<le> \<bar>x\<bar> / 2 ^ 53"
proof (cases "x = 0")
  case False
  let ?u = "2 powi fl_exp x :: rat"
  have "f64 x - x = (of_int (round_even (x / ?u)) - x / ?u) * ?u" using False by (simp add: f64_def algebra_simps)
  then have "\<bar>f64 x - x\<bar> \<le> 1 / 2 * ?u" using round_even_error [of "x / ?u"] by (simp add: abs_mult mult_right_mono)
  moreover have "2 ^ 52 * ?u \<le> \<bar>x\<bar>" using fl_exp_lower [OF False] by (simp add: pos_le_divide_eq)
  ultimately show ?thesis by simp
qed (simp add: f64_def)

lemma f64_0 [simp]: "f64 0 = 0"
  by (simp add: f64_def)

lemma f64_bounds:
  assumes "0 \<le> x"
  shows "x * (1 - 1 / 2 ^ 53) \<le> f64 x" "f64 x \<le> x * (1 + 1 / 2 ^ 53)"
proof -
  have e: "\<bar>f64 x - x\<bar> \<le> x / 2 ^ 53" using f64_error [of x] assms by simp
  have d: "x * (1 / 2 ^ 53) = x / 2 ^ 53" by simp
  show "x * (1 - 1 / 2 ^ 53) \<le> f64 x" using e unfolding right_diff_distrib d by linarith
  show "f64 x \<le> x * (1 + 1 / 2 ^ 53)" using e unfolding distrib_left d by linarith
qed

lemma f64_nonneg: "0 \<le> x \<Longrightarrow> 0 \<le> f64 x"
  by (rule order_trans [OF _ f64_bounds(1)]) simp_all

end
