(* ===== verification/Engine_Task.thy ===== *)
theory Engine_Task
  imports Go_Float Go_Strings
begin

text \<open>
  The download tasks of \<open>internal/engine\<close>: the sources the server offers (\<open>agent/source_set.go\<close>), the errors of the
  engine (\<open>integrity.go\<close>, \<open>storage_error.go\<close>, \<open>diskspace.go\<close>), the task with its status machine (\<open>task.go\<close>), the
  choice of a download method (\<open>method.go\<close>, \<open>resolve.go\<close>) and the failover between debrid sources
  (\<open>source_failover.go\<close>). Each method of a task runs under the task's mutex and is one function. The metadata the
  engine only hands on (titles, seasons, identifiers of other databases) is left out of the records.
\<close>

section \<open>Methods and sources\<close>

datatype DownloadMethod = MethodUnset | MethodTorrent | MethodDebrid | MethodUsenet | MethodIPTV

fun method_name :: "DownloadMethod \<Rightarrow> bytes" where
  "method_name MethodUnset = []"
| "method_name MethodTorrent = str ''torrent''"
| "method_name MethodDebrid = str ''debrid''"
| "method_name MethodUsenet = str ''usenet''"
| "method_name MethodIPTV = str ''iptv''"

record source =
  so_ID :: bytes
  so_ReleaseKey :: bytes
  so_Relation :: bytes
  so_Transport :: bytes
  so_Provider :: bytes
  so_InfoHash :: bytes
  so_NzbID :: bytes
  so_DirectURL :: bytes
  so_FileName :: bytes
  so_FileSize :: int
  so_Password :: bytes

record source_set =
  ss_Version :: int
  ss_PreferredSourceID :: bytes
  ss_Sources :: "source list"

text \<open>The task as the server sends it and the resume store keeps it (\<open>agent.Task\<close>).\<close>

record agent_task =
  at_ID :: bytes
  at_InfoHash :: bytes
  at_PreferredMethod :: bytes
  at_Mode :: bytes
  at_DirectURL :: bytes
  at_DirectFileName :: bytes
  at_DirectFileSize :: int
  at_NzbID :: bytes
  at_NzbPassword :: bytes
  at_ReplacePath :: bytes
  at_ForceStart :: bool
  at_SourceSet :: "source_set option"
  at_ResumePaused :: bool
  at_QueuedAt :: "int option" \<comment> \<open>\<open>None\<close> is the zero time\<close>

definition findSource :: "source list \<Rightarrow> bytes \<Rightarrow> source option" where
  "findSource sources i = (if i = [] then None else find (\<lambda>s. so_ID s = i) sources)"

definition preferredSourceFirst :: "source_set \<Rightarrow> source list" where
  "preferredSourceFirst ss =
     (case findSource (ss_Sources ss) (ss_PreferredSourceID ss) of
        None \<Rightarrow> ss_Sources ss
      | Some p \<Rightarrow> p # filter (\<lambda>s. so_ID s \<noteq> so_ID p) (ss_Sources ss))"

definition applyLegacySource :: "source \<Rightarrow> agent_task \<Rightarrow> agent_task" where
  "applyLegacySource s t =
     (let t1 = (if at_InfoHash t = [] \<and> so_InfoHash s \<noteq> [] then t\<lparr>at_InfoHash := so_InfoHash s\<rparr> else t)
      in if so_Transport s = str ''debrid'' then
           (if at_DirectURL t1 = [] \<and> so_DirectURL s \<noteq> []
            then t1\<lparr>at_DirectURL := so_DirectURL s, at_DirectFileName := so_FileName s, at_DirectFileSize := so_FileSize s\<rparr>
            else t1)
         else if so_Transport s = str ''usenet'' then
           (let t2 = (if at_NzbID t1 = [] then t1\<lparr>at_NzbID := so_NzbID s\<rparr> else t1)
            in if at_NzbPassword t2 = [] then t2\<lparr>at_NzbPassword := so_Password s\<rparr> else t2)
         else t1)"

definition normalizePreferredMethod :: "source_set \<Rightarrow> agent_task \<Rightarrow> agent_task" where
  "normalizePreferredMethod ss t =
     (if at_PreferredMethod t \<noteq> [] then t
      else case findSource (ss_Sources ss) (ss_PreferredSourceID ss) of
        None \<Rightarrow> t\<lparr>at_PreferredMethod := str ''auto''\<rparr>
      | Some p \<Rightarrow> t\<lparr>at_PreferredMethod := so_Transport p\<rparr>)"

definition NormalizeSourceSet :: "agent_task \<Rightarrow> agent_task" where
  "NormalizeSourceSet t =
     (case at_SourceSet t of
        None \<Rightarrow> t
      | Some ss \<Rightarrow>
          if ss_Version ss \<noteq> 1 then t
          else normalizePreferredMethod ss (fold applyLegacySource (preferredSourceFirst ss) t))"

section \<open>Status\<close>

datatype TaskStatus = StatusPending | StatusClaimed | StatusResolving | StatusDownloading | StatusVerifying
  | StatusOrganizing | StatusSeeding | StatusCompleted | StatusFailed | StatusCancelled

fun status_name :: "TaskStatus \<Rightarrow> bytes" where
  "status_name StatusPending = str ''pending''"
| "status_name StatusClaimed = str ''claimed''"
| "status_name StatusResolving = str ''resolving''"
| "status_name StatusDownloading = str ''downloading''"
| "status_name StatusVerifying = str ''verifying''"
| "status_name StatusOrganizing = str ''organizing''"
| "status_name StatusSeeding = str ''seeding''"
| "status_name StatusCompleted = str ''completed''"
| "status_name StatusFailed = str ''failed''"
| "status_name StatusCancelled = str ''cancelled''"

fun validTransitions :: "TaskStatus \<Rightarrow> TaskStatus list option" where
  "validTransitions StatusPending = Some [StatusClaimed]"
| "validTransitions StatusClaimed = Some [StatusResolving, StatusCancelled]"
| "validTransitions StatusResolving = Some [StatusDownloading, StatusFailed, StatusCancelled]"
| "validTransitions StatusDownloading = Some [StatusVerifying, StatusFailed, StatusResolving, StatusCancelled]"
| "validTransitions StatusVerifying = Some [StatusOrganizing, StatusFailed, StatusResolving]"
| "validTransitions StatusOrganizing = Some [StatusSeeding, StatusCompleted, StatusFailed]"
| "validTransitions StatusSeeding = Some [StatusCompleted]"
| "validTransitions s = None"

section \<open>Errors\<close>

text \<open>
  The errors the engine distinguishes. \<open>Wrapped\<close> is \<open>fmt.Errorf\<close> with one \<open>%w\<close> between two texts, and \<open>Exhausted\<close> the
  error of an exhausted source repair, which wraps the first error and shows the last. An insufficient disk carries its
  text as rendered; the directory of a storage error only informs its message and is left out.
\<close>

datatype engine_err =
    IntegrityError bytes bytes
  | StorageError bytes bytes
  | InsufficientDiskError bytes
  | ErrVPNRequired
  | ErrVPNTunnelDown
  | ErrNoMatchingNzb
  | NoTransitions TaskStatus
  | InvalidTransition TaskStatus TaskStatus
  | NoMethod "DownloadMethod list" "DownloadMethod list"
  | InvalidRepair bytes
  | ChangedRelease bytes
  | ChangedFile bytes bytes bytes
  | ChangedSize bytes int int
  | OtherError bytes
  | Wrapped bytes engine_err bytes
  | Exhausted engine_err engine_err

fun IsIntegrity :: "engine_err \<Rightarrow> bool" where
  "IsIntegrity (IntegrityError r m) = True"
| "IsIntegrity (Wrapped a e b) = IsIntegrity e"
| "IsIntegrity (Exhausted e l) = IsIntegrity e"
| "IsIntegrity e = False"

fun integrity_reason :: "engine_err \<Rightarrow> bytes option" where
  "integrity_reason (IntegrityError r m) = Some r"
| "integrity_reason (Wrapped a e b) = integrity_reason e"
| "integrity_reason (Exhausted e l) = integrity_reason e"
| "integrity_reason e = None"

fun IsStorage :: "engine_err \<Rightarrow> bool" where
  "IsStorage (StorageError r m) = True"
| "IsStorage (Wrapped a e b) = IsStorage e"
| "IsStorage (Exhausted e l) = IsStorage e"
| "IsStorage e = False"

fun IsInsufficientDisk :: "engine_err \<Rightarrow> bool" where
  "IsInsufficientDisk (InsufficientDiskError t) = True"
| "IsInsufficientDisk (Wrapped a e b) = IsInsufficientDisk e"
| "IsInsufficientDisk (Exhausted e l) = IsInsufficientDisk e"
| "IsInsufficientDisk e = False"

text \<open>\<open>errors.Is(err, target)\<close> for the sentinel errors.\<close>

fun errors_Is :: "engine_err \<Rightarrow> engine_err \<Rightarrow> bool" where
  "errors_Is (Wrapped a e b) target = errors_Is e target"
| "errors_Is (Exhausted e l) target = errors_Is e target"
| "errors_Is e target = (e = target)"

definition reasonSizeConflict :: bytes where
  "reasonSizeConflict = str ''size_conflict''"

definition IsSizeConflict :: "engine_err \<Rightarrow> bool" where
  "IsSizeConflict e \<longleftrightarrow> integrity_reason e = Some reasonSizeConflict"

definition IsDebridSourceRepairable :: "engine_err \<Rightarrow> bool" where
  "IsDebridSourceRepairable e =
     (case integrity_reason e of
        None \<Rightarrow> True
      | Some r \<Rightarrow> r \<in> set [reasonSizeConflict, str ''truncated'', str ''stub_response'', str ''overlong''])"

text \<open>\<open>Error()\<close>. The parameter \<open>q\<close> is \<open>strconv.Quote\<close>, which \<open>%q\<close> prints with; \<open>%v\<close> prints a list between brackets.\<close>

definition show_methods :: "DownloadMethod list \<Rightarrow> bytes" where
  "show_methods ms = [91] @ concat (map (\<lambda>(i, m). (if i = 0 then [] else [32]) @ method_name m) (enumerate (0::nat) ms)) @ [93]"

fun err_text :: "(bytes \<Rightarrow> bytes) \<Rightarrow> engine_err \<Rightarrow> bytes" where
  "err_text q (IntegrityError r m) = (if m \<noteq> [] then m else str ''integrity check failed: '' @ r)"
| "err_text q (StorageError r m) = (if m \<noteq> [] then m else str ''storage write failed: '' @ r)"
| "err_text q (InsufficientDiskError t) = t"
| "err_text q ErrVPNRequired = str ''VPN required: tunnel down '' @ [0xE2, 0x80, 0x94] @ str '' P2P disabled''"
| "err_text q ErrVPNTunnelDown =
     str ''VPN required: tunnel went down mid-download '' @ [0xE2, 0x80, 0x94] @ str '' torrent paused''"
| "err_text q ErrNoMatchingNzb = str ''usenet: no NZB matches the release''"
| "err_text q (NoTransitions s) = str ''no transitions from '' @ status_name s"
| "err_text q (InvalidTransition a b) = str ''invalid transition: '' @ status_name a @ str '' -> '' @ status_name b"
| "err_text q (NoMethod order tried) =
     str ''no download method available (order: '' @ show_methods order @ str '', tried: '' @ show_methods tried @ str '')''"
| "err_text q (InvalidRepair i) = str ''invalid debrid repair source '' @ q i"
| "err_text q (ChangedRelease i) = str ''repair source '' @ q i @ str '' changed release identity''"
| "err_text q (ChangedFile i a b) = str ''repair source '' @ q i @ str '' changed file from '' @ q a @ str '' to '' @ q b"
| "err_text q (ChangedSize i a b) =
     str ''repair source '' @ q i @ str '' changed file size from '' @ show_int a @ str '' to '' @ show_int b"
| "err_text q (OtherError t) = t"
| "err_text q (Wrapped a e b) = a @ err_text q e @ b"
| "err_text q (Exhausted e l) = err_text q e @ str '' (debrid source repair exhausted: '' @ err_text q l @ str '')''"

section \<open>The task\<close>

record progress_msg =
  pr_DownloadedBytes :: int
  pr_TotalBytes :: int
  pr_SpeedBps :: int
  pr_ETA :: int
  pr_FileName :: bytes

record result =
  re_FilePath :: bytes
  re_FileName :: bytes
  re_Method :: DownloadMethod
  re_Size :: int
  re_ExpectedBytes :: int

record task =
  tk_ID :: bytes
  tk_InfoHash :: bytes
  tk_PreferredMethod :: bytes
  tk_DirectURL :: bytes
  tk_DirectFileName :: bytes
  tk_DirectFileSize :: int
  tk_ReplacePath :: bytes
  tk_SourceSet :: "source_set option"
  tk_triedSourceIDs :: "bytes list"
  tk_Status :: TaskStatus
  tk_Mode :: bytes
  tk_ResolvedMethod :: DownloadMethod
  tk_TriedMethods :: "DownloadMethod list"
  tk_DownloadedBytes :: int
  tk_TotalBytes :: int
  tk_SpeedBps :: int
  tk_ETA :: int
  tk_FileName :: bytes
  tk_FilePath :: bytes
  tk_StreamURL :: bytes
  tk_ErrorMessage :: bytes
  tk_ClaimedAt :: int
  tk_StartedAt :: "int option"
  tk_CompletedAt :: "int option"

definition NewTaskFromAgent :: "int \<Rightarrow> agent_task \<Rightarrow> task" where
  "NewTaskFromAgent now a =
     (let a = NormalizeSourceSet a in
      \<lparr>tk_ID = at_ID a, tk_InfoHash = at_InfoHash a, tk_PreferredMethod = at_PreferredMethod a, tk_DirectURL = at_DirectURL a,
       tk_DirectFileName = at_DirectFileName a, tk_DirectFileSize = at_DirectFileSize a, tk_ReplacePath = at_ReplacePath a,
       tk_SourceSet = at_SourceSet a, tk_triedSourceIDs = [], tk_Status = StatusClaimed,
       tk_Mode = (if at_Mode a = [] then str ''download'' else at_Mode a), tk_ResolvedMethod = MethodUnset, tk_TriedMethods = [],
       tk_DownloadedBytes = 0, tk_TotalBytes = 0, tk_SpeedBps = 0, tk_ETA = 0, tk_FileName = [], tk_FilePath = [],
       tk_StreamURL = [], tk_ErrorMessage = [], tk_ClaimedAt = now, tk_StartedAt = None, tk_CompletedAt = None\<rparr>)"

text \<open>The error, if any, and the task. (The \<open>onChange\<close> hook that a success calls only asks for an early sync.)\<close>

definition Transition :: "int \<Rightarrow> TaskStatus \<Rightarrow> task \<Rightarrow> engine_err option \<times> task" where
  "Transition now to t =
     (case validTransitions (tk_Status t) of
        None \<Rightarrow> (Some (NoTransitions (tk_Status t)), t)
      | Some allowed \<Rightarrow>
          if to \<in> set allowed then
            (let t1 = t\<lparr>tk_Status := to\<rparr>;
                 t2 = (if to = StatusDownloading then t1\<lparr>tk_StartedAt := Some now\<rparr> else t1);
                 t3 = (if to = StatusResolving \<or> to = StatusDownloading then t2\<lparr>tk_ErrorMessage := []\<rparr> else t2);
                 t4 = (if to = StatusCompleted \<or> to = StatusFailed then t3\<lparr>tk_CompletedAt := Some now\<rparr> else t3)
             in (None, t4))
          else (Some (InvalidTransition (tk_Status t) to), t))"

definition MarkTried :: "DownloadMethod \<Rightarrow> task \<Rightarrow> task" where
  "MarkTried m t = t\<lparr>tk_TriedMethods := tk_TriedMethods t @ [m]\<rparr>"

definition HasUntried :: "DownloadMethod list \<Rightarrow> task \<Rightarrow> bool" where
  "HasUntried available t \<longleftrightarrow> list_ex (\<lambda>m. m \<notin> set (tk_TriedMethods t)) available"

definition UpdateProgress :: "progress_msg \<Rightarrow> task \<Rightarrow> task" where
  "UpdateProgress p t =
     (let t1 = t\<lparr>tk_DownloadedBytes := pr_DownloadedBytes p, tk_TotalBytes := pr_TotalBytes p, tk_SpeedBps := pr_SpeedBps p,
                 tk_ETA := pr_ETA p\<rparr>
      in if pr_FileName p \<noteq> [] then t1\<lparr>tk_FileName := pr_FileName p\<rparr> else t1)"

section \<open>Reports\<close>

definition Percent :: "(rat \<Rightarrow> int) \<Rightarrow> task \<Rightarrow> int" where
  "Percent oor t =
     (if tk_TotalBytes t \<le> 0 then 0
      else
        let p = float_int oor (f64 (f64 (f64 (of_int (tk_DownloadedBytes t)) / f64 (of_int (tk_TotalBytes t))) * 100))
        in if 100 < p then 100 else p)"

definition RuneStart :: "byte \<Rightarrow> bool" where
  "RuneStart b \<longleftrightarrow> b AND 0xC0 \<noteq> 0x80"

fun rune_cut :: "bytes \<Rightarrow> nat \<Rightarrow> nat" where
  "rune_cut s k = (if 0 < k \<and> \<not> RuneStart (s ! k) then rune_cut s (k - 1) else k)"

declare rune_cut.simps [simp del]

definition truncateMsg :: "bytes \<Rightarrow> nat \<Rightarrow> bytes" where
  "truncateMsg s mx = (if length s \<le> mx then s else take (rune_cut s mx) s)"

record status_update =
  su_TaskID :: bytes
  su_Status :: bytes
  su_Progress :: int
  su_DownloadedBytes :: int
  su_TotalBytes :: int
  su_SpeedBps :: int
  su_ETA :: int
  su_ResolvedMethod :: bytes
  su_FileName :: bytes
  su_FilePath :: bytes
  su_StreamURL :: bytes
  su_ErrorMessage :: bytes

fun apiStatus :: "TaskStatus \<Rightarrow> bytes" where
  "apiStatus StatusResolving = str ''resolving''"
| "apiStatus StatusDownloading = str ''downloading''"
| "apiStatus StatusVerifying = str ''verifying''"
| "apiStatus StatusOrganizing = str ''organizing''"
| "apiStatus StatusSeeding = str ''downloading''"
| "apiStatus StatusCompleted = str ''completed''"
| "apiStatus StatusFailed = str ''failed''"
| "apiStatus s = []"

definition ToStatusUpdate :: "(rat \<Rightarrow> int) \<Rightarrow> task \<Rightarrow> status_update" where
  "ToStatusUpdate oor t =
     \<lparr>su_TaskID = tk_ID t, su_Status = apiStatus (tk_Status t), su_Progress = Percent oor t,
      su_DownloadedBytes = tk_DownloadedBytes t, su_TotalBytes = tk_TotalBytes t, su_SpeedBps = tk_SpeedBps t, su_ETA = tk_ETA t,
      su_ResolvedMethod = method_name (tk_ResolvedMethod t), su_FileName = tk_FileName t, su_FilePath = tk_FilePath t,
      su_StreamURL = tk_StreamURL t, su_ErrorMessage = truncateMsg (tk_ErrorMessage t) 2000\<rparr>"

section \<open>Choosing a method\<close>

fun method_of_name :: "bytes \<Rightarrow> DownloadMethod list" where
  "method_of_name m =
     (if m = str ''torrent'' then [MethodTorrent] else if m = str ''debrid'' then [MethodDebrid]
      else if m = str ''usenet'' then [MethodUsenet] else [])"

definition effectiveOrder :: "bytes list \<Rightarrow> task \<Rightarrow> DownloadMethod list" where
  "effectiveOrder configMethods t =
     (if tk_PreferredMethod t = method_name MethodIPTV then [MethodIPTV]
      else
        let order = concat (map method_of_name configMethods)
        in if configMethods \<noteq> [] \<and> order \<noteq> [] then order
           else case method_of_name (tk_PreferredMethod t) of
             [] \<Rightarrow> [MethodTorrent, MethodDebrid, MethodUsenet]
           | ms \<Rightarrow> ms)"

text \<open>
  The loop of \<open>resolveMethod\<close>. The registered downloaders are a list of methods; what \<open>Available\<close> answers is a
  function of the method.
\<close>

fun resolve_loop :: "(DownloadMethod \<Rightarrow> engine_err + bool) \<Rightarrow> DownloadMethod list \<Rightarrow> DownloadMethod list \<Rightarrow>
    DownloadMethod list \<Rightarrow> engine_err option \<Rightarrow> DownloadMethod option \<times> engine_err option" where
  "resolve_loop avail registered tried [] gate = (None, gate)"
| "resolve_loop avail registered tried (m # ms) gate =
     (if m \<in> set tried \<or> m \<notin> set registered then resolve_loop avail registered tried ms gate
      else case avail m of
        Inl err \<Rightarrow>
          resolve_loop avail registered tried ms
            (if errors_Is err ErrNoMatchingNzb then (if gate = None then Some err else gate)
             else if errors_Is err ErrVPNRequired then Some err
             else gate)
      | Inr available \<Rightarrow> if available then (Some m, gate) else resolve_loop avail registered tried ms gate)"

definition resolveMethod :: "(DownloadMethod \<Rightarrow> engine_err + bool) \<Rightarrow> DownloadMethod list \<Rightarrow> bytes list \<Rightarrow> task \<Rightarrow>
    engine_err + DownloadMethod" where
  "resolveMethod avail registered configMethods t =
     (let order = effectiveOrder configMethods t
      in case resolve_loop avail registered (tk_TriedMethods t) order None of
           (Some m, _) \<Rightarrow> Inr m
         | (None, Some gate) \<Rightarrow> Inl (Wrapped (str ''no download method available: '') gate [])
         | (None, None) \<Rightarrow> Inl (NoMethod order (tk_TriedMethods t)))"

definition tryFallback :: "DownloadMethod list \<Rightarrow> bytes list \<Rightarrow> task \<Rightarrow> bool \<times> task" where
  "tryFallback registered configMethods t =
     (let order = effectiveOrder configMethods t
      in if length order \<le> 1 then (False, t)
         else
           let t1 = MarkTried (tk_ResolvedMethod t) t
           in (list_ex (\<lambda>m. m \<notin> set (tk_TriedMethods t1) \<and> m \<in> set registered) order, t1))"

section \<open>Failover between debrid sources\<close>

definition repairable_source :: "source \<Rightarrow> bool" where
  "repairable_source s \<longleftrightarrow> \<not> (so_Transport s \<noteq> str ''debrid'' \<or> so_Relation s \<noteq> str ''exact_release'' \<or>
     so_Provider s = [] \<or> so_DirectURL s \<noteq> [])"

definition NextDebridRepairSource :: "task \<Rightarrow> source option \<times> task" where
  "NextDebridRepairSource t =
     (case tk_SourceSet t of
        None \<Rightarrow> (None, t)
      | Some ss \<Rightarrow>
          if ss_Version ss \<noteq> 1 then (None, t)
          else case find (\<lambda>s. repairable_source s \<and> so_ID s \<notin> set (tk_triedSourceIDs t)) (ss_Sources ss) of
            None \<Rightarrow> (None, t)
          | Some s \<Rightarrow> (Some s, t\<lparr>tk_triedSourceIDs := so_ID s # tk_triedSourceIDs t\<rparr>))"

definition portableBase :: "bytes \<Rightarrow> bytes" where
  "portableBase name = Base (ReplaceAll name [92] [47])"

definition ApplyDebridRepairSource :: "source \<Rightarrow> task \<Rightarrow> engine_err option \<times> task" where
  "ApplyDebridRepairSource s t =
     (if so_Transport s \<noteq> str ''debrid'' \<or> so_Relation s \<noteq> str ''exact_release'' \<or> so_DirectURL s = []
      then (Some (InvalidRepair (so_ID s)), t)
      else if tk_InfoHash t = [] \<or> \<not> EqualFold (so_InfoHash s) (tk_InfoHash t) then (Some (ChangedRelease (so_ID s)), t)
      else if tk_DirectFileName t \<noteq> [] \<and> so_FileName s \<noteq> [] \<and> portableBase (tk_DirectFileName t) \<noteq> portableBase (so_FileName s)
      then (Some (ChangedFile (so_ID s) (tk_DirectFileName t) (so_FileName s)), t)
      else if 0 < tk_DirectFileSize t \<and> 0 < so_FileSize s \<and> tk_DirectFileSize t \<noteq> so_FileSize s
      then (Some (ChangedSize (so_ID s) (tk_DirectFileSize t) (so_FileSize s)), t)
      else
        let t1 = t\<lparr>tk_DirectURL := so_DirectURL s\<rparr>;
            t2 = (if tk_DirectFileName t1 = [] then t1\<lparr>tk_DirectFileName := so_FileName s\<rparr> else t1)
        in (None, if tk_DirectFileSize t2 = 0 then t2\<lparr>tk_DirectFileSize := so_FileSize s\<rparr> else t2))"

end
