(* ===== verification/Agent_Store.thy ===== *)
theory Agent_Store
  imports Engine_Task "HOL-Library.AList" "HOL-Library.List_Lexorder" "HOL-Library.Product_Lexorder"
begin

text \<open>
  The resume store of \<open>internal/agent/active_tasks.go\<close>: the payloads of the downloads that are under way, kept on disk so that the
  daemon can submit them again after a restart. The file is the list of tasks that its JSON encodes; the order in which
  a flush writes the map is the parameter \<open>ord\<close>, and \<open>io\<close> says whether the directory, the write and the rename
  succeeded. The interface the manager uses (\<open>taskPersister\<close>) is the locale \<open>task_persister\<close>.
\<close>

section \<open>The store\<close>

record active_task_store =
  as_tasks :: "(bytes \<times> agent_task) list"
  as_file :: "agent_task list option"

type_synonym write_env = "bool \<times> (agent_task list \<Rightarrow> agent_task list)"

definition NewActiveTaskStore :: "agent_task list option \<Rightarrow> active_task_store" where
  "NewActiveTaskStore file = \<lparr>as_tasks = [], as_file = file\<rparr>"

definition store_flush :: "write_env \<Rightarrow> active_task_store \<Rightarrow> active_task_store" where
  "store_flush env s = (case env of (io, ord) \<Rightarrow> if io then s\<lparr>as_file := Some (ord (map snd (as_tasks s)))\<rparr> else s)"

definition store_Get :: "active_task_store \<Rightarrow> bytes \<Rightarrow> agent_task option" where
  "store_Get s i = map_of (as_tasks s) i"

definition store_Add :: "write_env \<Rightarrow> int \<Rightarrow> agent_task \<Rightarrow> active_task_store \<Rightarrow> active_task_store" where
  "store_Add env now t s =
     (let t1 = (case store_Get s (at_ID t) of
          Some prev \<Rightarrow>
            (if at_QueuedAt prev \<noteq> None then t\<lparr>at_QueuedAt := at_QueuedAt prev\<rparr>
             else if at_QueuedAt t = None then t\<lparr>at_QueuedAt := Some now\<rparr> else t)
        | None \<Rightarrow> if at_QueuedAt t = None then t\<lparr>at_QueuedAt := Some now\<rparr> else t)
      in store_flush env (s\<lparr>as_tasks := AList.update (at_ID t) t1 (as_tasks s)\<rparr>))"

definition store_SetPaused :: "write_env \<Rightarrow> bytes \<Rightarrow> bool \<Rightarrow> active_task_store \<Rightarrow> active_task_store" where
  "store_SetPaused env i paused s =
     (case store_Get s i of
        None \<Rightarrow> s
      | Some t \<Rightarrow>
          if at_ResumePaused t = paused then s
          else store_flush env (s\<lparr>as_tasks := AList.update i (t\<lparr>at_ResumePaused := paused\<rparr>) (as_tasks s)\<rparr>))"

definition store_Remove :: "write_env \<Rightarrow> bytes \<Rightarrow> active_task_store \<Rightarrow> active_task_store" where
  "store_Remove env i s =
     (case store_Get s i of
        None \<Rightarrow> s
      | Some _ \<Rightarrow> store_flush env (s\<lparr>as_tasks := AList.delete i (as_tasks s)\<rparr>))"

definition store_Clear :: "write_env \<Rightarrow> active_task_store \<Rightarrow> int \<times> active_task_store" where
  "store_Clear env s = (int (length (as_tasks s)), store_flush env (s\<lparr>as_tasks := []\<rparr>))"

text \<open>The order of the boot resume: by the time of queueing, the zero time first, then by ID.\<close>

definition resume_key :: "agent_task \<Rightarrow> (nat \<times> int) \<times> bytes" where
  "resume_key t = ((case at_QueuedAt t of None \<Rightarrow> (0, 0) | Some q \<Rightarrow> (1, q)), at_ID t)"

definition store_Load :: "active_task_store \<Rightarrow> agent_task list \<times> active_task_store" where
  "store_Load s =
     (case as_file s of
        None \<Rightarrow> ([], s)
      | Some ts \<Rightarrow>
          (let m = fold (\<lambda>t m. if at_ID t \<noteq> [] then AList.update (at_ID t) t m else m) ts []
           in (sort_key resume_key (map snd m), s\<lparr>as_tasks := m\<rparr>)))"

section \<open>The interface\<close>

text \<open>
  What the manager relies on: an added task is found under its ID, unpaused unless it was added paused, a removed one is not,
  the paused flag is set on an entry that is there, and every operation leaves the other entries alone.
\<close>

locale task_persister =
  fixes ok :: "'s \<Rightarrow> bool"
    and get :: "'s \<Rightarrow> bytes \<Rightarrow> agent_task option"
    and add :: "int \<Rightarrow> agent_task \<Rightarrow> 's \<Rightarrow> 's"
    and remove :: "bytes \<Rightarrow> 's \<Rightarrow> 's"
    and set_paused :: "bytes \<Rightarrow> bool \<Rightarrow> 's \<Rightarrow> 's"
  assumes ok_add: "ok s \<Longrightarrow> ok (add now t s)"
    and ok_remove: "ok s \<Longrightarrow> ok (remove i s)"
    and ok_set_paused: "ok s \<Longrightarrow> ok (set_paused i b s)"
    and get_add: "ok s \<Longrightarrow> \<exists>q. get (add now t s) i = (if i = at_ID t then Some (t\<lparr>at_QueuedAt := Some q\<rparr>) else get s i)"
    and get_remove: "ok s \<Longrightarrow> get (remove i s) j = (if j = i then None else get s j)"
    and get_set_paused: "ok s \<Longrightarrow> get (set_paused i b s) j =
      (if j = i then map_option (\<lambda>t. t\<lparr>at_ResumePaused := b\<rparr>) (get s j) else get s j)"
begin

text \<open>\<open>Submit\<close> adds a task unpaused; a pause, a cancel and the end of a task are the other operations.\<close>

fun apply_op :: "(int \<times> agent_task) + (bytes \<times> bool option) \<Rightarrow> 's \<Rightarrow> 's" where
  "apply_op (Inl (now, t)) s = add now (t\<lparr>at_ResumePaused := False\<rparr>) s"
| "apply_op (Inr (i, Some b)) s = set_paused i b s"
| "apply_op (Inr (i, None)) s = remove i s"

lemma apply_op_ok: "ok s \<Longrightarrow> ok (apply_op x s)"
  by (cases "(x, s)" rule: apply_op.cases) (simp_all add: ok_add ok_remove ok_set_paused)

lemma fold_ok: "ok s \<Longrightarrow> ok (fold apply_op xs s)"
  by (induction xs arbitrary: s) (simp_all add: apply_op_ok)

text \<open>Operations on other tasks do not matter.\<close>

lemma other_op:
  assumes "ok s" "case x of Inl (now, t) \<Rightarrow> at_ID t \<noteq> i | Inr (j, b) \<Rightarrow> j \<noteq> i"
  shows "get (apply_op x s) i = get s i"
proof (cases "(x, s)" rule: apply_op.cases)
  case (1 now t s')
  then show ?thesis using assms get_add [of s now "t\<lparr>at_ResumePaused := False\<rparr>" i] by auto
qed (use assms in \<open>simp_all add: get_remove get_set_paused\<close>)

lemma other_ops:
  assumes "ok s" "list_all (\<lambda>x. case x of Inl (now, t) \<Rightarrow> at_ID t \<noteq> i | Inr (j, b) \<Rightarrow> j \<noteq> i) xs"
  shows "get (fold apply_op xs s) i = get s i"
  using assms by (induction xs arbitrary: s) (simp_all add: other_op apply_op_ok)

text \<open>So after a submit, the entry of a task is there, running or paused as last asked, until a cancel or its end removes it.\<close>

lemma pause_survives:
  assumes "ok s" "at_ID t = i"
    "list_all (\<lambda>x. case x of Inl (now, t) \<Rightarrow> at_ID t \<noteq> i | Inr (j, b) \<Rightarrow> j \<noteq> i) xs"
    "list_all (\<lambda>x. case x of Inl (now, t) \<Rightarrow> at_ID t \<noteq> i | Inr (j, b) \<Rightarrow> j \<noteq> i) ys"
  shows "\<exists>q. get (fold apply_op (Inl (now, t) # xs @ Inr (i, Some b) # ys) s) i = Some (t\<lparr>at_ResumePaused := b, at_QueuedAt := Some q\<rparr>)"
proof -
  let ?s1 = "apply_op (Inl (now, t)) s"
  obtain q where q: "get ?s1 i = Some (t\<lparr>at_ResumePaused := False, at_QueuedAt := Some q\<rparr>)"
    using get_add [OF assms(1), of now "t\<lparr>at_ResumePaused := False\<rparr>" i] assms(2) by auto
  let ?s2 = "fold apply_op xs ?s1"
  have s2: "ok ?s2" "get ?s2 i = get ?s1 i" using fold_ok apply_op_ok other_ops assms(1,3) by blast+
  have "get (fold apply_op ys (set_paused i b ?s2)) i = get (set_paused i b ?s2) i"
    using other_ops [OF ok_set_paused [OF s2(1)] assms(4)] .
  then have "get (fold apply_op ys (set_paused i b ?s2)) i = Some (t\<lparr>at_ResumePaused := b, at_QueuedAt := Some q\<rparr>)"
    using s2 q by (simp add: get_set_paused)
  then show ?thesis by auto
qed

end

definition entries_ok :: "active_task_store \<Rightarrow> bool" where
  "entries_ok s \<longleftrightarrow> distinct (map fst (as_tasks s)) \<and> list_all (\<lambda>(i, t). at_ID t = i) (as_tasks s)"

section \<open>The store keeps the interface\<close>

lemma flush_tasks [simp]: "as_tasks (store_flush env s) = as_tasks s"
  by (simp add: store_flush_def split: prod.split)

lemma flush_Get [simp]: "store_Get (store_flush env s) i = store_Get s i"
  by (simp add: store_Get_def)

lemma entries_ok_flush [simp]: "entries_ok (store_flush env s) = entries_ok s"
  by (simp add: entries_ok_def)

lemma update_entries_ok:
  assumes "list_all (\<lambda>(i, t). at_ID t = i) m" "at_ID t = i"
  shows "list_all (\<lambda>(i, t). at_ID t = i) (AList.update i t m)"
  using assms by (induction m) auto

lemma entries_ok_update: "entries_ok s \<Longrightarrow> at_ID t = i \<Longrightarrow> entries_ok (s\<lparr>as_tasks := AList.update i t (as_tasks s)\<rparr>)"
  by (simp add: entries_ok_def distinct_update update_entries_ok)

lemma entries_ok_delete: "entries_ok s \<Longrightarrow> entries_ok (s\<lparr>as_tasks := AList.delete i (as_tasks s)\<rparr>)"
  by (auto simp: entries_ok_def list_all_iff AList.delete_eq distinct_map_filter)

lemma store_Get_ID: "entries_ok s \<Longrightarrow> store_Get s i = Some t \<Longrightarrow> at_ID t = i"
  unfolding entries_ok_def store_Get_def by (auto simp: list_all_iff dest!: map_of_SomeD)

lemma store_Get_Remove: "store_Get (store_Remove env i s) j = (if j = i then None else store_Get s j)"
  by (auto simp: store_Remove_def split: option.split) (auto simp: store_Get_def delete_conv')

lemma store_Get_SetPaused:
  "store_Get (store_SetPaused env i b s) j = (if j = i then map_option (\<lambda>t. t\<lparr>at_ResumePaused := b\<rparr>) (store_Get s j) else store_Get s j)"
  by (auto simp: store_SetPaused_def split: option.split) (auto simp: store_Get_def update_conv')

lemma store_Get_Add:
  "\<exists>q. store_Get (store_Add env now t s) i = (if i = at_ID t then Some (t\<lparr>at_QueuedAt := Some q\<rparr>) else store_Get s i)"
proof -
  have same: "\<exists>q. t = t\<lparr>at_QueuedAt := Some q\<rparr>" if "at_QueuedAt t = Some y" for y
    using that by (intro exI [of _ y]) (metis agent_task.surjective agent_task.update_convs(14))
  show ?thesis
    by (auto simp: store_Add_def Let_def split: option.split) (auto simp: store_Get_def update_conv' intro: same)
qed

interpretation active_tasks: task_persister entries_ok store_Get "store_Add env" "store_Remove env" "store_SetPaused env" for env
proof (unfold_locales, goal_cases)
  case (1 s now t)
  then show ?case by (auto simp: store_Add_def Let_def intro!: entries_ok_update split: option.split)
next
  case (2 s i)
  then show ?case by (auto simp: store_Remove_def entries_ok_delete split: option.split)
next
  case (3 s i b)
  then show ?case by (auto simp: store_SetPaused_def dest: store_Get_ID intro!: entries_ok_update split: option.split)
next
  case (4 s now t i)
  show ?case by (rule store_Get_Add)
next
  case (5 s i j)
  show ?case by (rule store_Get_Remove)
next
  case (6 s i b j)
  show ?case by (rule store_Get_SetPaused)
qed

section \<open>Restart\<close>

abbreviation load_task :: "agent_task \<Rightarrow> (bytes \<times> agent_task) list \<Rightarrow> (bytes \<times> agent_task) list" where
  "load_task t m \<equiv> if at_ID t \<noteq> [] then AList.update (at_ID t) t m else m"

lemma load_tasks:
  assumes "distinct (map at_ID ts)" "[] \<notin> at_ID ` set ts" "at_ID ` set ts \<inter> fst ` set m = {}"
  shows "fold load_task ts m = m @ map (\<lambda>t. (at_ID t, t)) ts"
  using assms
proof (induction ts arbitrary: m)
  case (Cons t ts)
  have "AList.update (at_ID t) t m = m @ [(at_ID t, t)]"
    using Cons(4) by (induction m) auto
  then show ?case using Cons by (subst fold_simps(2)) (auto simp: Cons(1))
qed simp

lemma store_entries: "entries_ok s \<Longrightarrow> map fst (as_tasks s) = map at_ID (map snd (as_tasks s))"
  by (auto simp: entries_ok_def list_all_iff)

text \<open>
  What a successful flush writes, a later start loads: the same entries, with their paused flags, in the order in which they were
  queued.
\<close>

lemma Load_flush:
  assumes "entries_ok s" "store_Get s [] = None" "mset (ord (map snd (as_tasks s))) = mset (map snd (as_tasks s))"
    and "store_Load (NewActiveTaskStore (as_file (store_flush (True, ord) s))) = (out, s')"
  shows "store_Get s' i = store_Get s i \<and> sorted (map resume_key out) \<and> mset out = mset (map snd (as_tasks s))"
proof -
  let ?ts = "ord (map snd (as_tasks s))"
  have ids: "mset (map at_ID ?ts) = mset (map fst (as_tasks s))" using assms(3) store_entries [OF assms(1)] by (metis mset_map)
  have d: "distinct (map at_ID ?ts)" using assms(1) mset_eq_imp_distinct_iff [OF ids] by (simp add: entries_ok_def)
  have "[] \<notin> set (map at_ID ?ts)" using assms(2) mset_eq_setD [OF ids] by (simp add: store_Get_def map_of_eq_None_iff)
  then have m: "fold load_task ?ts [] = map (\<lambda>t. (at_ID t, t)) ?ts" using load_tasks [OF d, of "[]"] by simp
  have s': "s' = \<lparr>as_tasks = map (\<lambda>t. (at_ID t, t)) ?ts, as_file = Some ?ts\<rparr>" "out = sort_key resume_key ?ts"
    using assms(4) m by (auto simp: store_Load_def NewActiveTaskStore_def store_flush_def Let_def o_def)
  have e: "mset (map (\<lambda>t. (at_ID t, t)) ?ts) = mset (as_tasks s)"
  proof -
    have "map (\<lambda>t. (at_ID t, t)) (map snd (as_tasks s)) = as_tasks s"
      using assms(1) by (auto simp: entries_ok_def list_all_iff intro!: map_idI)
    then show ?thesis using assms(3) by (metis mset_map)
  qed
  have "map_of (map (\<lambda>t. (at_ID t, t)) ?ts) = map_of (as_tasks s)"
    using mset_eq_setD [OF e] assms(1) d by (subst map_of_inject_set) (simp_all add: entries_ok_def o_def)
  then show ?thesis using assms(3) by (simp add: s' store_Get_def)
qed

end
