(* ===== verification/Engine_Process.thy ===== *)
theory Engine_Process
  imports Agent_Store
begin

text \<open>
  The life of one download in \<open>internal/engine/manager.go\<close>: \<open>processTask\<close> with its retries, \<open>attemptDownload\<close> with the
  repair of debrid sources and the fallback to other methods, \<open>verify\<close> (\<open>verify.go\<close>), \<open>finalizeVerified\<close> and the ways a
  task fails. What is around it is the record \<open>engine_env\<close>: the answers of the downloaders, of the
  server, of the file system and of \<open>organize\<close>, each a function of the moment it is asked at. Between any two accesses
  to shared state other goroutines may run: \<open>ee_intf\<close> says what cancels, pauses and a shutdown do at each moment.
\<close>

section \<open>Verification on disk\<close>

datatype stat_answer = StatErr bool bytes | StatDir "bytes + int" | StatFile int

definition minPlausibleVideoBytes :: int where
  "minPlausibleVideoBytes = 1048576"

definition videoExts :: "bytes list" where
  "videoExts = map str [''.mkv'', ''.mp4'', ''.avi'', ''.m4v'', ''.ts'', ''.m2ts'', ''.wmv'', ''.mov'', ''.webm'', ''.flv'',
     ''.mpg'', ''.mpeg'', ''.vob'']"

definition IsVideoExt :: "unicode_lower \<Rightarrow> bytes \<Rightarrow> bool" where
  "IsVideoExt u name \<longleftrightarrow> ToLower u (Ext name) \<in> set videoExts"

text \<open>
  \<open>stat\<close> is what \<open>os.Stat\<close> (and \<open>dirSize\<close> for a directory) answers: \<open>StatErr io m\<close> is an error with the text \<open>m\<close>, where
  \<open>io\<close> says that \<open>isStorageStatErr\<close> holds of it. The tolerance is \<open>int64(float64(result.Size) * 0.02)\<close>.
\<close>

definition size_tolerance :: "int \<Rightarrow> int" where
  "size_tolerance n = trunc (f64 (f64 (of_int n) * f64 (2 / 100)))"

definition verify :: "unicode_lower \<Rightarrow> (bytes \<Rightarrow> stat_answer) \<Rightarrow> result option \<Rightarrow> engine_err option" where
  "verify u stat res =
     (case res of
        None \<Rightarrow> Some (OtherError (str ''no file path in result''))
      | Some r \<Rightarrow>
          if re_FilePath r = [] then Some (OtherError (str ''no file path in result''))
          else case stat (re_FilePath r) of
            StatErr io m \<Rightarrow>
              (if io then Some (StorageError (str ''stat_failed'') m)
               else Some (Wrapped (str ''file not found: '') (OtherError m) []))
          | StatDir (Inl m) \<Rightarrow> Some (Wrapped (str ''could not calculate dir size: '') (OtherError m) [])
          | StatDir (Inr actual) \<Rightarrow>
              (if actual = 0 then Some (IntegrityError (str ''empty'') (str ''download is empty: '' @ re_FilePath r))
               else if 0 < re_Size r \<and> actual < re_Size r - size_tolerance (re_Size r)
               then Some (IntegrityError (str ''size_mismatch'')
                 (str ''size mismatch: expected '' @ show_int (re_Size r) @ str '', got '' @ show_int actual))
               else None)
          | StatFile actual \<Rightarrow>
              (if actual = 0 then Some (IntegrityError (str ''empty'') (str ''download is empty: '' @ re_FilePath r))
               else if IsVideoExt u (Base (re_FilePath r)) \<and> actual < minPlausibleVideoBytes
               then Some (IntegrityError (str ''stub'') (str ''video file too small to be valid: '' @ show_int actual @
                 str '' bytes ('' @ re_FilePath r @ str '')''))
               else if 0 < re_ExpectedBytes r \<and> actual \<noteq> re_ExpectedBytes r
               then Some (IntegrityError (str ''size_mismatch'') (str ''size mismatch vs resolved file: expected '' @
                 show_int (re_ExpectedBytes r) @ str '', got '' @ show_int actual))
               else if 0 < re_Size r \<and> actual < re_Size r - size_tolerance (re_Size r)
               then Some (IntegrityError (str ''size_mismatch'')
                 (str ''size mismatch: expected '' @ show_int (re_Size r) @ str '', got '' @ show_int actual))
               else None))"

section \<open>The state\<close>

text \<open>What other goroutines do to a running task, in the pieces in which it can interleave with it.\<close>

datatype interference =
    IClearPaused \<comment> \<open>\<open>CancelTask\<close>, \<open>CancelAndDeleteFiles\<close>: \<open>clearPaused\<close>\<close>
  | IStoreRemove \<comment> \<open>and \<open>taskStore.Remove\<close>\<close>
  | IMarkPaused \<comment> \<open>\<open>PauseTask\<close>: \<open>markPaused\<close>\<close>
  | ICancelCtx \<comment> \<open>the task's context is cancelled\<close>
  | ISetError \<comment> \<open>\<open>SetError("cancelled by user")\<close>\<close>
  | ICancelled \<comment> \<open>\<open>Transition(StatusCancelled)\<close>\<close>
  | IShutdown \<comment> \<open>\<open>Shutdown\<close> sets \<open>shuttingDown\<close>\<close>

datatype event =
    EvAttempt
  | EvDownload DownloadMethod "engine_err + result"
  | EvVerify result "engine_err option"
  | EvRemoveBroken result
  | EvOrganize result "engine_err + bytes"

record run =
  rn_task :: task
  rn_ctxErr :: bool
  rn_shuttingDown :: bool
  rn_paused :: "bytes list"
  rn_store :: "active_task_store option"
  rn_recent :: "status_update list"
  rn_storageFailedAt :: "(bytes \<times> int) list"
  rn_clock :: nat
  rn_trace :: "event list" \<comment> \<open>what was asked of the environment, latest first\<close>

record engine_env =
  ee_quote :: "bytes \<Rightarrow> bytes"
  ee_oor :: "rat \<Rightarrow> int"
  ee_lower :: unicode_lower
  ee_now :: "nat \<Rightarrow> int"
  ee_write :: "nat \<Rightarrow> write_env"
  ee_intf :: "nat \<Rightarrow> interference list"
  ee_registered :: "DownloadMethod list"
  ee_config :: "bytes list"
  ee_available :: "nat \<Rightarrow> task \<Rightarrow> DownloadMethod \<Rightarrow> engine_err + bool"
  ee_download :: "nat \<Rightarrow> task \<Rightarrow> DownloadMethod \<Rightarrow> progress_msg list \<times> (engine_err + result)"
  ee_resolveSource :: "(nat \<Rightarrow> bytes \<Rightarrow> engine_err + source) option"
  ee_stat :: "nat \<Rightarrow> bytes \<Rightarrow> stat_answer"
  ee_extract :: "nat \<Rightarrow> result \<Rightarrow> result"
  ee_organize :: "nat \<Rightarrow> result \<Rightarrow> task \<Rightarrow> engine_err + bytes"
  ee_replace :: "nat \<Rightarrow> bool"

definition upd_task :: "(task \<Rightarrow> task) \<Rightarrow> run \<Rightarrow> run" where
  "upd_task f s = s\<lparr>rn_task := f (rn_task s)\<rparr>"

fun interfere :: "engine_env \<Rightarrow> interference \<Rightarrow> run \<Rightarrow> run" where
  "interfere env IClearPaused s = s\<lparr>rn_paused := removeAll (tk_ID (rn_task s)) (rn_paused s)\<rparr>"
| "interfere env IStoreRemove s = s\<lparr>rn_store := map_option (store_Remove (ee_write env (rn_clock s)) (tk_ID (rn_task s))) (rn_store s)\<rparr>"
| "interfere env IMarkPaused s =
     s\<lparr>rn_paused := List.insert (tk_ID (rn_task s)) (rn_paused s),
       rn_store := map_option (store_SetPaused (ee_write env (rn_clock s)) (tk_ID (rn_task s)) True) (rn_store s)\<rparr>"
| "interfere env ICancelCtx s = s\<lparr>rn_ctxErr := True\<rparr>"
| "interfere env ISetError s = upd_task (\<lambda>t. t\<lparr>tk_ErrorMessage := str ''cancelled by user''\<rparr>) s"
| "interfere env ICancelled s = upd_task (\<lambda>t. snd (Transition (ee_now env (rn_clock s)) StatusCancelled t)) s"
| "interfere env IShutdown s = s\<lparr>rn_shuttingDown := True\<rparr>"

text \<open>Others run before an access of the task's own goroutine.\<close>

definition others_run :: "engine_env \<Rightarrow> run \<Rightarrow> run" where
  "others_run env s = (fold (interfere env) (ee_intf env (rn_clock s)) s)\<lparr>rn_clock := Suc (rn_clock s)\<rparr>"

definition record_ev :: "event \<Rightarrow> run \<Rightarrow> run" where
  "record_ev e s = s\<lparr>rn_trace := e # rn_trace s\<rparr>"

definition do_transition :: "engine_env \<Rightarrow> TaskStatus \<Rightarrow> run \<Rightarrow> engine_err option \<times> run" where
  "do_transition env to s =
     (let s = others_run env s in case Transition (ee_now env (rn_clock s)) to (rn_task s) of (e, t) \<Rightarrow> (e, s\<lparr>rn_task := t\<rparr>))"

section \<open>How a task ends\<close>

definition recordFinishedKeep :: "engine_env \<Rightarrow> bool \<Rightarrow> run \<Rightarrow> run" where
  "recordFinishedKeep env keepResume s =
     (let s = others_run env s;
          update = ToStatusUpdate (ee_oor env) (rn_task s);
          keep = keepResume \<or> tk_ID (rn_task s) \<in> set (rn_paused s);
          s1 = (if \<not> rn_shuttingDown s \<and> \<not> keep
                then s\<lparr>rn_store := map_option (store_Remove (ee_write env (rn_clock s)) (tk_ID (rn_task s))) (rn_store s)\<rparr> else s);
          recent = rn_recent s1 @ [update]
      in s1\<lparr>rn_recent := (if 20 < length recent then drop (length recent - 20) recent else recent)\<rparr>)"

definition interruptedByShutdown :: "run \<Rightarrow> bool" where
  "interruptedByShutdown s \<longleftrightarrow> rn_shuttingDown s \<and> rn_ctxErr s"

definition fail :: "engine_env \<Rightarrow> bytes \<Rightarrow> run \<Rightarrow> run" where
  "fail env msg s =
     (let s = others_run env s in
      if interruptedByShutdown s then s
      else
        let s1 = upd_task (\<lambda>t. t\<lparr>tk_ErrorMessage := msg\<rparr>) s;
            (_, s2) = do_transition env StatusFailed s1
        in recordFinishedKeep env False s2)"

definition vpnPausedMsg :: bytes where
  "vpnPausedMsg = str ''VPN tunnel down '' @ [0xE2, 0x80, 0x94] @
     str '' torrent paused (partial kept); resumes when the tunnel recovers''"

definition pauseForVPN :: "engine_env \<Rightarrow> run \<Rightarrow> run" where
  "pauseForVPN env s =
     (let s1 = upd_task (\<lambda>t. t\<lparr>tk_ErrorMessage := vpnPausedMsg\<rparr>) (others_run env s)
      in case do_transition env StatusCancelled s1 of
           (Some e, s2) \<Rightarrow> fail env (str ''VPN tunnel down: '' @ err_text (ee_quote env) e) s2
         | (None, s2) \<Rightarrow> recordFinishedKeep env True s2)"

definition damagedErrorPrefix :: bytes where
  "damagedErrorPrefix = str ''corrupt download: ''"

definition storageErrorPrefix :: bytes where
  "storageErrorPrefix = str ''storage unavailable: ''"

definition storageFailCooldown :: int where
  "storageFailCooldown = 60000000000"

definition failDamaged :: "engine_env \<Rightarrow> engine_err \<Rightarrow> run \<Rightarrow> run" where
  "failDamaged env e s = fail env (damagedErrorPrefix @ err_text (ee_quote env) e) s"

definition markStorageFailed :: "int \<Rightarrow> bytes \<Rightarrow> (bytes \<times> int) list \<Rightarrow> (bytes \<times> int) list" where
  "markStorageFailed now i m = AList.update i now (filter (\<lambda>(_, t). \<not> storageFailCooldown < now - t) m)"

definition inStorageCooldown :: "int \<Rightarrow> bytes \<Rightarrow> (bytes \<times> int) list \<Rightarrow> bool \<times> (bytes \<times> int) list" where
  "inStorageCooldown now i m =
     (case map_of m i of
        None \<Rightarrow> (False, m)
      | Some t \<Rightarrow> if storageFailCooldown \<le> now - t then (False, AList.delete i m) else (True, m))"

definition failStorage :: "engine_env \<Rightarrow> engine_err \<Rightarrow> run \<Rightarrow> run" where
  "failStorage env e s =
     (let s1 = s\<lparr>rn_storageFailedAt := markStorageFailed (ee_now env (rn_clock s)) (tk_ID (rn_task s)) (rn_storageFailedAt s)\<rparr>
      in fail env (storageErrorPrefix @ err_text (ee_quote env) e) s1)"

section \<open>One attempt\<close>

definition runDownload :: "engine_env \<Rightarrow> DownloadMethod \<Rightarrow> run \<Rightarrow> (engine_err + result) \<times> run" where
  "runDownload env m s =
     (let s = others_run env s in
      case ee_download env (rn_clock s) (rn_task s) m of
        (ps, r) \<Rightarrow> (r, others_run env (record_ev (EvDownload m r) (upd_task (fold UpdateProgress ps) s))))"

definition resolve :: "engine_env \<Rightarrow> run \<Rightarrow> (engine_err + DownloadMethod) \<times> run" where
  "resolve env s =
     (let s = others_run env s
      in (resolveMethod (ee_available env (rn_clock s) (rn_task s)) (ee_registered env) (ee_config env) (rn_task s), s))"

definition attemptFallback :: "engine_env \<Rightarrow> run \<Rightarrow> (engine_err + result) \<times> run" where
  "attemptFallback env s =
     (case resolve env s of
        (Inl e, s1) \<Rightarrow> (Inl (Wrapped (str ''fallback failed: '') e []), s1)
      | (Inr m, s1) \<Rightarrow>
          (case do_transition env StatusDownloading (upd_task (\<lambda>t. t\<lparr>tk_ResolvedMethod := m\<rparr>) s1) of
             (Some e, s2) \<Rightarrow> (Inl (Wrapped (str ''transition error: '') e []), s2)
           | (None, s2) \<Rightarrow> runDownload env m s2))"

text \<open>Back to \<open>resolving\<close>, unless the task is there already.\<close>

definition ensure_resolving :: "engine_env \<Rightarrow> run \<Rightarrow> engine_err option \<times> run" where
  "ensure_resolving env s =
     (let s = others_run env s in if tk_Status (rn_task s) \<noteq> StatusResolving then do_transition env StatusResolving s else (None, s))"

text \<open>The result or error, and whether the walk over the sources stops here. A refusal of the transition stops it.\<close>

definition attemptDebridRepairSource :: "engine_env \<Rightarrow> (nat \<Rightarrow> bytes \<Rightarrow> engine_err + source) \<Rightarrow> source \<Rightarrow> run \<Rightarrow>
    (engine_err + result) \<times> bool \<times> run" where
  "attemptDebridRepairSource env resolveSource so s =
     (case ensure_resolving env s of
        (Some e, s1) \<Rightarrow> (Inl e, True, s1)
      | (None, s1) \<Rightarrow>
          (let s1 = others_run env s1 in
           case resolveSource (rn_clock s1) (so_ID so) of
             Inl e \<Rightarrow> (Inl e, rn_ctxErr s1, s1)
           | Inr resolved \<Rightarrow>
               (case ApplyDebridRepairSource resolved (rn_task s1) of
                  (Some e, t) \<Rightarrow> (Inl e, False, s1\<lparr>rn_task := t\<rparr>)
                | (None, t) \<Rightarrow>
                    (case do_transition env StatusDownloading (s1\<lparr>rn_task := t\<rparr>) of
                       (Some e, s2) \<Rightarrow> (Inl e, True, s2)
                     | (None, s2) \<Rightarrow>
                         (case runDownload env MethodDebrid s2 of
                            (Inr r, s3) \<Rightarrow> (Inr r, True, s3)
                          | (Inl e, s3) \<Rightarrow>
                              (Inl e,
                               rn_ctxErr s3 \<or> IsInsufficientDisk e \<or> IsStorage e \<or> IsIntegrity e \<and> \<not> IsDebridSourceRepairable e,
                               s3))))))"

text \<open>The sources that have not been tried.\<close>

definition untried_sources :: "task \<Rightarrow> source list" where
  "untried_sources t =
     (case tk_SourceSet t of
        None \<Rightarrow> []
      | Some ss \<Rightarrow> if ss_Version ss \<noteq> 1 then []
          else filter (\<lambda>s. repairable_source s \<and> so_ID s \<notin> set (tk_triedSourceIDs t)) (ss_Sources ss))"

text \<open>What interference, downloads and status changes leave alone: the sources and the record of the tried ones.\<close>

definition same_sources :: "task \<Rightarrow> task \<Rightarrow> bool" where
  "same_sources t t' \<longleftrightarrow> tk_ID t' = tk_ID t \<and> tk_SourceSet t' = tk_SourceSet t \<and> tk_triedSourceIDs t' = tk_triedSourceIDs t"

lemma same_sources_refl [simp]: "same_sources t t"
  by (simp add: same_sources_def)

lemma same_sources_trans: "same_sources a b \<Longrightarrow> same_sources b c \<Longrightarrow> same_sources a c"
  by (simp add: same_sources_def)

lemma Transition_same_sources [simp]: "same_sources a (snd (Transition now to t)) = same_sources a t"
  by (auto simp: Transition_def same_sources_def Let_def split: option.split)

lemma interfere_same_sources [simp]: "same_sources a (rn_task (interfere env i s)) = same_sources a (rn_task s)"
  by (cases i) (auto simp: upd_task_def, auto simp: same_sources_def)

lemma fold_interfere_same_sources [simp]: "same_sources a (rn_task (fold (interfere env) is s)) = same_sources a (rn_task s)"
  by (induction "is" arbitrary: s) auto

lemma others_run_same_sources [simp]: "same_sources a (rn_task (others_run env s)) = same_sources a (rn_task s)"
  by (simp add: others_run_def)

lemma trans_same_sources [simp]: "same_sources a (rn_task (snd (do_transition env to s))) = same_sources a (rn_task s)"
  by (simp add: do_transition_def Let_def case_prod_beta)

lemma UpdateProgress_same_sources [simp]: "same_sources a (UpdateProgress p t) = same_sources a t"
  by (simp add: UpdateProgress_def same_sources_def Let_def)

lemma fold_progress_same_sources [simp]: "same_sources a (fold UpdateProgress ps t) = same_sources a t"
  by (induction ps arbitrary: t) auto

lemma runDownload_same_sources [simp]: "same_sources a (rn_task (snd (runDownload env m s))) = same_sources a (rn_task s)"
  by (auto simp: runDownload_def Let_def record_ev_def upd_task_def split: prod.split)

lemma Apply_same_sources [simp]: "same_sources a (snd (ApplyDebridRepairSource so t)) = same_sources a t"
  by (auto simp: ApplyDebridRepairSource_def same_sources_def Let_def)

lemma ensure_same_sources [simp]: "same_sources a (rn_task (snd (ensure_resolving env s))) = same_sources a (rn_task s)"
  by (auto simp: ensure_resolving_def Let_def)

lemma attempt_repair_same_sources [simp]:
  "same_sources a (rn_task (snd (snd (attemptDebridRepairSource env rs so s)))) = same_sources a (rn_task s)"
  by (simp add: attemptDebridRepairSource_def Let_def case_prod_beta split: option.split sum.split)

lemma untried_sources_same: "same_sources t t' \<Longrightarrow> untried_sources t' = untried_sources t"
  by (simp add: untried_sources_def same_sources_def split: option.split)

lemma NextDebridRepairSource_untried:
  assumes "NextDebridRepairSource t = (Some so, t')"
  shows "length (untried_sources t') < length (untried_sources t)"
proof -
  obtain ss where ss: "tk_SourceSet t = Some ss" "ss_Version ss = 1"
    using assms by (auto simp: NextDebridRepairSource_def split: option.splits if_splits)
  let ?P = "\<lambda>s. repairable_source s \<and> so_ID s \<notin> set (tk_triedSourceIDs t)"
  have f: "find ?P (ss_Sources ss) = Some so" and t': "t' = t\<lparr>tk_triedSourceIDs := so_ID so # tk_triedSourceIDs t\<rparr>"
    using assms ss by (auto simp: NextDebridRepairSource_def split: option.splits if_splits)
  have so: "so \<in> set (ss_Sources ss)" "?P so" using f by (auto simp: find_Some_iff)
  have "untried_sources t' = filter (\<lambda>s. so_ID s \<noteq> so_ID so) (untried_sources t)"
    using ss by (simp add: untried_sources_def t') (rule filter_cong, auto)
  moreover have "so \<in> set (untried_sources t)" using so ss by (simp add: untried_sources_def)
  ultimately show ?thesis by (simp add: length_filter_less)
qed

text \<open>\<open>tryDebridSourceRepair\<close>: the last component says whether a source was attempted.\<close>

function repair_loop :: "engine_env \<Rightarrow> (nat \<Rightarrow> bytes \<Rightarrow> engine_err + source) \<Rightarrow> engine_err \<Rightarrow> engine_err \<Rightarrow> bool \<Rightarrow> run \<Rightarrow>
    (engine_err + result) \<times> bool \<times> run" where
  "repair_loop env rs initialErr lastErr attempted s =
     (case NextDebridRepairSource (rn_task (others_run env s)) of
        (None, t) \<Rightarrow>
          (Inl (if attempted then Exhausted initialErr lastErr else initialErr), attempted, (others_run env s)\<lparr>rn_task := t\<rparr>)
      | (Some so, t) \<Rightarrow>
          (case attemptDebridRepairSource env rs so ((others_run env s)\<lparr>rn_task := t\<rparr>) of
             (r, stop, s2) \<Rightarrow>
               if stop then (r, True, s2)
               else repair_loop env rs initialErr (case r of Inl e \<Rightarrow> e | Inr _ \<Rightarrow> lastErr) True s2))"
  by pat_completeness auto
termination
proof (relation "measure (\<lambda>(env, rs, i, l, a, s). length (untried_sources (rn_task s)))", goal_cases)
  case (2 env rs initialErr lastErr attempted s x t so y r stop s2)
  let ?s1 = "(others_run env s)\<lparr>rn_task := t\<rparr>"
  have "rn_task s2 = rn_task (snd (snd (attemptDebridRepairSource env rs so ?s1)))" using 2 by (metis snd_conv)
  then have "untried_sources (rn_task s2) = untried_sources t" by (intro untried_sources_same) simp
  moreover have "untried_sources (rn_task (others_run env s)) = untried_sources (rn_task s)" by (intro untried_sources_same) simp
  ultimately show ?case using NextDebridRepairSource_untried [of "rn_task (others_run env s)" so t] 2 by simp
qed simp

declare repair_loop.simps [simp del]

definition tryDebridSourceRepair :: "engine_env \<Rightarrow> (nat \<Rightarrow> bytes \<Rightarrow> engine_err + source) \<Rightarrow> engine_err \<Rightarrow> run \<Rightarrow>
    (engine_err + result) \<times> bool \<times> run" where
  "tryDebridSourceRepair env rs initialErr s = repair_loop env rs initialErr initialErr False s"

text \<open>The last part of \<open>attemptDownload\<close>: fall back to another method.\<close>

definition fallback_part :: "engine_env \<Rightarrow> engine_err \<Rightarrow> run \<Rightarrow> (engine_err + result) \<times> run" where
  "fallback_part env err s =
     (let vpnDown = errors_Is err ErrVPNTunnelDown;
          s = others_run env s
      in case tryFallback (ee_registered env) (ee_config env) (rn_task s) of
           (False, t) \<Rightarrow> (Inl err, s\<lparr>rn_task := t\<rparr>)
         | (True, t) \<Rightarrow>
             (case ensure_resolving env (s\<lparr>rn_task := t\<rparr>) of
                (Some _, s1) \<Rightarrow> (Inl err, s1)
              | (None, s1) \<Rightarrow>
                  (case attemptFallback env s1 of
                     (Inl e, s2) \<Rightarrow> (Inl (if vpnDown then ErrVPNTunnelDown else e), s2)
                   | (Inr r, s2) \<Rightarrow> (Inr r, s2))))"

text \<open>What \<open>attemptDownload\<close> does with the error of a download: report it, repair the debrid source, or fall back.\<close>

definition attempt_failed :: "engine_env \<Rightarrow> DownloadMethod \<Rightarrow> engine_err \<Rightarrow> run \<Rightarrow> (engine_err + result) \<times> run" where
  "attempt_failed env m err s =
     (if IsInsufficientDisk err \<or> IsStorage err \<or>
         IsIntegrity err \<and> \<not> IsSizeConflict err \<and> \<not> (m = MethodDebrid \<and> IsDebridSourceRepairable err)
      then (Inl err, s)
      else
        (case (if m = MethodDebrid \<and> \<not> rn_ctxErr s then ee_resolveSource env else None) of
           None \<Rightarrow> fallback_part env err s
         | Some rs \<Rightarrow>
             (case tryDebridSourceRepair env rs err s of
                (w, attempted, s1) \<Rightarrow>
                  if \<not> attempted then fallback_part env err s1
                  else
                    (case w of
                       Inr r \<Rightarrow> (Inr r, s1)
                     | Inl e \<Rightarrow>
                         if IsInsufficientDisk e \<or> IsStorage e \<or> IsIntegrity e \<and> \<not> IsDebridSourceRepairable e \<or> rn_ctxErr s1
                         then (Inl e, s1)
                         else fallback_part env e s1))))"

definition attemptDownload :: "engine_env \<Rightarrow> run \<Rightarrow> (engine_err + result) \<times> run" where
  "attemptDownload env s =
     (case do_transition env StatusResolving (record_ev EvAttempt s) of
        (Some e, s1) \<Rightarrow> (Inl (Wrapped (str ''transition error: '') e []), s1)
      | (None, s1) \<Rightarrow>
          (case resolve env s1 of
             (Inl e, s2) \<Rightarrow> (Inl (Wrapped (str ''no method available: '') e []), s2)
           | (Inr m, s2) \<Rightarrow>
               (case do_transition env StatusDownloading (upd_task (\<lambda>t. t\<lparr>tk_ResolvedMethod := m\<rparr>) s2) of
                  (Some e, s3) \<Rightarrow> (Inl (Wrapped (str ''transition error: '') e []), s3)
                | (None, s3) \<Rightarrow>
                    (case runDownload env m s3 of
                       (Inr r, s4) \<Rightarrow> (Inr r, s4)
                     | (Inl err, s4) \<Rightarrow> attempt_failed env m err s4))))"

section \<open>The whole task\<close>

definition finalizeVerified :: "engine_env \<Rightarrow> result \<Rightarrow> run \<Rightarrow> run" where
  "finalizeVerified env r s =
     (case do_transition env StatusOrganizing s of
        (Some e, s1) \<Rightarrow> fail env (str ''transition error: '' @ err_text (ee_quote env) e) s1
      | (None, s1) \<Rightarrow>
          (let r1 = (if re_Method r \<noteq> MethodUsenet then ee_extract env (rn_clock s1) r else r);
               s2 = others_run env s1;
               out = ee_organize env (rn_clock s2) r1 (rn_task s2);
               s3 = record_ev (EvOrganize r1 out) s2
           in case out of
                Inl e \<Rightarrow> fail env (str ''organize failed: '' @ err_text (ee_quote env) e) s3
              | Inr path \<Rightarrow>
                  (let finalPath = (if path = [] then re_FilePath r1 else path);
                       s4 = upd_task (\<lambda>t. t\<lparr>tk_FilePath := finalPath\<rparr>) s3;
                       s5 = (if tk_ReplacePath (rn_task s4) \<noteq> [] \<and> ee_replace env (rn_clock s4)
                             then upd_task (\<lambda>t. t\<lparr>tk_FilePath := tk_ReplacePath t\<rparr>) s4 else s4)
                   in case do_transition env StatusCompleted s5 of
                        (Some e, s6) \<Rightarrow> fail env (str ''transition error: '' @ err_text (ee_quote env) e) s6
                      | (None, s6) \<Rightarrow> recordFinishedKeep env False s6)))"

definition maxIntegrityAttempts :: nat where
  "maxIntegrityAttempts = 3"

definition maxStorageAttempts :: nat where
  "maxStorageAttempts = 2"

definition verify_step :: "engine_env \<Rightarrow> result \<Rightarrow> run \<Rightarrow> engine_err option \<times> run" where
  "verify_step env r s =
     (let s = others_run env s; v = verify (ee_lower env) (ee_stat env (rn_clock s)) (Some r) in (v, record_ev (EvVerify r v) s))"

text \<open>
  The loop of \<open>processTask\<close>, with \<open>attempt\<close> and \<open>storageAttempt\<close>. It ends: an iteration either returns, or raises
  \<open>storageAttempt\<close>, which at most one does, or raises \<open>attempt\<close> while that is below three.
\<close>

function process_loop :: "engine_env \<Rightarrow> nat \<Rightarrow> nat \<Rightarrow> run \<Rightarrow> run" where
  "process_loop env attempt storageAttempt s =
     (case attemptDownload env s of
        (Inl err, s1) \<Rightarrow>
          if IsInsufficientDisk err then fail env (err_text (ee_quote env) err) s1
          else if IsStorage err then
            (if storageAttempt + 1 < maxStorageAttempts then process_loop env (attempt + 1) (storageAttempt + 1) s1
             else failStorage env err s1)
          else if IsIntegrity err then
            (if IsSizeConflict err then failDamaged env err s1
             else if attempt < maxIntegrityAttempts then process_loop env (attempt + 1) storageAttempt s1
             else failDamaged env err s1)
          else if errors_Is err ErrVPNTunnelDown then pauseForVPN env s1
          else fail env (err_text (ee_quote env) err) s1
      | (Inr r, s1) \<Rightarrow>
          (case do_transition env StatusVerifying s1 of
             (Some e, s2) \<Rightarrow> fail env (str ''transition error: '' @ err_text (ee_quote env) e) s2
           | (None, s2) \<Rightarrow>
               (case verify_step env r s2 of
                  (None, s3) \<Rightarrow> finalizeVerified env r s3
                | (Some verr, s3) \<Rightarrow>
                    if IsStorage verr then
                      (if storageAttempt + 1 < maxStorageAttempts then process_loop env (attempt + 1) (storageAttempt + 1) s3
                       else failStorage env verr s3)
                    else if IsIntegrity verr then
                      (let s4 = record_ev (EvRemoveBroken r) s3 in
                       if attempt < maxIntegrityAttempts then process_loop env (attempt + 1) storageAttempt s4
                       else failDamaged env verr s4)
                    else fail env (str ''verification failed: '' @ err_text (ee_quote env) verr) s3)))"
  by pat_completeness auto
termination
  by (relation "measure (\<lambda>(env, attempt, storageAttempt, s). (3 - attempt) + (2 - storageAttempt))")
    (auto simp: maxIntegrityAttempts_def maxStorageAttempts_def)

declare process_loop.simps [simp del]

definition processTask :: "engine_env \<Rightarrow> run \<Rightarrow> run" where
  "processTask env s = process_loop env 1 0 s"

end
