(* ===== verification/Engine_Process_Props.thy ===== *)
theory Engine_Process_Props
  imports Engine_Process
begin

text \<open>
  The life of a download: every task settles, after at most four attempts, in a state that says what happened,
  and a task is completed only when its last download passed the check on disk and was organised.
\<close>

section \<open>Statuses under interference\<close>

abbreviation rstat :: "run \<Rightarrow> TaskStatus" where
  "rstat s \<equiv> tk_Status (rn_task s)"

definition cancellable :: "TaskStatus \<Rightarrow> bool" where
  "cancellable st \<longleftrightarrow> st \<in> {StatusClaimed, StatusResolving, StatusDownloading}"

text \<open>Others can only cancel the task, where that is allowed.\<close>

definition drifts :: "TaskStatus \<Rightarrow> TaskStatus \<Rightarrow> bool" where
  "drifts st st' \<longleftrightarrow> st' = st \<or> cancellable st \<and> st' = StatusCancelled"

lemma drifts_refl [simp]: "drifts st st"
  by (simp add: drifts_def)

lemma drifts_trans: "drifts a b \<Longrightarrow> drifts b c \<Longrightarrow> drifts a c"
  by (auto simp: drifts_def cancellable_def)

definition allowed :: "TaskStatus \<Rightarrow> TaskStatus \<Rightarrow> bool" where
  "allowed st to \<longleftrightarrow> (case validTransitions st of None \<Rightarrow> False | Some l \<Rightarrow> to \<in> set l)"

lemma Transition_result:
  "Transition now to t = (e, t') \<Longrightarrow>
     (if allowed (tk_Status t) to then e = None \<and> tk_Status t' = to else e \<noteq> None \<and> t' = t)"
  by (auto simp: Transition_def allowed_def Let_def split: option.splits if_splits)

lemma allowed_cancel: "allowed st StatusCancelled \<longleftrightarrow> cancellable st"
  by (cases st) (auto simp: allowed_def cancellable_def)

lemma interfere_drifts: "drifts (rstat s) (rstat (interfere env i s))"
  using Transition_result [of "ee_now env (rn_clock s)" StatusCancelled "rn_task s" _ "snd (Transition (ee_now env (rn_clock s)) StatusCancelled (rn_task s))", OF prod.collapse [symmetric]]
  by (cases i) (auto simp: upd_task_def drifts_def allowed_cancel split: if_splits)

lemma fold_interfere_drifts: "drifts (rstat s) (rstat (fold (interfere env) is s))"
  by (induction "is" arbitrary: s) (auto intro: drifts_trans interfere_drifts)

lemma others_run_drifts: "drifts (rstat s) (rstat (others_run env s))"
  by (simp add: others_run_def fold_interfere_drifts)

lemma interfere_trace [simp]: "rn_trace (interfere env i s) = rn_trace s"
  by (cases i) (auto simp: upd_task_def)

lemma fold_interfere_trace [simp]: "rn_trace (fold (interfere env) is s) = rn_trace s"
  by (induction "is" arbitrary: s) auto

lemma others_run_trace [simp]: "rn_trace (others_run env s) = rn_trace s"
  by (simp add: others_run_def)

lemma upd_task_trace [simp]: "rn_trace (upd_task f s) = rn_trace s"
  by (simp add: upd_task_def)

lemma record_ev_simps [simp]: "rn_trace (record_ev e s) = e # rn_trace s" "rn_task (record_ev e s) = rn_task s"
  by (simp_all add: record_ev_def)

lemma trans_trace: "do_transition env to s = (e, s') \<Longrightarrow> rn_trace s' = rn_trace s"
  by (auto simp: do_transition_def Let_def split: prod.splits)

lemma trans_result:
  assumes "do_transition env to s = (e, s')"
  shows "\<exists>st. drifts (rstat s) st \<and> (if allowed st to then e = None \<and> rstat s' = to else e \<noteq> None \<and> rstat s' = st)"
proof -
  let ?s = "others_run env s"
  obtain t' where t': "Transition (ee_now env (rn_clock ?s)) to (rn_task ?s) = (e, t')" "s' = ?s\<lparr>rn_task := t'\<rparr>"
    using assms by (auto simp: do_transition_def Let_def split: prod.splits)
  then show ?thesis using Transition_result [OF t'(1)] others_run_drifts [of s env] by (auto split: if_splits)
qed

lemma trans_None: "do_transition env to s = (None, s') \<Longrightarrow> rstat s' = to"
  using trans_result [of env to s None s'] by (auto split: if_splits)

section \<open>Ends\<close>

definition settled :: "run \<Rightarrow> bool" where
  "settled s \<longleftrightarrow> rstat s \<in> {StatusCompleted, StatusFailed, StatusCancelled} \<or> interruptedByShutdown s"

text \<open>The statuses a task that has begun to run can be in before it ends.\<close>

definition working :: "TaskStatus set" where
  "working = {StatusResolving, StatusDownloading, StatusVerifying, StatusOrganizing, StatusCancelled}"

lemma working_drifts: "st \<in> working \<Longrightarrow> drifts st st' \<Longrightarrow> st' \<in> working"
  by (auto simp: working_def drifts_def)

lemma terminal_drifts: "st \<in> {StatusCompleted, StatusFailed, StatusCancelled} \<Longrightarrow> drifts st st' \<Longrightarrow> st' = st"
  by (auto simp: drifts_def cancellable_def)

lemma recordFinishedKeep_status:
  assumes "rstat s \<in> {StatusCompleted, StatusFailed, StatusCancelled}"
  shows "rstat (recordFinishedKeep env keep s) = rstat s" "rn_trace (recordFinishedKeep env keep s) = rn_trace s"
  using terminal_drifts [OF assms others_run_drifts [of s env]] by (auto simp: recordFinishedKeep_def Let_def)

lemma trans_Failed: "rstat s \<in> working \<Longrightarrow> rstat (snd (do_transition env StatusFailed s)) \<in> {StatusFailed, StatusCancelled}"
proof -
  assume w: "rstat s \<in> working"
  obtain e s' where r: "do_transition env StatusFailed s = (e, s')" by (cases "do_transition env StatusFailed s")
  obtain st where st: "drifts (rstat s) st" "if allowed st StatusFailed then e = None \<and> rstat s' = StatusFailed else e \<noteq> None \<and> rstat s' = st"
    using trans_result [OF r] by blast
  then have "st \<in> working" using w working_drifts by blast
  then show ?thesis using st(2) r by (auto simp: working_def allowed_def split: if_splits)
qed

lemma fail_settled:
  assumes "rstat s \<in> working"
  shows "settled (fail env msg s) \<and> rstat (fail env msg s) \<noteq> StatusCompleted \<and> rn_trace (fail env msg s) = rn_trace s"
proof (cases "interruptedByShutdown (others_run env s)")
  case True
  then show ?thesis
    using working_drifts [OF assms others_run_drifts [of s env]] by (auto simp: fail_def Let_def settled_def working_def)
next
  case False
  define s1 where "s1 = upd_task (\<lambda>t. t\<lparr>tk_ErrorMessage := msg\<rparr>) (others_run env s)"
  have w: "rstat s1 \<in> working" using working_drifts [OF assms others_run_drifts [of s env]] by (simp add: s1_def upd_task_def)
  have f: "fail env msg s = recordFinishedKeep env False (snd (do_transition env StatusFailed s1))"
    using False by (simp add: fail_def Let_def s1_def case_prod_beta)
  have "rstat (snd (do_transition env StatusFailed s1)) \<in> {StatusFailed, StatusCancelled}" by (rule trans_Failed [OF w])
  moreover have "rn_trace (snd (do_transition env StatusFailed s1)) = rn_trace s"
    using trans_trace [of env StatusFailed s1, OF prod.collapse [symmetric]] by (simp add: s1_def)
  ultimately show ?thesis using recordFinishedKeep_status [of "snd (do_transition env StatusFailed s1)"] unfolding f settled_def by auto
qed

lemma pauseForVPN_settled:
  assumes "rstat s \<in> working"
  shows "settled (pauseForVPN env s) \<and> rstat (pauseForVPN env s) \<noteq> StatusCompleted \<and> rn_trace (pauseForVPN env s) = rn_trace s"
proof -
  define s1 where "s1 = upd_task (\<lambda>t. t\<lparr>tk_ErrorMessage := vpnPausedMsg\<rparr>) (others_run env s)"
  have w: "rstat s1 \<in> working" using working_drifts [OF assms others_run_drifts [of s env]] by (simp add: s1_def upd_task_def)
  obtain e s2 where r: "do_transition env StatusCancelled s1 = (e, s2)" by (cases "do_transition env StatusCancelled s1")
  have tr: "rn_trace s2 = rn_trace s" using trans_trace [OF r] by (simp add: s1_def)
  have p: "pauseForVPN env s = (case e of
      Some e \<Rightarrow> fail env (str ''VPN tunnel down: '' @ err_text (ee_quote env) e) s2 | None \<Rightarrow> recordFinishedKeep env True s2)"
    by (simp add: pauseForVPN_def Let_def flip: s1_def, simp add: r split: option.split)
  show ?thesis
  proof (cases e)
    case None
    then have "rstat s2 = StatusCancelled" using trans_None r by blast
    then show ?thesis using recordFinishedKeep_status [of s2 env True] tr unfolding p None by (simp add: settled_def)
  next
    case (Some e')
    obtain st where "drifts (rstat s1) st" "rstat s2 = st" using trans_result [OF r] Some by (auto split: if_splits)
    then have "rstat s2 \<in> working" using w working_drifts by blast
    then show ?thesis unfolding p Some using fail_settled [of s2 env] tr by simp
  qed
qed

lemma failDamaged_settled:
  assumes "rstat s \<in> working"
  shows "settled (failDamaged env e s) \<and> rstat (failDamaged env e s) \<noteq> StatusCompleted \<and> rn_trace (failDamaged env e s) = rn_trace s"
  unfolding failDamaged_def by (rule fail_settled [OF assms])

lemma failStorage_settled:
  assumes "rstat s \<in> working"
  shows "settled (failStorage env e s) \<and> rstat (failStorage env e s) \<noteq> StatusCompleted \<and> rn_trace (failStorage env e s) = rn_trace s"
  unfolding failStorage_def Let_def using fail_settled [of "s\<lparr>rn_storageFailedAt := _\<rparr>"] assms by simp

lemmas ends_settled = fail_settled pauseForVPN_settled failDamaged_settled failStorage_settled

section \<open>An attempt\<close>

definition attempting :: "TaskStatus set" where
  "attempting = {StatusResolving, StatusDownloading, StatusCancelled}"

lemma attempting_drifts: "st \<in> attempting \<Longrightarrow> drifts st st' \<Longrightarrow> st' \<in> attempting"
  by (auto simp: attempting_def drifts_def)

lemma attempting_working: "st \<in> attempting \<Longrightarrow> st \<in> working"
  by (auto simp: attempting_def working_def)

fun is_download :: "event \<Rightarrow> bool" where
  "is_download (EvDownload m r) = True"
| "is_download e = False"

definition downloads_only :: "run \<Rightarrow> run \<Rightarrow> bool" where
  "downloads_only s s' \<longleftrightarrow> (\<exists>es. rn_trace s' = es @ rn_trace s \<and> list_all is_download es)"

lemma downloads_only_same: "rn_trace s' = rn_trace s \<Longrightarrow> downloads_only s s'"
  by (auto simp: downloads_only_def intro: exI [of _ "[]"])

lemma downloads_only_trans: "downloads_only a b \<Longrightarrow> downloads_only b c \<Longrightarrow> downloads_only a c"
  unfolding downloads_only_def by (metis append.assoc list_all_append)

text \<open>The result of a part of an attempt: it only downloads, and a result it returns is that of the last download.\<close>

definition outcome :: "run \<Rightarrow> engine_err + result \<Rightarrow> run \<Rightarrow> bool" where
  "outcome s r s' \<longleftrightarrow> rstat s' \<in> attempting \<and> downloads_only s s' \<and>
     (\<forall>x. r = Inr x \<longrightarrow> (\<exists>m rest. rn_trace s' = EvDownload m (Inr x) # rest))"

lemma outcome_after: "outcome s1 r s2 \<Longrightarrow> downloads_only s s1 \<Longrightarrow> outcome s r s2"
  by (auto simp: outcome_def intro: downloads_only_trans)

lemma outcome_Inl: "rstat s' \<in> attempting \<Longrightarrow> downloads_only s s' \<Longrightarrow> outcome s (Inl e) s'"
  by (simp add: outcome_def)

lemma others_run_attempting: "rstat s \<in> attempting \<Longrightarrow> rstat (others_run env s) \<in> attempting"
  by (rule attempting_drifts [OF _ others_run_drifts])

lemma trans_attempting:
  assumes "do_transition env to s = (e, s')" "rstat s \<in> attempting" "to \<in> {StatusResolving, StatusDownloading}"
  shows "rstat s' \<in> attempting \<and> downloads_only s s'"
proof -
  obtain st where "drifts (rstat s) st" "rstat s' = to \<or> rstat s' = st" using trans_result [OF assms(1)] by (auto split: if_splits)
  then have "rstat s' \<in> attempting" using assms(2,3) attempting_drifts by (auto simp: attempting_def)
  then show ?thesis using trans_trace [OF assms(1)] downloads_only_same by blast
qed

lemma progress_status [simp]: "tk_Status (fold UpdateProgress ps t) = tk_Status t"
  by (induction ps arbitrary: t) (simp_all add: UpdateProgress_def Let_def)

lemma runDownload_outcome:
  assumes "runDownload env m s = (r, s')" "rstat s \<in> attempting"
  shows "outcome s r s'"
proof -
  obtain ps where s': "s' = others_run env (record_ev (EvDownload m r) (upd_task (fold UpdateProgress ps) (others_run env s)))"
    using assms(1) by (auto simp: runDownload_def Let_def split: prod.splits)
  have "rstat (record_ev (EvDownload m r) (upd_task (fold UpdateProgress ps) (others_run env s))) \<in> attempting"
    using others_run_attempting [OF assms(2), of env] by (simp add: upd_task_def)
  then have "rstat s' \<in> attempting" unfolding s' by (rule others_run_attempting)
  moreover have "rn_trace s' = [EvDownload m r] @ rn_trace s" by (simp add: s')
  ultimately show ?thesis unfolding outcome_def downloads_only_def
    by (metis append_Cons is_download.simps(1) list.pred_inject(1) list.pred_inject(2))
qed

lemma resolve_attempting:
  assumes "resolve env s = (r, s')" "rstat s \<in> attempting"
  shows "rstat s' \<in> attempting \<and> downloads_only s s'"
  using assms others_run_attempting [of s env] by (auto simp: resolve_def Let_def downloads_only_same)

lemma upd_method_simps [simp]:
  "rstat (upd_task (\<lambda>t. t\<lparr>tk_ResolvedMethod := m\<rparr>) s) = rstat s" "downloads_only (upd_task f s) s' = downloads_only s s'"
  by (simp_all add: upd_task_def downloads_only_def)

text \<open>Resolving a method, going to \<open>downloading\<close>: what both callers of \<open>runDownload\<close> do first.\<close>

lemma to_downloading:
  assumes "resolve env s = (Inr m, s1)" "do_transition env StatusDownloading (upd_task (\<lambda>t. t\<lparr>tk_ResolvedMethod := m\<rparr>) s1) = (e, s2)"
    "rstat s \<in> attempting"
  shows "rstat s2 \<in> attempting \<and> downloads_only s s2"
  using resolve_attempting [OF assms(1,3)] trans_attempting [OF assms(2)] by (auto intro: downloads_only_trans)

lemma attemptFallback_outcome:
  assumes "attemptFallback env s = (r, s')" "rstat s \<in> attempting"
  shows "outcome s r s'"
proof -
  obtain x s1 where x: "resolve env s = (x, s1)" by (cases "resolve env s")
  show ?thesis
  proof (cases x)
    case (Inl e)
    then show ?thesis using assms x resolve_attempting [OF x assms(2)] by (auto simp: attemptFallback_def intro: outcome_Inl)
  next
    case (Inr m)
    obtain y s2 where y: "do_transition env StatusDownloading (upd_task (\<lambda>t. t\<lparr>tk_ResolvedMethod := m\<rparr>) s1) = (y, s2)" by fastforce
    have a: "rstat s2 \<in> attempting \<and> downloads_only s s2" using to_downloading x y assms(2) unfolding Inr by blast
    then show ?thesis using assms(1) x y runDownload_outcome [of env m s2 r s'] unfolding Inr
      by (auto simp: attemptFallback_def intro: outcome_Inl outcome_after split: option.splits)
  qed
qed

lemma ensure_resolving_attempting:
  assumes "ensure_resolving env s = (e, s')" "rstat s \<in> attempting"
  shows "rstat s' \<in> attempting \<and> downloads_only s s'"
proof (cases "rstat (others_run env s) = StatusResolving")
  case True
  then show ?thesis using assms by (auto simp: ensure_resolving_def Let_def downloads_only_same attempting_def)
next
  case False
  then have "do_transition env StatusResolving (others_run env s) = (e, s')" using assms(1) by (simp add: ensure_resolving_def Let_def)
  from trans_attempting [OF this others_run_attempting [OF assms(2)]] show ?thesis by (simp add: downloads_only_def)
qed

lemma Apply_status [simp]: "tk_Status (snd (ApplyDebridRepairSource so t)) = tk_Status t"
  by (auto simp: ApplyDebridRepairSource_def Let_def)

lemma Apply_status': "ApplyDebridRepairSource so t = (e, t') \<Longrightarrow> tk_Status t' = tk_Status t"
  using Apply_status [of so t] by simp

lemma attempt_repair_outcome:
  assumes "attemptDebridRepairSource env rs so s = (r, stop, s')" "rstat s \<in> attempting"
  shows "outcome s r s' \<and> (stop \<or> (\<exists>e. r = Inl e))"
proof -
  obtain x s1 where x: "ensure_resolving env s = (x, s1)" by fastforce
  have s1: "rstat s1 \<in> attempting" "downloads_only s s1" using ensure_resolving_attempting [OF x assms(2)] by simp_all
  define s2 where "s2 = others_run env s1"
  have s2: "rstat s2 \<in> attempting" "downloads_only s s2"
    using s1 others_run_attempting [of s1 env] by (simp_all add: s2_def downloads_only_def)
  note d = assms(1) [unfolded attemptDebridRepairSource_def x prod.case]
  show ?thesis
  proof (cases x)
    case (Some e)
    then show ?thesis using d s1 by (auto intro: outcome_Inl)
  next
    case None
    note d = d [unfolded None option.case Let_def, folded s2_def]
    show ?thesis
    proof (cases "rs (rn_clock s2) (so_ID so)")
      case (Inl e)
      then show ?thesis using d s2 by (auto intro: outcome_Inl)
    next
      case (Inr resolved)
      obtain z t where z: "ApplyDebridRepairSource resolved (rn_task s2) = (z, t)" by fastforce
      define s3 where "s3 = s2\<lparr>rn_task := t\<rparr>"
      have s3: "rstat s3 \<in> attempting" "downloads_only s s3" using s2 Apply_status' [OF z] by (simp_all add: s3_def downloads_only_def)
      obtain y s4 where y: "do_transition env StatusDownloading s3 = (y, s4)" by fastforce
      have s4: "rstat s4 \<in> attempting" "downloads_only s s4"
        using trans_attempting [OF y s3(1)] s3(2) by (auto intro: downloads_only_trans)
      obtain q s5 where q: "runDownload env MethodDebrid s4 = (q, s5)" by fastforce
      have "outcome s q s5" using runDownload_outcome [OF q s4(1)] s4(2) by (rule outcome_after)
      then show ?thesis using d [unfolded Inr sum.case z prod.case, folded s3_def] s3 s4
        by (cases z; cases y; cases q) (auto simp: y q intro: outcome_Inl)
    qed
  qed
qed

lemma Next_status: "NextDebridRepairSource t = (x, t') \<Longrightarrow> tk_Status t' = tk_Status t"
  by (auto simp: NextDebridRepairSource_def split: option.splits if_splits)

lemma repair_loop_outcome:
  assumes "repair_loop env rs i l a s = (r, att, s')" "rstat s \<in> attempting"
  shows "outcome s r s'"
  using assms
proof (induction env rs i l a s arbitrary: r att s' rule: repair_loop.induct)
  case (1 env rs i l a s)
  define s0 where "s0 = others_run env s"
  obtain x t where x: "NextDebridRepairSource (rn_task s0) = (x, t)" by fastforce
  define s1 where "s1 = s0\<lparr>rn_task := t\<rparr>"
  have s1: "rstat s1 \<in> attempting" "downloads_only s s1"
    using others_run_attempting [OF 1(3), of env] Next_status [OF x] by (simp_all add: s1_def s0_def downloads_only_same)
  note step = 1(2) [unfolded repair_loop.simps [of env rs i l a s], folded s0_def, unfolded x prod.case, folded s1_def]
  show ?case
  proof (cases x)
    case None
    then show ?thesis using step s1 by (auto intro: outcome_Inl)
  next
    case (Some so)
    obtain q stop s2 where q: "attemptDebridRepairSource env rs so s1 = (q, stop, s2)" by (cases "attemptDebridRepairSource env rs so s1") auto
    have o: "outcome s q s2" using attempt_repair_outcome [OF q s1(1)] s1(2) outcome_after by blast
    show ?thesis
    proof (cases stop)
      case True
      then show ?thesis using step o by (simp add: Some q)
    next
      case False
      have "outcome s2 r s'"
        using 1(1) [OF x [symmetric, unfolded s0_def] Some q [symmetric, unfolded s1_def s0_def] refl False] step o
        by (simp add: Some q False outcome_def)
      then show ?thesis using o outcome_after by (auto simp: outcome_def)
    qed
  qed
qed

lemma tryFallback_status: "tryFallback reg cfg t = (b, t') \<Longrightarrow> tk_Status t' = tk_Status t"
  by (auto simp: tryFallback_def MarkTried_def Let_def split: if_splits)

lemma fallback_part_outcome:
  assumes "fallback_part env err s = (r, s')" "rstat s \<in> attempting"
  shows "outcome s r s'"
proof -
  define s0 where "s0 = others_run env s"
  obtain b t where b: "tryFallback (ee_registered env) (ee_config env) (rn_task s0) = (b, t)" by fastforce
  define s1 where "s1 = s0\<lparr>rn_task := t\<rparr>"
  have s1: "rstat s1 \<in> attempting" "downloads_only s s1"
    using others_run_attempting [OF assms(2), of env] tryFallback_status [OF b] by (simp_all add: s1_def s0_def downloads_only_same)
  obtain x s2 where x: "ensure_resolving env s1 = (x, s2)" by fastforce
  have s2: "rstat s2 \<in> attempting" "downloads_only s s2"
    using ensure_resolving_attempting [OF x s1(1)] s1(2) by (auto intro: downloads_only_trans)
  obtain q s3 where q: "attemptFallback env s2 = (q, s3)" by fastforce
  have o: "outcome s q s3" using attemptFallback_outcome [OF q s2(1)] s2(2) by (rule outcome_after)
  show ?thesis using assms(1) [unfolded fallback_part_def Let_def, folded s0_def, unfolded b prod.case, folded s1_def] s1 s2 o
    by (cases b; cases x; cases q) (auto simp: x q outcome_def intro: outcome_Inl)
qed

lemma attempt_failed_outcome:
  assumes "attempt_failed env m err s = (r, s')" "rstat s \<in> attempting"
  shows "outcome s r s'"
proof -
  have here: "outcome s (Inl e) s" for e using assms(2) by (simp add: outcome_Inl downloads_only_same)
  have fb: "outcome s r s'" if "fallback_part env e s1 = (r, s')" "outcome s w s1" for e w s1
    using fallback_part_outcome [OF that(1)] that(2) outcome_after by (auto simp: outcome_def)
  show ?thesis
  proof (cases "if m = MethodDebrid \<and> \<not> rn_ctxErr s then ee_resolveSource env else None")
    case None
    then show ?thesis using assms(1) here [of err] fallback_part_outcome [OF _ assms(2)]
      by (simp add: attempt_failed_def split: if_splits)
  next
    case (Some rs)
    obtain w att s1 where w: "tryDebridSourceRepair env rs err s = (w, att, s1)" by (cases "tryDebridSourceRepair env rs err s") auto
    have "outcome s w s1" using repair_loop_outcome [OF _ assms(2)] w by (auto simp: tryDebridSourceRepair_def)
    then show ?thesis using assms(1) here fb [of _ s1 w] unfolding attempt_failed_def Some
      by (simp add: w split: if_splits sum.splits) (auto simp: outcome_def)
  qed
qed

text \<open>A whole attempt, from any status but \<open>organizing\<close> and the final ones.\<close>

lemma attemptDownload_outcome:
  assumes "attemptDownload env s = (r, s')" "rstat s \<in> {StatusClaimed, StatusVerifying} \<union> attempting"
  shows "outcome (record_ev EvAttempt s) r s'"
proof -
  let ?s = "record_ev EvAttempt s"
  obtain x s1 where x: "do_transition env StatusResolving ?s = (x, s1)" by fastforce
  obtain st where st: "drifts (rstat s) st"
      "if allowed st StatusResolving then x = None \<and> rstat s1 = StatusResolving else x \<noteq> None \<and> rstat s1 = st"
    using trans_result [OF x] by auto
  have s1: "rstat s1 \<in> attempting" "downloads_only ?s s1"
    using st assms(2) trans_trace [OF x] by (auto simp: attempting_def drifts_def allowed_def downloads_only_same split: if_splits)
  obtain y s2 where y: "resolve env s1 = (y, s2)" by fastforce
  have s2: "rstat s2 \<in> attempting" "downloads_only ?s s2"
    using resolve_attempting [OF y s1(1)] s1(2) by (auto intro: downloads_only_trans)
  show ?thesis
  proof (cases "x = None \<and> (\<exists>m. y = Inr m)")
    case False
    then show ?thesis using assms(1) s1 s2 by (cases x; cases y) (auto simp: attemptDownload_def x y intro: outcome_Inl)
  next
    case True
    then obtain m where m: "x = None" "y = Inr m" by blast
    obtain z s3 where z: "do_transition env StatusDownloading (upd_task (\<lambda>t. t\<lparr>tk_ResolvedMethod := m\<rparr>) s2) = (z, s3)" by fastforce
    have s3: "rstat s3 \<in> attempting" "downloads_only ?s s3"
      using to_downloading [of env s1 m s2 z s3] y z m s1 by (auto intro: downloads_only_trans)
    obtain q s4 where q: "runDownload env m s3 = (q, s4)" by fastforce
    have o: "outcome ?s q s4" using runDownload_outcome [OF q s3(1)] s3(2) by (rule outcome_after)
    have "attempt_failed env m err s4 = (r, s') \<Longrightarrow> outcome ?s r s'" for err
      using attempt_failed_outcome [of env m err s4 r s'] o outcome_after by (auto simp: outcome_def)
    then show ?thesis using assms(1) s3 o
      by (cases z; cases q) (auto simp: attemptDownload_def x y m z q intro: outcome_Inl)
  qed
qed

section \<open>The whole task\<close>

definition attempts :: "run \<Rightarrow> nat" where
  "attempts s = length (filter (\<lambda>e. e = EvAttempt) (rn_trace s))"

lemma downloads_only_attempts: "downloads_only s s' \<Longrightarrow> attempts s' = attempts s"
proof -
  have "filter (\<lambda>e. e = EvAttempt) es = []" if "list_all is_download es" for es
    using that by (induction es) auto
  then show "downloads_only s s' \<Longrightarrow> attempts s' = attempts s" by (auto simp: downloads_only_def attempts_def)
qed

text \<open>A completed task ends with its last download, accepted by the check on disk, organised.\<close>

definition completed_properly :: "run \<Rightarrow> bool" where
  "completed_properly s \<longleftrightarrow> (\<exists>m r r1 path rest.
     rn_trace s = EvOrganize r1 (Inr path) # EvVerify r None # EvDownload m (Inr r) # rest)"

definition task_end :: "nat \<Rightarrow> run \<Rightarrow> bool" where
  "task_end n s \<longleftrightarrow> settled s \<and> attempts s \<le> n \<and> (rstat s = StatusCompleted \<longrightarrow> completed_properly s)"

lemma task_end_failed: "settled s \<and> rstat s \<noteq> StatusCompleted \<and> rn_trace s = rn_trace s' \<Longrightarrow> attempts s' \<le> n \<Longrightarrow> task_end n s"
  by (simp add: task_end_def attempts_def)

lemma finalizeVerified_end:
  assumes "rstat s = StatusVerifying" "rn_trace s = EvVerify r None # EvDownload m (Inr r) # rest" "attempts s \<le> n"
  shows "task_end n (finalizeVerified env r s)"
proof -
  obtain x s1 where x: "do_transition env StatusOrganizing s = (x, s1)" by fastforce
  have s1: "x = None" "rstat s1 = StatusOrganizing" "rn_trace s1 = rn_trace s"
    using trans_result [OF x] trans_trace [OF x] assms(1) by (auto simp: drifts_def cancellable_def allowed_def split: if_splits)
  define r1 where "r1 = (if re_Method r \<noteq> MethodUsenet then ee_extract env (rn_clock s1) r else r)"
  define s2 where "s2 = others_run env s1"
  define out where "out = ee_organize env (rn_clock s2) r1 (rn_task s2)"
  define s3 where "s3 = record_ev (EvOrganize r1 out) s2"
  have st: "rstat s3 = StatusOrganizing" using others_run_drifts [of s1 env] s1(2) by (simp add: s3_def s2_def drifts_def cancellable_def)
  have tr: "rn_trace s3 = EvOrganize r1 out # rn_trace s" by (simp add: s3_def s2_def s1(3))
  have at: "attempts s3 \<le> n" using assms(3) tr by (simp add: attempts_def)
  note d = finalizeVerified_def [of env r s, unfolded x prod.case s1(1) option.case Let_def, folded r1_def s2_def,
      folded out_def, folded s3_def]
  show ?thesis
  proof (cases out)
    case (Inl e)
    have "rstat s3 \<in> working" using st by (simp add: working_def)
    then show ?thesis using d fail_settled [of s3 env] at by (auto simp: Inl intro: task_end_failed)
  next
    case (Inr path)
    define s4 where "s4 = upd_task (\<lambda>t. t\<lparr>tk_FilePath := if path = [] then re_FilePath r1 else path\<rparr>) s3"
    define s5 where "s5 = (if tk_ReplacePath (rn_task s4) \<noteq> [] \<and> ee_replace env (rn_clock s4)
        then upd_task (\<lambda>t. t\<lparr>tk_FilePath := tk_ReplacePath t\<rparr>) s4 else s4)"
    have s5: "rstat s5 = StatusOrganizing" "rn_trace s5 = rn_trace s3" using st by (simp_all add: s5_def s4_def upd_task_def)
    obtain y s6 where y: "do_transition env StatusCompleted s5 = (y, s6)" by fastforce
    have s6: "y = None" "rstat s6 = StatusCompleted" "rn_trace s6 = rn_trace s3"
      using trans_result [OF y] trans_trace [OF y] s5 by (auto simp: drifts_def cancellable_def allowed_def split: if_splits)
    have f: "finalizeVerified env r s = recordFinishedKeep env False s6"
      using d y s6(1) unfolding Inr sum.case s4_def [symmetric] s5_def [symmetric] by simp
    have e: "rstat (recordFinishedKeep env False s6) = StatusCompleted" "rn_trace (recordFinishedKeep env False s6) = rn_trace s3"
      using recordFinishedKeep_status [of s6 env False] s6 by simp_all
    have "completed_properly (recordFinishedKeep env False s6)" using e(2) tr assms(2) Inr by (auto simp: completed_properly_def)
    moreover have "attempts (recordFinishedKeep env False s6) \<le> n" using at e(2) by (simp add: attempts_def)
    ultimately show ?thesis unfolding f task_end_def settled_def using e(1) by simp
  qed
qed

text \<open>The attempts that are left.\<close>

definition budget :: "nat \<Rightarrow> nat \<Rightarrow> nat" where
  "budget attempt storageAttempt = (3 - attempt) + (2 - storageAttempt)"

lemma task_end_mono: "task_end m s \<Longrightarrow> m \<le> n \<Longrightarrow> task_end n s"
  by (auto simp: task_end_def)

lemma process_loop_end:
  assumes "rstat s \<in> {StatusClaimed, StatusVerifying} \<union> attempting" "storageAttempt \<le> 1"
  shows "task_end (attempts s + budget attempt storageAttempt) (process_loop env attempt storageAttempt s)"
  using assms
proof (induction env attempt storageAttempt s rule: process_loop.induct)
  case (1 env a sa s)
  let ?n = "attempts s + budget a sa"
  obtain q s1 where q: "attemptDownload env s = (q, s1)" by fastforce
  have o: "outcome (record_ev EvAttempt s) q s1" by (rule attemptDownload_outcome [OF q 1(5)])
  have s1: "rstat s1 \<in> attempting" "rstat s1 \<in> working" using o attempting_working by (auto simp: outcome_def)
  have at1: "attempts s1 = Suc (attempts s)" using o downloads_only_attempts by (auto simp: outcome_def attempts_def)
  have le: "Suc (attempts s) \<le> ?n" using 1(6) by (simp add: budget_def)
  have st: "Suc (attempts s) + budget (a + 1) (sa + 1) \<le> ?n" if "sa + 1 < maxStorageAttempts"
    using that by (simp add: budget_def maxStorageAttempts_def)
  have int: "Suc (attempts s) + budget (a + 1) sa \<le> ?n" if "a < maxIntegrityAttempts"
    using that by (simp add: budget_def maxIntegrityAttempts_def)
  note simps = process_loop.simps [of env a sa s, unfolded q prod.case]
  have ends: "task_end ?n (fail env msg s')" "task_end ?n (failDamaged env e s')" "task_end ?n (failStorage env e s')"
      "task_end ?n (pauseForVPN env s')"
    if "rstat s' \<in> working" "attempts s' = Suc (attempts s)" for msg e s'
    using ends_settled [OF that(1)] that(2) le by (auto intro: task_end_failed)
  show ?case
  proof (cases q)
    case (Inl err)
    have "task_end ?n (process_loop env (a + 1) (sa + 1) s1)"
      if "\<not> IsInsufficientDisk err" "IsStorage err" "sa + 1 < maxStorageAttempts"
      using 1(1) [OF q [symmetric] Inl that] st [OF that(3)] that(3) s1(1) at1 by (auto simp: maxStorageAttempts_def elim: task_end_mono)
    moreover have "task_end ?n (process_loop env (a + 1) sa s1)"
      if "\<not> IsInsufficientDisk err" "\<not> IsStorage err" "IsIntegrity err" "\<not> IsSizeConflict err" "a < maxIntegrityAttempts"
      using 1(2) [OF q [symmetric] Inl that] int [OF that(5)] s1(1) at1 1(6) by (auto elim: task_end_mono)
    ultimately show ?thesis unfolding simps Inl sum.case using ends [OF s1(2) at1] by simp
  next
    case (Inr r)
    obtain m rest where tr: "rn_trace s1 = EvDownload m (Inr r) # rest" using o Inr by (auto simp: outcome_def)
    obtain x s2 where x: "do_transition env StatusVerifying s1 = (x, s2)" by fastforce
    have s2: "rstat s2 \<in> working" "attempts s2 = Suc (attempts s)" "rn_trace s2 = rn_trace s1" "x = None \<longrightarrow> rstat s2 = StatusVerifying"
      using trans_result [OF x] trans_trace [OF x] at1 s1 by (auto simp: attempts_def working_def drifts_def split: if_splits)
    obtain v s3 where v: "verify_step env r s2 = (v, s3)" by fastforce
    have s3: "rn_trace s3 = EvVerify r v # rn_trace s2" "attempts s3 = Suc (attempts s)"
      "x = None \<longrightarrow> rstat s3 = StatusVerifying"
      using v s2 others_run_drifts [of s2 env] by (auto simp: verify_step_def Let_def attempts_def drifts_def cancellable_def)
    show ?thesis
    proof (cases "x = None \<and> v \<noteq> None")
      case False
      have "task_end ?n (finalizeVerified env r s3)" if "x = None" "v = None"
        using s3 s2(3) tr that le by (intro finalizeVerified_end [of _ _ m rest]) auto
      then show ?thesis unfolding simps Inr sum.case using False ends [OF s2(1,2)] by (cases x) (auto simp: x v)
    next
      case True
      then obtain verr where xv: "x = None" "v = Some verr" by blast
      have s3w: "rstat s3 \<in> working" "rstat s3 = StatusVerifying" using s3(3) xv by (simp_all add: working_def)
      define s4 where "s4 = record_ev (EvRemoveBroken r) s3"
      have s4: "rstat s4 = StatusVerifying" "rstat s4 \<in> working" "attempts s4 = Suc (attempts s)"
        using s3(2) s3w by (simp_all add: s4_def attempts_def)
      note ih = q [symmetric] Inr x [unfolded xv, symmetric] refl v [unfolded xv, symmetric] refl
      have "task_end ?n (process_loop env (a + 1) (sa + 1) s3)" if "IsStorage verr" "sa + 1 < maxStorageAttempts"
        using 1(3) [OF ih that] st [OF that(2)] that(2) s3w s3(2) by (auto simp: maxStorageAttempts_def elim: task_end_mono)
      moreover have "task_end ?n (process_loop env (a + 1) sa s4)"
        if "\<not> IsStorage verr" "IsIntegrity verr" "a < maxIntegrityAttempts"
        using 1(4) [OF ih that(1,2) s4_def that(3)] int [OF that(3)] s4 1(6) by (auto elim: task_end_mono)
      ultimately show ?thesis unfolding simps Inr sum.case
        using ends [OF s3w(1) s3(2)] ends [OF s4(2,3)] by (simp add: x v xv s4_def [symmetric] Let_def)
    qed
  qed
qed

section \<open>Sample runs\<close>

definition sample_at :: agent_task where
  "sample_at = \<lparr>at_ID = [49], at_InfoHash = [97], at_PreferredMethod = str ''torrent'', at_Mode = [], at_DirectURL = [],
     at_DirectFileName = [], at_DirectFileSize = 0, at_NzbID = [], at_NzbPassword = [], at_ReplacePath = [], at_ForceStart = False,
     at_SourceSet = None, at_ResumePaused = False, at_QueuedAt = Some 0\<rparr>"

definition claimed_run :: "agent_task \<Rightarrow> run" where
  "claimed_run a = \<lparr>rn_task = NewTaskFromAgent 0 a, rn_ctxErr = False, rn_shuttingDown = False, rn_paused = [],
     rn_store = Some \<lparr>as_tasks = [(at_ID a, a)], as_file = None\<rparr>, rn_recent = [], rn_storageFailedAt = [], rn_clock = 0, rn_trace = []\<rparr>"

definition quiet_env :: engine_env where
  "quiet_env = \<lparr>ee_quote = (\<lambda>s. s), ee_oor = (\<lambda>_. 0), ee_lower = (\<lambda>s. s), ee_now = int, ee_write = (\<lambda>_. (True, id)), ee_intf = (\<lambda>_. []),
     ee_registered = [MethodTorrent, MethodDebrid], ee_config = [],
     ee_available = (\<lambda>_ _ _. Inr True),
     ee_download = (\<lambda>_ _ m. ([], Inr \<lparr>re_FilePath = [47, 97], re_FileName = [97], re_Method = m, re_Size = 0, re_ExpectedBytes = 0\<rparr>)),
     ee_resolveSource = None, ee_stat = (\<lambda>_ _. StatFile 5), ee_extract = (\<lambda>_ r. r), ee_organize = (\<lambda>_ r _. Inr (re_FilePath r)),
     ee_replace = (\<lambda>_. False)\<rparr>"

definition stalled_env :: engine_env where
  "stalled_env = quiet_env\<lparr>ee_download :=
     (\<lambda>k _ _. ([], Inl (if k < 5 then StorageError [102] [115] else IntegrityError (str ''truncated'') [120])))\<rparr>"

definition sample_source :: source where
  "sample_source = \<lparr>so_ID = [50], so_ReleaseKey = [], so_Relation = str ''exact_release'', so_Transport = str ''debrid'', so_Provider = [112],
     so_InfoHash = [], so_NzbID = [], so_DirectURL = [], so_FileName = [], so_FileSize = 0, so_Password = []\<rparr>"

definition debrid_at :: agent_task where
  "debrid_at = sample_at\<lparr>at_PreferredMethod := str ''debrid'',
     at_SourceSet := Some \<lparr>ss_Version = 1, ss_PreferredSourceID = [], ss_Sources = [sample_source]\<rparr>\<rparr>"

definition repair_env :: engine_env where
  "repair_env = quiet_env\<lparr>ee_download := (\<lambda>_ _ _. ([], Inl (IntegrityError (str ''truncated'') [120]))),
     ee_resolveSource := Some (\<lambda>_ _. Inl (OtherError [110]))\<rparr>"

section \<open>Properties\<close>

text \<open>
  C2. A download settles: from the claim on, whatever the downloaders, the server and the file system answer and whenever
  the user cancels or pauses it or the daemon shuts down, \<open>processTask\<close> ends after at most four attempts with the task completed,
  failed or cancelled, or interrupted by the shutdown; and it is completed only if the last download succeeded, its result
  passed the check on disk, and it was organised.
\<close>

theorem download_settles:
  assumes "rstat s = StatusClaimed" "rn_trace s = []"
  shows "(rstat (processTask env s) \<in> {StatusCompleted, StatusFailed, StatusCancelled} \<or> interruptedByShutdown (processTask env s)) \<and>
    length (filter (\<lambda>e. e = EvAttempt) (rn_trace (processTask env s))) \<le> 4 \<and>
    (rstat (processTask env s) = StatusCompleted \<longrightarrow>
      (\<exists>m r r1 path rest. rn_trace (processTask env s) = EvOrganize r1 (Inr path) # EvVerify r None # EvDownload m (Inr r) # rest))"
proof -
  have "task_end 4 (processTask env s)"
    using process_loop_end [of s 0 1 env] assms by (simp add: processTask_def attempts_def budget_def)
  then show ?thesis by (simp add: task_end_def settled_def attempts_def completed_properly_def)
qed

theorem download_settles_witness:
  "rstat (processTask quiet_env (claimed_run sample_at)) = StatusCompleted \<and>
   (\<exists>m r r1 path rest. rn_trace (processTask quiet_env (claimed_run sample_at)) =
     EvOrganize r1 (Inr path) # EvVerify r None # EvDownload m (Inr r) # rest)"
proof -
  have "rstat (claimed_run sample_at) = StatusClaimed" "rn_trace (claimed_run sample_at) = []"
    by (simp_all add: claimed_run_def NewTaskFromAgent_def Let_def)
  note d = download_settles [OF this, of quiet_env]
  have "rstat (processTask quiet_env (claimed_run sample_at)) = StatusCompleted" by code_simp
  then show ?thesis using d by blast
qed

text \<open>
  The two budgets are not separate: after a failed write, two truncated downloads end the task as damaged, although three
  attempts are meant to be made.
\<close>

lemma storage_stall_uses_integrity_budget:
  "rstat (processTask stalled_env (claimed_run sample_at)) = StatusFailed \<and>
   tk_ErrorMessage (rn_task (processTask stalled_env (claimed_run sample_at))) = damagedErrorPrefix @ [120] \<and>
   length (filter (\<lambda>e. e = EvDownload MethodTorrent (Inl (IntegrityError (str ''truncated'') [120])))
     (rn_trace (processTask stalled_env (claimed_run sample_at)))) = 2"
  by code_simp

text \<open>
  After a repair of the debrid source that found no source, the task is left resolving; the retry of the truncated download
  is refused as a transition from there, and the task fails with that message instead of the damage.
\<close>

lemma failed_repair_loses_retry:
  "rstat (processTask repair_env (claimed_run debrid_at)) = StatusFailed \<and>
   tk_ErrorMessage (rn_task (processTask repair_env (claimed_run debrid_at))) =
     str ''transition error: invalid transition: resolving -> resolving'' \<and>
   length (filter is_download (rn_trace (processTask repair_env (claimed_run debrid_at)))) = 1"
  by code_simp

end
