(* ===== verification/Engine_Resume_Props.thy ===== *)
theory Engine_Resume_Props
  imports Engine_Process_Props
begin

text \<open>
  The resume entry of a download: a task that ends for good gives up its entry, a task that is paused or interrupted by a
  shutdown keeps it, so that the next start of the daemon resumes exactly the unfinished downloads.
\<close>

definition resumable :: "bytes \<Rightarrow> run \<Rightarrow> bool" where
  "resumable i s \<longleftrightarrow> (\<exists>m. rn_store s = Some m \<and> store_Get m i \<noteq> None)"

definition no_remove :: "engine_env \<Rightarrow> bool" where
  "no_remove env \<longleftrightarrow> (\<forall>k. IStoreRemove \<notin> set (ee_intf env k))"

text \<open>The task's identity and whether it can be resumed: what a running task keeps while nobody cancels it.\<close>

definition obs :: "run \<Rightarrow> bytes \<times> bool" where
  "obs s = (tk_ID (rn_task s), resumable (tk_ID (rn_task s)) s)"

lemma obs_cong: "tk_ID (rn_task s') = tk_ID (rn_task s) \<Longrightarrow> rn_store s' = rn_store s \<Longrightarrow> obs s' = obs s"
  by (simp add: obs_def resumable_def)

lemma Transition_ID [simp]: "tk_ID (snd (Transition now to t)) = tk_ID t"
  by (auto simp: Transition_def Let_def split: option.split)

lemma interfere_obs: "i \<noteq> IStoreRemove \<Longrightarrow> obs (interfere env i s) = obs s"
  by (cases i) (auto simp: obs_def resumable_def upd_task_def store_Get_SetPaused)

lemma fold_interfere_obs: "IStoreRemove \<notin> set is \<Longrightarrow> obs (fold (interfere env) is s) = obs s"
  by (induction "is" arbitrary: s) (auto simp: interfere_obs)

named_theorems keeps_obs \<open>the steps of a task that leave its resume entry alone\<close>

lemma clock_obs [keeps_obs]: "obs (s\<lparr>rn_clock := k\<rparr>) = obs s"
  by (rule obs_cong) simp_all

lemma record_ev_obs [keeps_obs]: "obs (record_ev e s) = obs s"
  by (rule obs_cong) (simp_all add: record_ev_def)

lemma others_run_obs [keeps_obs]: "no_remove env \<Longrightarrow> obs (others_run env s) = obs s"
  by (simp add: others_run_def keeps_obs fold_interfere_obs no_remove_def)

lemma set_task_obs: "tk_ID t = tk_ID (rn_task s) \<Longrightarrow> obs (s\<lparr>rn_task := t\<rparr>) = obs s"
  by (rule obs_cong) simp_all

lemma upd_task_obs: "(\<And>t. tk_ID (f t) = tk_ID t) \<Longrightarrow> obs (upd_task f s) = obs s"
  by (simp add: upd_task_def set_task_obs)

lemma trans_obs [keeps_obs]: "no_remove env \<Longrightarrow> obs (snd (do_transition env to s)) = obs s"
  by (simp add: do_transition_def Let_def case_prod_beta set_task_obs keeps_obs)

lemma progress_ID [simp]: "tk_ID (fold UpdateProgress ps t) = tk_ID t"
  by (induction ps arbitrary: t) (simp_all add: UpdateProgress_def Let_def)

lemma runDownload_obs [keeps_obs]: "no_remove env \<Longrightarrow> obs (snd (runDownload env m s)) = obs s"
  by (simp add: runDownload_def Let_def case_prod_beta keeps_obs upd_task_obs)

lemma resolve_obs [keeps_obs]: "no_remove env \<Longrightarrow> obs (snd (resolve env s)) = obs s"
  by (simp add: resolve_def Let_def keeps_obs)

lemma attemptFallback_obs [keeps_obs]: "no_remove env \<Longrightarrow> obs (snd (attemptFallback env s)) = obs s"
  by (simp add: attemptFallback_def case_prod_beta keeps_obs upd_task_obs split: sum.split option.split)

lemma ensure_resolving_obs [keeps_obs]: "no_remove env \<Longrightarrow> obs (snd (ensure_resolving env s)) = obs s"
  by (simp add: ensure_resolving_def Let_def keeps_obs)

lemma Apply_ID: "tk_ID (snd (ApplyDebridRepairSource so t)) = tk_ID t"
  by (auto simp: ApplyDebridRepairSource_def Let_def)

lemma attempt_repair_obs [keeps_obs]: "no_remove env \<Longrightarrow> obs (snd (snd (attemptDebridRepairSource env rs so s))) = obs s"
  by (simp add: attemptDebridRepairSource_def Let_def case_prod_beta keeps_obs set_task_obs Apply_ID split: sum.split option.split)

lemma Next_ID: "NextDebridRepairSource t = (x, t') \<Longrightarrow> tk_ID t' = tk_ID t"
  by (auto simp: NextDebridRepairSource_def split: option.splits if_splits)

lemma repair_loop_obs [keeps_obs]: "no_remove env \<Longrightarrow> obs (snd (snd (repair_loop env rs i l a s))) = obs s"
proof (induction env rs i l a s rule: repair_loop.induct)
  case (1 env rs i l a s)
  obtain x t where x: "NextDebridRepairSource (rn_task (others_run env s)) = (x, t)" by fastforce
  let ?s1 = "(others_run env s)\<lparr>rn_task := t\<rparr>"
  have s1: "obs ?s1 = obs s" using set_task_obs Next_ID [OF x] others_run_obs [OF 1(2)] by simp
  show ?case
  proof (cases x)
    case None
    then show ?thesis using s1 by (simp add: repair_loop.simps [of env rs i l a s] x)
  next
    case (Some so)
    obtain q stop s2 where q: "attemptDebridRepairSource env rs so ?s1 = (q, stop, s2)" by (cases "attemptDebridRepairSource env rs so ?s1") auto
    have "obs s2 = obs s" using attempt_repair_obs [OF 1(2), of rs so ?s1] q s1 by simp
    then show ?thesis using 1(1) [OF x [symmetric] Some q [symmetric] refl _ 1(2)]
      by (simp add: repair_loop.simps [of env rs i l a s] x Some q)
  qed
qed

lemma tryFallback_ID: "tk_ID (snd (tryFallback reg cfg t)) = tk_ID t"
  by (simp add: tryFallback_def MarkTried_def Let_def)

lemma fallback_part_obs [keeps_obs]: "no_remove env \<Longrightarrow> obs (snd (fallback_part env e s)) = obs s"
  by (simp add: fallback_part_def Let_def case_prod_beta keeps_obs set_task_obs tryFallback_ID split: sum.split option.split bool.split)

lemma attempt_failed_obs [keeps_obs]: "no_remove env \<Longrightarrow> obs (snd (attempt_failed env m e s)) = obs s"
  by (simp add: attempt_failed_def tryDebridSourceRepair_def case_prod_beta keeps_obs split: sum.split option.split)

lemma attemptDownload_obs [keeps_obs]: "no_remove env \<Longrightarrow> obs (snd (attemptDownload env s)) = obs s"
  by (simp add: attemptDownload_def case_prod_beta keeps_obs upd_task_obs split: sum.split option.split)

section \<open>Ends\<close>

text \<open>A pause or a shutdown holds on to the entry.\<close>

definition held :: "run \<Rightarrow> bool" where
  "held s \<longleftrightarrow> rn_shuttingDown s \<or> tk_ID (rn_task s) \<in> set (rn_paused s)"

definition resume_end :: "engine_env \<Rightarrow> run \<Rightarrow> run \<Rightarrow> bool" where
  "resume_end env s s' \<longleftrightarrow> (no_remove env \<and> held s' \<longrightarrow> obs s' = obs s) \<and>
     (\<not> held s' \<and> rstat s' \<in> {StatusCompleted, StatusFailed} \<longrightarrow> \<not> resumable (tk_ID (rn_task s')) s')"

lemma resume_end_after: "resume_end env s1 s' \<Longrightarrow> (no_remove env \<Longrightarrow> obs s1 = obs s) \<Longrightarrow> resume_end env s s'"
  by (auto simp: resume_end_def)

lemma recordFinishedKeep_resume:
  "no_remove env \<and> (keep \<or> held (recordFinishedKeep env keep s)) \<Longrightarrow> obs (recordFinishedKeep env keep s) = obs s"
  "\<not> held (recordFinishedKeep env False s) \<Longrightarrow>
     \<not> resumable (tk_ID (rn_task (recordFinishedKeep env False s))) (recordFinishedKeep env False s)"
proof -
  let ?s = "others_run env s" and ?f = "recordFinishedKeep env keep s"
  have h: "held ?f = held ?s" by (simp add: recordFinishedKeep_def held_def Let_def)
  assume "no_remove env \<and> (keep \<or> held ?f)"
  then show "obs ?f = obs s" using h others_run_obs [of env s]
    by (auto simp: recordFinishedKeep_def Let_def held_def obs_def resumable_def)
next
  assume "\<not> held (recordFinishedKeep env False s)"
  then show "\<not> resumable (tk_ID (rn_task (recordFinishedKeep env False s))) (recordFinishedKeep env False s)"
    by (auto simp: recordFinishedKeep_def Let_def held_def resumable_def store_Get_Remove)
qed

lemma record_resume_end: "resume_end env s (recordFinishedKeep env False s)"
  using recordFinishedKeep_resume(1) [of env False s] recordFinishedKeep_resume(2) [of env s] by (auto simp: resume_end_def)

lemma fail_resume_end: "resume_end env s (fail env msg s)"
proof (cases "interruptedByShutdown (others_run env s)")
  case True
  then show ?thesis by (simp add: fail_def Let_def resume_end_def keeps_obs held_def interruptedByShutdown_def)
next
  case False
  define s2 where "s2 = snd (do_transition env StatusFailed (upd_task (\<lambda>t. t\<lparr>tk_ErrorMessage := msg\<rparr>) (others_run env s)))"
  have f: "fail env msg s = recordFinishedKeep env False s2" using False by (simp add: fail_def Let_def s2_def case_prod_beta)
  have "obs s2 = obs s" if "no_remove env" using that by (simp add: s2_def keeps_obs upd_task_obs)
  then show ?thesis unfolding f by (rule resume_end_after [OF record_resume_end])
qed

lemma pauseForVPN_resume_end: "resume_end env s (pauseForVPN env s)"
proof -
  define s1 where "s1 = upd_task (\<lambda>t. t\<lparr>tk_ErrorMessage := vpnPausedMsg\<rparr>) (others_run env s)"
  obtain x s2 where x: "do_transition env StatusCancelled s1 = (x, s2)" by fastforce
  have "no_remove env \<Longrightarrow> obs s1 = obs s" by (simp add: s1_def keeps_obs upd_task_obs)
  then have o: "no_remove env \<Longrightarrow> obs s2 = obs s" using trans_obs [of env StatusCancelled s1] x by simp
  show ?thesis
  proof (cases x)
    case None
    have "rstat (recordFinishedKeep env True s2) = StatusCancelled" using trans_None recordFinishedKeep_status [of s2] x None by simp
    then have "resume_end env s2 (recordFinishedKeep env True s2)" using recordFinishedKeep_resume(1) [of env True s2] by (simp add: resume_end_def)
    then show ?thesis using resume_end_after o by (simp add: pauseForVPN_def Let_def x None flip: s1_def)
  next
    case (Some e)
    then show ?thesis using resume_end_after [OF fail_resume_end o] by (simp add: pauseForVPN_def Let_def x flip: s1_def)
  qed
qed

lemma failStorage_resume_end: "resume_end env s (failStorage env e s)"
  unfolding failStorage_def Let_def by (rule resume_end_after [OF fail_resume_end], rule obs_cong, simp_all)

lemma failDamaged_resume_end: "resume_end env s (failDamaged env e s)"
  unfolding failDamaged_def by (rule fail_resume_end)

lemma finalizeVerified_resume_end: "resume_end env s (finalizeVerified env r s)"
proof -
  obtain x s1 where x: "do_transition env StatusOrganizing s = (x, s1)" by fastforce
  have s1: "obs s1 = obs s" if "no_remove env" using trans_obs [OF that, of StatusOrganizing s] x by simp
  let ?s2 = "others_run env s1"
  have fin: "resume_end env s (if b then fail env msg s' else recordFinishedKeep env False s')" if "no_remove env \<Longrightarrow> obs s' = obs s1" for b msg s'
    using resume_end_after [OF fail_resume_end, of env s' s msg] resume_end_after [OF record_resume_end, of env s' s] that s1 by auto
  have "resume_end env s (case do_transition env StatusCompleted s5 of
      (Some e, s6) \<Rightarrow> fail env (str ''transition error: '' @ err_text (ee_quote env) e) s6 | (None, s6) \<Rightarrow> recordFinishedKeep env False s6)"
    if "no_remove env \<Longrightarrow> obs s5 = obs s1" for s5
  proof -
    obtain y s6 where y: "do_transition env StatusCompleted s5 = (y, s6)" by fastforce
    have "no_remove env \<Longrightarrow> obs s6 = obs s1" using trans_obs [of env StatusCompleted s5] y that by simp
    then show ?thesis using fin [of s6 True] fin [of s6 False] by (simp add: y split: option.split)
  qed
  note completes = this
  show ?thesis
    unfolding finalizeVerified_def x prod.case Let_def
    using fin [of s1 True] fin [of "record_ev _ ?s2" True]
    by (auto simp: keeps_obs upd_task_obs intro!: completes split: option.split sum.split)
qed

lemmas resume_ends = fail_resume_end pauseForVPN_resume_end failStorage_resume_end failDamaged_resume_end finalizeVerified_resume_end

lemma verify_step_obs [keeps_obs]: "no_remove env \<Longrightarrow> obs (snd (verify_step env r s)) = obs s"
  by (simp add: verify_step_def Let_def keeps_obs)

lemma process_loop_resume_end: "resume_end env s (process_loop env a sa s)"
proof (induction env a sa s rule: process_loop.induct)
  case (1 env a sa s)
  obtain q s1 where q: "attemptDownload env s = (q, s1)" by fastforce
  have s1: "no_remove env \<Longrightarrow> obs s1 = obs s" using attemptDownload_obs [of env s] q by simp
  note simps = process_loop.simps [of env a sa s, unfolded q prod.case]
  show ?case
  proof (cases q)
    case (Inl err)
    have "resume_end env s1 (process_loop env a sa s)" unfolding simps Inl sum.case
      using 1(1) [OF q [symmetric] Inl] 1(2) [OF q [symmetric] Inl] resume_ends [of env s1] by simp
    then show ?thesis using s1 by (rule resume_end_after)
  next
    case (Inr r)
    obtain x s2 where x: "do_transition env StatusVerifying s1 = (x, s2)" by fastforce
    have s2: "no_remove env \<Longrightarrow> obs s2 = obs s" using trans_obs [of env StatusVerifying s1] x s1 by simp
    obtain v s3 where v: "verify_step env r s2 = (v, s3)" by fastforce
    have s3: "no_remove env \<Longrightarrow> obs s3 = obs s" using verify_step_obs [of env r s2] v s2 by simp
    let ?s4 = "record_ev (EvRemoveBroken r) s3"
    have s4: "no_remove env \<Longrightarrow> obs ?s4 = obs s" using s3 by (simp add: keeps_obs)
    show ?thesis
    proof (cases "x = None \<and> v \<noteq> None")
      case False
      then show ?thesis unfolding simps Inr sum.case using s2 s3
        by (cases x; cases v) (auto simp: x v intro: resume_end_after [OF fail_resume_end] resume_end_after [OF finalizeVerified_resume_end])
    next
      case True
      then obtain verr where xv: "x = None" "v = Some verr" by blast
      note ih = q [symmetric] Inr x [unfolded xv, symmetric] refl v [unfolded xv, symmetric] refl
      show ?thesis unfolding simps Inr sum.case
        using resume_end_after [OF 1(3) [OF ih] s3] resume_end_after [OF 1(4) [OF ih _ _ refl] s4]
          resume_ends [of env s3, THEN resume_end_after, OF s3] resume_ends [of env ?s4, THEN resume_end_after, OF s4]
        by (simp add: x v xv Let_def)
    qed
  qed
qed

section \<open>Properties\<close>


text \<open>The sample download paused while it runs.\<close>

definition paused_env :: engine_env where
  "paused_env = quiet_env\<lparr>ee_intf := (\<lambda>k. if k = 3 then [IMarkPaused, ICancelCtx] else []),
     ee_download := (\<lambda>_ _ _. ([], Inl (OtherError [99])))\<rparr>"


end
