(* ===== verification/Engine_Queue.thy ===== *)
theory Engine_Queue
  imports Go_Prelude "HOL-Library.Multiset" "HOL-Library.Sublist"
begin

text \<open>
  The download slots of \<open>internal/engine/manager_queue.go\<close> with \<open>Submit\<close>, \<open>FreeSlots\<close> and \<open>Shutdown\<close> of
  \<open>manager.go\<close>: tasks wait in a FIFO line, a dispatch starts the oldest while slots are free, a stalled task yields its slot and
  reclaims it later. Every mutex section is one step, so that \<open>yield\<close>, \<open>reclaim\<close> and \<open>release\<close>, which
  change the lease and the count under different mutexes, can interleave with everything else between the two.
  A submission carries a number of its own, since a task that is retried reuses its ID.
\<close>

section \<open>State\<close>

record queued_task =
  qt_ID :: bytes
  qt_tok :: nat

text \<open>Where the goroutine of a task that was given a slot (\<open>runSlot\<close>) stands.\<close>

datatype slot_pc =
    PStart \<comment> \<open>before the lease is made\<close>
  | PWork \<comment> \<open>in \<open>processTask\<close>\<close>
  | PYieldDec \<comment> \<open>\<open>yield\<close>, the lease given up, before \<open>running--\<close>\<close>
  | PYieldDispatch \<comment> \<open>\<open>yield\<close>, before its \<open>dispatch\<close>\<close>
  | PReclaimInc \<comment> \<open>\<open>reclaim\<close>, the lease taken, before \<open>running++\<close>\<close>
  | PRelease \<comment> \<open>\<open>processTask\<close> has returned\<close>
  | PReleaseDec \<comment> \<open>\<open>release\<close>, before \<open>running--\<close>\<close>
  | PFinalDispatch \<comment> \<open>before the last \<open>dispatch\<close>\<close>

record slot_task =
  sl_ID :: bytes
  sl_held :: bool
  sl_pc :: slot_pc

text \<open>What other goroutines are about to do.\<close>

datatype queue_thread = TEnqueue queued_task | TDispatch | TForget bytes

record slot_sys =
  q_max :: int \<comment> \<open>\<open>cfg.MaxConcurrent\<close>\<close>
  q_running :: int
  q_queue :: "queued_task list"
  q_active :: "bytes list"
  q_shuttingDown :: bool
  q_ctxErr :: "nat list" \<comment> \<open>submissions whose context has ended\<close>
  q_tasks :: "slot_task list"
  q_forced :: "bytes list" \<comment> \<open>force-started tasks that are running\<close>
  q_threads :: "queue_thread list"
  q_next :: nat
  q_enqueued :: "nat list" \<comment> \<open>the order of arrival in the line\<close>
  q_started :: "nat list" \<comment> \<open>the order of the starts\<close>
  q_reclaims :: nat \<comment> \<open>how often a slot was reclaimed\<close>

definition NewManager :: "int \<Rightarrow> slot_sys" where
  "NewManager mx =
     \<lparr>q_max = (if mx \<le> 0 then 3 else mx), q_running = 0, q_queue = [], q_active = [], q_shuttingDown = False, q_ctxErr = [],
      q_tasks = [], q_forced = [], q_threads = [], q_next = 0, q_enqueued = [], q_started = [], q_reclaims = 0\<rparr>"

definition FreeSlots :: "slot_sys \<Rightarrow> int" where
  "FreeSlots s = max 0 (q_max s - q_running s - int (length (q_queue s)))"

definition HasCapacity :: "slot_sys \<Rightarrow> bool" where
  "HasCapacity s \<longleftrightarrow> 0 < FreeSlots s"

section \<open>The line\<close>

text \<open>
  The loop of \<open>dispatch\<close>: the count, the line, the tasks started and the tasks dropped because their context had ended. The
  second argument is the number of rounds after which the loop finds \<open>shuttingDown\<close> set, if it does.
\<close>

fun dispatch_loop :: "int \<Rightarrow> nat option \<Rightarrow> nat list \<Rightarrow> int \<Rightarrow> queued_task list \<Rightarrow>
    int \<times> queued_task list \<times> queued_task list \<times> queued_task list" where
  "dispatch_loop mx sh ctx run [] = (run, [], [], [])"
| "dispatch_loop mx sh ctx run (q # qs) =
     (if mx \<le> run \<or> sh = Some 0 then (run, q # qs, [], [])
      else if qt_tok q \<in> set ctx then
        (case dispatch_loop mx (map_option (\<lambda>k. k - 1) sh) ctx run qs of (r, l, st, dr) \<Rightarrow> (r, l, st, q # dr))
      else
        (case dispatch_loop mx (map_option (\<lambda>k. k - 1) sh) ctx (run + 1) qs of (r, l, st, dr) \<Rightarrow> (r, l, q # st, dr)))"

text \<open>
  \<open>dispatch\<close>: the started tasks get goroutines, the dropped ones are forgotten after the mutex is released. Once the
  daemon is shutting down, a loop that began earlier may still finish some rounds: \<open>k\<close> is how many.
\<close>

definition dispatch :: "nat \<Rightarrow> slot_sys \<Rightarrow> slot_sys" where
  "dispatch k s =
     (case dispatch_loop (q_max s) (if q_shuttingDown s then Some k else None) (q_ctxErr s) (q_running s) (q_queue s) of
        (r, l, st, dr) \<Rightarrow>
          s\<lparr>q_running := r, q_queue := l,
            q_tasks := map (\<lambda>q. \<lparr>sl_ID = qt_ID q, sl_held = False, sl_pc = PStart\<rparr>) st @ q_tasks s,
            q_threads := map (\<lambda>q. TForget (qt_ID q)) dr @ q_threads s,
            q_started := q_started s @ map qt_tok st\<rparr>)"

definition slot_enqueue :: "queued_task \<Rightarrow> slot_sys \<Rightarrow> slot_sys" where
  "slot_enqueue q s = s\<lparr>q_queue := q_queue s @ [q], q_enqueued := q_enqueued s @ [qt_tok q]\<rparr>"

fun remove_first :: "bytes \<Rightarrow> queued_task list \<Rightarrow> queued_task list option" where
  "remove_first i [] = None"
| "remove_first i (q # qs) = (if qt_ID q = i then Some qs else map_option ((#) q) (remove_first i qs))"

text \<open>Whether the task was queued; if so it is taken out of the line and then forgotten.\<close>

definition dequeue :: "bytes \<Rightarrow> slot_sys \<Rightarrow> bool \<times> slot_sys" where
  "dequeue i s =
     (case remove_first i (q_queue s) of
        None \<Rightarrow> (False, s)
      | Some l \<Rightarrow> (True, s\<lparr>q_queue := l, q_threads := TForget i # q_threads s\<rparr>))"

definition drainQueue :: "slot_sys \<Rightarrow> slot_sys" where
  "drainQueue s = s\<lparr>q_queue := [], q_threads := map (\<lambda>q. TForget (qt_ID q)) (q_queue s) @ q_threads s\<rparr>"

definition forgetActive :: "bytes \<Rightarrow> slot_sys \<Rightarrow> slot_sys" where
  "forgetActive i s = s\<lparr>q_active := removeAll i (q_active s)\<rparr>"

text \<open>
  \<open>Submit\<close> up to the dedup: a task that is active already, or that arrives while the daemon shuts down, is ignored. A forced
  task runs at once and takes no slot.
\<close>

definition Submit :: "bytes \<Rightarrow> bool \<Rightarrow> slot_sys \<Rightarrow> slot_sys" where
  "Submit i forceStart s =
     (if q_shuttingDown s \<or> i \<in> set (q_active s) then s
      else if forceStart then s\<lparr>q_active := i # q_active s, q_forced := i # q_forced s, q_next := Suc (q_next s)\<rparr>
      else s\<lparr>q_active := i # q_active s, q_threads := TEnqueue \<lparr>qt_ID = i, qt_tok = q_next s\<rparr> # q_threads s, q_next := Suc (q_next s)\<rparr>)"

section \<open>The lease\<close>

text \<open>The first mutex section of each operation of \<open>slotLease\<close>.\<close>

definition lease_yield :: "slot_task \<Rightarrow> slot_task" where
  "lease_yield t = (if sl_held t then t\<lparr>sl_held := False, sl_pc := PYieldDec\<rparr> else t)"

definition lease_reclaim :: "slot_task \<Rightarrow> slot_task" where
  "lease_reclaim t = (if sl_held t then t else t\<lparr>sl_held := True, sl_pc := PReclaimInc\<rparr>)"

definition lease_release :: "slot_task \<Rightarrow> slot_task" where
  "lease_release t = (if sl_held t then t\<lparr>sl_held := False, sl_pc := PReleaseDec\<rparr> else t\<lparr>sl_pc := PFinalDispatch\<rparr>)"

section \<open>Steps\<close>

inductive slot_step :: "slot_sys \<Rightarrow> slot_sys \<Rightarrow> bool" where
  submit: "slot_step s (Submit i forceStart s)"
| enqueue_q: "q_threads s = xs @ TEnqueue q # ys \<Longrightarrow> slot_step s (slot_enqueue q (s\<lparr>q_threads := xs @ TDispatch # ys\<rparr>))"
| dispatch_t: "q_threads s = xs @ TDispatch # ys \<Longrightarrow> slot_step s (dispatch k (s\<lparr>q_threads := xs @ ys\<rparr>))"
| forget: "q_threads s = xs @ TForget i # ys \<Longrightarrow> slot_step s (forgetActive i (s\<lparr>q_threads := xs @ ys\<rparr>))"
| start: "q_tasks s = xs @ t # ys \<Longrightarrow> sl_pc t = PStart \<Longrightarrow>
    slot_step s (s\<lparr>q_tasks := xs @ t\<lparr>sl_held := True, sl_pc := PWork\<rparr> # ys\<rparr>)"
| yield: "q_tasks s = xs @ t # ys \<Longrightarrow> sl_pc t = PWork \<Longrightarrow> slot_step s (s\<lparr>q_tasks := xs @ lease_yield t # ys\<rparr>)"
| yield_dec: "q_tasks s = xs @ t # ys \<Longrightarrow> sl_pc t = PYieldDec \<Longrightarrow>
    slot_step s (s\<lparr>q_tasks := xs @ t\<lparr>sl_pc := PYieldDispatch\<rparr> # ys, q_running := q_running s - 1\<rparr>)"
| yield_dispatch: "q_tasks s = xs @ t # ys \<Longrightarrow> sl_pc t = PYieldDispatch \<Longrightarrow>
    slot_step s (dispatch k (s\<lparr>q_tasks := xs @ t\<lparr>sl_pc := PWork\<rparr> # ys\<rparr>))"
| reclaim: "q_tasks s = xs @ t # ys \<Longrightarrow> sl_pc t = PWork \<Longrightarrow> slot_step s (s\<lparr>q_tasks := xs @ lease_reclaim t # ys\<rparr>)"
| reclaim_inc: "q_tasks s = xs @ t # ys \<Longrightarrow> sl_pc t = PReclaimInc \<Longrightarrow>
    slot_step s (s\<lparr>q_tasks := xs @ t\<lparr>sl_pc := PWork\<rparr> # ys, q_running := q_running s + 1, q_reclaims := Suc (q_reclaims s)\<rparr>)"
| process_end: "q_tasks s = xs @ t # ys \<Longrightarrow> sl_pc t = PWork \<Longrightarrow>
    slot_step s (forgetActive (sl_ID t) (s\<lparr>q_tasks := xs @ t\<lparr>sl_pc := PRelease\<rparr> # ys\<rparr>))"
| release: "q_tasks s = xs @ t # ys \<Longrightarrow> sl_pc t = PRelease \<Longrightarrow> slot_step s (s\<lparr>q_tasks := xs @ lease_release t # ys\<rparr>)"
| release_dec: "q_tasks s = xs @ t # ys \<Longrightarrow> sl_pc t = PReleaseDec \<Longrightarrow>
    slot_step s (s\<lparr>q_tasks := xs @ t\<lparr>sl_pc := PFinalDispatch\<rparr> # ys, q_running := q_running s - 1\<rparr>)"
| final_dispatch: "q_tasks s = xs @ t # ys \<Longrightarrow> sl_pc t = PFinalDispatch \<Longrightarrow> slot_step s (dispatch k (s\<lparr>q_tasks := xs @ ys\<rparr>))"
| forced_end: "q_forced s = xs @ i # ys \<Longrightarrow> slot_step s (forgetActive i (s\<lparr>q_forced := xs @ ys\<rparr>))"
| cancel: "slot_step s (snd (dequeue i s))"
| ctx_end: "slot_step s (s\<lparr>q_ctxErr := n # q_ctxErr s\<rparr>)"
| shutdown: "slot_step s (s\<lparr>q_shuttingDown := True\<rparr>)"
| drain: "q_shuttingDown s \<Longrightarrow> slot_step s (drainQueue s)"

end
