(* ===== verification/Engine_Queue_Props.thy ===== *)
theory Engine_Queue_Props
  imports Engine_Queue
begin

text \<open>
  The slots in every interleaving: the count is exactly that of the tasks that hold a slot or are about to give it back, a task
  starts only below the limit, the line moves in order of arrival and never stands while a slot is free, and a task ID never
  runs twice at once.
\<close>

section \<open>A dispatch\<close>

lemma dispatch_loop_split:
  "dispatch_loop mx sh ctx run qs = (r, l, st, dr) \<Longrightarrow>
     mset qs = mset l + mset st + mset dr \<and> r = run + int (length st) \<and> subseq (st @ l) qs \<and>
     (st \<noteq> [] \<longrightarrow> r \<le> mx) \<and> (sh = None \<longrightarrow> l \<noteq> [] \<longrightarrow> mx \<le> r)"
proof (induction mx sh ctx run qs arbitrary: r l st dr rule: dispatch_loop.induct)
  case (2 mx sh ctx run q qs)
  show ?case
  proof (cases "mx \<le> run \<or> sh = Some 0")
    case True
    then show ?thesis using 2(3) by auto
  next
    case False
    show ?thesis
    proof (cases "qt_tok q \<in> set ctx")
      case True
      obtain dr' where d: "dispatch_loop mx (map_option (\<lambda>k. k - 1) sh) ctx run qs = (r, l, st, dr')" "dr = q # dr'"
        using 2(3) False True by (auto split: prod.splits)
      show ?thesis using 2(1) [OF False True d(1)] d(2) by auto
    next
      case out: False
      obtain st' where d: "dispatch_loop mx (map_option (\<lambda>k. k - 1) sh) ctx (run + 1) qs = (r, l, st', dr)" "st = q # st'"
        using 2(3) False out by (auto split: prod.splits)
      show ?thesis using 2(2) [OF False out d(1)] d(2) False by (cases "st' = []") auto
    qed
  qed
qed simp

abbreviation started_task :: "queued_task \<Rightarrow> slot_task" where
  "started_task q \<equiv> \<lparr>sl_ID = qt_ID q, sl_held = False, sl_pc = PStart\<rparr>"

lemma dispatch_parts:
  obtains r l st dr where
    "dispatch_loop (q_max s) (if q_shuttingDown s then Some k else None) (q_ctxErr s) (q_running s) (q_queue s) = (r, l, st, dr)"
    "dispatch k s = s\<lparr>q_running := r, q_queue := l, q_tasks := map started_task st @ q_tasks s,
      q_threads := map (\<lambda>q. TForget (qt_ID q)) dr @ q_threads s, q_started := q_started s @ map qt_tok st\<rparr>"
proof -
  obtain r l st dr where d:
    "dispatch_loop (q_max s) (if q_shuttingDown s then Some k else None) (q_ctxErr s) (q_running s) (q_queue s) = (r, l, st, dr)"
    by (metis prod_cases4)
  show ?thesis by (rule that [OF d]) (simp only: dispatch_def d prod.case)
qed

section \<open>The invariant\<close>

text \<open>What a task contributes to the count.\<close>

fun slot_count :: "slot_task \<Rightarrow> int" where
  "slot_count t =
     (case sl_pc t of
        PStart \<Rightarrow> 1
      | PWork \<Rightarrow> of_bool (sl_held t)
      | PYieldDec \<Rightarrow> 1
      | PYieldDispatch \<Rightarrow> 0
      | PReclaimInc \<Rightarrow> 0
      | PRelease \<Rightarrow> of_bool (sl_held t)
      | PReleaseDec \<Rightarrow> 1
      | PFinalDispatch \<Rightarrow> 0)"

definition slots_taken :: "slot_sys \<Rightarrow> int" where
  "slots_taken s = sum_list (map slot_count (q_tasks s))"

definition about_to_dispatch :: "slot_sys \<Rightarrow> bool" where
  "about_to_dispatch s \<longleftrightarrow> TDispatch \<in> set (q_threads s) \<or> (\<exists>t \<in> set (q_tasks s). sl_pc t \<in> {PYieldDispatch, PFinalDispatch})"

text \<open>The IDs in use: waiting, on the way into the line or out of it, or being processed.\<close>

definition processing :: "slot_task \<Rightarrow> bool" where
  "processing t \<longleftrightarrow> sl_pc t \<notin> {PRelease, PReleaseDec, PFinalDispatch}"

fun thread_ids :: "queue_thread \<Rightarrow> bytes multiset" where
  "thread_ids (TEnqueue q) = {#qt_ID q#}"
| "thread_ids (TForget i) = {#i#}"
| "thread_ids TDispatch = {#}"

definition ids_in_use :: "slot_sys \<Rightarrow> bytes multiset" where
  "ids_in_use s =
     image_mset qt_ID (mset (q_queue s)) + sum_list (map thread_ids (q_threads s)) +
     image_mset sl_ID (filter_mset processing (mset (q_tasks s))) + mset (q_forced s)"

definition ids_once :: "slot_sys \<Rightarrow> bool" where
  "ids_once s \<longleftrightarrow> (\<forall>i. count (ids_in_use s) i \<le> 1) \<and> set_mset (ids_in_use s) \<subseteq> set (q_active s)"

text \<open>The lease agrees with the place.\<close>

definition lease_ok :: "slot_task \<Rightarrow> bool" where
  "lease_ok t \<longleftrightarrow> (sl_pc t \<in> {PYieldDec, PYieldDispatch, PReleaseDec, PFinalDispatch} \<longrightarrow> \<not> sl_held t) \<and>
     (sl_pc t = PReclaimInc \<longrightarrow> sl_held t)"

definition slots_inv :: "slot_sys \<Rightarrow> bool" where
  "slots_inv s \<longleftrightarrow> list_all lease_ok (q_tasks s) \<and> q_running s = slots_taken s \<and> q_running s \<le> max 0 (q_max s) + int (q_reclaims s) \<and>
     subseq (q_started s @ map qt_tok (q_queue s)) (q_enqueued s) \<and>
     (q_queue s \<noteq> [] \<and> q_running s < q_max s \<and> \<not> q_shuttingDown s \<longrightarrow> about_to_dispatch s)"

lemma slot_count_nonneg: "0 \<le> slot_count t"
  by (auto split: slot_pc.split)

lemma slots_taken_nonneg: "0 \<le> slots_taken s"
  unfolding slots_taken_def by (rule sum_list_nonneg) (auto split: slot_pc.split)

lemma slots_taken_at: "q_tasks s = xs @ t # ys \<Longrightarrow> slots_taken s = sum_list (map slot_count xs) + slot_count t + sum_list (map slot_count ys)"
  by (simp add: slots_taken_def del: slot_count.simps)

lemma dispatch_inv:
  assumes "q_running s = slots_taken s" "q_running s \<le> max 0 (q_max s) + int (q_reclaims s)"
    and "subseq (q_started s @ map qt_tok (q_queue s)) (q_enqueued s)" "list_all lease_ok (q_tasks s)"
  shows "slots_inv (dispatch k s)"
proof -
  obtain r l st dr where d:
    "dispatch_loop (q_max s) (if q_shuttingDown s then Some k else None) (q_ctxErr s) (q_running s) (q_queue s) = (r, l, st, dr)"
    and s': "dispatch k s = s\<lparr>q_running := r, q_queue := l, q_tasks := map started_task st @ q_tasks s,
      q_threads := map (\<lambda>q. TForget (qt_ID q)) dr @ q_threads s, q_started := q_started s @ map qt_tok st\<rparr>"
    by (rule dispatch_parts)
  note p = dispatch_loop_split [OF d]
  have "sum_list (map slot_count (map started_task st)) = int (length st)"
    by (induction st) auto
  then have 1: "r = slots_taken (dispatch k s)" using p assms(1) by (simp add: slots_taken_def s' del: slot_count.simps)
  have 2: "r \<le> max 0 (q_max s) + int (q_reclaims s)" using p assms(2) by (cases "st = []") auto
  have "subseq (map qt_tok (st @ l)) (map qt_tok (q_queue s))" using p subseq_map by blast
  then have "subseq (q_started s @ map qt_tok st @ map qt_tok l) (q_started s @ map qt_tok (q_queue s))"
    by (simp add: subseq_append')
  then have 3: "subseq (q_started s @ map qt_tok st @ map qt_tok l) (q_enqueued s)" using assms(3) subseq_order.trans by blast
  show ?thesis using 1 2 3 p assms(4) unfolding s' by (auto simp: slots_inv_def lease_ok_def list_all_iff)
qed

text \<open>Steps that only move one task from one place to the next.\<close>

lemma task_step_inv:
  assumes "slots_inv s" "q_tasks s = xs @ t # ys" "slot_count t' - slot_count t = d"
    and "sl_pc t \<in> {PYieldDispatch, PFinalDispatch} \<or> d < 0 \<Longrightarrow> sl_pc t' \<in> {PYieldDispatch, PFinalDispatch}"
    and "d \<le> int n" "lease_ok t'"
  shows "slots_inv (s\<lparr>q_tasks := xs @ t' # ys, q_running := q_running s + d, q_reclaims := q_reclaims s + n\<rparr>)"
proof -
  let ?s = "s\<lparr>q_tasks := xs @ t' # ys, q_running := q_running s + d, q_reclaims := q_reclaims s + n\<rparr>"
  have "slots_taken ?s = slots_taken s + d"
    using slots_taken_at [OF assms(2)] slots_taken_at [of ?s xs t' ys] assms(3) by (simp del: slot_count.simps)
  moreover have "about_to_dispatch ?s" if "about_to_dispatch s \<or> d < 0"
    using that assms(2,4) by (auto simp: about_to_dispatch_def)
  moreover have "0 \<le> d \<Longrightarrow> q_running s + d < q_max s \<Longrightarrow> q_running s < q_max s" by simp
  ultimately show ?thesis using assms(1,2,5,6) by (cases "d < 0") (auto simp: slots_inv_def)
qed

lemma task_move_inv:
  assumes "slots_inv s" "q_tasks s = xs @ t # ys" "slot_count t' = slot_count t" "sl_pc t \<notin> {PYieldDispatch, PFinalDispatch}" "lease_ok t'"
  shows "slots_inv (s\<lparr>q_tasks := xs @ t' # ys\<rparr>)"
  using task_step_inv [OF assms(1,2), of t' 0 0] assms(3-5) by simp

text \<open>Steps of other goroutines.\<close>

lemma other_step_inv:
  assumes "slots_inv s" "q_running s' = q_running s" "q_tasks s' = q_tasks s" "q_reclaims s' = q_reclaims s" "q_max s' = q_max s"
    and "subseq (q_started s' @ map qt_tok (q_queue s')) (q_enqueued s')"
    and "q_queue s' \<noteq> [] \<Longrightarrow> \<not> q_shuttingDown s' \<Longrightarrow> TDispatch \<in> set (q_threads s') \<or>
      q_queue s \<noteq> [] \<and> \<not> q_shuttingDown s \<and> (TDispatch \<in> set (q_threads s) \<longrightarrow> TDispatch \<in> set (q_threads s'))"
  shows "slots_inv s'"
  using assms by (auto simp: slots_inv_def slots_taken_def about_to_dispatch_def)

lemma remove_first_Some: "remove_first i qs = Some l \<Longrightarrow> \<exists>xs q ys. qs = xs @ q # ys \<and> l = xs @ ys \<and> qt_ID q = i"
proof (induction qs arbitrary: l)
  case (Cons q qs)
  show ?case
  proof (cases "qt_ID q = i")
    case True
    then show ?thesis using Cons(2) by (intro exI [of _ "[]"]) simp
  next
    case False
    then obtain l' where l': "remove_first i qs = Some l'" "l = q # l'" using Cons(2) by auto
    then obtain xs q' ys where "qs = xs @ q' # ys" "l' = xs @ ys" "qt_ID q' = i" using Cons(1) by blast
    then show ?thesis using l' by (intro exI [of _ "q # xs"]) simp
  qed
qed simp

lemma subseq_drop_mid:
  assumes "subseq (a @ map f (xs @ q # ys)) e"
  shows "subseq (a @ map f (xs @ ys)) e"
proof -
  have "subseq (xs @ ys) (xs @ q # ys)" by (simp add: subseq_append' list_emb_Cons)
  then have "subseq (map f (xs @ ys)) (map f (xs @ q # ys))" by (rule subseq_map)
  then have "subseq (a @ map f (xs @ ys)) (a @ map f (xs @ q # ys))" by (simp only: subseq_append')
  then show ?thesis using assms subseq_order.trans by blast
qed

lemma subseq_prefix_only: "subseq (a @ b) e \<Longrightarrow> subseq a e"
  using list_emb_append_mono [of "(=)" a a "[]" b] subseq_order.trans by fastforce

lemma dequeue_inv:
  assumes "slots_inv s"
  shows "slots_inv (snd (dequeue i s))"
proof (cases "remove_first i (q_queue s)")
  case None
  then show ?thesis using assms by (simp add: dequeue_def)
next
  case (Some l)
  obtain xs q ys where l: "q_queue s = xs @ q # ys" "l = xs @ ys" using remove_first_Some [OF Some] by blast
  have "subseq (q_started s @ map qt_tok l) (q_enqueued s)"
    using subseq_drop_mid [of "q_started s" qt_tok xs q ys] assms l by (simp add: slots_inv_def)
  moreover have "dequeue i s = (True, s\<lparr>q_queue := l, q_threads := TForget i # q_threads s\<rparr>)" by (simp add: dequeue_def Some)
  ultimately show ?thesis using l(1) by (intro other_step_inv [OF assms]) auto
qed

lemma slots_inv_step:
  assumes "slot_step s s'" "slots_inv s"
  shows "slots_inv s'"
proof -
  have ok: "lease_ok t" if "q_tasks s = xs @ t # ys" for xs t ys using assms(2) that by (simp add: slots_inv_def)
  note lease = lease_ok_def lease_yield_def lease_reclaim_def lease_release_def
  from assms show ?thesis
  proof cases
    case (submit i forceStart)
    show ?thesis unfolding submit
      by (rule other_step_inv [OF assms(2)]) (use assms(2) in \<open>auto simp: Submit_def slots_inv_def about_to_dispatch_def\<close>)
  next
    case (enqueue_q xs q ys)
    have "subseq ((q_started s @ map qt_tok (q_queue s)) @ [qt_tok q]) (q_enqueued s @ [qt_tok q])"
      using assms(2) by (simp only: slots_inv_def subseq_append)
    then show ?thesis unfolding enqueue_q by (intro other_step_inv [OF assms(2)]) (auto simp: slot_enqueue_def)
  next
    case (dispatch_t xs ys k)
    show ?thesis unfolding dispatch_t by (rule dispatch_inv) (use assms(2) in \<open>simp_all add: slots_inv_def slots_taken_def\<close>)
  next
    case (forget xs i ys)
    show ?thesis unfolding forget(1)
      by (rule other_step_inv [OF assms(2)]) (use assms(2) forget(2) in \<open>auto simp: forgetActive_def slots_inv_def\<close>)
  next
    case (start xs t ys)
    then show ?thesis using task_move_inv [OF assms(2) start(2)] ok [OF start(2)] by (simp add: lease)
  next
    case (yield xs t ys)
    then show ?thesis using task_move_inv [OF assms(2) yield(2)] ok [OF yield(2)] by (simp add: lease)
  next
    case (yield_dec xs t ys)
    then show ?thesis using task_step_inv [OF assms(2) yield_dec(2), of "t\<lparr>sl_pc := PYieldDispatch\<rparr>" "- 1" 0] ok [OF yield_dec(2)] by (simp add: lease)
  next
    case (yield_dispatch xs t ys k)
    show ?thesis unfolding yield_dispatch(1)
      by (rule dispatch_inv) (use assms(2) yield_dispatch(2,3) in \<open>auto simp: slots_inv_def slots_taken_def lease\<close>)
  next
    case (reclaim xs t ys)
    then show ?thesis using task_move_inv [OF assms(2) reclaim(2)] ok [OF reclaim(2)] by (simp add: lease)
  next
    case (reclaim_inc xs t ys)
    then show ?thesis using task_step_inv [OF assms(2) reclaim_inc(2), of "t\<lparr>sl_pc := PWork\<rparr>" 1 1] ok [OF reclaim_inc(2)] by (simp add: lease)
  next
    case (process_end xs t ys)
    have "slots_inv (s\<lparr>q_tasks := xs @ t\<lparr>sl_pc := PRelease\<rparr> # ys\<rparr>)" using task_move_inv [OF assms(2) process_end(2)] process_end(3) by (simp add: lease)
    then show ?thesis unfolding process_end(1) by (simp add: forgetActive_def slots_inv_def slots_taken_def about_to_dispatch_def)
  next
    case (release xs t ys)
    then show ?thesis using task_move_inv [OF assms(2) release(2)] ok [OF release(2)] by (simp add: lease)
  next
    case (release_dec xs t ys)
    then show ?thesis using task_step_inv [OF assms(2) release_dec(2), of "t\<lparr>sl_pc := PFinalDispatch\<rparr>" "- 1" 0] ok [OF release_dec(2)] by (simp add: lease)
  next
    case (final_dispatch xs t ys k)
    show ?thesis unfolding final_dispatch(1)
      by (rule dispatch_inv) (use assms(2) final_dispatch(2,3) in \<open>auto simp: slots_inv_def slots_taken_def lease\<close>)
  next
    case (forced_end xs i ys)
    show ?thesis unfolding forced_end(1) by (rule other_step_inv [OF assms(2)]) (use assms(2) in \<open>auto simp: forgetActive_def slots_inv_def\<close>)
  next
    case (cancel i)
    show ?thesis unfolding cancel by (rule dequeue_inv [OF assms(2)])
  next
    case drain
    show ?thesis unfolding drain
      by (rule other_step_inv [OF assms(2)]) (use assms(2) in \<open>auto simp: drainQueue_def slots_inv_def intro: subseq_prefix_only\<close>)
  qed (use assms(2) in \<open>auto simp: slots_inv_def slots_taken_def about_to_dispatch_def\<close>)
qed

lemma slots_inv_reach:
  assumes "slot_step\<^sup>*\<^sup>* (NewManager mx) s"
  shows "slots_inv s"
  using assms
proof (induction rule: rtranclp_induct)
  case base
  show ?case by (simp add: NewManager_def slots_inv_def slots_taken_def)
qed (rule slots_inv_step)

section \<open>One run per task\<close>

lemma ids_keep: "ids_once s \<Longrightarrow> ids_in_use s' = ids_in_use s \<Longrightarrow> q_active s' = q_active s \<Longrightarrow> ids_once s'"
  by (simp add: ids_once_def)

lemma ids_drop:
  assumes "ids_once s" "ids_in_use s = add_mset i (ids_in_use s')" "q_active s' = removeAll i (q_active s)"
  shows "ids_once s'"
proof -
  have c: "count (ids_in_use s') j \<le> (if j = i then 0 else 1)" for j
  proof -
    have "count (ids_in_use s) j \<le> 1" using assms(1) by (simp add: ids_once_def)
    then show ?thesis by (auto simp: assms(2) split: if_splits)
  qed
  have "i \<notin># ids_in_use s'" using c [of i] by (simp add: count_eq_zero_iff)
  moreover have "set_mset (ids_in_use s') \<subseteq> set (q_active s)" using assms(1,2) by (simp add: ids_once_def)
  moreover have "count (ids_in_use s') j \<le> 1" for j using c [of j] by (simp split: if_splits)
  ultimately show ?thesis unfolding ids_once_def assms(3) by auto
qed

lemma forget_threads: "sum_list (map thread_ids (map (\<lambda>q. TForget (qt_ID q)) dr)) = image_mset qt_ID (mset dr)"
  by (induction dr) auto

lemma dispatch_ids [simp]: "ids_in_use (dispatch k s) = ids_in_use s" "q_active (dispatch k s) = q_active s"
proof -
  obtain r l st dr where d:
    "dispatch_loop (q_max s) (if q_shuttingDown s then Some k else None) (q_ctxErr s) (q_running s) (q_queue s) = (r, l, st, dr)"
    and s': "dispatch k s = s\<lparr>q_running := r, q_queue := l, q_tasks := map started_task st @ q_tasks s,
      q_threads := map (\<lambda>q. TForget (qt_ID q)) dr @ q_threads s, q_started := q_started s @ map qt_tok st\<rparr>"
    by (rule dispatch_parts)
  have "image_mset sl_ID (filter_mset processing (mset (map started_task st))) = image_mset qt_ID (mset st)"
    by (induction st) (auto simp: processing_def)
  moreover have "image_mset qt_ID (mset (q_queue s)) = image_mset qt_ID (mset l) + image_mset qt_ID (mset st) + image_mset qt_ID (mset dr)"
    using dispatch_loop_split [OF d] by simp
  ultimately show "ids_in_use (dispatch k s) = ids_in_use s" using forget_threads [of dr]
    unfolding s' ids_in_use_def by (simp add: o_def add.commute add.left_commute del: map_map)
  show "q_active (dispatch k s) = q_active s" by (simp add: s')
qed

lemma task_ids_same:
  "q_tasks s = xs @ t # ys \<Longrightarrow> sl_ID t' = sl_ID t \<Longrightarrow> processing t' = processing t \<Longrightarrow>
     ids_in_use (s\<lparr>q_tasks := xs @ t' # ys\<rparr>) = ids_in_use s"
  by (simp add: ids_in_use_def)

lemma ids_irrelevant [simp]:
  "ids_in_use (s\<lparr>q_running := r\<rparr>) = ids_in_use s" "ids_in_use (s\<lparr>q_reclaims := n\<rparr>) = ids_in_use s"
  "ids_in_use (s\<lparr>q_ctxErr := c\<rparr>) = ids_in_use s" "ids_in_use (s\<lparr>q_shuttingDown := b\<rparr>) = ids_in_use s"
  "ids_in_use (s\<lparr>q_active := a\<rparr>) = ids_in_use s" "ids_in_use (s\<lparr>q_enqueued := e\<rparr>) = ids_in_use s"
  by (simp_all add: ids_in_use_def)

lemma Submit_ids:
  assumes "ids_once s"
  shows "ids_once (Submit i forceStart s)"
proof (cases "q_shuttingDown s \<or> i \<in> set (q_active s)")
  case False
  then have new: "count (ids_in_use s) i = 0" using assms by (auto simp: ids_once_def count_eq_zero_iff)
  have "ids_in_use (Submit i forceStart s) = add_mset i (ids_in_use s)" "q_active (Submit i forceStart s) = i # q_active s"
    using False by (simp_all add: Submit_def ids_in_use_def)
  then show ?thesis using assms new by (auto simp: ids_once_def)
qed (use assms in \<open>simp add: Submit_def\<close>)

lemma dequeue_ids:
  assumes "ids_once s"
  shows "ids_once (snd (dequeue i s))"
proof (cases "remove_first i (q_queue s)")
  case None
  then show ?thesis using assms by (simp add: dequeue_def)
next
  case (Some l)
  obtain xs q ys where l: "q_queue s = xs @ q # ys" "l = xs @ ys" "qt_ID q = i" using remove_first_Some [OF Some] by blast
  have "dequeue i s = (True, s\<lparr>q_queue := l, q_threads := TForget i # q_threads s\<rparr>)" by (simp add: dequeue_def Some)
  then show ?thesis using l by (intro ids_keep [OF assms]) (simp_all add: ids_in_use_def)
qed

lemma ids_once_step:
  assumes "slot_step s s'" "ids_once s"
  shows "ids_once s'"
proof -
  have move: "ids_once (s\<lparr>q_tasks := xs @ t' # ys\<rparr>)" if "q_tasks s = xs @ t # ys" "sl_ID t' = sl_ID t" "processing t' = processing t" for xs t t' ys
    using ids_keep [OF assms(2) task_ids_same [OF that]] by simp
  note tasks = processing_def lease_yield_def lease_reclaim_def lease_release_def
  from assms(1) show ?thesis
  proof cases
    case (submit i forceStart)
    then show ?thesis using Submit_ids [OF assms(2)] by simp
  next
    case (enqueue_q xs q ys)
    then show ?thesis by (intro ids_keep [OF assms(2)]) (simp_all add: slot_enqueue_def ids_in_use_def)
  next
    case (dispatch_t xs ys k)
    have "ids_in_use (s\<lparr>q_threads := xs @ ys\<rparr>) = ids_in_use s" using dispatch_t(2) by (simp add: ids_in_use_def)
    then show ?thesis using dispatch_t(1) by (intro ids_keep [OF assms(2)]) simp_all
  next
    case (forget xs i ys)
    then show ?thesis by (intro ids_drop [OF assms(2), of i]) (simp_all add: forgetActive_def ids_in_use_def)
  next
    case (yield_dec xs t ys)
    then show ?thesis using move [of xs t ys "t\<lparr>sl_pc := PYieldDispatch\<rparr>"] by (simp add: tasks ids_once_def)
  next
    case (yield_dispatch xs t ys k)
    then show ?thesis using move [of xs t ys "t\<lparr>sl_pc := PWork\<rparr>"] by (simp add: tasks ids_once_def)
  next
    case (reclaim_inc xs t ys)
    then show ?thesis using move [of xs t ys "t\<lparr>sl_pc := PWork\<rparr>"] by (simp add: tasks ids_once_def)
  next
    case (process_end xs t ys)
    then show ?thesis by (intro ids_drop [OF assms(2), of "sl_ID t"]) (simp_all add: forgetActive_def ids_in_use_def processing_def)
  next
    case (release_dec xs t ys)
    then show ?thesis using move [of xs t ys "t\<lparr>sl_pc := PFinalDispatch\<rparr>"] by (simp add: tasks ids_once_def)
  next
    case (final_dispatch xs t ys k)
    have "ids_in_use (s\<lparr>q_tasks := xs @ ys\<rparr>) = ids_in_use s" using final_dispatch(2,3) by (simp add: ids_in_use_def processing_def)
    then show ?thesis using final_dispatch(1) by (intro ids_keep [OF assms(2)]) simp_all
  next
    case (forced_end xs i ys)
    then show ?thesis by (intro ids_drop [OF assms(2), of i]) (simp_all add: forgetActive_def ids_in_use_def)
  next
    case (cancel i)
    then show ?thesis using dequeue_ids [OF assms(2)] by simp
  next
    case drain
    then show ?thesis using forget_threads [of "q_queue s"]
      by (intro ids_keep [OF assms(2)]) (simp_all add: drainQueue_def ids_in_use_def add.commute del: map_map)
  qed (use move assms(2) in \<open>auto simp: tasks ids_once_def\<close>)
qed

lemma ids_once_reach:
  assumes "slot_step\<^sup>*\<^sup>* (NewManager mx) s"
  shows "ids_once s"
  using assms
proof (induction rule: rtranclp_induct)
  case base
  show ?case by (simp add: NewManager_def ids_once_def ids_in_use_def)
qed (rule ids_once_step)

lemma dispatch_max [simp]: "q_max (dispatch k s) = q_max s"
  by (rule dispatch_parts [of s k]) simp

lemma max_step: "slot_step s s' \<Longrightarrow> q_max s' = q_max s"
  by (induction rule: slot_step.induct)
    (auto simp: Submit_def slot_enqueue_def forgetActive_def dequeue_def drainQueue_def split: option.split)

lemma max_reach: "slot_step\<^sup>*\<^sup>* (NewManager mx) s \<Longrightarrow> 0 < q_max s"
  by (induction rule: rtranclp_induct) (auto simp: max_step NewManager_def)

text \<open>A dispatch with a free slot deals with the head of the line.\<close>

lemma dispatch_head:
  assumes "q_queue s = q # qs" "q_running s < q_max s" "\<not> q_shuttingDown s"
  shows "qt_tok q \<in> set (q_started (dispatch k s)) \<or> qt_tok q \<in> set (q_ctxErr s) \<and> TForget (qt_ID q) \<in> set (q_threads (dispatch k s))"
proof -
  obtain r l st dr where
    "dispatch_loop (q_max s) (if q_shuttingDown s then Some k else None) (q_ctxErr s) (q_running s) (q_queue s) = (r, l, st, dr)"
    and s': "dispatch k s = s\<lparr>q_running := r, q_queue := l, q_tasks := map started_task st @ q_tasks s,
      q_threads := map (\<lambda>q. TForget (qt_ID q)) dr @ q_threads s, q_started := q_started s @ map qt_tok st\<rparr>"
    by (rule dispatch_parts)
  then have d: "dispatch_loop (q_max s) None (q_ctxErr s) (q_running s) (q # qs) = (r, l, st, dr)" using assms(1,3) by simp
  show ?thesis using d assms(2) unfolding s' by (auto split: if_splits prod.splits)
qed

section \<open>Properties\<close>

text \<open>
  C24. The slots are conserved: however submissions, dispatches, yields, reclaims, cancels and a shutdown interleave, the count of
  running tasks is exactly that of the tasks that hold a slot, have just been given one or are about to give it back; it exceeds the
  limit by at most the number of reclaims; and tasks start in the order in which they came into the line.
\<close>

theorem slots_conserved:
  assumes "slot_step\<^sup>*\<^sup>* (NewManager mx) s"
  shows "q_running s = sum_list (map slot_count (q_tasks s)) \<and> 0 \<le> q_running s \<and> q_running s \<le> q_max s + int (q_reclaims s) \<and>
    subseq (q_started s @ map qt_tok (q_queue s)) (q_enqueued s)"
  using slots_inv_reach [OF assms] max_reach [OF assms] slots_taken_nonneg [of s]
  by (simp add: slots_inv_def slots_taken_def del: slot_count.simps)

text \<open>
  C16. The line never stands at a free slot: whenever a task waits, a slot is free and the daemon is not shutting down, some
  goroutine is about to dispatch, and that step starts the head of the line, or drops it if its context has ended.
\<close>

theorem free_slot_moves_line:
  assumes "slot_step\<^sup>*\<^sup>* (NewManager mx) s" "q_queue s = q # qs" "q_running s < q_max s" "\<not> q_shuttingDown s"
  shows "\<exists>s'. slot_step s s' \<and> (qt_tok q \<in> set (q_started s') \<or> qt_tok q \<in> set (q_ctxErr s) \<and> TForget (qt_ID q) \<in> set (q_threads s'))"
proof -
  have "about_to_dispatch s" using slots_inv_reach [OF assms(1)] assms(2-4) by (simp add: slots_inv_def)
  then consider "TDispatch \<in> set (q_threads s)"
    | t where "t \<in> set (q_tasks s)" "sl_pc t = PYieldDispatch" | t where "t \<in> set (q_tasks s)" "sl_pc t = PFinalDispatch"
    by (auto simp: about_to_dispatch_def)
  then show ?thesis
  proof cases
    case 1
    then obtain xs ys where "q_threads s = xs @ TDispatch # ys" by (meson split_list)
    then show ?thesis using slot_step.dispatch_t [of s xs ys 0] dispatch_head [of "s\<lparr>q_threads := xs @ ys\<rparr>" q qs 0] assms(2-4) by auto
  next
    case (2 t)
    then obtain xs ys where "q_tasks s = xs @ t # ys" by (meson split_list)
    then show ?thesis using slot_step.yield_dispatch [of s xs t ys 0] 2(2) assms(2-4)
        dispatch_head [of "s\<lparr>q_tasks := xs @ t\<lparr>sl_pc := PWork\<rparr> # ys\<rparr>" q qs 0] by auto
  next
    case (3 t)
    then obtain xs ys where "q_tasks s = xs @ t # ys" by (meson split_list)
    then show ?thesis using slot_step.final_dispatch [of s xs t ys 0] 3(2) assms(2-4)
        dispatch_head [of "s\<lparr>q_tasks := xs @ ys\<rparr>" q qs 0] by auto
  qed
qed

text \<open>
  C19. One run per task: in every interleaving a task ID is at most once in the line, on the way into or out of it, or being
  processed, with or without a slot, and while it is, it is active, so that \<open>Submit\<close> refuses it.
\<close>

theorem one_run_per_task:
  assumes "slot_step\<^sup>*\<^sup>* (NewManager mx) s"
  shows "count (ids_in_use s) i \<le> 1 \<and> (count (ids_in_use s) i = 0 \<or> Submit i forceStart s = s)"
  using ids_once_reach [OF assms] by (auto simp: ids_once_def Submit_def count_eq_zero_iff)

text \<open>A manager with one slot, one task in the line and its dispatch under way.\<close>

definition sample_slots :: slot_sys where
  "sample_slots = slot_enqueue \<lparr>qt_ID = [97], qt_tok = 0\<rparr> ((Submit [97] False (NewManager 1))\<lparr>q_threads := [TDispatch]\<rparr>)"

lemma sample_slots_reached: "slot_step\<^sup>*\<^sup>* (NewManager 1) sample_slots"
proof -
  have "q_threads (Submit [97] False (NewManager 1)) = [] @ TEnqueue \<lparr>qt_ID = [97], qt_tok = 0\<rparr> # []" by (simp add: Submit_def NewManager_def)
  from slot_step.enqueue_q [OF this] have "slot_step (Submit [97] False (NewManager 1)) sample_slots" by (simp add: sample_slots_def)
  then show ?thesis by (meson converse_rtranclp_into_rtranclp r_into_rtranclp slot_step.submit)
qed

lemmas sample_defs = sample_slots_def slot_enqueue_def Submit_def NewManager_def

theorem slots_conserved_witness:
  "q_running sample_slots = 0 \<and> subseq (q_started sample_slots @ map qt_tok (q_queue sample_slots)) (q_enqueued sample_slots)"
  using slots_conserved [OF sample_slots_reached] by (simp add: sample_defs)

theorem free_slot_moves_line_witness: "\<exists>s'. slot_step sample_slots s' \<and> 0 \<in> set (q_started s')"
proof -
  have "q_queue sample_slots = [\<lparr>qt_ID = [97], qt_tok = 0\<rparr>]" "q_running sample_slots < q_max sample_slots"
    "\<not> q_shuttingDown sample_slots" "q_ctxErr sample_slots = []"
    by (simp_all add: sample_defs)
  then show ?thesis using free_slot_moves_line [OF sample_slots_reached] by fastforce
qed

theorem one_run_per_task_witness: "count (ids_in_use sample_slots) [97] = 1 \<and> Submit [97] True sample_slots = sample_slots"
proof -
  have "count (ids_in_use sample_slots) [97] = 1" by (simp add: sample_defs ids_in_use_def)
  then show ?thesis using one_run_per_task [OF sample_slots_reached, of "[97]" True] by simp
qed

end
