(* ===== verification/Engine_Task_Props.thy ===== *)
theory Engine_Task_Props
  imports Engine_Process
begin

text \<open>
  Single operations of a task: what a method that is chosen fulfils, what a repaired source may change, what a file that passes
  the check on disk is, and how messages are cut.
\<close>

section \<open>Methods\<close>

lemma resolve_loop_Some:
  "resolve_loop avail reg tried order gate = (Some m, g) \<Longrightarrow>
     \<exists>xs ys. order = xs @ m # ys \<and> m \<notin> set tried \<and> m \<in> set reg \<and> avail m = Inr True \<and>
       list_all (\<lambda>n. n \<in> set tried \<or> n \<notin> set reg \<or> avail n \<noteq> Inr True) xs"
proof (induction avail reg tried order gate rule: resolve_loop.induct)
  case (2 avail reg tried n ns gate)
  show ?case
  proof (cases "n \<in> set tried \<or> n \<notin> set reg \<or> avail n \<noteq> Inr True")
    case True
    have "\<exists>g'. resolve_loop avail reg tried ns g' = (Some m, g) \<and>
        (\<exists>xs ys. ns = xs @ m # ys \<and> m \<notin> set tried \<and> m \<in> set reg \<and> avail m = Inr True \<and>
          list_all (\<lambda>n. n \<in> set tried \<or> n \<notin> set reg \<or> avail n \<noteq> Inr True) xs)"
      using 2 True by (auto split: if_splits sum.splits)
    then obtain xs ys where "ns = xs @ m # ys \<and> m \<notin> set tried \<and> m \<in> set reg \<and> avail m = Inr True \<and>
        list_all (\<lambda>n. n \<in> set tried \<or> n \<notin> set reg \<or> avail n \<noteq> Inr True) xs" by blast
    then show ?thesis using True by (intro exI [of _ "n # xs"] exI [of _ ys]) simp
  next
    case False
    then show ?thesis using 2(4) by (intro exI [of _ "[]"] exI [of _ ns]) (auto split: sum.splits)
  qed
qed simp

text \<open>The chosen method is the first of the order that is untried, registered and available.\<close>

lemma resolveMethod_first:
  assumes "resolveMethod avail reg cfg t = Inr m"
  shows "\<exists>xs ys. effectiveOrder cfg t = xs @ m # ys \<and> m \<notin> set (tk_TriedMethods t) \<and> m \<in> set reg \<and> avail m = Inr True \<and>
    list_all (\<lambda>n. n \<in> set (tk_TriedMethods t) \<or> n \<notin> set reg \<or> avail n \<noteq> Inr True) xs"
  using assms resolve_loop_Some [of avail reg "tk_TriedMethods t" "effectiveOrder cfg t" None m]
  by (auto simp: resolveMethod_def Let_def split: prod.splits option.splits)

text \<open>An explicit list of methods in the configuration is never left, except by an IPTV task.\<close>

lemma effectiveOrder_config:
  assumes "tk_PreferredMethod t \<noteq> str ''iptv''" "concat (map method_of_name cfg) \<noteq> []"
  shows "effectiveOrder cfg t = concat (map method_of_name cfg)"
  using assms by (auto simp: effectiveOrder_def Let_def simp del: method_of_name.simps)

section \<open>Sources\<close>

text \<open>A repair swaps the URL; a file name and a size that were known stay, and the release is the same.\<close>

lemma ApplyDebridRepairSource_same_file:
  assumes "ApplyDebridRepairSource so t = (None, t')"
  shows "tk_DirectURL t' = so_DirectURL so \<and> so_DirectURL so \<noteq> [] \<and> EqualFold (so_InfoHash so) (tk_InfoHash t) \<and>
    (tk_DirectFileName t \<noteq> [] \<longrightarrow> tk_DirectFileName t' = tk_DirectFileName t) \<and>
    (tk_DirectFileSize t \<noteq> 0 \<longrightarrow> tk_DirectFileSize t' = tk_DirectFileSize t) \<and> tk_Status t' = tk_Status t"
  using assms by (auto simp: ApplyDebridRepairSource_def Let_def split: if_splits)

text \<open>The flat fields of the server win over the source set.\<close>

lemma applyLegacySource_keeps:
  "at_InfoHash t \<noteq> [] \<Longrightarrow> at_InfoHash (applyLegacySource s t) = at_InfoHash t"
  "at_DirectURL t \<noteq> [] \<Longrightarrow> at_DirectURL (applyLegacySource s t) = at_DirectURL t"
  "at_NzbID t \<noteq> [] \<Longrightarrow> at_NzbID (applyLegacySource s t) = at_NzbID t"
  by (simp_all add: applyLegacySource_def Let_def)

lemma fold_applyLegacySource_keeps:
  "at_InfoHash t \<noteq> [] \<Longrightarrow> at_InfoHash (fold applyLegacySource ss t) = at_InfoHash t"
  "at_DirectURL t \<noteq> [] \<Longrightarrow> at_DirectURL (fold applyLegacySource ss t) = at_DirectURL t"
  "at_NzbID t \<noteq> [] \<Longrightarrow> at_NzbID (fold applyLegacySource ss t) = at_NzbID t"
  by (induction ss arbitrary: t) (simp_all add: applyLegacySource_keeps)

lemma NormalizeSourceSet_keeps:
  "at_InfoHash t \<noteq> [] \<Longrightarrow> at_InfoHash (NormalizeSourceSet t) = at_InfoHash t"
  "at_DirectURL t \<noteq> [] \<Longrightarrow> at_DirectURL (NormalizeSourceSet t) = at_DirectURL t"
  "at_NzbID t \<noteq> [] \<Longrightarrow> at_NzbID (NormalizeSourceSet t) = at_NzbID t"
  by (auto simp: NormalizeSourceSet_def normalizePreferredMethod_def fold_applyLegacySource_keeps split: option.split)

section \<open>The check on disk\<close>

lemma size_tolerance_bound:
  assumes "0 \<le> n"
  shows "of_int (size_tolerance n) \<le> (of_int n :: rat) * (2 / 100 + 1 / 2 ^ 50)"
proof -
  let ?e = "1 / 2 ^ 53 :: rat"
  have c: "0 \<le> f64 (2 / 100)" "f64 (2 / 100) \<le> 2 / 100 * (1 + ?e)" using f64_nonneg [of "2 / 100"] f64_bounds(2) [of "2 / 100"] by simp_all
  have n: "0 \<le> f64 (of_int n)" "f64 (of_int n) \<le> of_int n * (1 + ?e)" using f64_nonneg [of "of_int n"] f64_bounds(2) [of "of_int n"] assms by simp_all
  define p where "p = f64 (of_int n) * f64 (2 / 100)"
  have p: "0 \<le> p" "p \<le> of_int n * (1 + ?e) * (2 / 100 * (1 + ?e))"
    unfolding p_def by (rule mult_nonneg_nonneg [OF n(1) c(1)], rule mult_mono [OF n(2) c(2) order_trans [OF n(1,2)] c(1)])
  have "0 \<le> f64 p" by (rule f64_nonneg [OF p(1)])
  then have "of_int (size_tolerance n) \<le> f64 p" unfolding size_tolerance_def trunc_def p_def [symmetric] by simp
  also have "f64 p \<le> p * (1 + ?e)" by (rule f64_bounds(2) [OF p(1)])
  also have "p * (1 + ?e) \<le> of_int n * (1 + ?e) * (2 / 100 * (1 + ?e)) * (1 + ?e)" using p by (intro mult_right_mono) simp_all
  also have "\<dots> = of_int n * ((1 + ?e) * (2 / 100 * (1 + ?e)) * (1 + ?e))" by (simp only: mult.assoc)
  also have "\<dots> \<le> of_int n * (2 / 100 + 1 / 2 ^ 50)" using assms by (intro mult_left_mono) simp_all
  finally show ?thesis .
qed

text \<open>
  A file that passes is not empty, not a stub, of exactly the size the server resolved, and at most two percent (and the rounding
  error) short of the size the downloader announced.
\<close>

lemma verify_accepts_file:
  assumes "verify u stat (Some r) = None" "stat (re_FilePath r) = StatFile n"
  shows "n \<noteq> 0 \<and> (IsVideoExt u (Base (re_FilePath r)) \<longrightarrow> minPlausibleVideoBytes \<le> n) \<and>
    (0 < re_ExpectedBytes r \<longrightarrow> n = re_ExpectedBytes r) \<and>
    (0 < re_Size r \<longrightarrow> (of_int (re_Size r) :: rat) * (98 / 100 - 1 / 2 ^ 50) \<le> of_int n)"
proof -
  have v: "n \<noteq> 0" "IsVideoExt u (Base (re_FilePath r)) \<longrightarrow> minPlausibleVideoBytes \<le> n"
      "0 < re_ExpectedBytes r \<longrightarrow> n = re_ExpectedBytes r" "0 < re_Size r \<longrightarrow> re_Size r - size_tolerance (re_Size r) \<le> n"
    using assms by (auto simp: verify_def split: if_splits)
  have "(of_int (re_Size r) :: rat) * (98 / 100 - 1 / 2 ^ 50) \<le> of_int n" if "0 < re_Size r"
  proof -
    have "(of_int (re_Size r) :: rat) - of_int (size_tolerance (re_Size r)) \<le> of_int n"
      using v(4) that by (metis of_int_diff of_int_le_iff)
    moreover have "of_int (size_tolerance (re_Size r)) \<le> (of_int (re_Size r) :: rat) * (2 / 100 + 1 / 2 ^ 50)"
      using that by (intro size_tolerance_bound) simp
    ultimately show ?thesis by (simp add: algebra_simps)
  qed
  then show ?thesis using v by blast
qed

section \<open>Messages\<close>

text \<open>A string of runes: each a start byte followed by continuation bytes.\<close>

definition is_rune :: "bytes \<Rightarrow> bool" where
  "is_rune r \<longleftrightarrow> r \<noteq> [] \<and> RuneStart (hd r) \<and> list_all (\<lambda>b. \<not> RuneStart b) (tl r)"

lemma rune_cut_le: "rune_cut s k \<le> k"
proof (induction k rule: less_induct)
  case (less k)
  show ?case using less [of "k - 1"] by (subst rune_cut.simps) (auto intro: order_trans)
qed

lemma rune_cut_start: "rune_cut s k = 0 \<or> RuneStart (s ! rune_cut s k)"
proof (induction k rule: less_induct)
  case (less k)
  show ?case using less [of "k - 1"] by (subst (1 2) rune_cut.simps) auto
qed

lemma rune_start_boundary:
  assumes "list_all is_rune rs" "k < length (concat rs)" "RuneStart (concat rs ! k)"
  shows "\<exists>j. take k (concat rs) = concat (take j rs)"
  using assms
proof (induction rs arbitrary: k)
  case (Cons r rs)
  show ?case
  proof (cases "k < length r")
    case True
    then have "RuneStart (r ! k)" using Cons(4) by (simp add: nth_append)
    moreover have "\<not> RuneStart (r ! Suc i)" if "Suc i < length r" for i
      using Cons(2) that by (cases r) (auto simp: is_rune_def list_all_iff)
    ultimately have "k = 0" using True by (cases k) auto
    then show ?thesis by (intro exI [of _ 0]) simp
  next
    case False
    then have "\<exists>j. take (k - length r) (concat rs) = concat (take j rs)" using Cons by (intro Cons(1)) (auto simp: nth_append)
    then obtain j where "take (k - length r) (concat rs) = concat (take j rs)" by blast
    then show ?thesis using False by (intro exI [of _ "Suc j"]) simp
  qed
qed simp

text \<open>A message is cut at a rune, to at most the given length.\<close>

lemma truncateMsg_runes:
  assumes "list_all is_rune rs"
  shows "length (truncateMsg (concat rs) n) \<le> n \<and> (\<exists>j. truncateMsg (concat rs) n = concat (take j rs))"
proof (cases "length (concat rs) \<le> n")
  case True
  then show ?thesis by (auto simp: truncateMsg_def intro: exI [of _ "length rs"])
next
  case False
  let ?k = "rune_cut (concat rs) n"
  have k: "?k \<le> n" "?k < length (concat rs)" using rune_cut_le [of "concat rs" n] False by simp_all
  have "\<exists>j. take ?k (concat rs) = concat (take j rs)"
  proof (cases "?k = 0")
    case True
    then show ?thesis by (intro exI [of _ 0]) simp
  next
    case nz: False
    then have "RuneStart (concat rs ! ?k)" using rune_cut_start [of "concat rs" n] by simp
    then show ?thesis by (rule rune_start_boundary [OF assms k(2)])
  qed
  then show ?thesis using False k by (auto simp: truncateMsg_def)
qed

section \<open>Statuses\<close>

text \<open>
  A finished task stays finished; and a task that only resolves or downloads cannot be completed, which the streaming
  handlers, which skip the check and the organising, ask for.
\<close>

lemma finished_stays:
  "tk_Status t \<in> {StatusCompleted, StatusFailed, StatusCancelled} \<Longrightarrow> Transition now to t = (Some (NoTransitions (tk_Status t)), t)"
  by (auto simp: Transition_def)

lemma stream_completion_refused:
  "tk_Status t \<in> {StatusResolving, StatusDownloading} \<Longrightarrow>
     Transition now StatusCompleted t = (Some (InvalidTransition (tk_Status t) StatusCompleted), t)"
  by (auto simp: Transition_def)

lemma claimed_failure_refused:
  "tk_Status t = StatusClaimed \<Longrightarrow> Transition now StatusFailed t = (Some (InvalidTransition StatusClaimed StatusFailed), t)"
  by (simp add: Transition_def)

end
