(* ===== verification/Engine_Manager.thy ===== *)
theory Engine_Manager
  imports Engine_Process Engine_Queue
begin

text \<open>
  The handlers of the manager (\<open>internal/engine/manager.go\<close>) as whole operations: \<open>Submit\<close>, \<open>CancelTask\<close>,
  \<open>PauseTask\<close>, \<open>CancelAndDeleteFiles\<close>, \<open>DropResume\<close> and \<open>Shutdown\<close>'s first steps, over the slots
  (\<open>Engine_Queue\<close>), the tasks, the resume store (\<open>Agent_Store\<close>), the set of paused tasks and the storage cooldown. Each
  handler runs here without interleaving; how its parts interleave with the tasks is the matter of \<open>Engine_Queue\<close> and
  \<open>Engine_Process\<close>.
\<close>

text \<open>What a handler asks of the downloader of the task's resolved method.\<close>

datatype dl_call = DlPause DownloadMethod bytes | DlCancel DownloadMethod bytes

record manager =
  mn_slots :: slot_sys
  mn_tasks :: "(bytes \<times> task) list" \<comment> \<open>the tasks \<open>active\<close> maps to\<close>
  mn_toks :: "(bytes \<times> nat) list" \<comment> \<open>the submissions \<open>cancels\<close> cancels\<close>
  mn_store :: "active_task_store option"
  mn_paused :: "bytes list"
  mn_storageFailedAt :: "(bytes \<times> int) list"
  mn_recent :: "status_update list"
  mn_calls :: "dl_call list" \<comment> \<open>in the order they were made\<close>

record handler_env =
  he_now :: int
  he_write :: write_env
  he_oor :: "rat \<Rightarrow> int"
  he_downloaders :: "DownloadMethod list" \<comment> \<open>the methods with a downloader\<close>

section \<open>Parts\<close>

text \<open>The goroutines that a handler leaves to run at once: the append to the line, its dispatch, and the forgetting of dropped tasks.\<close>

fun run_forgets :: "queue_thread list \<Rightarrow> slot_sys \<Rightarrow> slot_sys" where
  "run_forgets [] s = s"
| "run_forgets (TForget i # ts) s = run_forgets ts (forgetActive i s)"
| "run_forgets (t # ts) s = (let s' = run_forgets ts s in s'\<lparr>q_threads := t # q_threads s'\<rparr>)"

definition run_threads :: "slot_sys \<Rightarrow> slot_sys" where
  "run_threads s = run_forgets (q_threads s) (s\<lparr>q_threads := []\<rparr>)"

definition enqueue_and_dispatch :: "queued_task \<Rightarrow> slot_sys \<Rightarrow> slot_sys" where
  "enqueue_and_dispatch q s = run_threads (dispatch 0 (slot_enqueue q s))"

definition clearPaused :: "bytes \<Rightarrow> manager \<Rightarrow> manager" where
  "clearPaused i m = m\<lparr>mn_paused := removeAll i (mn_paused m)\<rparr>"

definition RestorePaused :: "bytes \<Rightarrow> manager \<Rightarrow> manager" where
  "RestorePaused i m = m\<lparr>mn_paused := List.insert i (mn_paused m)\<rparr>"

definition isPaused :: "bytes \<Rightarrow> manager \<Rightarrow> bool" where
  "isPaused i m \<longleftrightarrow> i \<in> set (mn_paused m)"

definition on_store :: "(active_task_store \<Rightarrow> active_task_store) \<Rightarrow> manager \<Rightarrow> manager" where
  "on_store f m = m\<lparr>mn_store := map_option f (mn_store m)\<rparr>"

definition markPaused :: "handler_env \<Rightarrow> bytes \<Rightarrow> manager \<Rightarrow> manager" where
  "markPaused env i m = on_store (store_SetPaused (he_write env) i True) (RestorePaused i m)"

definition DropResume :: "handler_env \<Rightarrow> bytes \<Rightarrow> manager \<Rightarrow> manager" where
  "DropResume env i m = clearPaused i (on_store (store_Remove (he_write env) i) m)"

definition recordFinished :: "handler_env \<Rightarrow> bool \<Rightarrow> task \<Rightarrow> manager \<Rightarrow> manager" where
  "recordFinished env keepResume t m =
     (let keep = keepResume \<or> isPaused (tk_ID t) m;
          m1 = (if \<not> q_shuttingDown (mn_slots m) \<and> \<not> keep then on_store (store_Remove (he_write env) (tk_ID t)) m else m);
          recent = mn_recent m1 @ [ToStatusUpdate (he_oor env) t]
      in m1\<lparr>mn_recent := (if 20 < length recent then drop (length recent - 20) recent else recent)\<rparr>)"

text \<open>\<open>forgetActive\<close> also drops the entries of the two maps.\<close>

definition prune :: "manager \<Rightarrow> manager" where
  "prune m = m\<lparr>mn_tasks := filter (\<lambda>(i, _). i \<in> set (q_active (mn_slots m))) (mn_tasks m),
     mn_toks := filter (\<lambda>(i, _). i \<in> set (q_active (mn_slots m))) (mn_toks m)\<rparr>"

section \<open>Submit\<close>

text \<open>Which tasks are persisted: downloads that do not replace a file.\<close>

definition persisted :: "agent_task \<Rightarrow> bool" where
  "persisted a \<longleftrightarrow> (at_Mode a = [] \<or> at_Mode a = str ''download'') \<and> at_ReplacePath a = []"

definition SubmitTask :: "handler_env \<Rightarrow> agent_task \<Rightarrow> manager \<Rightarrow> manager" where
  "SubmitTask env a m =
     (if q_shuttingDown (mn_slots m) then m
      else
        let (cooling, sf) = (if at_ForceStart a then (False, mn_storageFailedAt m)
              else inStorageCooldown (he_now env) (at_ID a) (mn_storageFailedAt m));
            m = m\<lparr>mn_storageFailedAt := sf\<rparr>
        in if cooling then m
           else if at_ID a \<in> set (q_active (mn_slots m)) then m
           else
             let tok = q_next (mn_slots m);
                 m1 = clearPaused (at_ID a) (m\<lparr>mn_slots := Submit (at_ID a) (at_ForceStart a) (mn_slots m),
                   mn_tasks := AList.update (at_ID a) (NewTaskFromAgent (he_now env) a) (mn_tasks m),
                   mn_toks := AList.update (at_ID a) tok (mn_toks m)\<rparr>);
                 m2 = (if persisted a then on_store (store_Add (he_write env) (he_now env) (a\<lparr>at_ResumePaused := False\<rparr>)) m1 else m1)
             in if at_ForceStart a then m2
                else prune (m2\<lparr>mn_slots := enqueue_and_dispatch \<lparr>qt_ID = at_ID a, qt_tok = tok\<rparr>
                  ((mn_slots m2)\<lparr>q_threads := tl (q_threads (mn_slots m2))\<rparr>)\<rparr>))"

section \<open>Cancel and pause\<close>

text \<open>
  What the three handlers share once the resume entry is settled: out of the line, the context cancelled, the downloader told,
  the status.
\<close>

definition tell_downloader :: "handler_env \<Rightarrow> (DownloadMethod \<Rightarrow> bytes \<Rightarrow> dl_call) \<Rightarrow> bytes \<Rightarrow> task \<Rightarrow> manager \<Rightarrow> manager" where
  "tell_downloader env call i t m =
     (if tk_ResolvedMethod t \<in> set (he_downloaders env) then m\<lparr>mn_calls := mn_calls m @ [call (tk_ResolvedMethod t) i]\<rparr> else m)"

definition stop_task :: "handler_env \<Rightarrow> (DownloadMethod \<Rightarrow> bytes \<Rightarrow> dl_call) \<Rightarrow> bytes option \<Rightarrow> bytes \<Rightarrow> task \<Rightarrow> manager \<Rightarrow> manager" where
  "stop_task env call msg i t m =
     (case dequeue i (mn_slots m) of
        (queued, sl) \<Rightarrow>
          let sl1 = (if queued then run_threads sl else sl);
              sl2 = (case map_of (mn_toks m) i of Some tok \<Rightarrow> sl1\<lparr>q_ctxErr := tok # q_ctxErr sl1\<rparr> | None \<Rightarrow> sl1);
              t1 = (case msg of Some e \<Rightarrow> t\<lparr>tk_ErrorMessage := e\<rparr> | None \<Rightarrow> t);
              t2 = snd (Transition (he_now env) StatusCancelled t1);
              m1 = tell_downloader env call i t (m\<lparr>mn_slots := sl2\<rparr>)
          in if queued then recordFinished env True t2 (prune m1)
             else m1\<lparr>mn_tasks := AList.update i t2 (mn_tasks m)\<rparr>)"

definition active_task :: "bytes \<Rightarrow> manager \<Rightarrow> task option" where
  "active_task i m = (if i \<in> set (q_active (mn_slots m)) then map_of (mn_tasks m) i else None)"

definition CancelTask :: "handler_env \<Rightarrow> bytes \<Rightarrow> manager \<Rightarrow> bool \<times> manager" where
  "CancelTask env i m =
     (case active_task i m of
        None \<Rightarrow> (False, m)
      | Some t \<Rightarrow>
          (True, stop_task env DlPause (Some (str ''cancelled by user'')) i t (on_store (store_Remove (he_write env) i) (clearPaused i m))))"

definition PauseTask :: "handler_env \<Rightarrow> bytes \<Rightarrow> manager \<Rightarrow> bool \<times> manager" where
  "PauseTask env i m =
     (case active_task i m of
        None \<Rightarrow> (False, m)
      | Some t \<Rightarrow> (True, stop_task env DlPause None i t (markPaused env i m)))"

definition CancelAndDeleteFiles :: "handler_env \<Rightarrow> bytes \<Rightarrow> manager \<Rightarrow> bool \<times> manager" where
  "CancelAndDeleteFiles env i m =
     (case active_task i m of
        None \<Rightarrow> (False, m)
      | Some t \<Rightarrow>
          (True, stop_task env DlCancel (Some (str ''cancelled by user'')) i t (on_store (store_Remove (he_write env) i) (clearPaused i m))))"

text \<open>\<open>Shutdown\<close> up to the wait: no more starts, the line emptied, every context cancelled.\<close>

definition Shutdown :: "manager \<Rightarrow> manager" where
  "Shutdown m =
     (let sl = run_threads (drainQueue ((mn_slots m)\<lparr>q_shuttingDown := True\<rparr>))
      in (prune (m\<lparr>mn_slots := sl\<lparr>q_ctxErr := map snd (mn_toks m) @ q_ctxErr sl\<rparr>\<rparr>))\<lparr>mn_toks := []\<rparr>)"

end
