(* ===== verification/Engine_Manager_Props.thy ===== *)
theory Engine_Manager_Props
  imports Engine_Manager
begin

text \<open>
  What the user asks for outlives the daemon: a paused download comes back paused, a cancelled one does not come back, and
  a retry right after a cancel is accepted with a resume entry of its own.
\<close>

section \<open>The resume store under the handlers\<close>

lemma recordFinished_store [simp]: "mn_store (recordFinished env True t m) = mn_store m"
  by (simp add: recordFinished_def Let_def)

lemma prune_simps [simp]: "mn_store (prune m) = mn_store m" "mn_slots (prune m) = mn_slots m" "mn_paused (prune m) = mn_paused m"
  "mn_storageFailedAt (prune m) = mn_storageFailedAt m"
  by (simp_all add: prune_def)

lemma recordFinished_slots [simp]: "mn_slots (recordFinished env keep t m) = mn_slots m"
  "mn_storageFailedAt (recordFinished env keep t m) = mn_storageFailedAt m"
  by (simp_all add: recordFinished_def Let_def on_store_def)

lemma tell_downloader_simps [simp]: "mn_store (tell_downloader env c i t m) = mn_store m" "mn_slots (tell_downloader env c i t m) = mn_slots m"
  by (simp_all add: tell_downloader_def)

lemma stop_task_store [simp]: "mn_store (stop_task env c msg i t m) = mn_store m"
  by (simp add: stop_task_def Let_def split: prod.split option.split)

lemma PauseTask_store:
  assumes "i \<in> set (q_active (mn_slots m))" "map_of (mn_tasks m) i = Some t"
  shows "mn_store (snd (PauseTask env i m)) = map_option (store_SetPaused (he_write env) i True) (mn_store m)"
  using assms by (simp add: PauseTask_def active_task_def markPaused_def RestorePaused_def on_store_def)

lemma CancelTask_store:
  assumes "i \<in> set (q_active (mn_slots m))" "map_of (mn_tasks m) i = Some t"
  shows "mn_store (snd (CancelTask env i m)) = map_option (store_Remove (he_write env) i) (mn_store m)"
  using assms by (simp add: CancelTask_def active_task_def clearPaused_def on_store_def)

text \<open>Every successful write is loaded by the next start.\<close>

definition restart :: "active_task_store \<Rightarrow> agent_task list" where
  "restart st = fst (store_Load (NewActiveTaskStore (as_file st)))"

lemma restart_flush:
  assumes "entries_ok s" "store_Get s [] = None" "\<And>xs. mset (ord xs) = mset xs"
  shows "set (restart (store_flush (True, ord) s)) = snd ` set (as_tasks s) \<and> sorted (map resume_key (restart (store_flush (True, ord) s)))"
proof -
  obtain out s' where l: "store_Load (NewActiveTaskStore (as_file (store_flush (True, ord) s))) = (out, s')" by fastforce
  have o: "sorted (map resume_key out)" "mset out = mset (map snd (as_tasks s))" using Load_flush [OF assms(1,2) _ l] assms(3) by simp_all
  have "restart (store_flush (True, ord) s) = out" by (simp only: restart_def l fst_conv)
  then show ?thesis using o(1) mset_eq_setD [OF o(2)] by simp
qed

lemma entry_in_tasks: "entries_ok s \<Longrightarrow> store_Get s i = Some a \<longleftrightarrow> a \<in> snd ` set (as_tasks s) \<and> at_ID a = i"
  unfolding entries_ok_def store_Get_def by (force simp: list_all_iff dest: map_of_SomeD)

lemma restart_pause:
  assumes "entries_ok st" "store_Get st [] = None" "\<And>xs. mset (ord xs) = mset xs" "store_Get st i = Some a" "\<not> at_ResumePaused a"
  shows "a\<lparr>at_ResumePaused := True\<rparr> \<in> set (restart (store_SetPaused (True, ord) i True st))"
proof -
  let ?s = "st\<lparr>as_tasks := AList.update i (a\<lparr>at_ResumePaused := True\<rparr>) (as_tasks st)\<rparr>"
  have i: "at_ID a = i" using store_Get_ID [OF assms(1,4)] .
  have ok: "entries_ok ?s" using assms(1) i by (intro entries_ok_update) simp_all
  have g: "store_Get ?s j = (if j = i then Some (a\<lparr>at_ResumePaused := True\<rparr>) else store_Get st j)" for j
    by (simp add: store_Get_def update_conv')
  have "i \<noteq> []" using assms(2,4) by auto
  then have "store_Get ?s [] = None" using g assms(2) by simp
  then have "set (restart (store_flush (True, ord) ?s)) = snd ` set (as_tasks ?s)" using restart_flush [OF ok _ assms(3)] by blast
  moreover have "a\<lparr>at_ResumePaused := True\<rparr> \<in> snd ` set (as_tasks ?s)" using entry_in_tasks [OF ok] g [of i] by (metis (full_types))
  ultimately show ?thesis using assms(4,5) by (simp add: store_SetPaused_def)
qed

lemma restart_cancel:
  assumes "entries_ok st" "store_Get st [] = None" "\<And>xs. mset (ord xs) = mset xs" "store_Get st i = Some a"
  shows "i \<notin> at_ID ` set (restart (store_Remove (True, ord) i st))"
proof -
  let ?s = "st\<lparr>as_tasks := AList.delete i (as_tasks st)\<rparr>"
  have ok: "entries_ok ?s" using assms(1) by (rule entries_ok_delete)
  have g: "store_Get ?s j = (if j = i then None else store_Get st j)" for j by (simp add: store_Get_def delete_conv')
  have "set (restart (store_flush (True, ord) ?s)) = snd ` set (as_tasks ?s)" using restart_flush [OF ok _ assms(3)] g assms(2) by simp
  then show ?thesis using entry_in_tasks [OF ok, of i] g [of i] assms(4) by (auto simp: store_Remove_def)
qed

section \<open>Retry after a cancel\<close>

lemma run_forgets_keeps_gone: "i \<notin> set (q_active s) \<Longrightarrow> i \<notin> set (q_active (run_forgets ts s))"
  by (induction ts s rule: run_forgets.induct) (auto simp: forgetActive_def Let_def)

lemma run_forgets_forgets: "TForget i \<in> set ts \<Longrightarrow> i \<notin> set (q_active (run_forgets ts s))"
proof (induction ts s rule: run_forgets.induct)
  case (2 j ts s)
  have "j \<notin> set (q_active (run_forgets ts (forgetActive j s)))" by (rule run_forgets_keeps_gone) (simp add: forgetActive_def)
  then show ?case using 2 by (cases "i = j") auto
qed (auto simp: Let_def)

lemma run_forgets_shuttingDown [simp]: "q_shuttingDown (run_forgets ts s) = q_shuttingDown s"
  by (induction ts s rule: run_forgets.induct) (auto simp: forgetActive_def Let_def)

lemma dequeue_run_threads:
  assumes "dequeue i s = (True, s')"
  shows "i \<notin> set (q_active (run_threads s'))" "q_shuttingDown (run_threads s') = q_shuttingDown s"
  using assms run_forgets_forgets [of i "q_threads s'"] by (auto simp: dequeue_def run_threads_def split: option.splits)

lemma CancelTask_queued:
  assumes "active_task i m = Some t" "dequeue i (mn_slots m) = (True, s')"
  shows "i \<notin> set (q_active (mn_slots (snd (CancelTask env i m))))"
    "q_shuttingDown (mn_slots (snd (CancelTask env i m))) = q_shuttingDown (mn_slots m)"
    "mn_storageFailedAt (snd (CancelTask env i m)) = mn_storageFailedAt m"
  using assms dequeue_run_threads [OF assms(2)]
  by (simp_all add: CancelTask_def stop_task_def on_store_def clearPaused_def tell_downloader_def prune_def Let_def split: option.split)

text \<open>
  A queued task that is cancelled and submitted again at once is not taken for a duplicate: it is persisted anew, whatever the
  earlier submission left, unless the daemon shuts down or the task is in its storage cooldown.
\<close>

lemma retry_after_cancel:
  assumes "active_task (at_ID a) m = Some t" "dequeue (at_ID a) (mn_slots m) = (True, s')" "mn_store m = Some st"
    and "\<not> q_shuttingDown (mn_slots m)" "\<not> fst (inStorageCooldown (he_now env) (at_ID a) (mn_storageFailedAt m))" "persisted a"
  shows "\<exists>st' q. mn_store (SubmitTask env a (snd (CancelTask env (at_ID a) m))) = Some st' \<and>
    store_Get st' (at_ID a) = Some (a\<lparr>at_ResumePaused := False, at_QueuedAt := Some q\<rparr>)"
proof -
  let ?m = "snd (CancelTask env (at_ID a) m)"
  note c = CancelTask_queued [OF assms(1,2), of env]
  have "mn_store ?m = Some (store_Remove (he_write env) (at_ID a) st)"
    using assms(1,3) CancelTask_store [of "at_ID a" m t env] by (auto simp: active_task_def split: if_splits)
  then have "mn_store (SubmitTask env a ?m) =
      Some (store_Add (he_write env) (he_now env) (a\<lparr>at_ResumePaused := False\<rparr>) (store_Remove (he_write env) (at_ID a) st))"
    using c assms(4-6) by (cases "inStorageCooldown (he_now env) (at_ID a) (mn_storageFailedAt m)")
      (simp add: SubmitTask_def on_store_def clearPaused_def Let_def)
  then show ?thesis
    using store_Get_Add [of "he_write env" "he_now env" "a\<lparr>at_ResumePaused := False\<rparr>" "store_Remove (he_write env) (at_ID a) st" "at_ID a"] by auto
qed

section \<open>Properties\<close>


definition sample_task :: agent_task where
  "sample_task = \<lparr>at_ID = [49], at_InfoHash = [97], at_PreferredMethod = [], at_Mode = [], at_DirectURL = [], at_DirectFileName = [],
     at_DirectFileSize = 0, at_NzbID = [], at_NzbPassword = [], at_ReplacePath = [], at_ForceStart = False, at_SourceSet = None,
     at_ResumePaused = False, at_QueuedAt = Some 5\<rparr>"

definition empty_manager :: manager where
  "empty_manager = \<lparr>mn_slots = NewManager 1, mn_tasks = [], mn_toks = [], mn_store = Some (NewActiveTaskStore None), mn_paused = [],
     mn_storageFailedAt = [], mn_recent = [], mn_calls = []\<rparr>"

definition sample_henv :: handler_env where
  "sample_henv = \<lparr>he_now = 7, he_write = (True, id), he_oor = (\<lambda>_. 0), he_downloaders = [MethodTorrent]\<rparr>"

definition sample_manager :: manager where
  "sample_manager = SubmitTask sample_henv sample_task empty_manager"

lemma sample_manager_state:
  "mn_store sample_manager = Some \<lparr>as_tasks = [([49], sample_task)], as_file = Some [sample_task]\<rparr>"
  "[49] \<in> set (q_active (mn_slots sample_manager))" "map_of (mn_tasks sample_manager) [49] \<noteq> None"
  by code_simp+


end
