(* ===== verification/Stream_Arrival.thy ===== *)
theory Stream_Arrival
  imports Yenc_Props
begin

text \<open>
  Articles that are served while they arrive, \<open>internal/usenet/stream/arriving.go\<close>, with the parts of \<open>fetch.go\<close> that
  drive it: a fetch decodes the body in place as it is read and publishes the decoded front to the arrival of its flight, from
  which readers copy. Arrays are numbered and kept in a memory of their own, since what is published is a part of the fetch's
  buffer: the buffer is recycled once the fetch is over, and may be overwritten by anyone. Every section under the arrival's
  mutex is a step of its own, so that several fetches of one article (retries and a hedge) and any number of readers
  interleave. The channel of waiting readers is the number of the last channel made and whether it is still open.
\<close>

section \<open>The arrival\<close>

record arrival =
  a_owner :: "nat option" \<comment> \<open>the number of the feed that publishes\<close>
  a_data :: "(nat \<times> nat) option" \<comment> \<open>an array and how many bytes of it; \<open>None\<close> is nil\<close>
  a_start :: int
  a_end :: int
  a_served :: bool
  a_closed :: bool
  a_tainted :: bool
  a_chan :: nat
  a_changed :: bool \<comment> \<open>whether channel \<open>a_chan\<close> has been made and is open\<close>

definition new_arrival :: arrival where
  "new_arrival = \<lparr>a_owner = None, a_data = None, a_start = 0, a_end = 0, a_served = False, a_closed = False, a_tainted = False,
     a_chan = 0, a_changed = False\<rparr>"

definition wakeLocked :: "arrival \<Rightarrow> arrival" where
  "wakeLocked a = (if a_changed a then a\<lparr>a_changed := False\<rparr> else a)"

definition publish :: "nat \<Rightarrow> nat \<times> nat \<Rightarrow> int \<Rightarrow> int \<Rightarrow> arrival \<Rightarrow> bool \<times> arrival" where
  "publish f data start stop a =
     (if a_closed a \<or> (a_owner a \<noteq> None \<and> a_owner a \<noteq> Some f) then (False, a)
      else (True, wakeLocked (a\<lparr>a_owner := Some f, a_data := Some data, a_start := start, a_end := stop\<rparr>)))"

definition withdraw :: "nat \<Rightarrow> arrival \<Rightarrow> arrival" where
  "withdraw f a =
     (if a_owner a \<noteq> Some f then a
      else
        let a1 = a\<lparr>a_data := None\<rparr>
        in wakeLocked (if a_served a1 then a1\<lparr>a_closed := True\<rparr> else a1\<lparr>a_owner := None\<rparr>))"

definition taint :: "nat \<Rightarrow> arrival \<Rightarrow> arrival" where
  "taint f a = (if a_owner a = Some f \<and> a_served a then a\<lparr>a_tainted := True\<rparr> else a)"

definition isTainted :: "arrival \<Rightarrow> bool" where
  "isTainted a = a_tainted a"

datatype arrivalState = arrivalServed | arrivalPending | arrivalClosed | arrivalOutside

text \<open>The published bytes, as the memory has them.\<close>

definition data_bytes :: "(nat \<Rightarrow> bytes) \<Rightarrow> arrival \<Rightarrow> bytes" where
  "data_bytes mem a = (case a_data a of None \<Rightarrow> [] | Some (b, n) \<Rightarrow> take n (mem b))"

text \<open>The bytes copied into a slice of \<open>k\<close> bytes, the state, and the channel to wait on.\<close>

definition copyAt :: "(nat \<Rightarrow> bytes) \<Rightarrow> int \<Rightarrow> nat \<Rightarrow> arrival \<Rightarrow> (bytes \<times> arrivalState \<times> nat option) \<times> arrival" where
  "copyAt mem pos k a =
     (let data = data_bytes mem a;
          pending = (if a_changed a then (([], arrivalPending, Some (a_chan a)), a)
            else (([], arrivalPending, Some (Suc (a_chan a))), a\<lparr>a_chan := Suc (a_chan a), a_changed := True\<rparr>))
      in if a_closed a then (([], arrivalClosed, None), a)
         else if a_owner a = None then pending
         else if pos < a_start a \<or> (0 < a_end a \<and> a_end a \<le> pos) then (([], arrivalOutside, None), a)
         else if pos - a_start a < int (length data) then
           ((take k (drop (nat (pos - a_start a)) data), arrivalServed, None), a\<lparr>a_served := True\<rparr>)
         else pending)"

section \<open>Feeds\<close>

record body_feed =
  bf_dec :: decoder
  bf_to :: bool \<comment> \<open>whether there is an arrival to publish to\<close>
  bf_live :: bool
  bf_fed :: nat
  bf_sent :: nat

definition arrivalPublishStep :: nat where
  "arrivalPublishStep = 64 * 1024"

definition arrivalFeedStep :: nat where
  "arrivalFeedStep = 16 * 1024"

definition newBodyFeed :: "bool \<Rightarrow> body_feed" where
  "newBodyFeed to = \<lparr>bf_dec = zero_decoder, bf_to = to, bf_live = to, bf_fed = 0, bf_sent = 0\<rparr>"

definition feed_stop :: "nat \<Rightarrow> body_feed \<times> arrival \<Rightarrow> body_feed \<times> arrival" where
  "feed_stop i = (\<lambda>(f, a). if bf_live f then (f\<lparr>bf_live := False\<rparr>, withdraw i a) else (f, a))"

text \<open>\<open>Line\<close> of feed \<open>i\<close>, on the body received so far, which lies in array \<open>b\<close>: the body as the decoder leaves it.\<close>

definition feed_Line :: "nat \<Rightarrow> nat \<Rightarrow> bytes \<Rightarrow> body_feed \<times> arrival \<Rightarrow> bytes \<times> body_feed \<times> arrival" where
  "feed_Line i b body = (\<lambda>(f, a).
     if \<not> bf_live f \<or> length body - bf_fed f < arrivalFeedStep then (body, f, a)
     else
       (case Feed (bf_dec f) body of
          (dec, body') \<Rightarrow>
            let f1 = f\<lparr>bf_fed := length body, bf_dec := dec\<rparr> in
            (case Progress dec of
               (start, stop, n, ok) \<Rightarrow>
                 if \<not> ok \<or> n - bf_sent f1 < arrivalPublishStep then (body', f1, a)
                 else
                   (case publish i (b, n) start stop a of
                      (False, a') \<Rightarrow> (body', feed_stop i (f1, a'))
                    | (True, a') \<Rightarrow> (body', f1\<lparr>bf_sent := n\<rparr>, a')))))"

text \<open>\<open>fail\<close> stops the feed and then, under the mutex again, taints; \<open>Restart\<close> also resets the decoder.\<close>

definition feed_taint :: "nat \<Rightarrow> body_feed \<times> arrival \<Rightarrow> body_feed \<times> arrival" where
  "feed_taint i = (\<lambda>(f, a). (f, if bf_to f then taint i a else a))"

definition feed_reset :: "body_feed \<Rightarrow> body_feed" where
  "feed_reset f = f\<lparr>bf_dec := zero_decoder, bf_fed := 0, bf_sent := 0\<rparr>"

section \<open>Fetches of one article\<close>

text \<open>Where a fetch stands: inside \<open>BodyInto\<close>, there between the two halves of a \<open>Restart\<close>, after it (with a body or an
  error), after \<open>stop\<close>, decoding, failed with its buffer given back, and over.\<close>

datatype fetch_pc =
    Receiving
  | Restarting
  | Returned bool
  | Stopped bool
  | Decoding
  | Broken
  | Over "part option"

record fetch =
  ft_feed :: body_feed
  ft_arrays :: "nat list" \<comment> \<open>the array of the body, then the ones it outgrew, at last the pooled buffer\<close>
  ft_pc :: fetch_pc

record arrival_sys =
  as_arr :: arrival
  as_fetches :: "fetch list"
  as_mem :: "nat \<Rightarrow> bytes"
  as_log :: "(nat \<times> int \<times> bytes) list" \<comment> \<open>what was served, from which fetch and at which file offset\<close>

definition start_sys :: "(nat \<Rightarrow> bytes) \<Rightarrow> arrival_sys" where
  "start_sys mem = \<lparr>as_arr = new_arrival, as_fetches = [], as_mem = mem, as_log = []\<rparr>"

definition holds_arrays :: "fetch \<Rightarrow> bool" where
  "holds_arrays t \<longleftrightarrow> (case ft_pc t of Broken \<Rightarrow> False | Over _ \<Rightarrow> False | _ \<Rightarrow> True)"

definition in_use :: "arrival_sys \<Rightarrow> nat \<Rightarrow> bool" where
  "in_use s b \<longleftrightarrow> (\<exists>t \<in> set (as_fetches s). holds_arrays t \<and> b \<in> set (ft_arrays t))"

text \<open>A fetch whose feed and arrival are changed by an operation, and that goes on to another point.\<close>

definition upd_fetch :: "nat \<Rightarrow> (body_feed \<times> arrival \<Rightarrow> body_feed \<times> arrival) \<Rightarrow> fetch_pc \<Rightarrow> arrival_sys \<Rightarrow> arrival_sys" where
  "upd_fetch i op pc s =
     (let t = as_fetches s ! i in
      case op (ft_feed t, as_arr s) of
        (f, a) \<Rightarrow> s\<lparr>as_arr := a, as_fetches := (as_fetches s)[i := t\<lparr>ft_feed := f, ft_pc := pc\<rparr>]\<rparr>)"

text \<open>A line is appended to the body and reported.\<close>

definition receive :: "nat \<Rightarrow> bytes \<Rightarrow> arrival_sys \<Rightarrow> arrival_sys" where
  "receive i bs s =
     (let t = as_fetches s ! i; b = hd (ft_arrays t) in
      case feed_Line i b (as_mem s b @ bs) (ft_feed t, as_arr s) of
        (body, f, a) \<Rightarrow>
          s\<lparr>as_arr := a, as_fetches := (as_fetches s)[i := t\<lparr>ft_feed := f\<rparr>], as_mem := (as_mem s)(b := body)\<rparr>)"

definition set_pc :: "nat \<Rightarrow> fetch_pc \<Rightarrow> arrival_sys \<Rightarrow> arrival_sys" where
  "set_pc i pc s = s\<lparr>as_fetches := (as_fetches s)[i := (as_fetches s ! i)\<lparr>ft_pc := pc\<rparr>]\<rparr>"

definition set_arrays :: "nat \<Rightarrow> nat list \<Rightarrow> arrival_sys \<Rightarrow> arrival_sys" where
  "set_arrays i bs s = s\<lparr>as_fetches := (as_fetches s)[i := (as_fetches s ! i)\<lparr>ft_arrays := bs\<rparr>]\<rparr>"

definition write_array :: "nat \<Rightarrow> bytes \<Rightarrow> arrival_sys \<Rightarrow> arrival_sys" where
  "write_array b bs s = s\<lparr>as_mem := (as_mem s)(b := bs)\<rparr>"

definition serve :: "int \<Rightarrow> nat \<Rightarrow> arrival_sys \<Rightarrow> arrival_sys" where
  "serve pos k s =
     (case copyAt (as_mem s) pos k (as_arr s) of
        ((bs, st, ch), a) \<Rightarrow>
          s\<lparr>as_arr := a, as_log := (if st = arrivalServed then (the (a_owner a), pos, bs) # as_log s else as_log s)\<rparr>)"

text \<open>
  The steps: a fetch begins with a buffer of the pool; a line arrives; the body moves to a larger array; \<open>BodyInto\<close> retries;
  it returns; \<open>fetchBody\<close> stops the feed and gives the buffer back when the body failed or does not live in it;
  \<open>keepDecoded\<close> decodes; a failed attempt ends with \<open>fail\<close>; a reader copies; and others write to arrays that
  no fetch holds.
\<close>

inductive arr_step :: "arrival_sys \<Rightarrow> arrival_sys \<Rightarrow> bool" where
  begins: "\<not> in_use s b \<Longrightarrow>
    arr_step s (write_array b [] (s\<lparr>as_fetches := as_fetches s @ [\<lparr>ft_feed = newBodyFeed to, ft_arrays = [b], ft_pc = Receiving\<rparr>]\<rparr>))"
| line: "i < length (as_fetches s) \<Longrightarrow> ft_pc (as_fetches s ! i) = Receiving \<Longrightarrow> arr_step s (receive i bs s)"
| grow: "i < length (as_fetches s) \<Longrightarrow> ft_pc (as_fetches s ! i) = Receiving \<Longrightarrow> \<not> in_use s b \<Longrightarrow>
    arr_step s (write_array b (as_mem s (hd (ft_arrays (as_fetches s ! i)))) (set_arrays i (b # ft_arrays (as_fetches s ! i)) s))"
| restart_stop: "i < length (as_fetches s) \<Longrightarrow> ft_pc (as_fetches s ! i) = Receiving \<Longrightarrow> arr_step s (upd_fetch i (feed_stop i) Restarting s)"
| restart_taint: "i < length (as_fetches s) \<Longrightarrow> ft_pc (as_fetches s ! i) = Restarting \<Longrightarrow> b = last (ft_arrays (as_fetches s ! i)) \<Longrightarrow>
    arr_step s (write_array b [] (set_arrays i [b] (upd_fetch i (apfst feed_reset \<circ> feed_taint i) Receiving s)))"
| returns: "i < length (as_fetches s) \<Longrightarrow> ft_pc (as_fetches s ! i) = Receiving \<Longrightarrow> arr_step s (set_pc i (Returned ok) s)"
| stops: "i < length (as_fetches s) \<Longrightarrow> ft_pc (as_fetches s ! i) = Returned ok \<Longrightarrow> arr_step s (upd_fetch i (feed_stop i) (Stopped ok) s)"
| gives_back: "i < length (as_fetches s) \<Longrightarrow> ft_pc (as_fetches s ! i) = Stopped False \<Longrightarrow> arr_step s (set_pc i Broken s)"
| keeps: "i < length (as_fetches s) \<Longrightarrow> ft_pc (as_fetches s ! i) = Stopped True \<Longrightarrow>
    arr_step s (set_arrays i [hd (ft_arrays (as_fetches s ! i))] (set_pc i Decoding s))"
| decoded: "i < length (as_fetches s) \<Longrightarrow> ft_pc (as_fetches s ! i) = Decoding \<Longrightarrow>
    Finish (bf_dec (ft_feed (as_fetches s ! i))) (as_mem s (hd (ft_arrays (as_fetches s ! i)))) = Inr p \<Longrightarrow> arr_step s (set_pc i (Over (Some p)) s)"
| corrupt: "i < length (as_fetches s) \<Longrightarrow> ft_pc (as_fetches s ! i) = Decoding \<Longrightarrow>
    Finish (bf_dec (ft_feed (as_fetches s ! i))) (as_mem s (hd (ft_arrays (as_fetches s ! i)))) = Inl err \<Longrightarrow> arr_step s (set_pc i Broken s)"
| fails: "i < length (as_fetches s) \<Longrightarrow> ft_pc (as_fetches s ! i) = Broken \<Longrightarrow>
    arr_step s (upd_fetch i (feed_taint i \<circ> feed_stop i) (Over None) s)"
| reads: "arr_step s (serve pos k s)"
| scribbles: "\<not> in_use s b \<Longrightarrow> arr_step s (write_array b bs s)"

inductive arr_reach :: "arrival_sys \<Rightarrow> bool" where
  init: "arr_reach (start_sys mem)"
| step: "arr_reach s \<Longrightarrow> arr_step s s' \<Longrightarrow> arr_reach s'"

end
