(* ===== verification/Stream_Arrival_Props.thy ===== *)
theory Stream_Arrival_Props
  imports Stream_Arrival
begin

text \<open>
  What readers are served while an article arrives: the published bytes are final, they are never read from a recycled buffer, and
  when the fetch that served them is over they are either bytes of the verified article or the arrival is tainted.
\<close>

section \<open>The front of a body is final\<close>

text \<open>Once the headers are read the place of the part is fixed and its data only grows.\<close>

definition placed :: "spec_state \<Rightarrow> bool" where
  "placed s \<longleftrightarrow> s_phase s = inData \<or> s_phase s = ended"

definition extends :: "spec_state \<Rightarrow> spec_state \<Rightarrow> bool" where
  "extends s s' \<longleftrightarrow> placed s' \<and> Begin (s_part s') = Begin (s_part s) \<and> End (s_part s') = End (s_part s) \<and>
     Size (s_part s') = Size (s_part s) \<and> (\<exists>x. s_data s' = s_data s @ x)"

lemma extends_trans: "extends s s' \<Longrightarrow> extends s' s'' \<Longrightarrow> extends s s''"
  by (auto simp: extends_def)

lemma extends_line: "placed s \<Longrightarrow> extends s (spec_line l s)"
  using envelope_trailer_frame [of "s_part s" "s_env s" l]
  by (auto simp: extends_def placed_def spec_line_def case_prod_beta)

lemma extends_fold: "placed s \<Longrightarrow> extends s (fold (spec_line \<circ> dropCR) ls s)"
proof (induction ls arbitrary: s)
  case (Cons l ls)
  have e: "extends s (spec_line (dropCR l) s)" by (rule extends_line [OF Cons.prems])
  then have "placed (spec_line (dropCR l) s)" by (simp add: extends_def)
  from extends_trans [OF e Cons.IH [OF this]] show ?case by simp
qed (simp add: extends_def)

lemma Progress_True:
  "Progress d = (st, en, n, True) \<longleftrightarrow>
     placed (dec_abs d body) \<and> n = d_w d \<and>
     (if Begin (d_part d) = 0 \<and> End (d_part d) = 0 then st = 0 \<and> en = Size (d_part d)
      else 1 \<le> Begin (d_part d) \<and> st = Begin (d_part d) - 1 \<and> en = End (d_part d))"
  by (auto simp: Progress_def placed_def dec_abs_def)

lemma Progress_le: "Progress d = (st, en, n, True) \<Longrightarrow> dec_inv d body \<Longrightarrow> n \<le> length body"
  by (auto simp: Progress_True [where body = body] dec_inv_def)

lemma Feed_Progress:
  assumes "dec_inv d body" "Progress d = (st, en, n, True)" "Feed d body = (d', body')"
  shows "\<exists>n'. Progress d' = (st, en, n', True) \<and> n \<le> n' \<and> take n body' = take n body"
proof -
  obtain ls r where sp: "split_nl (drop (d_pos d) body) = (ls, r)" by fastforce
  note f = Feed_correct [OF assms(1,3) sp]
  have "placed (dec_abs d body)" using assms(2) Progress_True by blast
  from extends_fold [OF this, of ls] f have e: "extends (dec_abs d body) (dec_abs d' body')" by simp
  have n: "n = d_w d" using assms(2) Progress_True by blast
  from e obtain x where x: "take (d_w d') body' = take (d_w d) body @ x" by (auto simp: extends_def dec_abs_def)
  have "d_w d \<le> length body" "d_w d' \<le> length body'" using assms(1) f by (auto simp: dec_inv_def)
  then have "d_w d \<le> d_w d'" "take (d_w d) body' = take (d_w d) body"
    using x by (metis append_eq_conv_conj le_add1 length_append length_take min_absorb2, metis x append_eq_conv_conj length_take min_absorb2 min.absorb1 take_take le_add1 length_append)
  moreover have "Progress d' = (st, en, d_w d', True)"
    using e assms(2) unfolding Progress_True [where body = body'] Progress_True [where body = body] by (auto simp: extends_def dec_abs_def)
  ultimately show ?thesis using n by blast
qed

lemma Finish_Progress:
  assumes "dec_inv d body" "Progress d = (st, en, n, True)" "0 < n" "Finish d body = Inr p"
  shows "st = Begin p - 1 \<and> n \<le> length (Data p) \<and> take n (Data p) = take n body"
proof -
  let ?s = "fold (spec_line \<circ> dropCR) (raw_lines (drop (d_pos d) body)) (dec_abs d body)"
  have pl: "placed (dec_abs d body)" and n: "n = d_w d" using assms(2) Progress_True by blast+
  have e: "extends (dec_abs d body) ?s" by (rule extends_fold [OF pl])
  obtain x where x: "s_data ?s = take n body @ x" using e n by (auto simp: extends_def dec_abs_def)
  have le: "n \<le> length body" using assms(1,2) by (blast intro: Progress_le)
  have "spec_result ?s = Inr p" using Finish_spec [OF assms(1)] assms(4) by simp
  then have p: "p = normalizeSinglePart ((s_part ?s)\<lparr>Data := s_data ?s\<rparr>)" by (auto simp: spec_result_def Let_def split: if_splits option.splits)
  have "Data p = s_data ?s" by (simp add: p normalizeSinglePart_def Let_def)
  moreover have "st = Begin p - 1"
    using e x le assms(2,3) unfolding Progress_True [where body = body] p by (auto simp: extends_def dec_abs_def normalizeSinglePart_def Let_def split: if_splits)
  ultimately show ?thesis using x le by simp
qed

section \<open>The invariant\<close>

definition body_of :: "(nat \<Rightarrow> bytes) \<Rightarrow> fetch \<Rightarrow> bytes" where
  "body_of mem t = mem (hd (ft_arrays t))"

definition fetch_ok :: "(nat \<Rightarrow> bytes) \<Rightarrow> fetch \<Rightarrow> bool" where
  "fetch_ok mem t \<longleftrightarrow> ft_arrays t \<noteq> [] \<and> (holds_arrays t \<longrightarrow> dec_inv (bf_dec (ft_feed t)) (body_of mem t)) \<and>
     (bf_live (ft_feed t) \<longrightarrow> bf_to (ft_feed t) \<and> (ft_pc t = Receiving \<or> (\<exists>ok. ft_pc t = Returned ok)))"

definition arrays_disjoint :: "fetch list \<Rightarrow> bool" where
  "arrays_disjoint fs \<longleftrightarrow> (\<forall>i < length fs. \<forall>j < length fs. i \<noteq> j \<longrightarrow> holds_arrays (fs ! i) \<longrightarrow> holds_arrays (fs ! j) \<longrightarrow>
     set (ft_arrays (fs ! i)) \<inter> set (ft_arrays (fs ! j)) = {})"

text \<open>What is published is a part of the decoded front of a fetch that still publishes.\<close>

definition front_of :: "(nat \<Rightarrow> bytes) \<Rightarrow> fetch \<Rightarrow> arrival \<Rightarrow> nat \<Rightarrow> nat \<Rightarrow> bool" where
  "front_of mem t a b n \<longleftrightarrow> bf_live (ft_feed t) \<and> b \<in> set (ft_arrays t) \<and>
     (\<exists>m. Progress (bf_dec (ft_feed t)) = (a_start a, a_end a, m, True) \<and> n \<le> m) \<and> take n (mem b) = take n (body_of mem t)"

definition data_ok :: "(nat \<Rightarrow> bytes) \<Rightarrow> fetch list \<Rightarrow> arrival \<Rightarrow> bool" where
  "data_ok mem fs a \<longleftrightarrow> (\<forall>b n. a_data a = Some (b, n) \<longrightarrow> (\<exists>i < length fs. a_owner a = Some i \<and> front_of mem (fs ! i) a b n))"

definition stretch :: "bytes \<Rightarrow> int \<Rightarrow> int \<Rightarrow> bytes \<Rightarrow> bool" where
  \<comment> \<open>\<open>bs\<close> is what \<open>data\<close>, which begins at file offset \<open>st\<close>, has at \<open>pos\<close>\<close>
  "stretch data st pos bs \<longleftrightarrow> st \<le> pos \<and> nat (pos - st) + length bs \<le> length data \<and> take (length bs) (drop (nat (pos - st)) data) = bs"

definition entry_ok :: "(nat \<Rightarrow> bytes) \<Rightarrow> fetch \<Rightarrow> int \<Rightarrow> bytes \<Rightarrow> bool" where
  "entry_ok mem t pos bs \<longleftrightarrow>
     (case ft_pc t of
        Broken \<Rightarrow> True
      | Over None \<Rightarrow> False
      | Over (Some p) \<Rightarrow> stretch (Data p) (Begin p - 1) pos bs
      | _ \<Rightarrow> \<exists>st en n. Progress (bf_dec (ft_feed t)) = (st, en, n, True) \<and> 0 < n \<and> stretch (take n (body_of mem t)) st pos bs)"

definition log_ok :: "(nat \<Rightarrow> bytes) \<Rightarrow> fetch list \<Rightarrow> arrival \<Rightarrow> (nat \<times> int \<times> bytes) list \<Rightarrow> bool" where
  "log_ok mem fs a log \<longleftrightarrow> (\<forall>i pos bs. (i, pos, bs) \<in> set log \<longrightarrow> i < length fs \<and> a_owner a = Some i \<and> a_served a \<and> bf_to (ft_feed (fs ! i)) \<and>
     (a_tainted a \<or> entry_ok mem (fs ! i) pos bs))"

definition arr_inv :: "arrival_sys \<Rightarrow> bool" where
  "arr_inv s \<longleftrightarrow> (\<forall>t \<in> set (as_fetches s). fetch_ok (as_mem s) t) \<and> arrays_disjoint (as_fetches s) \<and>
     data_ok (as_mem s) (as_fetches s) (as_arr s) \<and> log_ok (as_mem s) (as_fetches s) (as_arr s) (as_log s)"

lemma arr_inv_start: "arr_inv (start_sys mem)"
  by (simp add: arr_inv_def start_sys_def arrays_disjoint_def data_ok_def log_ok_def new_arrival_def)

text \<open>Writes to arrays that a fetch does not hold do not concern it.\<close>

lemma holds_live: "fetch_ok mem t \<Longrightarrow> bf_live (ft_feed t) \<Longrightarrow> holds_arrays t"
  by (auto simp: fetch_ok_def holds_arrays_def)

lemma fetch_ok_write: "fetch_ok mem t \<Longrightarrow> \<not> (holds_arrays t \<and> b \<in> set (ft_arrays t)) \<Longrightarrow> fetch_ok (mem(b := bs)) t"
  by (auto simp: fetch_ok_def body_of_def)

lemma entry_ok_write:
  "fetch_ok mem t \<Longrightarrow> \<not> (holds_arrays t \<and> b \<in> set (ft_arrays t)) \<Longrightarrow> entry_ok (mem(b := bs)) t pos xs = entry_ok mem t pos xs"
  by (auto simp: entry_ok_def fetch_ok_def body_of_def holds_arrays_def split: fetch_pc.split option.split)

lemma front_of_write:
  "fetch_ok mem t \<Longrightarrow> front_of mem t a b' n \<Longrightarrow> \<not> (holds_arrays t \<and> b \<in> set (ft_arrays t)) \<Longrightarrow> front_of (mem(b := bs)) t a b' n"
  using holds_live [of mem t] by (auto simp: front_of_def fetch_ok_def body_of_def)

lemma arr_inv_write:
  assumes "arr_inv s" "\<not> in_use s b"
  shows "arr_inv (write_array b bs s)"
proof -
  have u: "\<not> (holds_arrays t \<and> b \<in> set (ft_arrays t))" if "t \<in> set (as_fetches s)" for t using assms(2) that by (auto simp: in_use_def)
  have f: "fetch_ok (as_mem s) t" if "t \<in> set (as_fetches s)" for t using assms(1) that by (simp add: arr_inv_def)
  have "data_ok ((as_mem s)(b := bs)) (as_fetches s) (as_arr s)"
    using assms(1) front_of_write [OF f _ u] unfolding arr_inv_def data_ok_def by (meson nth_mem)
  moreover have "log_ok ((as_mem s)(b := bs)) (as_fetches s) (as_arr s) (as_log s)"
    using assms(1) entry_ok_write [OF f u] unfolding arr_inv_def log_ok_def by (auto simp: nth_mem)
  ultimately show ?thesis using assms(1) fetch_ok_write [OF f u] by (simp add: arr_inv_def write_array_def)
qed

lemma arrays_disjoint_upd:
  assumes "arrays_disjoint fs" "i < length fs"
    and "holds_arrays t \<Longrightarrow> holds_arrays (fs ! i) \<and> (\<forall>b \<in> set (ft_arrays t). b \<in> set (ft_arrays (fs ! i)))"
  shows "arrays_disjoint (fs[i := t])"
proof -
  have d: "set (ft_arrays t) \<inter> set (ft_arrays (fs ! j)) = {}" if "holds_arrays t" "holds_arrays (fs ! j)" "j < length fs" "j \<noteq> i" for j
    using assms that unfolding arrays_disjoint_def by fast
  show ?thesis unfolding arrays_disjoint_def
  proof (intro allI impI)
    fix j k
    assume a: "j < length (fs[i := t])" "k < length (fs[i := t])" "j \<noteq> k" "holds_arrays (fs[i := t] ! j)" "holds_arrays (fs[i := t] ! k)"
    then consider "j = i" "k \<noteq> i" | "k = i" "j \<noteq> i" | "j \<noteq> i" "k \<noteq> i" by blast
    then show "set (ft_arrays (fs[i := t] ! j)) \<inter> set (ft_arrays (fs[i := t] ! k)) = {}"
      by cases (use a d assms(1,2) in \<open>auto simp: arrays_disjoint_def Int_commute\<close>)
  qed
qed

text \<open>One fetch changes, together with the arrival.\<close>

lemma arr_inv_upd:
  assumes "arr_inv s" "i < length (as_fetches s)" "fetch_ok (as_mem s) t"
    and "holds_arrays t \<Longrightarrow> holds_arrays (as_fetches s ! i) \<and> (\<forall>b \<in> set (ft_arrays t). b \<in> set (ft_arrays (as_fetches s ! i)))"
    and "data_ok (as_mem s) ((as_fetches s)[i := t]) a" "log_ok (as_mem s) ((as_fetches s)[i := t]) a (as_log s)"
  shows "arr_inv (s\<lparr>as_arr := a, as_fetches := (as_fetches s)[i := t]\<rparr>)"
proof -
  have d: "arrays_disjoint (as_fetches s)" using assms(1) by (simp add: arr_inv_def)
  have "arrays_disjoint ((as_fetches s)[i := t])" by (rule arrays_disjoint_upd [OF d assms(2,4)])
  moreover have "\<forall>t' \<in> set ((as_fetches s)[i := t]). fetch_ok (as_mem s) t'"
    using assms(1,3) set_update_subset_insert [of "as_fetches s" i t] by (auto simp: arr_inv_def)
  ultimately show ?thesis using assms(5,6) by (simp add: arr_inv_def)
qed

section \<open>Every step keeps the invariant\<close>

lemma log_ok_upd:
  assumes "log_ok mem fs a log" "i < length fs" "bf_to (ft_feed t) = bf_to (ft_feed (fs ! i))"
    and "\<And>pos bs. entry_ok mem (fs ! i) pos bs \<Longrightarrow> entry_ok mem t pos bs"
  shows "log_ok mem (fs[i := t]) a log"
  using assms unfolding log_ok_def by (metis length_list_update nth_list_update)

lemma data_ok_upd:
  assumes "data_ok mem fs a" "i < length fs" "\<And>b n. front_of mem (fs ! i) a b n \<Longrightarrow> front_of mem t a b n"
  shows "data_ok mem (fs[i := t]) a"
  using assms unfolding data_ok_def by (metis length_list_update nth_list_update)

lemma wakeLocked_simps [simp]: "a_owner (wakeLocked a) = a_owner a" "a_data (wakeLocked a) = a_data a" "a_start (wakeLocked a) = a_start a"
  "a_end (wakeLocked a) = a_end a" "a_served (wakeLocked a) = a_served a" "a_closed (wakeLocked a) = a_closed a" "a_tainted (wakeLocked a) = a_tainted a"
  by (simp_all add: wakeLocked_def)

lemma data_ok_withdraw: "data_ok mem fs a \<Longrightarrow> data_ok mem (fs[i := t]) (withdraw i a)"
  unfolding data_ok_def front_of_def withdraw_def Let_def by (auto; metis nth_list_update_neq)

lemma log_ok_withdraw: "log_ok mem fs a log \<Longrightarrow> log_ok mem fs (withdraw i a) log"
  unfolding log_ok_def withdraw_def Let_def by auto

lemma data_ok_taint: "data_ok mem fs (taint i a) = data_ok mem fs a"
  by (simp add: data_ok_def front_of_def taint_def)

lemma log_ok_taint:
  assumes "log_ok mem fs a log" "i < length fs" "bf_to (ft_feed t) = bf_to (ft_feed (fs ! i))"
  shows "log_ok mem (fs[i := t]) (taint i a) log"
  using assms unfolding log_ok_def taint_def by (auto simp: nth_list_update)

lemma entry_ok_pc:
  "entry_ok mem t pos bs \<Longrightarrow> holds_arrays t \<Longrightarrow> holds_arrays t' \<Longrightarrow> bf_dec (ft_feed t') = bf_dec (ft_feed t) \<Longrightarrow> hd (ft_arrays t') = hd (ft_arrays t) \<Longrightarrow>
    entry_ok mem t' pos bs"
  by (auto simp: entry_ok_def holds_arrays_def body_of_def split: fetch_pc.splits)

lemma holds_pc [simp]: "ft_pc t = Receiving \<Longrightarrow> holds_arrays t" "ft_pc t = Restarting \<Longrightarrow> holds_arrays t" "ft_pc t = Returned ok \<Longrightarrow> holds_arrays t"
  "ft_pc t = Stopped ok \<Longrightarrow> holds_arrays t" "ft_pc t = Decoding \<Longrightarrow> holds_arrays t" "ft_pc t = Broken \<Longrightarrow> \<not> holds_arrays t" "ft_pc t = Over r \<Longrightarrow> \<not> holds_arrays t"
  by (simp_all add: holds_arrays_def)

text \<open>The ends of \<open>BodyInto\<close>, of the decoding, and the buffer's return.\<close>

lemma arr_inv_pc:
  assumes "arr_inv s" "i < length (as_fetches s)" "t = (as_fetches s ! i)\<lparr>ft_arrays := bs, ft_pc := pc\<rparr>"
    and "bs \<noteq> []" "hd bs = hd (ft_arrays (as_fetches s ! i))" "set bs \<subseteq> set (ft_arrays (as_fetches s ! i))" "holds_arrays (as_fetches s ! i)"
    and "bf_live (ft_feed (as_fetches s ! i)) \<Longrightarrow> (\<exists>ok. pc = Returned ok) \<and> bs = ft_arrays (as_fetches s ! i)"
    and "\<And>pos xs. entry_ok (as_mem s) (as_fetches s ! i) pos xs \<Longrightarrow> entry_ok (as_mem s) t pos xs"
  shows "arr_inv (s\<lparr>as_fetches := (as_fetches s)[i := t]\<rparr>)"
proof -
  have f: "fetch_ok (as_mem s) (as_fetches s ! i)" using assms(1,2) by (simp add: arr_inv_def)
  have "arr_inv (s\<lparr>as_arr := as_arr s, as_fetches := (as_fetches s)[i := t]\<rparr>)"
  proof (rule arr_inv_upd [OF assms(1,2)])
    show "fetch_ok (as_mem s) t" using f assms(3-8) by (auto simp: fetch_ok_def body_of_def)
    show "data_ok (as_mem s) ((as_fetches s)[i := t]) (as_arr s)"
      using assms(1,2,3,8) by (intro data_ok_upd) (auto simp: arr_inv_def front_of_def body_of_def)
    show "log_ok (as_mem s) ((as_fetches s)[i := t]) (as_arr s) (as_log s)"
      using assms(1,2,3,9) by (intro log_ok_upd) (auto simp: arr_inv_def)
  qed (use assms(3,6,7) in auto)
  then show ?thesis by simp
qed

text \<open>A stop withdraws what is published before the fetch goes on.\<close>

lemma feed_stop_arr: "feed_stop i (f, a) = (f\<lparr>bf_live := False\<rparr>, if bf_live f then withdraw i a else a)"
  by (simp add: feed_stop_def)

lemma arr_inv_stop:
  assumes "arr_inv s" "i < length (as_fetches s)" "holds_arrays (as_fetches s ! i)" "pc = Receiving \<or> pc = Restarting \<or> (\<exists>ok. pc = Stopped ok)"
  shows "arr_inv (upd_fetch i (feed_stop i) pc s)"
proof -
  let ?t = "as_fetches s ! i"
  let ?a = "if bf_live (ft_feed ?t) then withdraw i (as_arr s) else as_arr s"
  let ?t' = "?t\<lparr>ft_feed := (ft_feed ?t)\<lparr>bf_live := False\<rparr>, ft_pc := pc\<rparr>"
  have f: "fetch_ok (as_mem s) ?t" using assms(1,2) by (simp add: arr_inv_def)
  have h: "holds_arrays ?t'" using assms(4) by (auto simp: holds_arrays_def)
  have inv: "data_ok (as_mem s) (as_fetches s) (as_arr s)" "log_ok (as_mem s) (as_fetches s) (as_arr s) (as_log s)" using assms(1) by (simp_all add: arr_inv_def)
  have "arr_inv (s\<lparr>as_arr := ?a, as_fetches := (as_fetches s)[i := ?t']\<rparr>)"
  proof (rule arr_inv_upd [OF assms(1,2)])
    show "fetch_ok (as_mem s) ?t'" using f assms(3) by (auto simp: fetch_ok_def body_of_def)
    show "data_ok (as_mem s) ((as_fetches s)[i := ?t']) ?a"
      using data_ok_withdraw [OF inv(1)] data_ok_upd [OF inv(1) assms(2), of ?t'] by (auto simp: front_of_def)
    have "log_ok (as_mem s) (as_fetches s) ?a (as_log s)" using inv(2) log_ok_withdraw by simp
    then show "log_ok (as_mem s) ((as_fetches s)[i := ?t']) ?a (as_log s)"
      using assms(2,3) h by (intro log_ok_upd) (auto intro: entry_ok_pc)
  qed (use assms(3) in auto)
  then show ?thesis by (simp add: upd_fetch_def feed_stop_arr Let_def)
qed

text \<open>A fetch writes to an array of its own.\<close>

lemma arr_inv_body:
  assumes "arr_inv s" "i < length (as_fetches s)" "holds_arrays (as_fetches s ! i)" "b \<in> set (ft_arrays (as_fetches s ! i))"
    and "fetch_ok ((as_mem s)(b := body)) t" "set (ft_arrays t) \<subseteq> set (ft_arrays (as_fetches s ! i))"
    and "bf_to (ft_feed t) = bf_to (ft_feed (as_fetches s ! i))"
    and "\<And>b' n. front_of (as_mem s) (as_fetches s ! i) (as_arr s) b' n \<Longrightarrow> front_of ((as_mem s)(b := body)) t (as_arr s) b' n"
    and "\<And>pos xs. (i, pos, xs) \<in> set (as_log s) \<Longrightarrow> \<not> a_tainted (as_arr s) \<Longrightarrow> entry_ok (as_mem s) (as_fetches s ! i) pos xs \<Longrightarrow>
      entry_ok ((as_mem s)(b := body)) t pos xs"
  shows "arr_inv (s\<lparr>as_fetches := (as_fetches s)[i := t], as_mem := (as_mem s)(b := body)\<rparr>)"
proof -
  let ?fs = "as_fetches s" and ?mem = "(as_mem s)(b := body)"
  have f: "fetch_ok (as_mem s) (?fs ! j)" if "j < length ?fs" for j using assms(1) that by (simp add: arr_inv_def)
  have u: "\<not> (holds_arrays (?fs ! j) \<and> b \<in> set (ft_arrays (?fs ! j)))" if "j < length ?fs" "j \<noteq> i" for j
    using assms(1-4) that unfolding arr_inv_def arrays_disjoint_def by blast
  have "fetch_ok ?mem (?fs[i := t] ! j)" if "j < length ?fs" for j
    using that f u fetch_ok_write assms(5) by (cases "j = i") simp_all
  then have 1: "\<forall>x \<in> set (?fs[i := t]). fetch_ok ?mem x" by (metis in_set_conv_nth length_list_update)
  have 2: "arrays_disjoint (?fs[i := t])" using assms(1-3,6) by (intro arrays_disjoint_upd) (auto simp: arr_inv_def)
  have 3: "data_ok ?mem (?fs[i := t]) (as_arr s)" unfolding data_ok_def
  proof (intro allI impI)
    fix b' n assume "a_data (as_arr s) = Some (b', n)"
    then obtain j where j: "j < length ?fs" "a_owner (as_arr s) = Some j" "front_of (as_mem s) (?fs ! j) (as_arr s) b' n"
      using assms(1) by (auto simp: arr_inv_def data_ok_def)
    then have "front_of ?mem (?fs[i := t] ! j) (as_arr s) b' n" using f u front_of_write assms(8) by (cases "j = i") simp_all
    then show "\<exists>j < length (?fs[i := t]). a_owner (as_arr s) = Some j \<and> front_of ?mem (?fs[i := t] ! j) (as_arr s) b' n" using j by auto
  qed
  have 4: "log_ok ?mem (?fs[i := t]) (as_arr s) (as_log s)" unfolding log_ok_def
  proof (intro allI impI)
    fix j pos xs assume m: "(j, pos, xs) \<in> set (as_log s)"
    then have j: "j < length ?fs" "a_owner (as_arr s) = Some j" "a_served (as_arr s)" "bf_to (ft_feed (?fs ! j))"
      "a_tainted (as_arr s) \<or> entry_ok (as_mem s) (?fs ! j) pos xs" using assms(1) by (auto simp: arr_inv_def log_ok_def)
    have "a_tainted (as_arr s) \<or> entry_ok ?mem (?fs[i := t] ! j) pos xs"
      using j m assms(9) entry_ok_write [OF f u] by (cases "j = i") auto
    then show "j < length (?fs[i := t]) \<and> a_owner (as_arr s) = Some j \<and> a_served (as_arr s) \<and> bf_to (ft_feed (?fs[i := t] ! j)) \<and>
        (a_tainted (as_arr s) \<or> entry_ok ?mem (?fs[i := t] ! j) pos xs)" using j assms(2,7) by (cases "j = i") simp_all
  qed
  from 1 2 3 4 show ?thesis by (simp add: arr_inv_def)
qed

lemma arr_inv_taint: "arr_inv s \<Longrightarrow> arr_inv (s\<lparr>as_arr := taint i (as_arr s)\<rparr>)"
  using data_ok_taint by (auto simp: arr_inv_def log_ok_def taint_def)

lemma arr_inv_restart:
  assumes "arr_inv s" "i < length (as_fetches s)" "ft_pc (as_fetches s ! i) = Restarting" "b = last (ft_arrays (as_fetches s ! i))"
  shows "arr_inv (write_array b [] (set_arrays i [b] (upd_fetch i (apfst feed_reset \<circ> feed_taint i) Receiving s)))"
proof -
  let ?t = "as_fetches s ! i"
  let ?a = "if bf_to (ft_feed ?t) then taint i (as_arr s) else as_arr s"
  let ?s = "s\<lparr>as_arr := ?a\<rparr>"
  let ?t' = "?t\<lparr>ft_feed := feed_reset (ft_feed ?t), ft_pc := Receiving, ft_arrays := [b]\<rparr>"
  have f: "fetch_ok (as_mem s) ?t" using assms(1,2) by (simp add: arr_inv_def)
  have live: "\<not> bf_live (ft_feed ?t)" using f assms(3) by (auto simp: fetch_ok_def)
  have b: "b \<in> set (ft_arrays ?t)" using f assms(4) by (simp add: fetch_ok_def)
  have t: "a_tainted ?a" if "(i, pos, xs) \<in> set (as_log s)" for pos xs
    using assms(1) that by (auto simp: arr_inv_def log_ok_def taint_def)
  have inv: "arr_inv ?s" using assms(1) arr_inv_taint by simp
  have "arr_inv (?s\<lparr>as_fetches := (as_fetches ?s)[i := ?t'], as_mem := (as_mem ?s)(b := [])\<rparr>)"
  proof (rule arr_inv_body [OF inv])
    show "fetch_ok ((as_mem ?s)(b := [])) ?t'" using live by (simp add: fetch_ok_def feed_reset_def)
    show "entry_ok ((as_mem ?s)(b := [])) ?t' pos xs" if "(i, pos, xs) \<in> set (as_log ?s)" "\<not> a_tainted (as_arr ?s)" for pos xs
      using t [of pos xs] that by simp
  qed (use assms(2,3) live b in \<open>simp_all add: front_of_def feed_reset_def\<close>)
  then show ?thesis using assms(2)
    by (simp add: write_array_def set_arrays_def upd_fetch_def feed_taint_def Let_def)
qed

lemma arr_inv_fails:
  assumes "arr_inv s" "i < length (as_fetches s)" "ft_pc (as_fetches s ! i) = Broken"
  shows "arr_inv (upd_fetch i (feed_taint i \<circ> feed_stop i) (Over None) s)"
proof -
  let ?t = "as_fetches s ! i"
  let ?a = "if bf_to (ft_feed ?t) then taint i (as_arr s) else as_arr s"
  let ?t' = "?t\<lparr>ft_pc := Over None\<rparr>"
  have f: "fetch_ok (as_mem s) ?t" using assms(1,2) by (simp add: arr_inv_def)
  have live: "\<not> bf_live (ft_feed ?t)" using f assms(3) by (auto simp: fetch_ok_def)
  have inv: "data_ok (as_mem s) (as_fetches s) ?a" "log_ok (as_mem s) (as_fetches s) (as_arr s) (as_log s)"
    using assms(1) data_ok_taint by (simp_all add: arr_inv_def)
  have log: "log_ok (as_mem s) ((as_fetches s)[i := ?t']) ?a (as_log s)"
  proof (cases "bf_to (ft_feed ?t)")
    case True
    then show ?thesis using log_ok_taint [OF inv(2) assms(2), of ?t'] by simp
  next
    case False
    then show ?thesis using inv(2) assms(2) unfolding log_ok_def by (auto simp: nth_list_update)
  qed
  have "arr_inv (s\<lparr>as_arr := ?a, as_fetches := (as_fetches s)[i := ?t']\<rparr>)"
  proof (rule arr_inv_upd [OF assms(1,2) _ _ _ log])
    show "data_ok (as_mem s) ((as_fetches s)[i := ?t']) ?a" by (rule data_ok_upd [OF inv(1) assms(2)]) (simp add: front_of_def live)
  qed (use f live in \<open>simp_all add: fetch_ok_def\<close>)
  then show ?thesis using live by (auto simp: upd_fetch_def feed_stop_def feed_taint_def Let_def)
qed

text \<open>A fetch begins; its body moves to a larger array.\<close>

lemma data_ok_append: "data_ok mem fs a \<Longrightarrow> data_ok mem (fs @ ts) a"
  unfolding data_ok_def by (metis length_append nth_append trans_less_add1)

lemma log_ok_append: "log_ok mem fs a log \<Longrightarrow> log_ok mem (fs @ ts) a log"
  unfolding log_ok_def by (metis length_append nth_append trans_less_add1)

lemma arr_inv_begins:
  assumes "arr_inv s" "\<not> in_use s b"
  shows "arr_inv (write_array b [] (s\<lparr>as_fetches := as_fetches s @ [\<lparr>ft_feed = newBodyFeed to, ft_arrays = [b], ft_pc = Receiving\<rparr>]\<rparr>))"
proof -
  let ?t = "\<lparr>ft_feed = newBodyFeed to, ft_arrays = [b], ft_pc = Receiving\<rparr>"
  let ?s = "write_array b [] s"
  have inv: "arr_inv ?s" by (rule arr_inv_write [OF assms])
  have fs: "as_fetches ?s = as_fetches s" by (simp add: write_array_def)
  have "\<forall>t \<in> set (as_fetches ?s). holds_arrays t \<longrightarrow> b \<notin> set (ft_arrays t)" using assms(2) by (auto simp: in_use_def fs)
  then have "arrays_disjoint (as_fetches ?s @ [?t])" using inv unfolding arr_inv_def arrays_disjoint_def by (auto simp: nth_append less_Suc_eq)
  moreover have "fetch_ok (as_mem ?s) ?t" by (simp add: fetch_ok_def newBodyFeed_def)
  moreover have "data_ok (as_mem ?s) (as_fetches ?s @ [?t]) (as_arr ?s)"
    using inv data_ok_append by (auto simp: arr_inv_def)
  moreover have "log_ok (as_mem ?s) (as_fetches ?s @ [?t]) (as_arr ?s) (as_log ?s)"
    using inv log_ok_append by (auto simp: arr_inv_def)
  ultimately have "arr_inv (?s\<lparr>as_fetches := as_fetches ?s @ [?t]\<rparr>)" using inv by (simp add: arr_inv_def)
  then show ?thesis by (simp add: arr_inv_def write_array_def)
qed

lemma arr_inv_grow:
  assumes "arr_inv s" "i < length (as_fetches s)" "ft_pc (as_fetches s ! i) = Receiving" "\<not> in_use s b"
  shows "arr_inv (write_array b (as_mem s (hd (ft_arrays (as_fetches s ! i)))) (set_arrays i (b # ft_arrays (as_fetches s ! i)) s))"
proof -
  let ?t = "as_fetches s ! i"
  let ?t' = "?t\<lparr>ft_arrays := b # ft_arrays ?t\<rparr>"
  let ?s = "write_array b (as_mem s (hd (ft_arrays ?t))) s"
  have inv: "arr_inv ?s" by (rule arr_inv_write [OF assms(1,4)])
  have fs: "as_fetches ?s = as_fetches s" by (simp add: write_array_def)
  have f: "fetch_ok (as_mem ?s) ?t" using inv assms(2) by (simp add: arr_inv_def fs)
  have u: "holds_arrays t \<Longrightarrow> b \<notin> set (ft_arrays t)" if "t \<in> set (as_fetches s)" for t using assms(4) that by (auto simp: in_use_def)
  have h: "holds_arrays ?t" "holds_arrays ?t'" using assms(3) by simp_all
  have "hd (ft_arrays ?t) \<noteq> b" using f u [of ?t] h(1) assms(2) by (auto simp: fetch_ok_def)
  then have body: "body_of (as_mem ?s) ?t' = body_of (as_mem ?s) ?t" by (simp add: body_of_def write_array_def)
  have fr: "front_of (as_mem ?s) ?t' a b' n" if "front_of (as_mem ?s) ?t a b' n" for a b' n using that by (simp add: front_of_def body)
  have e: "entry_ok (as_mem ?s) ?t' pos xs" if "entry_ok (as_mem ?s) ?t pos xs" for pos xs
    using that assms(3) by (simp add: entry_ok_def body)
  have "arrays_disjoint ((as_fetches s)[i := ?t'])" unfolding arrays_disjoint_def
  proof (intro allI impI)
    fix j k
    assume a: "j < length ((as_fetches s)[i := ?t'])" "k < length ((as_fetches s)[i := ?t'])" "j \<noteq> k"
      "holds_arrays ((as_fetches s)[i := ?t'] ! j)" "holds_arrays ((as_fetches s)[i := ?t'] ! k)"
    then consider "j = i" "k \<noteq> i" | "k = i" "j \<noteq> i" | "j \<noteq> i" "k \<noteq> i" by blast
    then show "set (ft_arrays ((as_fetches s)[i := ?t'] ! j)) \<inter> set (ft_arrays ((as_fetches s)[i := ?t'] ! k)) = {}"
      by cases (use a u assms(1,2) h in \<open>auto simp: arr_inv_def arrays_disjoint_def Int_commute\<close>)
  qed
  moreover have "fetch_ok (as_mem ?s) ?t'" using f h by (auto simp: fetch_ok_def body)
  moreover have "data_ok (as_mem ?s) ((as_fetches s)[i := ?t']) (as_arr s)"
    using inv assms(2) fr by (intro data_ok_upd) (auto simp: arr_inv_def fs write_array_def)
  moreover have "log_ok (as_mem ?s) ((as_fetches s)[i := ?t']) (as_arr s) (as_log s)"
    using inv assms(2) e by (intro log_ok_upd) (auto simp: arr_inv_def write_array_def)
  ultimately show ?thesis
    using inv set_update_subset_insert [of "as_fetches s" i ?t'] unfolding arr_inv_def set_arrays_def write_array_def by auto
qed

text \<open>A reader copies.\<close>

lemma stretch_take:
  assumes "n \<le> m" "m \<le> length data" "st \<le> pos" "pos - st < int n" "bs = take k (drop (nat (pos - st)) (take n data))"
  shows "stretch (take m data) st pos bs"
proof -
  let ?o = "nat (pos - st)"
  have o: "?o < n" using assms(3,4) by linarith
  have l: "length bs = min k (n - ?o)" using assms(1,2,5) by simp
  have "take (length bs) (drop ?o (take m data)) = take (min (length bs) (m - ?o)) (drop ?o data)" by (simp add: drop_take)
  also have "\<dots> = take (min k (n - ?o)) (drop ?o data)" using l assms(1) by (simp add: min_def)
  also have "\<dots> = bs" using assms(5) by (simp add: drop_take)
  finally show ?thesis using l o assms(1-3) by (simp add: stretch_def)
qed

lemma arr_inv_serve:
  assumes "arr_inv s"
  shows "arr_inv (serve pos k s)"
proof -
  let ?a = "as_arr s" and ?mem = "as_mem s"
  obtain bs st ch a where c: "copyAt ?mem pos k ?a = ((bs, st, ch), a)" by (metis surj_pair)
  have inv: "data_ok ?mem (as_fetches s) ?a" "log_ok ?mem (as_fetches s) ?a (as_log s)" using assms by (simp_all add: arr_inv_def)
  have a: "a_owner a = a_owner ?a" "a_data a = a_data ?a" "a_start a = a_start ?a" "a_end a = a_end ?a" "a_tainted a = a_tainted ?a"
    "a_served ?a \<Longrightarrow> a_served a" "st = arrivalServed \<Longrightarrow> a_served a"
    using c by (auto simp: copyAt_def Let_def split: if_splits)
  have d: "data_ok ?mem (as_fetches s) a" using inv(1) a by (simp add: data_ok_def front_of_def)
  have l: "log_ok ?mem (as_fetches s) a (as_log s)" using inv(2) a by (simp add: log_ok_def)
  show ?thesis
  proof (cases "st = arrivalServed")
    case False
    then show ?thesis using assms d l c by (simp add: serve_def arr_inv_def)
  next
    case True
    then have s: "a_owner ?a \<noteq> None" "a_start ?a \<le> pos" "pos - a_start ?a < int (length (data_bytes ?mem ?a))"
      "bs = take k (drop (nat (pos - a_start ?a)) (data_bytes ?mem ?a))"
      using c by (auto simp: copyAt_def Let_def split: if_splits)
    then obtain b n where dt: "a_data ?a = Some (b, n)" by (auto simp: data_bytes_def split: option.splits)
    then obtain i m where i: "i < length (as_fetches s)" "a_owner ?a = Some i" "bf_live (ft_feed (as_fetches s ! i))"
      "Progress (bf_dec (ft_feed (as_fetches s ! i))) = (a_start ?a, a_end ?a, m, True)" "n \<le> m"
      "take n (?mem b) = take n (body_of ?mem (as_fetches s ! i))"
      using inv(1) by (auto simp: data_ok_def front_of_def)
    let ?t = "as_fetches s ! i"
    have f: "fetch_ok ?mem ?t" using assms i(1) by (simp add: arr_inv_def)
    then have "m \<le> length (body_of ?mem ?t)" using i holds_live [OF f i(3)] by (auto simp: fetch_ok_def intro: Progress_le)
    then have "stretch (take m (body_of ?mem ?t)) (a_start ?a) pos bs"
      using s i(5,6) dt by (intro stretch_take) (auto simp: data_bytes_def)
    moreover have "0 < m" using s(2,3) dt i(5) by (auto simp: data_bytes_def)
    ultimately have "entry_ok ?mem ?t pos bs" using i(3,4) f by (auto simp: entry_ok_def fetch_ok_def)
    then have "log_ok ?mem (as_fetches s) a ((i, pos, bs) # as_log s)" using l i f a True by (auto simp: log_ok_def fetch_ok_def)
    then show ?thesis using assms d c True a(1) i(2) by (simp add: serve_def arr_inv_def)
  qed
qed

text \<open>A line arrives: the decoder goes on where it stood, and what it has decoded may be published.\<close>

text \<open>The decoder and the body after some more of it was received and decoded.\<close>

definition goes_on :: "decoder \<Rightarrow> bytes \<Rightarrow> decoder \<Rightarrow> bytes \<Rightarrow> bool" where
  "goes_on d body d' body' \<longleftrightarrow> dec_inv d' body' \<and>
     (\<forall>st en n. Progress d = (st, en, n, True) \<longrightarrow> (\<exists>n'. Progress d' = (st, en, n', True) \<and> n \<le> n' \<and> take n body' = take n body))"

lemma goes_on_append: "dec_inv d body \<Longrightarrow> goes_on d body d (body @ bs)"
  using Progress_le by (auto simp: goes_on_def dec_inv_def)

lemma goes_on_Feed:
  assumes "dec_inv d body" "Feed d (body @ bs) = (d', body')"
  shows "goes_on d body d' body'"
proof -
  have inv: "dec_inv d (body @ bs)" using assms(1) by (simp add: dec_inv_def)
  have "dec_inv d' body'" by (rule yenc_dec.feed_inv [OF inv assms(2)])
  moreover have "\<exists>n'. Progress d' = (st, en, n', True) \<and> n \<le> n' \<and> take n body' = take n body" if "Progress d = (st, en, n, True)" for st en n
    using Feed_Progress [OF inv that assms(2)] Progress_le [OF that assms(1)] by simp
  ultimately show ?thesis by (simp add: goes_on_def)
qed

lemma stretch_more: "stretch (take n body) st pos bs \<Longrightarrow> n \<le> n' \<Longrightarrow> n' \<le> length body' \<Longrightarrow> take n body' = take n body \<Longrightarrow> stretch (take n' body') st pos bs"
proof -
  assume a: "stretch (take n body) st pos bs" "n \<le> n'" "n' \<le> length body'" "take n body' = take n body"
  let ?o = "nat (pos - st)"
  have b: "?o + length bs \<le> n" using a(1) by (simp add: stretch_def)
  have "take (length bs) (drop ?o (take n' body')) = take (length bs) (drop ?o (take n body'))"
    using b a(2) by (simp add: drop_take min_def)
  then show ?thesis using a b by (simp add: stretch_def)
qed

lemma arr_inv_goes_on:
  assumes "arr_inv s" "i < length (as_fetches s)" "ft_pc (as_fetches s ! i) = Receiving" "t = (as_fetches s ! i)\<lparr>ft_feed := f\<rparr>"
    and "bf_live f = bf_live (ft_feed (as_fetches s ! i))" "bf_to f = bf_to (ft_feed (as_fetches s ! i))" "b = hd (ft_arrays (as_fetches s ! i))"
    and "goes_on (bf_dec (ft_feed (as_fetches s ! i))) (as_mem s b) (bf_dec f) body"
  shows "arr_inv (s\<lparr>as_fetches := (as_fetches s)[i := t], as_mem := (as_mem s)(b := body)\<rparr>)"
proof (rule arr_inv_body [OF assms(1,2)])
  let ?t = "as_fetches s ! i" and ?mem = "(as_mem s)(b := body)"
  have f: "fetch_ok (as_mem s) ?t" using assms(1,2) by (simp add: arr_inv_def)
  have b: "body_of (as_mem s) ?t = as_mem s b" "body_of ?mem t = body" by (simp_all add: body_of_def assms(4,7))
  have t: "ft_feed t = f" "ft_pc t = Receiving" "ft_arrays t = ft_arrays ?t" by (simp_all add: assms(3,4))
  show "b \<in> set (ft_arrays ?t)" using f assms(7) by (simp add: fetch_ok_def)
  show "fetch_ok ?mem t" using f assms(5,6,8) by (auto simp: fetch_ok_def b t goes_on_def)
  show "front_of ?mem t (as_arr s) b' n" if "front_of (as_mem s) ?t (as_arr s) b' n" for b' n
  proof -
    from that obtain m where m: "Progress (bf_dec (ft_feed ?t)) = (a_start (as_arr s), a_end (as_arr s), m, True)" "n \<le> m"
      "take n (as_mem s b') = take n (as_mem s b)" "bf_live f" "b' \<in> set (ft_arrays ?t)" using assms(5) by (auto simp: front_of_def b)
    then obtain m' where m': "Progress (bf_dec f) = (a_start (as_arr s), a_end (as_arr s), m', True)" "m \<le> m'" "take m body = take m (as_mem s b)"
      using assms(8) by (auto simp: goes_on_def)
    then have "take n body = take n (as_mem s b)" using m(2) by (metis min_def take_take)
    then show ?thesis using m m' by (auto simp: front_of_def b t)
  qed
  show "entry_ok ?mem t pos xs" if e: "entry_ok (as_mem s) ?t pos xs" for pos xs
  proof -
    from e assms(3) obtain st en n where p: "Progress (bf_dec (ft_feed ?t)) = (st, en, n, True)" "0 < n" "stretch (take n (as_mem s b)) st pos xs"
      by (auto simp: entry_ok_def b)
    then obtain n' where n': "Progress (bf_dec f) = (st, en, n', True)" "n \<le> n'" "take n body = take n (as_mem s b)"
      using assms(8) by (auto simp: goes_on_def)
    have "n' \<le> length body" using Progress_le [OF n'(1)] assms(8) by (simp add: goes_on_def)
    then have "stretch (take n' body) st pos xs" using stretch_more p(3) n' by blast
    then show ?thesis using n' p(2) by (auto simp: entry_ok_def b t)
  qed
qed (use assms(3,4,6) in auto)

lemma log_ok_owner:
  assumes "log_ok mem fs a log" "a_owner a = None \<or> a_owner a = a_owner a'" "a_served a' = a_served a" "a_tainted a' = a_tainted a"
  shows "log_ok mem fs a' log"
proof -
  have "a_owner a' = Some i" if "(i, pos, bs) \<in> set log" for i pos bs using assms(1,2) that by (auto simp: log_ok_def)
  then show ?thesis using assms(1,3,4) by (simp add: log_ok_def)
qed

lemma arr_inv_publish:
  assumes "arr_inv s" "i < length (as_fetches s)" "bf_live (ft_feed (as_fetches s ! i))" "b = hd (ft_arrays (as_fetches s ! i))"
    and "Progress (bf_dec (ft_feed (as_fetches s ! i))) = (st, en, n, True)" "publish i (b, n) st en (as_arr s) = (True, a)"
  shows "arr_inv (s\<lparr>as_arr := a, as_fetches := (as_fetches s)[i := (as_fetches s ! i)\<lparr>ft_feed := (ft_feed (as_fetches s ! i))\<lparr>bf_sent := k\<rparr>\<rparr>]\<rparr>)"
proof (rule arr_inv_upd [OF assms(1,2)])
  let ?t = "as_fetches s ! i"
  let ?t' = "?t\<lparr>ft_feed := (ft_feed ?t)\<lparr>bf_sent := k\<rparr>\<rparr>"
  have f: "fetch_ok (as_mem s) ?t" using assms(1,2) by (simp add: arr_inv_def)
  have a: "a_owner (as_arr s) = None \<or> a_owner (as_arr s) = Some i" "a_owner a = Some i" "a_data a = Some (b, n)" "a_start a = st" "a_end a = en"
    "a_served a = a_served (as_arr s)" "a_tainted a = a_tainted (as_arr s)" using assms(6) by (auto simp: publish_def split: if_splits)
  show "fetch_ok (as_mem s) ?t'" using f by (auto simp: fetch_ok_def body_of_def holds_arrays_def split: fetch_pc.splits)
  have "front_of (as_mem s) ?t' a b n" using a assms(3,4,5) f by (auto simp: front_of_def body_of_def fetch_ok_def)
  then show "data_ok (as_mem s) ((as_fetches s)[i := ?t']) a" using a(2,3) assms(2) by (auto simp: data_ok_def)
  have "log_ok (as_mem s) ((as_fetches s)[i := ?t']) (as_arr s) (as_log s)"
    using assms(1,2) by (intro log_ok_upd) (auto simp: arr_inv_def entry_ok_def body_of_def split: fetch_pc.split option.split)
  then show "log_ok (as_mem s) ((as_fetches s)[i := ?t']) a (as_log s)" using a by (elim log_ok_owner) simp_all
qed (auto simp: holds_arrays_def)

text \<open>A body that verifies contains what was served from its front.\<close>

lemma entry_ok_decoded:
  assumes "entry_ok mem t pos xs" "ft_pc t = Decoding" "dec_inv (bf_dec (ft_feed t)) (body_of mem t)" "Finish (bf_dec (ft_feed t)) (mem (hd (ft_arrays t))) = Inr p"
  shows "entry_ok mem (t\<lparr>ft_pc := Over (Some p)\<rparr>) pos xs"
proof -
  have "\<exists>st en n. Progress (bf_dec (ft_feed t)) = (st, en, n, True) \<and> 0 < n \<and> stretch (take n (body_of mem t)) st pos xs"
    using assms(1,2) by (simp add: entry_ok_def)
  then obtain st en n where p: "Progress (bf_dec (ft_feed t)) = (st, en, n, True)" "0 < n" "stretch (take n (body_of mem t)) st pos xs" by blast
  from Finish_Progress [OF assms(3) p(1,2)] assms(4)
  have d: "st = Begin p - 1" "n \<le> length (Data p)" "take n (Data p) = take n (body_of mem t)" by (simp_all add: body_of_def)
  have "stretch (take (length (Data p)) (Data p)) (Begin p - 1) pos xs" using stretch_more [OF p(3) d(2) _ d(3)] d(1) by simp
  then show ?thesis by (simp add: entry_ok_def)
qed

lemma arr_inv_receive:
  assumes "arr_inv s" "i < length (as_fetches s)" "ft_pc (as_fetches s ! i) = Receiving"
  shows "arr_inv (receive i bs s)"
proof -
  let ?t = "as_fetches s ! i"
  let ?f = "ft_feed ?t"
  define b where "b = hd (ft_arrays ?t)"
  let ?body = "as_mem s b @ bs"
  have inv: "dec_inv (bf_dec ?f) (as_mem s b)" using assms by (auto simp: arr_inv_def fetch_ok_def body_of_def b_def)
  show ?thesis
  proof (cases "\<not> bf_live ?f \<or> length ?body - bf_fed ?f < arrivalFeedStep")
    case True
    then have "receive i bs s = s\<lparr>as_fetches := (as_fetches s)[i := ?t\<lparr>ft_feed := ?f\<rparr>], as_mem := (as_mem s)(b := ?body)\<rparr>"
      by (auto simp: receive_def feed_Line_def b_def Let_def)
    then show ?thesis using arr_inv_goes_on [OF assms refl _ _ b_def goes_on_append [OF inv], of bs] by simp
  next
    case False
    obtain d body where fd: "Feed (bf_dec ?f) ?body = (d, body)" by fastforce
    obtain st en n ok where pr: "Progress d = (st, en, n, ok)" by (metis prod_cases4)
    let ?f1 = "?f\<lparr>bf_fed := length ?body, bf_dec := d\<rparr>"
    let ?s1 = "s\<lparr>as_fetches := (as_fetches s)[i := ?t\<lparr>ft_feed := ?f1\<rparr>], as_mem := (as_mem s)(b := body)\<rparr>"
    have s1: "arr_inv ?s1" using arr_inv_goes_on [OF assms refl _ _ b_def, of ?f1] goes_on_Feed [OF inv fd] by simp
    have at: "as_fetches ?s1 ! i = ?t\<lparr>ft_feed := ?f1\<rparr>" "i < length (as_fetches ?s1)" using assms(2) by simp_all
    consider "\<not> ok \<or> n - bf_sent ?f1 < arrivalPublishStep"
      | a where "ok" "\<not> n - bf_sent ?f1 < arrivalPublishStep" "publish i (b, n) st en (as_arr s) = (True, a)"
      | a where "ok" "\<not> n - bf_sent ?f1 < arrivalPublishStep" "publish i (b, n) st en (as_arr s) = (False, a)"
      by (metis (full_types) surj_pair)
    then show ?thesis
    proof cases
      case 1
      then have "receive i bs s = ?s1" using False fd pr by (auto simp: receive_def feed_Line_def b_def Let_def)
      then show ?thesis using s1 by simp
    next
      case 2
      have "receive i bs s = ?s1\<lparr>as_arr := a, as_fetches := (as_fetches ?s1)[i := (as_fetches ?s1 ! i)\<lparr>ft_feed := (ft_feed (as_fetches ?s1 ! i))\<lparr>bf_sent := n\<rparr>\<rparr>]\<rparr>"
        using False fd pr 2 assms(2) by (intro arrival_sys.equality) (simp_all add: receive_def feed_Line_def b_def Let_def)
      moreover have "arr_inv \<dots>" by (rule arr_inv_publish [OF s1 at(2), of b st en n]) (use False 2 pr assms(2) in \<open>simp_all add: b_def\<close>)
      ultimately show ?thesis by simp
    next
      case 3
      have a: "a = as_arr s" using 3(3) by (auto simp: publish_def split: if_splits)
      have pc: "?t\<lparr>ft_feed := f, ft_pc := Receiving\<rparr> = ?t\<lparr>ft_feed := f\<rparr>" for f using assms(3) by (intro fetch.equality) simp_all
      have "receive i bs s = upd_fetch i (feed_stop i) Receiving ?s1"
        using False fd pr 3 a assms(2)
        by (intro arrival_sys.equality) (simp_all add: receive_def feed_Line_def feed_stop_def upd_fetch_def b_def pc Let_def)
      moreover have "arr_inv \<dots>" by (rule arr_inv_stop [OF s1 at(2)]) (use assms(2,3) in simp_all)
      ultimately show ?thesis by simp
    qed
  qed
qed

lemma arr_inv_step: "arr_step s s' \<Longrightarrow> arr_inv s \<Longrightarrow> arr_inv s'"
proof (induction rule: arr_step.induct)
  case (begins s b to)
  then show ?case by (intro arr_inv_begins)
next
  case (line i s bs)
  then show ?case by (intro arr_inv_receive)
next
  case (grow i s b)
  then show ?case by (intro arr_inv_grow)
next
  case (restart_stop i s)
  then show ?case by (intro arr_inv_stop) simp_all
next
  case (restart_taint i s b)
  then show ?case by (intro arr_inv_restart)
next
  case (stops i s ok)
  then show ?case by (intro arr_inv_stop) simp_all
next
  case (fails i s)
  then show ?case by (intro arr_inv_fails)
next
  case (reads s pos k)
  then show ?case by (intro arr_inv_serve)
next
  case (scribbles s b bs)
  then show ?case by (intro arr_inv_write)
next
  case (returns i s ok)
  have f: "fetch_ok (as_mem s) (as_fetches s ! i)" using returns by (simp add: arr_inv_def)
  let ?t = "(as_fetches s ! i)\<lparr>ft_pc := Returned ok\<rparr>"
  have "arr_inv (s\<lparr>as_fetches := (as_fetches s)[i := ?t]\<rparr>)"
    by (rule arr_inv_pc [OF returns(3,1), where bs = "ft_arrays (as_fetches s ! i)" and pc = "Returned ok"])
      (use returns f in \<open>auto simp: fetch_ok_def intro: entry_ok_pc\<close>)
  then show ?case by (simp add: set_pc_def)
next
  case (gives_back i s)
  have f: "fetch_ok (as_mem s) (as_fetches s ! i)" using gives_back by (simp add: arr_inv_def)
  let ?t = "(as_fetches s ! i)\<lparr>ft_pc := Broken\<rparr>"
  have "arr_inv (s\<lparr>as_fetches := (as_fetches s)[i := ?t]\<rparr>)"
    by (rule arr_inv_pc [OF gives_back(3,1), where bs = "ft_arrays (as_fetches s ! i)" and pc = Broken])
      (use gives_back f in \<open>auto simp: fetch_ok_def entry_ok_def\<close>)
  then show ?case by (simp add: set_pc_def)
next
  case (keeps i s)
  have f: "fetch_ok (as_mem s) (as_fetches s ! i)" using keeps by (simp add: arr_inv_def)
  let ?t = "(as_fetches s ! i)\<lparr>ft_pc := Decoding, ft_arrays := [hd (ft_arrays (as_fetches s ! i))]\<rparr>"
  have "arr_inv (s\<lparr>as_fetches := (as_fetches s)[i := ?t]\<rparr>)"
    by (rule arr_inv_pc [OF keeps(3,1), where bs = "[hd (ft_arrays (as_fetches s ! i))]" and pc = Decoding])
      (use keeps f in \<open>auto simp: fetch_ok_def intro: entry_ok_pc\<close>)
  then show ?case using keeps(1) by (simp add: set_pc_def set_arrays_def)
next
  case (corrupt i s err)
  have f: "fetch_ok (as_mem s) (as_fetches s ! i)" using corrupt by (simp add: arr_inv_def)
  let ?t = "(as_fetches s ! i)\<lparr>ft_pc := Broken\<rparr>"
  have "arr_inv (s\<lparr>as_fetches := (as_fetches s)[i := ?t]\<rparr>)"
    by (rule arr_inv_pc [OF corrupt(4,1), where bs = "ft_arrays (as_fetches s ! i)" and pc = Broken])
      (use corrupt f in \<open>auto simp: fetch_ok_def entry_ok_def\<close>)
  then show ?case by (simp add: set_pc_def)
next
  case (decoded i s p)
  have f: "fetch_ok (as_mem s) (as_fetches s ! i)" using decoded by (simp add: arr_inv_def)
  let ?t = "(as_fetches s ! i)\<lparr>ft_pc := Over (Some p)\<rparr>"
  have e: "entry_ok (as_mem s) ?t pos xs" if "entry_ok (as_mem s) (as_fetches s ! i) pos xs" for pos xs
    using that decoded(2,3) f by (intro entry_ok_decoded) (auto simp: fetch_ok_def)
  have "arr_inv (s\<lparr>as_fetches := (as_fetches s)[i := ?t]\<rparr>)"
    by (rule arr_inv_pc [OF decoded(4,1), where bs = "ft_arrays (as_fetches s ! i)" and pc = "Over (Some p)"])
      (use decoded f e in \<open>auto simp: fetch_ok_def\<close>)
  then show ?case by (simp add: set_pc_def)
qed

lemma arr_inv_reach: "arr_reach s \<Longrightarrow> arr_inv s"
  by (induction rule: arr_reach.induct) (auto intro: arr_inv_start arr_inv_step)

section \<open>An article that arrives in one piece\<close>

definition sample_article :: "bytes \<Rightarrow> bytes" where
  "sample_article data = Encode (str ''a'') 1 2 1 (int (length data)) (int (length data)) data"

definition sample_part :: "bytes \<Rightarrow> part" where
  "sample_part data = \<lparr>Name = str ''a'', Number = 1, Total = 2, Begin = 1, End = int (length data), Size = int (length data),
     CRC32 = ChecksumIEEE data, Data = data\<rparr>"

lemma split_sample_article:
  "split_nl (sample_article data) =
    ((ybegin_multi (str ''a'') 1 2 (int (length data)) @ [13]) # (ypart_line 1 (int (length data)) @ [13]) #
     map (\<lambda>c. enc c @ [13]) (line_chunks 128 [] data) @ [yend_multi (int (length data)) 1 (ChecksumIEEE data) @ [13]], [])"
proof -
  have "10 \<notin> set (ybegin_multi (str ''a'') 1 2 (int (length data)))" "10 \<notin> set (ypart_line 1 (int (length data)))"
    "10 \<notin> set (yend_multi (int (length data)) 1 (ChecksumIEEE data))"
    by (simp_all add: ybegin_multi_def ypart_line_def yend_multi_def show_int_nonneg)
  then show ?thesis
    by (simp add: sample_article_def Encode_multi_eq split_nl_crlf split_nl_last_line split_nl_data [of "[]", simplified] del: writeEncodedData_loop.simps)
qed

lemma Feed_sample_article:
  assumes "data \<noteq> []" "int (length data) \<le> max_i64" "Feed zero_decoder (sample_article data) = (d, body)"
  shows "Progress d = (0, int (length data), length data, True)" "take (length data) body = data" "dec_inv d body"
    "length body = length (sample_article data)" "Finish d body = Inr (sample_part data)"
proof -
  have tr: "trimmed (str ''a'')" by (simp add: trimmed_def space_seqs_def upt_rec)
  have n: "1 \<le> int (length data)" using assms(1) by (cases data) auto
  note sp = split_sample_article [of data]
  have z: "d_pos zero_decoder = 0" by (simp add: zero_decoder_def)
  have f: "dec_inv d body" "length body = length (sample_article data)" "drop (d_pos d) body = []"
    using Feed_correct [OF dec_inv_zero assms(3)] sp by (simp_all add: z)
  have "dec_abs d body = fold (spec_line \<circ> dropCR) (fst (split_nl (sample_article data))) spec_init"
    using Feed_correct [OF dec_inv_zero assms(3)] sp by (simp add: z)
  then have ab: "dec_abs d body = \<lparr>s_part = zero_part\<lparr>Name := str ''a'', Number := 1, Total := 2, Begin := 1, End := int (length data),
       Size := int (length data), CRC32 := ChecksumIEEE data\<rparr>,
     s_env = zero_envelope\<lparr>env_ended := True, checksumPresent := True, hasRange := True, env_length := int (length data), env_number := 1\<rparr>,
     s_phase = ended, s_data = data\<rparr>"
    unfolding sp fst_conv using n assms(1,2) by (elim trans) (intro spec_multi_lines tr; simp)
  then have "take (d_w d) body = data" by (simp add: dec_abs_def)
  moreover have "d_w d \<le> length body" using f(1) by (simp add: dec_inv_def)
  ultimately have w: "d_w d = length data" by (metis length_take min_absorb2)
  show "Progress d = (0, int (length data), length data, True)"
    using ab w unfolding Progress_True [where body = body] by (simp add: placed_def dec_abs_def)
  show "take (length data) body = data" using ab w by (simp add: dec_abs_def)
  show "dec_inv d body" "length body = length (sample_article data)" using f by simp_all
  have "Finish d body = spec_result (dec_abs d body)" using Finish_spec [OF f(1)] f(3) by (simp add: raw_lines_def split_nl.simps)
  moreover have "i64 (i64 (int (length data) - 1) + 1) = int (length data)" using n assms(2) by (simp add: i64_id in_i64_def)
  ultimately show "Finish d body = Inr (sample_part data)"
    using n assms(1) by (simp add: ab spec_result_def Let_def validate_def validateBounds_def validateMultipart_def zero_envelope_def zero_part_def
        normalizeSinglePart_def sample_part_def)
qed

text \<open>The fetch right after its whole article has arrived, and the arrival when it could publish.\<close>

definition whole_feed :: "bytes \<Rightarrow> body_feed" where
  "whole_feed data = \<lparr>bf_dec = fst (Feed zero_decoder (sample_article data)), bf_to = True, bf_live = True,
     bf_fed = length (sample_article data), bf_sent = length data\<rparr>"

definition whole_body :: "bytes \<Rightarrow> bytes" where
  "whole_body data = snd (Feed zero_decoder (sample_article data))"

lemma whole_article:
  assumes "arrivalPublishStep \<le> length data" "int (length data) \<le> max_i64"
  shows "feed_Line i b (sample_article data) (newBodyFeed True, a) =
    (whole_body data, if fst (publish i (b, length data) 0 (int (length data)) a) then (whole_feed data, snd (publish i (b, length data) 0 (int (length data)) a))
      else feed_stop i ((whole_feed data)\<lparr>bf_sent := 0\<rparr>, a))"
    "take (length data) (whole_body data) = data" "Finish (bf_dec (whole_feed data)) (whole_body data) = Inr (sample_part data)"
proof -
  obtain d body where fd: "Feed zero_decoder (sample_article data) = (d, body)" by fastforce
  have ne: "data \<noteq> []" using assms(1) by (auto simp: arrivalPublishStep_def)
  note f = Feed_sample_article [OF ne assms(2) fd]
  have "length data \<le> length body" using f(2) by (metis length_take min.cobounded1)
  then have l: "\<not> length (sample_article data) - 0 < arrivalFeedStep" using assms(1) f(4) by (simp add: arrivalFeedStep_def arrivalPublishStep_def)
  have "snd (publish i (b, length data) 0 (int (length data)) a) = a" if "\<not> fst (publish i (b, length data) 0 (int (length data)) a)"
    using that by (auto simp: publish_def split: if_splits)
  then show "feed_Line i b (sample_article data) (newBodyFeed True, a) =
    (whole_body data, if fst (publish i (b, length data) 0 (int (length data)) a) then (whole_feed data, snd (publish i (b, length data) 0 (int (length data)) a))
      else feed_stop i ((whole_feed data)\<lparr>bf_sent := 0\<rparr>, a))"
    using f(1) fd l assms(1) by (auto simp: feed_Line_def newBodyFeed_def whole_body_def whole_feed_def Let_def split: prod.split bool.split)
  show "take (length data) (whole_body data) = data" "Finish (bf_dec (whole_feed data)) (whole_body data) = Inr (sample_part data)"
    using f(2,5) fd by (simp_all add: whole_body_def whole_feed_def)
qed

definition arrived :: "bytes \<Rightarrow> arrival_sys" where
  \<comment> \<open>one fetch has received its whole article and a reader was served its first byte\<close>
  "arrived data = \<lparr>as_arr = new_arrival\<lparr>a_owner := Some 0, a_data := Some (0, length data), a_end := int (length data), a_served := True\<rparr>,
     as_fetches = [\<lparr>ft_feed = whole_feed data, ft_arrays = [0], ft_pc = Receiving\<rparr>], as_mem = (\<lambda>_. [])(0 := whole_body data),
     as_log = [(0, 0, take 1 data)]\<rparr>"

lemma arrived_reach:
  assumes "arrivalPublishStep \<le> length data" "int (length data) \<le> max_i64"
  shows "arr_reach (arrived data)"
proof -
  let ?s0 = "start_sys (\<lambda>_. [])"
  let ?s1 = "write_array 0 [] (?s0\<lparr>as_fetches := as_fetches ?s0 @ [\<lparr>ft_feed = newBodyFeed True, ft_arrays = [0], ft_pc = Receiving\<rparr>]\<rparr>)"
  have "\<not> in_use ?s0 0" by (simp add: in_use_def start_sys_def)
  then have "arr_reach ?s1" by (rule arr_reach.step [OF arr_reach.init arr_step.begins])
  then have r2: "arr_reach (receive 0 (sample_article data) ?s1)" by (rule arr_reach.step) (rule arr_step.line; simp add: write_array_def start_sys_def)
  have n: "0 < length data" using assms(1) by (auto simp: arrivalPublishStep_def)
  have w: "take (length data) (whole_body data) = data" by (rule whole_article(2) [OF assms])
  have "arrived data = serve 0 1 (receive 0 (sample_article data) ?s1)"
    using n by (simp add: arrived_def receive_def write_array_def start_sys_def whole_article(1) [OF assms] publish_def new_arrival_def
        wakeLocked_def serve_def copyAt_def data_bytes_def w fun_upd_def Let_def)
  then show ?thesis using arr_reach.step [OF r2 arr_step.reads, of 0 1] by simp
qed

text \<open>From there a fetch whose body decodes comes to its end.\<close>

lemma fetch_completes:
  assumes "arr_reach s" "i < length (as_fetches s)" "ft_pc (as_fetches s ! i) = Receiving"
    and "Finish (bf_dec (ft_feed (as_fetches s ! i))) (as_mem s (hd (ft_arrays (as_fetches s ! i)))) = Inr p"
  shows "\<exists>s'. arr_reach s' \<and> ft_pc (as_fetches s' ! i) = Over (Some p) \<and> as_log s' = as_log s \<and> a_tainted (as_arr s') = a_tainted (as_arr s)"
proof -
  let ?s1 = "set_pc i (Returned True) s"
  have 1: "arr_reach ?s1" by (rule arr_reach.step [OF assms(1) arr_step.returns [OF assms(2,3)]])
  have at1: "i < length (as_fetches ?s1)" "as_fetches ?s1 ! i = (as_fetches s ! i)\<lparr>ft_pc := Returned True\<rparr>" "as_arr ?s1 = as_arr s" "as_log ?s1 = as_log s"
    "as_mem ?s1 = as_mem s" using assms(2) by (simp_all add: set_pc_def)
  let ?s2 = "upd_fetch i (feed_stop i) (Stopped True) ?s1"
  have 2: "arr_reach ?s2" by (rule arr_reach.step [OF 1 arr_step.stops [OF at1(1)]]) (simp add: at1)
  have at2: "i < length (as_fetches ?s2)"
    "as_fetches ?s2 ! i = (as_fetches s ! i)\<lparr>ft_feed := (ft_feed (as_fetches s ! i))\<lparr>bf_live := False\<rparr>, ft_pc := Stopped True\<rparr>"
    "a_tainted (as_arr ?s2) = a_tainted (as_arr s)" "as_log ?s2 = as_log s" "as_mem ?s2 = as_mem s"
    using at1 by (simp_all add: upd_fetch_def feed_stop_arr withdraw_def Let_def)
  let ?s3 = "set_arrays i [hd (ft_arrays (as_fetches ?s2 ! i))] (set_pc i Decoding ?s2)"
  have 3: "arr_reach ?s3" by (rule arr_reach.step [OF 2 arr_step.keeps [OF at2(1)]]) (simp add: at2)
  have at3: "i < length (as_fetches ?s3)" "ft_pc (as_fetches ?s3 ! i) = Decoding" "as_mem ?s3 = as_mem s" "as_log ?s3 = as_log s"
    "bf_dec (ft_feed (as_fetches ?s3 ! i)) = bf_dec (ft_feed (as_fetches s ! i))" "hd (ft_arrays (as_fetches ?s3 ! i)) = hd (ft_arrays (as_fetches s ! i))"
    "a_tainted (as_arr ?s3) = a_tainted (as_arr s)" using at2 by (simp_all add: set_arrays_def set_pc_def)
  have 4: "arr_reach (set_pc i (Over (Some p)) ?s3)" by (rule arr_reach.step [OF 3 arr_step.decoded [OF at3(1,2)]]) (simp add: at3 assms(4))
  then show ?thesis using at3 by (intro exI [of _ "set_pc i (Over (Some p)) ?s3"]) (simp add: set_pc_def)
qed

section \<open>Properties\<close>

text \<open>What is published always lies in a buffer that a fetch still holds: no reader copies from a recycled one.\<close>

lemma published_in_use:
  assumes "arr_reach s" "a_data (as_arr s) = Some (b, n)"
  shows "in_use s b"
proof -
  have inv: "arr_inv s" using assms(1) by (rule arr_inv_reach)
  then obtain i where i: "i < length (as_fetches s)" "front_of (as_mem s) (as_fetches s ! i) (as_arr s) b n"
    using assms(2) by (auto simp: arr_inv_def data_ok_def)
  then have "fetch_ok (as_mem s) (as_fetches s ! i)" using inv by (simp add: arr_inv_def)
  then show ?thesis using i holds_live by (auto simp: in_use_def front_of_def intro!: bexI [of _ "as_fetches s ! i"])
qed

text \<open>
  C9. What a reader was served while the article arrived is verified or reported: however fetches of the article, their retries
  and restarts, the growth and the recycling of their buffers and the readers interleave, all bytes served come from one fetch,
  and once that fetch is over, either the arrival is tainted or the fetch returned a part whose CRC was checked and every byte
  served is the byte this part has at the offset it was served for.
\<close>

theorem served_bytes_verified:
  assumes "arr_reach s" "(i, pos, bs) \<in> set (as_log s)" "ft_pc (as_fetches s ! i) = Over r" "\<not> isTainted (as_arr s)"
  shows "fst ` set (as_log s) = {i} \<and> (\<exists>p. r = Some p \<and> stretch (Data p) (Begin p - 1) pos bs)"
proof -
  have log: "log_ok (as_mem s) (as_fetches s) (as_arr s) (as_log s)" using arr_inv_reach [OF assms(1)] by (simp add: arr_inv_def)
  have "j = i" if "(j, q, xs) \<in> set (as_log s)" for j q xs using log assms(2) that unfolding log_ok_def by (metis option.inject)
  then have "set (as_log s) \<subseteq> {i} \<times> UNIV" by (auto 0 0)
  moreover have "i \<in> fst ` set (as_log s)" using assms(2) by (metis fst_conv imageI)
  ultimately have "fst ` set (as_log s) = {i}" by fastforce
  moreover have "entry_ok (as_mem s) (as_fetches s ! i) pos bs" using log assms(2,4) by (auto simp: log_ok_def isTainted_def)
  ultimately show ?thesis using assms(3) by (auto simp: entry_ok_def split: option.splits)
qed

definition sample_data :: "byte \<Rightarrow> bytes" where
  "sample_data c = replicate (64 * 1024) c"

lemma sample_data_props: "arrivalPublishStep \<le> length (sample_data c)" "int (length (sample_data c)) \<le> max_i64" "take 1 (sample_data c) = [c]"
  by (simp_all add: sample_data_def arrivalPublishStep_def take_replicate)

lemma sample_completes: "\<exists>s. arr_reach s \<and> ft_pc (as_fetches s ! 0) = Over (Some (sample_part (sample_data 7))) \<and> as_log s = [(0, 0, [7])] \<and> \<not> isTainted (as_arr s)"
proof -
  let ?d = "sample_data 7"
  have "arr_reach (arrived ?d)" by (rule arrived_reach [OF sample_data_props(1,2)])
  from fetch_completes [OF this, of 0 "sample_part ?d"] show ?thesis
    using whole_article(3) [OF sample_data_props(1,2), of 7] sample_data_props(3) [of 7] by (auto simp: arrived_def new_arrival_def isTainted_def)
qed

theorem served_bytes_verified_witness:
  "\<exists>s. arr_reach s \<and> as_log s = [(0, 0, [7])] \<and> ft_pc (as_fetches s ! 0) = Over (Some (sample_part (sample_data 7))) \<and>
    stretch (Data (sample_part (sample_data 7))) (Begin (sample_part (sample_data 7)) - 1) 0 [7]"
proof -
  obtain s where s: "arr_reach s" "ft_pc (as_fetches s ! 0) = Over (Some (sample_part (sample_data 7)))" "as_log s = [(0, 0, [7])]" "\<not> isTainted (as_arr s)"
    using sample_completes by blast
  from served_bytes_verified [OF s(1) _ s(2,4), of 0 "[7]"] s show ?thesis by auto
qed

text \<open>
  That the fetch which served is over is needed. When a hedge races it and wins, the reader takes the hedge's article while
  the first fetch is still under way and the arrival is not tainted: bytes served from the first fetch that differ from the
  verified article go unnoticed, whatever becomes of that fetch later.
\<close>

lemma hedge_race:
  "\<exists>s p. arr_reach s \<and> as_log s = [(0, 0, [1])] \<and> \<not> isTainted (as_arr s) \<and> ft_pc (as_fetches s ! 1) = Over (Some p) \<and>
    Begin p = 1 \<and> take 1 (Data p) = [0]"
proof -
  let ?s0 = "arrived (sample_data 1)"
  let ?t = "\<lparr>ft_feed = newBodyFeed True, ft_arrays = [Suc 0], ft_pc = Receiving\<rparr>"
  let ?s1 = "write_array (Suc 0) [] (?s0\<lparr>as_fetches := as_fetches ?s0 @ [?t]\<rparr>)"
  let ?s2 = "receive (Suc 0) (sample_article (sample_data 0)) ?s1"
  note w = whole_article [OF sample_data_props(1,2)]
  have "\<not> in_use ?s0 (Suc 0)" by (simp add: in_use_def arrived_def)
  then have 1: "arr_reach ?s1" by (rule arr_reach.step [OF arrived_reach [OF sample_data_props(1,2)] arr_step.begins])
  have 2: "arr_reach ?s2" by (rule arr_reach.step [OF 1]) (rule arr_step.line; simp add: write_array_def arrived_def)
  have at: "as_fetches ?s2 ! Suc 0 = ?t\<lparr>ft_feed := (whole_feed (sample_data 0))\<lparr>bf_sent := 0, bf_live := False\<rparr>\<rparr>" "length (as_fetches ?s2) = 2"
    "as_mem ?s2 (Suc 0) = whole_body (sample_data 0)" "as_log ?s2 = [(0, 0, [1])]" "\<not> a_tainted (as_arr ?s2)"
    using sample_data_props(3) [of 1]
    by (simp_all add: receive_def write_array_def arrived_def w(1) publish_def new_arrival_def feed_stop_def whole_feed_def withdraw_def Let_def)
  have f: "Finish (bf_dec (ft_feed (as_fetches ?s2 ! Suc 0))) (as_mem ?s2 (hd (ft_arrays (as_fetches ?s2 ! Suc 0)))) = Inr (sample_part (sample_data 0))"
    using w(3) [of 0] by (simp add: at)
  obtain s where "arr_reach s" "ft_pc (as_fetches s ! Suc 0) = Over (Some (sample_part (sample_data 0)))" "as_log s = [(0, 0, [1])]" "\<not> a_tainted (as_arr s)"
    using fetch_completes [OF 2 _ _ f] at by auto
  then show ?thesis using sample_data_props(3) [of 0] by (intro exI [of _ s] exI [of _ "sample_part (sample_data 0)"]) (simp add: sample_part_def isTainted_def)
qed

end
