(* ===== verification/Stream_Fetch.thy ===== *)
theory Stream_Fetch
  imports Article_Cache Fetch_Budget Nntp_Wire Yenc
begin

text \<open>
  Fetching one article, \<open>internal/usenet/stream/fetch.go\<close> and \<open>hedge.go\<close>: the attempts with their budget and the verdicts
  that end them, the latencies a hedge is timed by, and the race between two fetches. What the wire answers to each attempt, the
  clock and the order in which racing fetches end are arguments. An error is what \<open>errors.Is\<close> and \<open>errors.As\<close> see of it.
  The theory closes with what the attempts and the race return.
\<close>

section \<open>Attempts\<close>

definition asUnavailable :: "nntp_error \<Rightarrow> fetch_err option" where
  "asUnavailable err =
     (if IsArticleMissing err then Some (Unavailable False) else if IsStalled err then Some (Unavailable True) else None)"

datatype attempt_err = BodyFailed nntp_error | DecodeFailed yenc_error

text \<open>What a caller sees of the last error of exhausted attempts, which is wrapped.\<close>

definition failed_err :: "attempt_err option \<Rightarrow> fetch_err" where
  "failed_err e =
     (case e of
        Some (BodyFailed err) \<Rightarrow>
          if CtxError ctx_error.Canceled \<in> set (unwrap_chain err) then fetch_err.Canceled
          else if CtxError ctx_error.DeadlineExceeded \<in> set (unwrap_chain err) then fetch_err.DeadlineExceeded
          else FetchFailed
      | _ \<Rightarrow> FetchFailed)"

definition maxBodyBuffer :: int where
  "maxBodyBuffer = 16 * 1024 * 1024"

text \<open>The size of the buffer a body is read into.\<close>

definition body_buffer :: "int \<Rightarrow> int" where
  "body_buffer estBytes = max 0 (min estBytes maxBodyBuffer)"

text \<open>
  The wire and the clock, by attempt: the bytes that were transferred and the error; whether the context ended during the
  wait before the attempt. \<open>fe_own\<close> says whether the fetcher reads into the reader's own buffer, which is then decoded in place.
\<close>

record fetch_env =
  fe_own :: bool
  fe_body :: "nat \<Rightarrow> bytes \<times> nntp_error option"
  fe_ctx :: "nat \<Rightarrow> fetch_err option"

definition decodeArticle :: "bool \<Rightarrow> bytes \<Rightarrow> yenc_error + part" where
  "decodeArticle own raw = (if own then DecodeInPlace raw else DecodeBytes raw)"

text \<open>Whether the decoded part is copied out of a buffer of \<open>cap\<close> bytes that is much too large for it.\<close>

definition trims_copy :: "nat \<Rightarrow> part \<Rightarrow> bool" where
  "trims_copy cap p \<longleftrightarrow> length (Data p) + length (Data p) div 4 < cap"

definition attempt_result :: "fetch_env \<Rightarrow> nat \<Rightarrow> attempt_err + part" where
  "attempt_result env k =
     (case fe_body env k of
        (raw, Some err) \<Rightarrow> Inl (BodyFailed err)
      | (raw, None) \<Rightarrow> (case decodeArticle (fe_own env) raw of Inl err \<Rightarrow> Inl (DecodeFailed err) | Inr p \<Rightarrow> Inr p))"

text \<open>The loop: attempt \<open>k\<close> with \<open>n\<close> attempts left. The last component is the number of bodies asked for.\<close>

fun attempt_loop :: "fetch_env \<Rightarrow> int \<Rightarrow> nat \<Rightarrow> nat \<Rightarrow> attempt_err option \<Rightarrow> fetch_budget option \<Rightarrow> (fetch_err + part) \<times> fetch_budget option \<times> nat" where
  "attempt_loop env est k 0 lastErr b = (Inl (failed_err lastErr), b, k)"
| "attempt_loop env est k (Suc n) lastErr b =
     (case (if 0 < k then fe_ctx env k else None) of
        Some e \<Rightarrow> (Inl e, b, k)
      | None \<Rightarrow>
          (case reserve est b of
             (False, b') \<Rightarrow> (Inl FetchBudgetExhausted, b', k)
           | (True, b') \<Rightarrow>
               let b2 = settle est (int (length (fst (fe_body env k)))) b' in
               (case attempt_result env k of
                  Inr p \<Rightarrow> (Inr p, b2, Suc k)
                | Inl e \<Rightarrow>
                    (case (case e of BodyFailed err \<Rightarrow> asUnavailable err | DecodeFailed _ \<Rightarrow> None) of
                       Some u \<Rightarrow> (Inl u, b2, Suc k)
                     | None \<Rightarrow> attempt_loop env est (Suc k) n (Some e) b2))))"

definition fetchDecodeRetry :: "fetch_env \<Rightarrow> nat \<Rightarrow> int \<Rightarrow> fetch_budget option \<Rightarrow> (fetch_err + part) \<times> fetch_budget option \<times> nat" where
  "fetchDecodeRetry env maxAttempts est b = attempt_loop env est 0 maxAttempts None b"

section \<open>Latencies\<close>

text \<open>Times are nanoseconds.\<close>

record latency_sample =
  ls_d :: int
  ls_at :: int

record latency_ring =
  lr_samples :: "latency_sample list"
  lr_next :: nat

definition latencySamples :: nat where
  "latencySamples = 32"

definition minLatencySamples :: nat where
  "minLatencySamples = 8"

definition latencyMaxAge :: int where
  "latencyMaxAge = 5 * 60 * 1000000000"

definition HedgeLatencyMultiple :: int where
  "HedgeLatencyMultiple = 2"

definition HedgeMinDelay :: int where
  "HedgeMinDelay = 400 * 1000000"

definition HedgeMaxDelay :: int where
  "HedgeMaxDelay = 3 * 1000000000"

definition new_ring :: "int \<Rightarrow> latency_ring" where
  \<comment> \<open>the zero value; \<open>epoch\<close> is the zero time\<close>
  "new_ring epoch = \<lparr>lr_samples = replicate latencySamples \<lparr>ls_d = 0, ls_at = epoch\<rparr>, lr_next = 0\<rparr>"

definition note_latency :: "int \<Rightarrow> int \<Rightarrow> latency_ring \<Rightarrow> latency_ring" where
  "note_latency now d l =
     l\<lparr>lr_samples := (lr_samples l)[lr_next l := \<lparr>ls_d = d, ls_at = now\<rparr>], lr_next := (lr_next l + 1) mod latencySamples\<rparr>"

definition ring_hedgeDelay :: "int \<Rightarrow> latency_ring \<Rightarrow> int option" where
  "ring_hedgeDelay now l =
     (if HedgeLatencyMultiple \<le> 0 then None
      else
        let recent = map ls_d (filter (\<lambda>s. now - latencyMaxAge < ls_at s) (lr_samples l)) in
        if length recent < minLatencySamples then None
        else
          let delay = i64 (HedgeLatencyMultiple * sort recent ! (length recent div 2))
          in Some (min (max delay HedgeMinDelay) HedgeMaxDelay))"

text \<open>\<open>pool\<close> is the number of connections, when the fetcher tells it.\<close>

definition smallPool :: "int option \<Rightarrow> bool" where
  "smallPool pool = (case pool of Some m \<Rightarrow> m \<le> 2 | None \<Rightarrow> False)"

definition hedgeDelay :: "int \<Rightarrow> bool \<Rightarrow> int option \<Rightarrow> latency_ring \<Rightarrow> int option" where
  "hedgeDelay now budgeted pool l = (if budgeted \<or> smallPool pool then None else ring_hedgeDelay now l)"

section \<open>The race\<close>

definition articleGone :: "fetch_err \<Rightarrow> bool" where
  "articleGone e \<longleftrightarrow> e = Unavailable False"

definition firstServable :: "fetch_err + part \<Rightarrow> fetch_err + part \<Rightarrow> fetch_err + part" where
  "firstServable first second =
     (case first of
        Inr p \<Rightarrow> Inr p
      | Inl e \<Rightarrow>
          if articleGone e then Inl e
          else (case second of
                  Inr p \<Rightarrow> Inr p
                | Inl e' \<Rightarrow> if articleGone e' \<or> leaderSpecific e then Inl e' else Inl e))"

text \<open>How the wait for the first fetch ends: with its result, with the reader's context, or with the timer.\<close>

datatype hedge_wait = ResultFirst "fetch_err + part" | ContextFirst fetch_err | TimerFirst

text \<open>
  \<open>alone\<close> is the result of the fetch that is not raced; \<open>waited\<close> whether anybody still waits when the timer fires (true without
  a flight); \<open>results\<close> the two results in the order in which they come. The second component says whether a second fetch
  was started.
\<close>

definition fetchHedged ::
  "int option \<Rightarrow> hedge_wait \<Rightarrow> bool \<Rightarrow> fetch_err + part \<Rightarrow> (fetch_err + part) \<times> (fetch_err + part) \<Rightarrow> (fetch_err + part) \<times> bool" where
  "fetchHedged delay ev waited alone results =
     (case delay of
        None \<Rightarrow> (alone, False)
      | Some _ \<Rightarrow>
          (case ev of
             ResultFirst r \<Rightarrow> (r, False)
           | ContextFirst e \<Rightarrow> (Inl e, False)
           | TimerFirst \<Rightarrow> if \<not> waited then (alone, False) else (firstServable (fst results) (snd results), True)))"

section \<open>What they return\<close>

text \<open>
  The attempts end as documented: a part comes from the first attempt that decodes, after failures that were not final;
  never are more bodies asked for than attempts are allowed, and none after a final verdict on the article.
\<close>

definition retryable :: "fetch_env \<Rightarrow> nat \<Rightarrow> bool" where
  "retryable env k \<longleftrightarrow> (case attempt_result env k of Inl (BodyFailed err) \<Rightarrow> asUnavailable err = None | Inl (DecodeFailed _) \<Rightarrow> True | Inr _ \<Rightarrow> False)"

lemma attempt_loop_result:
  assumes "attempt_loop env est k n lastErr b = (r, b', m)"
  shows "k \<le> m \<and> m \<le> k + n \<and> (\<forall>j. k \<le> j \<and> Suc j < m \<longrightarrow> retryable env j) \<and>
    (\<forall>p. r = Inr p \<longrightarrow> k < m \<and> attempt_result env (m - 1) = Inr p) \<and>
    (k < m \<and> attempt_result env (m - 1) = Inl (BodyFailed err) \<and> asUnavailable err = Some u \<longrightarrow> r = Inl u)"
  using assms
proof (induction env est k n lastErr b rule: attempt_loop.induct)
  case (2 env est k n lastErr b)
  show ?case
  proof (cases "if 0 < k then fe_ctx env k else None")
    case (Some e)
    then show ?thesis using 2(2) by auto
  next
    case None
    note ctx = None
    obtain ok b1 where rs: "reserve est b = (ok, b1)" by fastforce
    show ?thesis
    proof (cases "ok \<and> retryable env k")
      case False
      then have "r = Inl FetchBudgetExhausted \<and> m = k \<and> \<not> ok \<or>
          m = Suc k \<and> (case attempt_result env k of Inr p \<Rightarrow> r = Inr p | Inl (BodyFailed err) \<Rightarrow> (\<exists>u. asUnavailable err = Some u \<and> r = Inl u) | _ \<Rightarrow> False)"
        using 2(2) ctx rs by (auto simp: retryable_def Let_def split: sum.splits attempt_err.splits option.splits bool.splits)
      then show ?thesis by (auto simp: less_Suc_eq split: sum.splits attempt_err.splits)
    next
      case True
      then obtain e where e: "attempt_result env k = Inl e" "(case e of BodyFailed err \<Rightarrow> asUnavailable err | DecodeFailed _ \<Rightarrow> None) = None"
        by (auto simp: retryable_def split: sum.splits attempt_err.splits)
      let ?b2 = "settle est (int (length (fst (fe_body env k)))) b1"
      have a: "attempt_loop env est (Suc k) n (Some e) ?b2 = (r, b', m)" using 2(2) ctx rs True e by (simp add: Let_def)
      have IH: "Suc k \<le> m \<and> m \<le> Suc k + n \<and> (\<forall>j. Suc k \<le> j \<and> Suc j < m \<longrightarrow> retryable env j) \<and>
          (\<forall>p. r = Inr p \<longrightarrow> Suc k < m \<and> attempt_result env (m - 1) = Inr p) \<and>
          (Suc k < m \<and> attempt_result env (m - 1) = Inl (BodyFailed err) \<and> asUnavailable err = Some u \<longrightarrow> r = Inl u)"
        by (rule "2.IH" [OF ctx rs [symmetric] _ refl e(1,2) a]) (use True in simp)
      note IHs = conjunct1 [OF IH] conjunct1 [OF conjunct2 [OF IH]] conjunct1 [OF conjunct2 [OF conjunct2 [OF IH]]]
        conjunct1 [OF conjunct2 [OF conjunct2 [OF conjunct2 [OF IH]]]] conjunct2 [OF conjunct2 [OF conjunct2 [OF conjunct2 [OF IH]]]]
      have 1: "\<forall>j. k \<le> j \<and> Suc j < m \<longrightarrow> retryable env j" using IHs(3) True by (metis Suc_leI le_eq_less_or_eq)
      have 2: "k < m \<and> attempt_result env (m - 1) = Inl (BodyFailed err) \<and> asUnavailable err = Some u \<longrightarrow> r = Inl u"
      proof (cases "m = Suc k")
        case True
        then show ?thesis using e by (cases e) auto
      next
        case False
        then have "Suc k < m" using IHs(1) by simp
        then show ?thesis using IHs(5) by blast
      qed
      have "k \<le> m" "m \<le> k + Suc n" using IHs(1,2) by simp_all
      moreover have "\<forall>p. r = Inr p \<longrightarrow> k < m \<and> attempt_result env (m - 1) = Inr p" using IHs(4) by (simp add: Suc_lessD)
      ultimately show ?thesis using 1 2 by blast
    qed
  qed
qed auto

lemma fetch_attempts:
  assumes "fetchDecodeRetry env maxAttempts est b = (r, b', m)"
  shows "m \<le> maxAttempts" "Suc j < m \<Longrightarrow> retryable env j" "r = Inr p \<Longrightarrow> 0 < m \<and> attempt_result env (m - 1) = Inr p"
  using attempt_loop_result [OF assms [unfolded fetchDecodeRetry_def]] by auto

text \<open>A hedge waits between the two bounds, whatever the samples.\<close>

lemma hedgeDelay_bounded: "hedgeDelay now budgeted pool l = Some d \<Longrightarrow> HedgeMinDelay \<le> d \<and> d \<le> HedgeMaxDelay \<and> \<not> budgeted \<and> pool \<noteq> Some 2"
  by (auto simp: hedgeDelay_def ring_hedgeDelay_def Let_def smallPool_def HedgeMinDelay_def HedgeMaxDelay_def min_def max_def split: if_splits)

lemma note_latency_ring: "length (lr_samples l) = latencySamples \<and> lr_next l < latencySamples \<Longrightarrow>
    length (lr_samples (note_latency now d l)) = latencySamples \<and> lr_next (note_latency now d l) < latencySamples"
  by (simp add: note_latency_def latencySamples_def)

text \<open>
  The race returns a part when one of the fetches has one and the other did not find the article gone first; an error that only
  concerns the reader is returned only when both fetches failed that way.
\<close>

lemma firstServable_part:
  "firstServable first second = Inr p \<longleftrightarrow> first = Inr p \<or> (\<exists>e. first = Inl e \<and> \<not> articleGone e \<and> second = Inr p)"
  by (auto simp: firstServable_def split: sum.splits)

lemma firstServable_reader_error:
  assumes "firstServable first second = Inl e" "leaderSpecific e"
  shows "\<exists>e1. first = Inl e1 \<and> leaderSpecific e1 \<and> second = Inl e"
  using assms by (auto simp: firstServable_def articleGone_def leaderSpecific_def split: sum.splits if_splits)

end
