(* ===== verification/Go_Path.thy ===== *)
theory Go_Path
  imports Go_Strings
begin

text \<open>
  \<open>filepath.Clean\<close> and \<open>filepath.Join\<close> (with \<open>/\<close> as the separator): a path is split into elements, empty and \<open>.\<close> elements
  are dropped and \<open>..\<close> removes the element before it. An element that names a file stays below the directory it is joined to.
\<close>

fun path_split :: "bytes \<Rightarrow> bytes \<Rightarrow> bytes list" where
  "path_split acc [] = [rev acc]"
| "path_split acc (c # cs) = (if c = 47 then rev acc # path_split [] cs else path_split (c # acc) cs)"

text \<open>The elements that are left, the last one first.\<close>

fun clean_elems :: "bool \<Rightarrow> bytes list \<Rightarrow> bytes list \<Rightarrow> bytes list" where
  "clean_elems rooted acc [] = acc"
| "clean_elems rooted acc (e # es) =
     (if e = [] \<or> e = [46] then clean_elems rooted acc es
      else if e = [46, 46] then
        (case acc of
           [] \<Rightarrow> clean_elems rooted (if rooted then [] else [e]) es
         | a # as \<Rightarrow> clean_elems rooted (if a = [46, 46] then e # acc else as) es)
      else clean_elems rooted (e # acc) es)"

fun path_join :: "bytes list \<Rightarrow> bytes" where
  "path_join [] = []"
| "path_join [e] = e"
| "path_join (e # es) = e @ 47 # path_join es"

definition rooted :: "bytes \<Rightarrow> bool" where
  "rooted p \<longleftrightarrow> p \<noteq> [] \<and> hd p = 47"

definition path_elems :: "bytes \<Rightarrow> bytes list" where
  "path_elems p = rev (clean_elems (rooted p) [] (path_split [] p))"

definition Clean :: "bytes \<Rightarrow> bytes" where
  "Clean p =
     (if rooted p then 47 # path_join (path_elems p)
      else if path_elems p = [] then [46] else path_join (path_elems p))"

definition Join :: "bytes \<Rightarrow> bytes \<Rightarrow> bytes" where
  "Join a b = (if a = [] \<and> b = [] then [] else if a = [] then Clean b else if b = [] then Clean a else Clean (a @ 47 # b))"

lemma path_split_file: "47 \<notin> set b \<Longrightarrow> path_split acc (a @ 47 # b) = path_split acc a @ [b]"
proof -
  assume b: "47 \<notin> set b"
  have "path_split acc b = [rev acc @ b]" for acc using b by (induction b arbitrary: acc) auto
  then show ?thesis by (induction acc a rule: path_split.induct) auto
qed

lemma clean_elems_file: "e \<noteq> [] \<Longrightarrow> e \<noteq> [46] \<Longrightarrow> e \<noteq> [46, 46] \<Longrightarrow> clean_elems r acc (es @ [e]) = e # clean_elems r acc es"
  by (induction r acc es rule: clean_elems.induct) (auto split: list.split)

text \<open>A file name joined to a directory is a file of that directory.\<close>

lemma Join_confined:
  assumes "dir \<noteq> []" "47 \<notin> set name" "name \<noteq> []" "name \<noteq> [46]" "name \<noteq> [46, 46]"
  shows "path_elems (dir @ 47 # name) = path_elems dir @ [name] \<and> rooted (dir @ 47 # name) = rooted dir \<and>
    Join dir name = (if rooted dir then 47 # path_join (path_elems dir @ [name]) else path_join (path_elems dir @ [name]))"
proof -
  have r: "rooted (dir @ 47 # name) = rooted dir" using assms(1) by (simp add: rooted_def)
  have "path_elems (dir @ 47 # name) = path_elems dir @ [name]"
    using assms(2-5) by (simp add: path_elems_def path_split_file clean_elems_file r)
  then show ?thesis using r assms(1,3) by (simp add: Join_def Clean_def)
qed

end
