(* ===== verification/Batch_Download.thy ===== *)
theory Batch_Download
  imports Download_Progress Go_Path Go_Float Yenc "HOL-Library.AList"
begin

text \<open>
  The batch downloader of \<open>internal/usenet/download/downloader.go\<close>: it fetches the segments of a file with a pool of workers and
  writes every decoded part at the offset its article declares, marking it in the progress tracker for a later resume. The opening
  of a file and its end are functions; in between the workers interleave, one step per access to shared state
  (the channel of work, the file, the atomics, the tracker). What an article decodes to is the predicate \<open>ans\<close>, what
  the file system answers is given. The path of the file stands for the file: nobody else writes to it.
\<close>

section \<open>Segments\<close>

datatype seg_err = BodyErr nntp_error | YencErr yenc_error | BadBegin int | PastEnd int int

datatype dl_error =
    MkdirFailed
  | OpenFailed
  | CreateFailed
  | TruncateFailed
  | WriteFailed int
  | TooManyMissing int seg_err
  | CtxEnded ctx_error
  | NoDownloadableFiles
  | FileFailed bytes dl_error
  | NoPar2Requested
  | AllPar2Failed

record missing_segment =
  ms_File :: bytes
  ms_Number :: int
  ms_MessageID :: bytes
  ms_Err :: seg_err

definition downloadSegment :: "(bytes \<Rightarrow> nntp_error + bytes) \<Rightarrow> segment \<Rightarrow> seg_err + part" where
  "downloadSegment body seg =
     (case body (sg_MessageID seg) of
        Inl e \<Rightarrow> Inl (BodyErr e)
      | Inr b \<Rightarrow> (case Decode b of Inl e \<Rightarrow> Inl (YencErr e) | Inr p \<Rightarrow> Inr p))"

definition part_end :: "part \<Rightarrow> int" where
  "part_end p = i64 (i64 (Begin p - 1) + int (length (Data p)))"

definition validatePartOffset :: "part \<Rightarrow> int \<Rightarrow> seg_err option" where
  "validatePartOffset p totalBytes =
     (if Begin p \<le> 0 then Some (BadBegin (Begin p))
      else if 0 < totalBytes \<and> totalBytes < part_end p then Some (PastEnd (part_end p) totalBytes)
      else None)"

definition tailSegmentMissing :: "segment list \<Rightarrow> missing_segment list \<Rightarrow> bool" where
  "tailSegmentMissing segments missing \<longleftrightarrow>
     missing \<noteq> [] \<and> segments \<noteq> [] \<and> list_ex (\<lambda>m. ms_MessageID m = sg_MessageID (last segments)) missing"

definition maxMissing :: "(rat \<Rightarrow> int) \<Rightarrow> rat \<Rightarrow> nat \<Rightarrow> int" where
  "maxMissing oor tolerance n =
     (if tolerance \<le> 0 then 0 else max 1 (float_int oor (f64 (f64 (of_nat n) * tolerance))))"

section \<open>Files\<close>

definition write_at :: "nat \<Rightarrow> bytes \<Rightarrow> bytes \<Rightarrow> bytes" where
  "write_at off data c =
     (let c' = c @ replicate (off + length data - length c) 0 in take off c' @ data @ drop (off + length data) c')"

definition truncate_to :: "nat \<Rightarrow> bytes \<Rightarrow> bytes" where
  "truncate_to n c = take n c @ replicate (n - length c) 0"

section \<open>One file: the start\<close>

text \<open>The answers of the file system to the calls before the workers run, and the name for a file that has none.\<close>

record start_env =
  se_mkdir :: bool
  se_open :: bool
  se_create :: bool
  se_prealloc :: bool
  se_truncate :: bool
  se_name :: bytes \<comment> \<open>\<open>usenet_\<close> and the time\<close>
  se_workers :: int \<comment> \<open>\<open>ActiveConnections\<close>\<close>
  se_budget :: int \<comment> \<open>\<open>maxMissing\<close> of the number of segments\<close>

definition file_name :: "start_env \<Rightarrow> nzb_file \<Rightarrow> bytes" where
  "file_name env f =
     (let n = Base (Filename f) in if n = [] \<or> n = [46] \<or> n = [46, 46] \<or> n = [47] then se_name env else n)"

text \<open>What the workers of a file need, and what they share.\<close>

record dl_job =
  jb_name :: bytes
  jb_path :: bytes
  jb_segments :: "segment list" \<comment> \<open>in assembly order\<close>
  jb_total :: int
  jb_index :: int
  jb_budget :: int

text \<open>Where a worker stands; the work is the index of a segment.\<close>

datatype worker =
    WTake
  | WCheck nat
  | WFetch nat
  | WMiss nat seg_err
  | WWrite nat part
  | WRaise nat int
  | WNote nat int
  | WMark nat
  | WExit

record dl_run =
  dr_work :: "nat list"
  dr_workers :: "worker list"
  dr_file :: bytes
  dr_tracker :: "tracker option"
  dr_maxEnd :: int
  dr_missing :: "missing_segment list"
  dr_err :: "dl_error option" \<comment> \<open>\<open>errCh\<close>\<close>
  dr_downloaded :: int
  dr_segsDone :: int
  dr_ctx :: "ctx_error option"

datatype dl_start = Finished "dl_error + bytes" "tracker option" "bytes option" | Running dl_job dl_run

definition done_in :: "tracker option \<Rightarrow> int \<Rightarrow> nat \<Rightarrow> bool" where
  "done_in t idx i \<longleftrightarrow> (case t of None \<Rightarrow> False | Some t \<Rightarrow> IsDone idx (int i) t)"

definition known_in :: "tracker option \<Rightarrow> int \<Rightarrow> int" where
  "known_in t idx = (case t of None \<Rightarrow> 0 | Some t \<Rightarrow> KnownSize idx t)"

text \<open>\<open>DownloadFile\<close> up to the workers: \<open>disk\<close> is the file at the destination, if there is one.\<close>

definition DownloadFile_open ::
  "start_env \<Rightarrow> bytes \<Rightarrow> segment list \<Rightarrow> nzb_file \<Rightarrow> int \<Rightarrow> tracker option \<Rightarrow> bytes option \<Rightarrow> dl_start" where
  "DownloadFile_open env path segments f idx t disk =
     (let total = File_TotalBytes f;
          resuming = (case (t, disk) of (Some t, Some _) \<Rightarrow> 0 < CompletedSegments idx t | _ \<Rightarrow> False)
      in if resuming \<and> \<not> se_open env then Finished (Inl OpenFailed) t disk
         else if \<not> resuming \<and> \<not> se_create env then Finished (Inl CreateFailed) t disk
         else
           let c = (if resuming then the disk else if 0 < total \<and> se_prealloc env then truncate_to (nat total) [] else []);
               pending = filter (\<lambda>i. \<not> done_in t idx i) [0..<length segments];
               ready = filter (done_in t idx) [0..<length segments]
           in if pending = [] then
                (if 0 < known_in t idx then
                   if se_truncate env then Finished (Inr path) t (Some (truncate_to (nat (known_in t idx)) c))
                   else Finished (Inl TruncateFailed) t (Some c)
                 else Finished (Inr path) t (Some c))
              else
                Running
                  \<lparr>jb_name = file_name env f, jb_path = path, jb_segments = segments, jb_total = total, jb_index = idx, jb_budget = se_budget env\<rparr>
                  \<lparr>dr_work = pending, dr_workers = replicate (if se_workers env \<le> 0 then 1 else nat (se_workers env)) WTake, dr_file = c,
                   dr_tracker = t, dr_maxEnd = known_in t idx, dr_missing = [], dr_err = None,
                   dr_downloaded = foldl (\<lambda>n i. i64 (n + sg_Bytes (segments ! i))) 0 ready, dr_segsDone = int (length ready), dr_ctx = None\<rparr>)"

definition DownloadFile_start ::
  "start_env \<Rightarrow> segment shuffle \<Rightarrow> nzb_file \<Rightarrow> int \<Rightarrow> bytes \<Rightarrow> tracker option \<Rightarrow> bytes option \<Rightarrow> dl_start" where
  "DownloadFile_start env shuffle f idx outputDir t disk =
     (let path = Join outputDir (file_name env f); segments = SortSegmentsByNumber shuffle (fl_Segments f) in
      if \<not> se_mkdir env then Finished (Inl MkdirFailed) t disk
      else
        case t of
          Some t1 \<Rightarrow>
            if IsFileDone idx t1 then
              (case disk of
                 Some _ \<Rightarrow> Finished (Inr path) t disk
               | None \<Rightarrow> DownloadFile_open env path segments f idx (Some (ResetFile idx t1)) disk)
            else DownloadFile_open env path segments f idx t disk
        | None \<Rightarrow> DownloadFile_open env path segments f idx t disk)"

section \<open>One file: the workers\<close>

definition put_worker :: "nat \<Rightarrow> worker \<Rightarrow> dl_run \<Rightarrow> dl_run" where
  "put_worker w pc r = r\<lparr>dr_workers := (dr_workers r)[w := pc]\<rparr>"

text \<open>The channel of errors holds one; a second one is dropped.\<close>

definition send_err :: "dl_error \<Rightarrow> dl_run \<Rightarrow> dl_run" where
  "send_err e r = (case dr_err r of None \<Rightarrow> r\<lparr>dr_err := Some e\<rparr> | Some _ \<Rightarrow> r)"

definition record_missing :: "dl_job \<Rightarrow> nat \<Rightarrow> seg_err \<Rightarrow> nat \<Rightarrow> dl_run \<Rightarrow> dl_run" where
  "record_missing job i e w r =
     (let seg = jb_segments job ! i;
          r1 = r\<lparr>dr_missing := dr_missing r @ [\<lparr>ms_File = jb_name job, ms_Number = sg_Number seg, ms_MessageID = sg_MessageID seg, ms_Err = e\<rparr>]\<rparr>
      in if jb_budget job < int (length (dr_missing r1)) then put_worker w WExit (send_err (TooManyMissing (sg_Number seg) e) r1)
         else put_worker w WTake r1)"

text \<open>What a worker does with what it fetched, and after the write.\<close>

definition fetched :: "dl_job \<Rightarrow> nat \<Rightarrow> seg_err + part \<Rightarrow> worker" where
  "fetched job i res =
     (case res of
        Inl e \<Rightarrow> WMiss i e
      | Inr p \<Rightarrow> (case validatePartOffset p (jb_total job) of Some e \<Rightarrow> WMiss i e | None \<Rightarrow> WWrite i p))"

definition raise_end :: "dl_job \<Rightarrow> nat \<Rightarrow> int \<Rightarrow> nat \<Rightarrow> dl_run \<Rightarrow> dl_run" where
  "raise_end job i e w r =
     put_worker w (if dr_tracker r = None then WTake else WNote i e)
       (r\<lparr>dr_maxEnd := max (dr_maxEnd r) e, dr_downloaded := i64 (dr_downloaded r + sg_Bytes (jb_segments job ! i)), dr_segsDone := dr_segsDone r + 1\<rparr>)"

inductive dl_step :: "dl_job \<Rightarrow> (segment \<Rightarrow> seg_err + part \<Rightarrow> bool) \<Rightarrow> dl_run \<Rightarrow> dl_run \<Rightarrow> bool" for job ans where
  take: "w < length (dr_workers r) \<Longrightarrow> dr_workers r ! w = WTake \<Longrightarrow> dr_work r = i # is \<Longrightarrow>
    dl_step job ans r (put_worker w (WCheck i) (r\<lparr>dr_work := is\<rparr>))"
| empty: "w < length (dr_workers r) \<Longrightarrow> dr_workers r ! w = WTake \<Longrightarrow> dr_work r = [] \<Longrightarrow> dl_step job ans r (put_worker w WExit r)"
| cancelled: "w < length (dr_workers r) \<Longrightarrow> dr_workers r ! w = WCheck i \<Longrightarrow> dr_ctx r \<noteq> None \<Longrightarrow> dl_step job ans r (put_worker w WExit r)"
| check: "w < length (dr_workers r) \<Longrightarrow> dr_workers r ! w = WCheck i \<Longrightarrow> dr_ctx r = None \<Longrightarrow> dl_step job ans r (put_worker w (WFetch i) r)"
| fetch: "w < length (dr_workers r) \<Longrightarrow> dr_workers r ! w = WFetch i \<Longrightarrow> ans (jb_segments job ! i) res \<Longrightarrow>
    dl_step job ans r (put_worker w (fetched job i res) r)"
| miss: "w < length (dr_workers r) \<Longrightarrow> dr_workers r ! w = WMiss i e \<Longrightarrow> dl_step job ans r (record_missing job i e w r)"
| writes: "w < length (dr_workers r) \<Longrightarrow> dr_workers r ! w = WWrite i p \<Longrightarrow>
    dl_step job ans r (put_worker w (WRaise i (part_end p)) (r\<lparr>dr_file := write_at (nat (Begin p - 1)) (Data p) (dr_file r)\<rparr>))"
| write_fails: "w < length (dr_workers r) \<Longrightarrow> dr_workers r ! w = WWrite i p \<Longrightarrow>
    dl_step job ans r (put_worker w WExit (send_err (WriteFailed (sg_Number (jb_segments job ! i))) r))"
| raise: "w < length (dr_workers r) \<Longrightarrow> dr_workers r ! w = WRaise i e \<Longrightarrow> dl_step job ans r (raise_end job i e w r)"
| note_size: "w < length (dr_workers r) \<Longrightarrow> dr_workers r ! w = WNote i e \<Longrightarrow>
    dl_step job ans r (put_worker w (WMark i) (r\<lparr>dr_tracker := map_option (NoteFileSize (jb_index job) e) (dr_tracker r)\<rparr>))"
| mark: "w < length (dr_workers r) \<Longrightarrow> dr_workers r ! w = WMark i \<Longrightarrow>
    dl_step job ans r (put_worker w WTake (r\<lparr>dr_tracker := map_option (\<lambda>t. snd (MarkDone (jb_index job) (int i) now t)) (dr_tracker r)\<rparr>))"
| ctx_ends: "dr_ctx r = None \<Longrightarrow> dl_step job ans r (r\<lparr>dr_ctx := Some c\<rparr>)"

section \<open>One file: the end\<close>

text \<open>After \<open>wg.Wait\<close>: the result, and the file. \<open>io\<close> says whether the truncation succeeds.\<close>

definition DownloadFile_end :: "dl_job \<Rightarrow> bool \<Rightarrow> dl_run \<Rightarrow> (dl_error + bytes) \<times> bytes" where
  "DownloadFile_end job io r =
     (case dr_err r of
        Some e \<Rightarrow> (Inl e, dr_file r)
      | None \<Rightarrow>
          (case dr_ctx r of
             Some c \<Rightarrow> (Inl (CtxEnded c), dr_file r)
           | None \<Rightarrow>
               if 0 < dr_maxEnd r \<and> \<not> tailSegmentMissing (jb_segments job) (dr_missing r) then
                 if io then (Inr (jb_path job), truncate_to (nat (dr_maxEnd r)) (dr_file r)) else (Inl TruncateFailed, dr_file r)
               else (Inr (jb_path job), dr_file r)))"

section \<open>All files of an NZB\<close>

text \<open>
  The result of one \<open>DownloadFile\<close>, which depends on the interleaving of its workers, is the argument \<open>df\<close>; the state it
  changes (tracker and disk) is threaded through. \<open>ctx\<close> gives the context's error before each file, \<open>stat\<close> whether a path exists.
\<close>

definition files_to_download :: "unicode_lower \<Rightarrow> nzb \<Rightarrow> nzb_file list" where
  "files_to_download u n = (if HasRars u n then RarFiles u n else ContentFiles u n)"

text \<open>The map from subjects: the last file with a subject wins.\<close>

definition nzbFileIndex :: "nzb \<Rightarrow> bytes \<Rightarrow> int" where
  "nzbFileIndex n subject =
     (case filter (\<lambda>i. fl_Subject (nz_Files n ! i) = subject) [0..<length (nz_Files n)] of [] \<Rightarrow> - 1 | is \<Rightarrow> int (last is))"

record 's nzb_env =
  ne_df :: "nzb_file \<Rightarrow> int \<Rightarrow> 's \<Rightarrow> ((dl_error + bytes) \<times> missing_segment list) \<times> 's"
  ne_done :: "int \<Rightarrow> 's \<Rightarrow> bool" \<comment> \<open>\<open>tracker != nil && tracker.IsFileDone\<close>\<close>
  ne_stat :: "bytes \<Rightarrow> 's \<Rightarrow> bool"
  ne_ctx :: "nat \<Rightarrow> ctx_error option"

fun nzb_loop :: "'s nzb_env \<Rightarrow> nzb \<Rightarrow> bytes \<Rightarrow> nat \<Rightarrow> nzb_file list \<Rightarrow> (bytes \<times> bytes) list \<Rightarrow> missing_segment list \<Rightarrow> 's \<Rightarrow>
    dl_error option \<times> (bytes \<times> bytes) list \<times> missing_segment list \<times> 's" where
  "nzb_loop env n outputDir k [] res missing s = (None, res, missing, s)"
| "nzb_loop env n outputDir k (f # fs) res missing s =
     (case ne_ctx env k of
        Some c \<Rightarrow> (Some (CtxEnded c), res, missing, s)
      | None \<Rightarrow>
          let idx = nzbFileIndex n (fl_Subject f); dest = Join outputDir (Filename f) in
          if ne_done env idx s \<and> ne_stat env dest s then nzb_loop env n outputDir (Suc k) fs (AList.update (Filename f) dest res) missing s
          else
            (case ne_df env f idx s of
               ((Inl e, ms), s') \<Rightarrow> (Some (FileFailed (Filename f) e), res, missing @ ms, s')
             | ((Inr p, ms), s') \<Rightarrow> nzb_loop env n outputDir (Suc k) fs (AList.update (Filename f) p res) (missing @ ms) s'))"

definition DownloadNZB :: "unicode_lower \<Rightarrow> 's nzb_env \<Rightarrow> nzb \<Rightarrow> bytes \<Rightarrow> 's \<Rightarrow>
    dl_error option \<times> (bytes \<times> bytes) list \<times> missing_segment list \<times> 's" where
  "DownloadNZB u env n outputDir s =
     (if files_to_download u n = [] then (Some NoDownloadableFiles, [], [], s)
      else nzb_loop env n outputDir 0 (files_to_download u n) [] [] s)"

text \<open>Parity files: no tracker and no tolerance; one that failed is left out. \<open>sz\<close> is the size of the file at a path.\<close>

fun par2_loop :: "(nzb_file \<Rightarrow> 's \<Rightarrow> (dl_error + bytes) \<times> 's) \<Rightarrow> (bytes \<Rightarrow> 's \<Rightarrow> int option) \<Rightarrow> bytes \<Rightarrow> nzb_file list \<Rightarrow>
    (bytes \<times> bytes) list \<Rightarrow> 's \<Rightarrow> (bytes \<times> bytes) list \<times> 's" where
  "par2_loop df sz outputDir [] res s = (res, s)"
| "par2_loop df sz outputDir (f # fs) res s =
     (let dest = Join outputDir (Base (Filename f)) in
      if sz dest s = Some (File_TotalBytes f) then par2_loop df sz outputDir fs (AList.update (Filename f) dest res) s
      else
        (case df f s of
           (Inl e, s') \<Rightarrow> par2_loop df sz outputDir fs res s'
         | (Inr p, s') \<Rightarrow> par2_loop df sz outputDir fs (AList.update (Filename f) p res) s'))"

definition DownloadPar2Files :: "(nzb_file \<Rightarrow> 's \<Rightarrow> (dl_error + bytes) \<times> 's) \<Rightarrow> (bytes \<Rightarrow> 's \<Rightarrow> int option) \<Rightarrow> nzb_file list \<Rightarrow> bytes \<Rightarrow> 's \<Rightarrow>
    (dl_error + (bytes \<times> bytes) list) \<times> 's" where
  "DownloadPar2Files df sz files outputDir s =
     (if files = [] then (Inl NoPar2Requested, s)
      else (case par2_loop df sz outputDir files [] s of (res, s') \<Rightarrow> if res = [] then (Inl AllPar2Failed, s') else (Inr res, s')))"

end
