(* ===== verification/Batch_Download_Props.thy ===== *)
theory Batch_Download_Props
  imports Batch_Download Download_Progress_Props
begin

text \<open>
  The batch downloader: whatever the workers' interleaving, the file it reports as complete is the posted file; an interrupted run
  leaves a file and a tracker from which a later run completes it; every run comes to an end; and two states of the disk
  from which a resume reports a damaged file as complete.
\<close>

section \<open>A posted file\<close>

text \<open>The decoded data of the segments, in assembly order; where the segment begins and ends in the file.\<close>

definition seg_off :: "bytes list \<Rightarrow> nat \<Rightarrow> nat" where
  "seg_off datas i = length (concat (take i datas))"

definition seg_end :: "bytes list \<Rightarrow> nat \<Rightarrow> nat" where
  "seg_end datas i = seg_off datas i + length (datas ! i)"

definition has_seg :: "bytes list \<Rightarrow> bytes \<Rightarrow> nat \<Rightarrow> bool" where
  "has_seg datas f i \<longleftrightarrow> seg_end datas i \<le> length f \<and> (\<forall>k. seg_off datas i \<le> k \<and> k < seg_end datas i \<longrightarrow> f ! k = concat datas ! k)"

lemma concat_split: "i < length datas \<Longrightarrow> concat datas = concat (take i datas) @ datas ! i @ concat (drop (Suc i) datas)"
  by (metis concat.simps(2) concat_append id_take_nth_drop)

lemma nth_content:
  assumes "i < length datas" "seg_off datas i \<le> k" "k < seg_end datas i"
  shows "concat datas ! k = datas ! i ! (k - seg_off datas i)"
proof -
  have "concat datas ! k = (concat (take i datas) @ datas ! i @ concat (drop (Suc i) datas)) ! k" using concat_split [OF assms(1)] by simp
  also have "\<dots> = datas ! i ! (k - seg_off datas i)" using assms(2,3) by (auto simp: seg_off_def seg_end_def nth_append simp del: length_concat)
  finally show ?thesis .
qed

lemma seg_end_le: "i < length datas \<Longrightarrow> seg_end datas i \<le> length (concat datas)"
  using arg_cong [OF concat_split, of i datas length] by (simp add: seg_off_def seg_end_def)

lemma seg_end_last: "datas \<noteq> [] \<Longrightarrow> seg_end datas (length datas - 1) = length (concat datas)"
  using arg_cong [OF concat_split, of "length datas - 1" datas length] by (simp add: seg_off_def seg_end_def)

lemma seg_of_pos: "k < length (concat datas) \<Longrightarrow> \<exists>i < length datas. seg_off datas i \<le> k \<and> k < seg_end datas i"
proof (induction datas rule: rev_induct)
  case (snoc d ds)
  show ?case
  proof (cases "k < length (concat ds)")
    case True
    then obtain i where i: "i < length ds" "seg_off ds i \<le> k" "k < seg_end ds i" using snoc.IH by blast
    then have "seg_off (ds @ [d]) i \<le> k \<and> k < seg_end (ds @ [d]) i" by (simp add: seg_off_def seg_end_def nth_append)
    then show ?thesis using i(1) by (intro exI [of _ i]) simp
  next
    case False
    then show ?thesis using snoc.prems by (intro exI [of _ "length ds"]) (simp add: seg_off_def seg_end_def)
  qed
qed simp

lemma has_all_content:
  assumes "\<And>i. i < length datas \<Longrightarrow> has_seg datas f i" "datas \<noteq> []"
  shows "take (length (concat datas)) f = concat datas"
proof -
  have "length (concat datas) \<le> length f" using assms seg_end_last [OF assms(2)] by (metis diff_less has_seg_def length_greater_0_conv zero_less_one)
  moreover have "f ! k = concat datas ! k" if "k < length (concat datas)" for k
    using seg_of_pos [OF that] assms(1) by (auto simp: has_seg_def)
  ultimately show ?thesis by (intro nth_equalityI) simp_all
qed

text \<open>Writing and truncating.\<close>

lemma length_write_at: "length (write_at off d c) = max (length c) (off + length d)"
  by (simp add: write_at_def Let_def)

lemma nth_write_at:
  "k < max (length c) (off + length d) \<Longrightarrow> write_at off d c ! k = (if off \<le> k \<and> k < off + length d then d ! (k - off) else if k < length c then c ! k else 0)"
  by (auto simp: write_at_def Let_def nth_append min_def)

lemma has_write_own: "i < length datas \<Longrightarrow> has_seg datas (write_at (seg_off datas i) (datas ! i) f) i"
  using nth_content [of i datas] by (auto simp: has_seg_def length_write_at seg_end_def nth_write_at)

lemma has_write_keep:
  assumes "j < length datas" "has_seg datas f i"
  shows "has_seg datas (write_at (seg_off datas j) (datas ! j) f) i"
  using assms nth_content [of j datas] by (auto simp: has_seg_def length_write_at nth_write_at seg_end_def)

lemma nth_truncate_to: "k < n \<Longrightarrow> truncate_to n c ! k = (if k < length c then c ! k else 0)"
  by (auto simp: truncate_to_def nth_append min_def)

lemma length_truncate_to [simp]: "length (truncate_to n c) = n"
  by (simp add: truncate_to_def)

lemma has_truncate: "has_seg datas f i \<Longrightarrow> seg_end datas i \<le> n \<Longrightarrow> has_seg datas (truncate_to n f) i"
  by (auto simp: has_seg_def nth_truncate_to)

section \<open>The tracker\<close>

lemma IsDone_iff: "IsDone i j t \<longleftrightarrow> (i, j) \<in> done_segments t"
  by (auto simp: IsDone_def done_segments_def all_segments_def file_at_def)

lemma IsDone_MarkDone: "tracker_ok t \<Longrightarrow> IsDone i k (snd (MarkDone i j now t)) \<longleftrightarrow> IsDone i k t \<or> (k = j \<and> (i, j) \<in> all_segments t)"
  by (auto simp: IsDone_iff MarkDone_marks)

lemma file_at_upd: "file_at t i = Some old \<Longrightarrow> file_at (upd_file i fp t) i = Some fp"
  by (auto simp: file_at_def upd_file_def)

lemma file_at_flags [simp]: "file_at (t\<lparr>dirty := a\<rparr>) i = file_at t i" "file_at (t\<lparr>markCount := b\<rparr>) i = file_at t i"
  by (simp_all add: file_at_def)

lemma KnownSize_MarkDone: "KnownSize i (snd (MarkDone i j now t)) = KnownSize i t"
  by (auto simp: KnownSize_def MarkDone_def file_at_upd Let_def split: option.split)

lemma IsDone_NoteFileSize: "IsDone i k (NoteFileSize i e t) = IsDone i k t"
  by (auto simp: IsDone_def NoteFileSize_def raise_size_def markDirty_def file_at_upd split: option.split)

lemma KnownSize_NoteFileSize: "0 \<le> e \<Longrightarrow> 0 \<le> KnownSize i t \<Longrightarrow> KnownSize i (NoteFileSize i e t) = (if file_at t i = None then 0 else max (KnownSize i t) e)"
  by (auto simp: KnownSize_def NoteFileSize_def raise_size_def markDirty_def file_at_upd split: option.split)

lemma file_at_NoteFileSize: "file_at (NoteFileSize i e t) i = None \<longleftrightarrow> file_at t i = None"
  by (auto simp: NoteFileSize_def raise_size_def markDirty_def file_at_upd split: option.split)

lemma file_at_MarkDone: "file_at (snd (MarkDone i j now t)) i = None \<longleftrightarrow> file_at t i = None"
  by (auto simp: MarkDone_def file_at_upd Let_def split: option.split)

section \<open>The invariant of a run\<close>

text \<open>
  What a tracker says of the file at the destination is true: a segment marked done is on disk, and the size it has noted lies
  between the end of the marked segments and the end of the file.
\<close>

definition coherent :: "int \<Rightarrow> bytes list \<Rightarrow> tracker option \<Rightarrow> bytes \<Rightarrow> bool" where
  "coherent idx datas t f \<longleftrightarrow>
     (\<forall>t'. t = Some t' \<longrightarrow> tracker_ok t') \<and>
     (\<forall>i < length datas. done_in t idx i \<longrightarrow> has_seg datas f i \<and> int (seg_end datas i) \<le> known_in t idx) \<and>
     0 \<le> known_in t idx \<and> known_in t idx \<le> int (length (concat datas))"

text \<open>Articles do not change: what decodes for a segment is the part that was posted.\<close>

definition honest :: "dl_job \<Rightarrow> (segment \<Rightarrow> seg_err + part \<Rightarrow> bool) \<Rightarrow> bytes list \<Rightarrow> bool" where
  "honest job ans datas \<longleftrightarrow> length datas = length (jb_segments job) \<and> int (length (concat datas)) \<le> max_i64 \<and>
     (\<forall>i < length datas. \<forall>p. ans (jb_segments job ! i) (Inr p) \<longrightarrow> Begin p = int (seg_off datas i) + 1 \<and> Data p = datas ! i)"

fun holds_seg :: "worker \<Rightarrow> nat option" where
  "holds_seg (WCheck i) = Some i"
| "holds_seg (WFetch i) = Some i"
| "holds_seg (WMiss i e) = Some i"
| "holds_seg (WWrite i p) = Some i"
| "holds_seg (WRaise i e) = Some i"
| "holds_seg pc = None"

definition untracked :: "int \<Rightarrow> tracker option \<Rightarrow> bool" where
  "untracked idx t \<longleftrightarrow> (case t of None \<Rightarrow> True | Some t \<Rightarrow> file_at t idx = None)"

definition stopped :: "dl_run \<Rightarrow> bool" where
  "stopped r \<longleftrightarrow> dr_err r \<noteq> None \<or> dr_ctx r \<noteq> None"

definition worker_ok :: "dl_job \<Rightarrow> bytes list \<Rightarrow> dl_run \<Rightarrow> worker \<Rightarrow> bool" where
  "worker_ok job datas r pc \<longleftrightarrow>
     (\<forall>i. holds_seg pc = Some i \<longrightarrow> i < length datas) \<and>
     (case pc of
        WWrite i p \<Rightarrow> Begin p = int (seg_off datas i) + 1 \<and> Data p = datas ! i
      | WRaise i e \<Rightarrow> has_seg datas (dr_file r) i \<and> e = int (seg_end datas i)
      | WNote i e \<Rightarrow> i < length datas \<and> has_seg datas (dr_file r) i \<and> e = int (seg_end datas i)
      | WMark i \<Rightarrow> i < length datas \<and> has_seg datas (dr_file r) i \<and>
          (untracked (jb_index job) (dr_tracker r) \<or> int (seg_end datas i) \<le> known_in (dr_tracker r) (jb_index job))
      | WExit \<Rightarrow> dr_work r = [] \<or> stopped r
      | _ \<Rightarrow> True)"

definition accounted :: "dl_job \<Rightarrow> bytes list \<Rightarrow> dl_run \<Rightarrow> nat \<Rightarrow> bool" where
  "accounted job datas r i \<longleftrightarrow> i \<in> set (dr_work r) \<or> (\<exists>pc \<in> set (dr_workers r). holds_seg pc = Some i) \<or>
     (has_seg datas (dr_file r) i \<and> int (seg_end datas i) \<le> dr_maxEnd r) \<or>
     sg_MessageID (jb_segments job ! i) \<in> ms_MessageID ` set (dr_missing r) \<or> stopped r"

definition run_inv :: "dl_job \<Rightarrow> bytes list \<Rightarrow> dl_run \<Rightarrow> bool" where
  "run_inv job datas r \<longleftrightarrow> coherent (jb_index job) datas (dr_tracker r) (dr_file r) \<and>
     0 \<le> dr_maxEnd r \<and> dr_maxEnd r \<le> int (length (concat datas)) \<and>
     (\<forall>i \<in> set (dr_work r). i < length datas) \<and> dr_workers r \<noteq> [] \<and>
     (\<forall>pc \<in> set (dr_workers r). worker_ok job datas r pc) \<and> (\<forall>i < length datas. accounted job datas r i)"

text \<open>What later states keep.\<close>

definition grows :: "dl_job \<Rightarrow> bytes list \<Rightarrow> dl_run \<Rightarrow> dl_run \<Rightarrow> bool" where
  "grows job datas r r' \<longleftrightarrow> (\<forall>i. has_seg datas (dr_file r) i \<longrightarrow> has_seg datas (dr_file r') i) \<and> dr_maxEnd r \<le> dr_maxEnd r' \<and>
     known_in (dr_tracker r) (jb_index job) \<le> known_in (dr_tracker r') (jb_index job) \<and>
     (untracked (jb_index job) (dr_tracker r) \<longrightarrow> untracked (jb_index job) (dr_tracker r')) \<and>
     set (dr_missing r) \<subseteq> set (dr_missing r') \<and> (stopped r \<longrightarrow> stopped r') \<and> (dr_work r = [] \<longrightarrow> dr_work r' = [])"

lemma worker_ok_grows: "grows job datas r r' \<Longrightarrow> worker_ok job datas r pc \<Longrightarrow> worker_ok job datas r' pc"
  by (auto simp: worker_ok_def grows_def split: worker.splits)

text \<open>One worker moves on.\<close>

lemma run_inv_step:
  assumes "run_inv job datas r" "w < length (dr_workers r)" "grows job datas r r'" "dr_workers r' = (dr_workers r)[w := pc]"
    and "coherent (jb_index job) datas (dr_tracker r') (dr_file r')" "dr_maxEnd r' \<le> int (length (concat datas))"
    and "worker_ok job datas r' pc" "set (dr_work r') \<subseteq> set (dr_work r)"
    and "\<And>i. i \<in> set (dr_work r) \<Longrightarrow> i \<in> set (dr_work r') \<or> holds_seg pc = Some i"
    and "\<And>i. holds_seg (dr_workers r ! w) = Some i \<Longrightarrow> holds_seg pc = Some i \<or> (has_seg datas (dr_file r') i \<and> int (seg_end datas i) \<le> dr_maxEnd r') \<or>
      sg_MessageID (jb_segments job ! i) \<in> ms_MessageID ` set (dr_missing r') \<or> stopped r'"
  shows "run_inv job datas r'"
proof -
  have ws: "\<forall>x \<in> set (dr_workers r'). worker_ok job datas r' x"
    using assms(1,3,4,7) worker_ok_grows set_update_subset_insert [of "dr_workers r" w pc] unfolding run_inv_def by fastforce
  have pc: "pc \<in> set (dr_workers r')" using assms(2,4) by (simp add: set_update_memI)
  have "accounted job datas r' i" if "i < length datas" for i
  proof -
    have a: "accounted job datas r i" using assms(1) that by (simp add: run_inv_def)
    consider "i \<in> set (dr_work r)" | v where "v < length (dr_workers r)" "holds_seg (dr_workers r ! v) = Some i"
      | "has_seg datas (dr_file r) i" "int (seg_end datas i) \<le> dr_maxEnd r" | "sg_MessageID (jb_segments job ! i) \<in> ms_MessageID ` set (dr_missing r)" | "stopped r"
      using a unfolding accounted_def by (metis in_set_conv_nth)
    then show ?thesis
    proof cases
      case 1
      then show ?thesis using assms(9) [of i] pc by (auto simp: accounted_def)
    next
      case 2
      show ?thesis
      proof (cases "v = w")
        case True
        then show ?thesis using assms(10) [of i] 2 pc unfolding accounted_def by blast
      next
        case False
        then have "dr_workers r ! v \<in> set (dr_workers r')" using 2(1) assms(4) by (metis length_list_update nth_list_update_neq nth_mem)
        then show ?thesis using 2(2) unfolding accounted_def by blast
      qed
    next
      case 3
      then have "has_seg datas (dr_file r') i" "int (seg_end datas i) \<le> dr_maxEnd r'" using assms(3) unfolding grows_def by (blast, meson order_trans)
      then show ?thesis by (simp add: accounted_def)
    next
      case 4
      then show ?thesis using assms(3) unfolding grows_def accounted_def by blast
    next
      case 5
      then show ?thesis using assms(3) unfolding grows_def accounted_def by blast
    qed
  qed
  moreover have "0 \<le> dr_maxEnd r'" using assms(1,3) unfolding run_inv_def grows_def by linarith
  moreover have "dr_workers r' \<noteq> []" using assms(1,4) by (simp add: run_inv_def)
  moreover have "\<forall>i \<in> set (dr_work r'). i < length datas" using assms(1,8) unfolding run_inv_def by blast
  ultimately show ?thesis using ws assms(5,6) by (simp add: run_inv_def)
qed

lemma put_worker_simps [simp]: "dr_work (put_worker w pc r) = dr_work r" "dr_file (put_worker w pc r) = dr_file r" "dr_tracker (put_worker w pc r) = dr_tracker r"
  "dr_maxEnd (put_worker w pc r) = dr_maxEnd r" "dr_missing (put_worker w pc r) = dr_missing r" "dr_err (put_worker w pc r) = dr_err r"
  "dr_ctx (put_worker w pc r) = dr_ctx r" "dr_workers (put_worker w pc r) = (dr_workers r)[w := pc]"
  by (simp_all add: put_worker_def)

lemma send_err_simps [simp]: "dr_work (send_err e r) = dr_work r" "dr_file (send_err e r) = dr_file r" "dr_tracker (send_err e r) = dr_tracker r"
  "dr_maxEnd (send_err e r) = dr_maxEnd r" "dr_missing (send_err e r) = dr_missing r" "dr_ctx (send_err e r) = dr_ctx r"
  "dr_workers (send_err e r) = dr_workers r" "dr_err (send_err e r) \<noteq> None"
  by (auto simp: send_err_def split: option.split)

lemma stopped_send_err [simp]: "stopped (send_err e r)"
  by (simp add: stopped_def)

lemma stopped_put [simp]: "stopped (put_worker w pc r) = stopped r"
  by (simp add: stopped_def)

text \<open>What a worker does with what it fetched.\<close>

lemma part_end_posted:
  assumes "honest job ans datas" "i < length datas" "Begin p = int (seg_off datas i) + 1" "Data p = datas ! i"
  shows "part_end p = int (seg_end datas i)"
proof -
  have "int (seg_end datas i) \<le> max_i64" using seg_end_le [OF assms(2)] assms(1) by (simp add: honest_def del: length_concat)
  then show ?thesis using assms(3,4) by (simp add: part_end_def seg_end_def i64_nonneg del: length_concat)
qed

lemma fetched_ok:
  assumes "honest job ans datas" "i < length datas" "ans (jb_segments job ! i) res"
  shows "worker_ok job datas r (fetched job i res)" "holds_seg (fetched job i res) = Some i"
  using assms by (auto simp: fetched_def worker_ok_def honest_def split: sum.split option.split)

lemma coherent_write:
  assumes "coherent idx datas t f" "j < length datas"
  shows "coherent idx datas t (write_at (seg_off datas j) (datas ! j) f)"
  using assms has_write_keep [OF assms(2)] by (auto simp: coherent_def)

lemma coherent_note:
  assumes "coherent idx datas t f" "i < length datas" "int (length (concat datas)) \<le> max_i64"
  shows "coherent idx datas (map_option (NoteFileSize idx (int (seg_end datas i))) t) f"
    "untracked idx (map_option (NoteFileSize idx (int (seg_end datas i))) t) = untracked idx t"
    "known_in t idx \<le> known_in (map_option (NoteFileSize idx (int (seg_end datas i))) t) idx"
    "untracked idx t \<or> int (seg_end datas i) \<le> known_in (map_option (NoteFileSize idx (int (seg_end datas i))) t) idx"
proof -
  let ?e = "int (seg_end datas i)"
  have e: "?e \<le> int (length (concat datas))" using seg_end_le [OF assms(2)] by (simp only: of_nat_le_iff)
  have "in_i64 ?e" using e assms(3) by (simp add: in_i64_def del: length_concat)
  then show "coherent idx datas (map_option (NoteFileSize idx ?e) t) f"
    using assms(1) e NoteFileSize_ok(1) [of _ ?e idx] KnownSize_NoteFileSize [of ?e idx]
    by (cases t) (auto simp: coherent_def done_in_def known_in_def IsDone_NoteFileSize simp del: length_concat, auto simp: IsDone_def)
  show "untracked idx (map_option (NoteFileSize idx ?e) t) = untracked idx t"
    by (cases t) (simp_all add: untracked_def file_at_NoteFileSize)
  show "known_in t idx \<le> known_in (map_option (NoteFileSize idx ?e) t) idx"
    "untracked idx t \<or> ?e \<le> known_in (map_option (NoteFileSize idx ?e) t) idx"
    using assms(1) KnownSize_NoteFileSize [of ?e idx] by (cases t; auto simp: coherent_def untracked_def known_in_def KnownSize_def split: option.splits)+
qed

lemma coherent_mark:
  assumes "coherent idx datas t f" "i < length datas" "has_seg datas f i" "untracked idx t \<or> int (seg_end datas i) \<le> known_in t idx"
  shows "coherent idx datas (map_option (\<lambda>t. snd (MarkDone idx (int i) now t)) t) f"
    "untracked idx (map_option (\<lambda>t. snd (MarkDone idx (int i) now t)) t) = untracked idx t"
    "known_in (map_option (\<lambda>t. snd (MarkDone idx (int i) now t)) t) idx = known_in t idx"
proof -
  show u: "untracked idx (map_option (\<lambda>t. snd (MarkDone idx (int i) now t)) t) = untracked idx t"
    by (cases t) (simp_all add: untracked_def file_at_MarkDone)
  show k: "known_in (map_option (\<lambda>t. snd (MarkDone idx (int i) now t)) t) idx = known_in t idx"
    by (cases t) (simp_all add: known_in_def KnownSize_MarkDone)
  let ?t = "map_option (\<lambda>t. snd (MarkDone idx (int i) now t)) t"
  have d: "done_in ?t idx j \<Longrightarrow> done_in t idx j \<or> (j = i \<and> \<not> untracked idx t)" for j
    using assms(1) by (cases t) (auto simp: done_in_def coherent_def untracked_def IsDone_MarkDone all_segments_def file_at_def)
  have "has_seg datas f j \<and> int (seg_end datas j) \<le> known_in t idx" if "j < length datas" "done_in ?t idx j" for j
    using d [OF that(2)] assms that(1) unfolding coherent_def by blast
  moreover have "tracker_ok x" if "?t = Some x" for x using assms(1) that MarkDone_ok(1) by (cases t) (auto simp: coherent_def)
  ultimately show "coherent idx datas ?t f" using assms(1) k unfolding coherent_def by simp
qed

lemma grows_same: "dr_file r' = dr_file r \<Longrightarrow> dr_maxEnd r' = dr_maxEnd r \<Longrightarrow> dr_tracker r' = dr_tracker r \<Longrightarrow> set (dr_missing r) \<subseteq> set (dr_missing r') \<Longrightarrow>
    (stopped r \<longrightarrow> stopped r') \<Longrightarrow> (dr_work r = [] \<longrightarrow> dr_work r' = []) \<Longrightarrow> grows job datas r r'"
  by (simp add: grows_def)

lemma run_inv_worker:
  assumes "run_inv job datas r" "w < length (dr_workers r)"
  shows "worker_ok job datas r (dr_workers r ! w)" "coherent (jb_index job) datas (dr_tracker r) (dr_file r)" "dr_maxEnd r \<le> int (length (concat datas))"
    "0 \<le> dr_maxEnd r" "\<And>i. i \<in> set (dr_work r) \<Longrightarrow> i < length datas"
  using assms by (simp_all add: run_inv_def)

lemma run_inv_dl_step:
  assumes "dl_step job ans r r'" "run_inv job datas r" "honest job ans datas"
  shows "run_inv job datas r'"
  using assms(1,2)
proof (induction rule: dl_step.induct)
  case (take w r i "is")
  note v = run_inv_worker [OF take(4,1)]
  have "grows job datas r (put_worker w (WCheck i) (r\<lparr>dr_work := is\<rparr>))" using take(3) by (intro grows_same) (simp_all add: stopped_def)
  then show ?case
    by (rule run_inv_step [OF take(4,1)]) (use take v in \<open>auto simp: worker_ok_def\<close>)
next
  case (empty w r)
  note v = run_inv_worker [OF empty(4,1)]
  show ?case by (rule run_inv_step [OF empty(4,1) grows_same]) (use empty v in \<open>auto simp: worker_ok_def\<close>)
next
  case (cancelled w r i)
  note v = run_inv_worker [OF cancelled(4,1)]
  show ?case by (rule run_inv_step [OF cancelled(4,1) grows_same]) (use cancelled v in \<open>auto simp: worker_ok_def stopped_def\<close>)
next
  case (check w r i)
  note v = run_inv_worker [OF check(4,1)]
  show ?case by (rule run_inv_step [OF check(4,1) grows_same]) (use check v in \<open>auto simp: worker_ok_def\<close>)
next
  case (fetch w r i res)
  note v = run_inv_worker [OF fetch(4,1)]
  have i: "i < length datas" using v(1) fetch(2) by (auto simp: worker_ok_def)
  note f = fetched_ok [OF assms(3) i fetch(3)]
  show ?case by (rule run_inv_step [OF fetch(4,1) grows_same]) (use fetch v f in auto)
next
  case (miss w r i e)
  note v = run_inv_worker [OF miss(3,1)]
  show ?case by (rule run_inv_step [OF miss(3,1) grows_same, where pc = "if jb_budget job < int (Suc (length (dr_missing r))) then WExit else WTake"])
    (use miss v in \<open>auto simp: worker_ok_def record_missing_def stopped_def Let_def\<close>)
next
  case (writes w r i p)
  note v = run_inv_worker [OF writes(3,1)]
  have i: "i < length datas" "Begin p = int (seg_off datas i) + 1" "Data p = datas ! i" using v(1) writes(2) by (auto simp: worker_ok_def)
  have e: "part_end p = int (seg_end datas i)" by (rule part_end_posted [OF assms(3) i])
  let ?r = "put_worker w (WRaise i (part_end p)) (r\<lparr>dr_file := write_at (nat (Begin p - 1)) (Data p) (dr_file r)\<rparr>)"
  have f: "dr_file ?r = write_at (seg_off datas i) (datas ! i) (dr_file r)" using i by simp
  have "grows job datas r ?r" using has_write_keep [OF i(1)] i by (simp add: grows_def stopped_def)
  then show ?case
  proof (rule run_inv_step [OF writes(3,1)])
    show "coherent (jb_index job) datas (dr_tracker ?r) (dr_file ?r)" using coherent_write [OF v(2) i(1)] f by simp
    show "worker_ok job datas ?r (WRaise i (part_end p))" using has_write_own [OF i(1)] i e by (simp add: worker_ok_def)
  qed (use writes v in auto)
next
  case (write_fails w r i p)
  note v = run_inv_worker [OF write_fails(3,1)]
  show ?case by (rule run_inv_step [OF write_fails(3,1) grows_same]) (use write_fails v in \<open>auto simp: worker_ok_def\<close>)
next
  case (raise w r i e)
  note v = run_inv_worker [OF raise(3,1)]
  have i: "i < length datas" "has_seg datas (dr_file r) i" "e = int (seg_end datas i)" using v(1) raise(2) by (auto simp: worker_ok_def)
  have e: "e \<le> int (length (concat datas))" using seg_end_le [OF i(1)] i(3) by (simp only: of_nat_le_iff)
  let ?pc = "if dr_tracker r = None then WTake else WNote i e"
  have "grows job datas r (raise_end job i e w r)" by (auto simp: grows_def raise_end_def stopped_def)
  then show ?case
    by (rule run_inv_step [OF raise(3,1), where pc = ?pc]) (use raise(2) v i e in \<open>auto simp: raise_end_def worker_ok_def simp del: length_concat\<close>)
next
  case (note_size w r i e)
  note v = run_inv_worker [OF note_size(3,1)]
  have i: "i < length datas" "has_seg datas (dr_file r) i" "e = int (seg_end datas i)" using v(1) note_size(2) by (auto simp: worker_ok_def)
  have l: "int (length (concat datas)) \<le> max_i64" using assms(3) unfolding honest_def by blast
  note c = coherent_note [OF v(2) i(1) l]
  let ?r = "put_worker w (WMark i) (r\<lparr>dr_tracker := map_option (NoteFileSize (jb_index job) e) (dr_tracker r)\<rparr>)"
  have "grows job datas r ?r" using c i(3) by (simp add: grows_def stopped_def)
  then show ?case
    by (rule run_inv_step [OF note_size(3,1)]) (use note_size(2) v i c in \<open>auto simp: worker_ok_def simp del: length_concat\<close>)
next
  case (mark w r i now)
  note v = run_inv_worker [OF mark(3,1)]
  have i: "i < length datas" "has_seg datas (dr_file r) i" "untracked (jb_index job) (dr_tracker r) \<or> int (seg_end datas i) \<le> known_in (dr_tracker r) (jb_index job)"
    using v(1) mark(2) by (auto simp: worker_ok_def)
  note c = coherent_mark [OF v(2) i, of now]
  let ?r = "put_worker w WTake (r\<lparr>dr_tracker := map_option (\<lambda>t. snd (MarkDone (jb_index job) (int i) now t)) (dr_tracker r)\<rparr>)"
  have "grows job datas r ?r" using c by (simp add: grows_def stopped_def)
  then show ?case by (rule run_inv_step [OF mark(3,1)]) (use mark(2) v c in \<open>auto simp: worker_ok_def\<close>)
next
  case (ctx_ends r c)
  have "grows job datas r (r\<lparr>dr_ctx := Some c\<rparr>)" by (rule grows_same) (simp_all add: stopped_def)
  then show ?case using ctx_ends(2) worker_ok_grows by (auto simp: run_inv_def accounted_def stopped_def)
qed

lemma has_seg_dl_step:
  assumes "dl_step job ans r r'" "run_inv job datas r" "honest job ans datas" "has_seg datas (dr_file r) i"
  shows "has_seg datas (dr_file r') i"
  using assms(1,2,4)
proof (cases rule: dl_step.cases)
  case (writes w j p)
  then have "j < length datas" "Begin p = int (seg_off datas j) + 1" "Data p = datas ! j"
    using run_inv_worker(1) [OF assms(2) writes(2)] by (auto simp: worker_ok_def)
  then show ?thesis using has_write_keep assms(4) writes(1) by simp
qed (auto simp: record_missing_def raise_end_def Let_def)

lemma run_inv_steps: "(dl_step job ans)\<^sup>*\<^sup>* r r' \<Longrightarrow> run_inv job datas r \<Longrightarrow> honest job ans datas \<Longrightarrow> run_inv job datas r'"
  by (induction rule: rtranclp_induct) (auto intro: run_inv_dl_step)

section \<open>The start and the end of a run\<close>

text \<open>
  From which states of the disk a download may start: the tracker is true of the file, or there is no file and nothing
  is marked, or everything is.
\<close>

definition resumable :: "int \<Rightarrow> bytes list \<Rightarrow> tracker option \<Rightarrow> bytes option \<Rightarrow> bool" where
  "resumable idx datas t disk \<longleftrightarrow>
     (case disk of
        Some f \<Rightarrow> coherent idx datas t f
      | None \<Rightarrow> coherent idx datas t [] \<or> (\<exists>t'. t = Some t' \<and> tracker_ok t' \<and> IsFileDone idx t'))"

lemma no_segment_done: "tracker_ok t \<Longrightarrow> CompletedSegments idx t \<le> 0 \<Longrightarrow> \<not> IsDone idx i t"
proof
  assume a: "tracker_ok t" "CompletedSegments idx t \<le> 0" "IsDone idx i t"
  then obtain fp where fp: "file_at t idx = Some fp" "0 \<le> i" "i < int (segCount fp)" "seg_bit (completed fp) (nat i)" by (auto simp: IsDone_def split: option.splits if_splits)
  then have "{s. s < segCount fp \<and> seg_bit (completed fp) s} = {}"
    using a(2) file_at_ok [OF a(1) fp(1)] by (simp add: CompletedSegments_def fp_ok_def count_bits_card)
  then show False using fp by (auto simp: nat_less_iff)
qed

lemma ResetFile_none:
  assumes "tracker_ok t"
  shows "\<not> IsDone idx i (ResetFile idx t)" "KnownSize idx (ResetFile idx t) = 0"
proof -
  have "CompletedSegments idx (ResetFile idx t) \<le> 0" by (auto simp: CompletedSegments_def ResetFile_def file_at_upd split: option.split)
  then show "\<not> IsDone idx i (ResetFile idx t)" using no_segment_done ResetFile_ok(1) [OF assms] by blast
  show "KnownSize idx (ResetFile idx t) = 0" by (auto simp: KnownSize_def ResetFile_def file_at_upd split: option.split)
qed

lemma coherent_any_file: "coherent idx datas t [] \<Longrightarrow> coherent idx datas t f"
  by (auto simp: coherent_def has_seg_def)

lemma coherent_unmarked: "(\<And>t'. t = Some t' \<Longrightarrow> tracker_ok t') \<Longrightarrow> (\<And>i. \<not> done_in t idx i) \<Longrightarrow> 0 \<le> known_in t idx \<Longrightarrow>
    known_in t idx \<le> int (length (concat datas)) \<Longrightarrow> coherent idx datas t f"
  by (simp add: coherent_def)

text \<open>What the workers are started on.\<close>

lemma open_run:
  assumes "DownloadFile_open env path segments f idx t disk = Running job r"
    and "case disk of Some c \<Rightarrow> coherent idx datas t c | None \<Rightarrow> coherent idx datas t []" "length datas = length segments"
  shows "run_inv job datas r \<and> jb_segments job = segments \<and> jb_index job = idx \<and> jb_path job = path"
proof -
  let ?res = "case (t, disk) of (Some t, Some _) \<Rightarrow> 0 < CompletedSegments idx t | _ \<Rightarrow> False"
  let ?c = "if ?res then the disk else if 0 < File_TotalBytes f \<and> se_prealloc env then truncate_to (nat (File_TotalBytes f)) [] else []"
  have r: "dr_work r = filter (\<lambda>i. \<not> done_in t idx i) [0..<length segments]" "dr_file r = ?c" "dr_tracker r = t" "dr_maxEnd r = known_in t idx"
    "set (dr_workers r) \<subseteq> {WTake}" "dr_workers r \<noteq> []" "jb_segments job = segments" "jb_index job = idx" "jb_path job = path"
    using assms(1) by (auto simp: DownloadFile_open_def Let_def split: if_splits)
  have c: "coherent idx datas t ?c"
  proof (cases disk)
    case None
    then show ?thesis using assms(2) coherent_any_file by (auto split: option.split)
  next
    case (Some d)
    then have d: "coherent idx datas t d" using assms(2) by simp
    show ?thesis
    proof (cases ?res)
      case False
      then have "\<not> done_in t idx i" for i using d Some no_segment_done by (auto simp: done_in_def coherent_def split: option.splits)
      then show ?thesis using d by (intro coherent_unmarked) (simp_all add: coherent_def del: length_concat)
    qed (use d Some in auto)
  qed
  have a: "accounted job datas r i" if "i < length datas" for i
    using c r that assms(3) by (cases "done_in t idx i") (auto simp: accounted_def coherent_def)
  have w: "worker_ok job datas r pc" if "pc \<in> set (dr_workers r)" for pc using that r(5) by (auto simp: worker_ok_def)
  have "0 \<le> known_in t idx" "known_in t idx \<le> int (length (concat datas))" using c by (simp_all add: coherent_def del: length_concat)
  then show ?thesis unfolding run_inv_def using c r a w assms(3) by simp
qed

lemma start_run:
  assumes "DownloadFile_start env shuffle f idx dir t disk = Running job r" "resumable idx datas t disk" "length datas = length (fl_Segments f)" "rearranges shuffle (fl_Segments f)"
  shows "run_inv job datas r \<and> jb_segments job = SortSegmentsByNumber shuffle (fl_Segments f) \<and> jb_index job = idx \<and> jb_path job = Join dir (file_name env f)"
proof -
  let ?path = "Join dir (file_name env f)" and ?segs = "SortSegmentsByNumber shuffle (fl_Segments f)"
  have len: "length datas = length ?segs" using assms(3,4) by (metis SortSegmentsByNumber_def mset_eq_length rearranges_def sort_Slice_def length_sort)
  consider t1 where "t = Some t1" "IsFileDone idx t1" "disk = None" "DownloadFile_open env ?path ?segs f idx (Some (ResetFile idx t1)) disk = Running job r"
    | "DownloadFile_open env ?path ?segs f idx t disk = Running job r" "\<not> (\<exists>t1. t = Some t1 \<and> IsFileDone idx t1)"
    using assms(1) by (auto simp: DownloadFile_start_def Let_def split: if_splits option.splits)
  then show ?thesis
  proof cases
    case 1
    then have ok: "tracker_ok t1" using assms(2) by (auto simp: resumable_def coherent_def)
    then have "coherent idx datas (Some (ResetFile idx t1)) []"
      using ResetFile_none ResetFile_ok(1) by (intro coherent_unmarked) (auto simp: done_in_def known_in_def)
    then show ?thesis using open_run [OF 1(4) _ len] 1(3) by simp
  next
    case 2
    then have "case disk of Some c \<Rightarrow> coherent idx datas t c | None \<Rightarrow> coherent idx datas t []" using assms(2) by (auto simp: resumable_def split: option.splits)
    then show ?thesis by (rule open_run [OF 2(1) _ len])
  qed
qed

text \<open>What a run that succeeded leaves on disk.\<close>

lemma end_run:
  assumes "run_inv job datas r" "\<forall>pc \<in> set (dr_workers r). pc = WExit" "DownloadFile_end job io r = (Inr path, c)" "datas \<noteq> []" "concat datas \<noteq> []"
    "length datas = length (jb_segments job)"
  shows "path = jb_path job" "i < length datas \<Longrightarrow> sg_MessageID (jb_segments job ! i) \<notin> ms_MessageID ` set (dr_missing r) \<Longrightarrow> has_seg datas c i"
    "dr_missing r = [] \<Longrightarrow> c = concat datas"
proof -
  have ns: "\<not> stopped r" using assms(3) by (auto simp: DownloadFile_end_def stopped_def split: option.splits)
  have work: "dr_work r = []" using assms(1,2) ns by (auto simp: run_inv_def worker_ok_def neq_Nil_conv)
  have has: "has_seg datas (dr_file r) i \<and> int (seg_end datas i) \<le> dr_maxEnd r"
    if "i < length datas" "sg_MessageID (jb_segments job ! i) \<notin> ms_MessageID ` set (dr_missing r)" for i
  proof -
    have "accounted job datas r i" using assms(1) that(1) by (simp add: run_inv_def)
    moreover have "\<not> (\<exists>pc \<in> set (dr_workers r). holds_seg pc = Some i)" using assms(2) by auto
    ultimately show ?thesis using that(2) work ns by (simp add: accounted_def)
  qed
  show path: "path = jb_path job" using assms(3) ns by (auto simp: DownloadFile_end_def stopped_def split: option.splits if_splits)
  have c: "c = dr_file r \<or> c = truncate_to (nat (dr_maxEnd r)) (dr_file r)" using assms(3) ns by (auto simp: DownloadFile_end_def stopped_def split: option.splits if_splits)
  show "has_seg datas c i" if "i < length datas" "sg_MessageID (jb_segments job ! i) \<notin> ms_MessageID ` set (dr_missing r)"
    using has [OF that] c has_truncate [of datas "dr_file r" i "nat (dr_maxEnd r)"] by (auto simp: le_nat_iff)
  assume m: "dr_missing r = []"
  have n: "length datas - 1 < length datas" using assms(4) by (cases datas) auto
  have "int (length (concat datas)) \<le> dr_maxEnd r" using has [OF n] m seg_end_last [OF assms(4)] by simp
  then have e: "dr_maxEnd r = int (length (concat datas))" using assms(1) unfolding run_inv_def by linarith
  have "c = truncate_to (length (concat datas)) (dr_file r)"
    using assms(3,5) ns m e by (auto simp: DownloadFile_end_def stopped_def tailSegmentMissing_def split: option.splits if_splits)
  moreover have t: "take (length (concat datas)) (dr_file r) = concat datas" using has m assms(4) by (intro has_all_content) auto
  moreover have "length (concat datas) \<le> length (dr_file r)" using t by (metis length_take min.cobounded1)
  ultimately show "c = concat datas" by (simp add: truncate_to_def del: length_concat)
qed

section \<open>Every run ends\<close>

fun weight :: "worker \<Rightarrow> nat" where
  "weight WExit = 0"
| "weight WTake = 1"
| "weight (WMark i) = 2"
| "weight (WMiss i e) = 2"
| "weight (WNote i e) = 3"
| "weight (WRaise i e) = 4"
| "weight (WWrite i p) = 5"
| "weight (WFetch i) = 6"
| "weight (WCheck i) = 7"

definition run_measure :: "dl_run \<Rightarrow> nat" where
  "run_measure r = 7 * length (dr_work r) + sum_list (map weight (dr_workers r)) + (if dr_ctx r = None then 1 else 0)"

lemma sum_weight_less:
  assumes "w < length ws" "weight pc + a < weight (ws ! w) + b"
  shows "sum_list (map weight (ws[w := pc])) + a < sum_list (map weight ws) + b"
proof -
  have "sum_list (map weight (ws[w := pc])) = sum_list (map weight ws) + weight pc - weight (ws ! w)"
    using sum_list_update [of w "map weight ws" "weight pc"] assms(1) by (simp add: map_update)
  moreover have "weight (ws ! w) \<le> sum_list (map weight ws)" using assms(1) by (metis length_map nth_map elem_le_sum_list)
  ultimately show ?thesis using assms(2) by linarith
qed

lemma dl_step_decreases: "dl_step job ans r r' \<Longrightarrow> run_measure r' < run_measure r"
proof (induction rule: dl_step.induct)
  case (take w r i "is")
  then show ?case using sum_weight_less [of w "dr_workers r" "WCheck i" 0 7] by (simp add: run_measure_def)
next
  case (fetch w r i res)
  have "weight (fetched job i res) < 6" by (auto simp: fetched_def split: sum.split option.split)
  then show ?case using fetch sum_weight_less [of w "dr_workers r" "fetched job i res" 0 0] by (simp add: run_measure_def)
next
  case (miss w r i e)
  then show ?case using sum_weight_less [of w "dr_workers r" WExit 0 0] sum_weight_less [of w "dr_workers r" WTake 0 0]
    by (simp add: run_measure_def record_missing_def Let_def)
next
  case (raise w r i e)
  then show ?case using sum_weight_less [of w "dr_workers r" WTake 0 0] sum_weight_less [of w "dr_workers r" "WNote i e" 0 0]
    by (simp add: run_measure_def raise_end_def)
next
  case (ctx_ends r c)
  then show ?case by (simp add: run_measure_def)
next
  case (empty w r)
  then show ?case using sum_weight_less [of w "dr_workers r" WExit 0 0] by (simp add: run_measure_def)
next
  case (cancelled w r i)
  then show ?case using sum_weight_less [of w "dr_workers r" WExit 0 0] by (simp add: run_measure_def)
next
  case (check w r i)
  then show ?case using sum_weight_less [of w "dr_workers r" "WFetch i" 0 0] by (simp add: run_measure_def)
next
  case (writes w r i p)
  then show ?case using sum_weight_less [of w "dr_workers r" "WRaise i (part_end p)" 0 0] by (simp add: run_measure_def)
next
  case (write_fails w r i p)
  then show ?case using sum_weight_less [of w "dr_workers r" WExit 0 0] by (simp add: run_measure_def)
next
  case (note_size w r i e)
  then show ?case using sum_weight_less [of w "dr_workers r" "WMark i" 0 0] by (simp add: run_measure_def)
next
  case (mark w r i now)
  then show ?case using sum_weight_less [of w "dr_workers r" WTake 0 0] by (simp add: run_measure_def)
qed

text \<open>A worker that has not ended can always go on.\<close>

lemma worker_moves:
  assumes "w < length (dr_workers r)" "dr_workers r ! w \<noteq> WExit" "\<And>seg. \<exists>res. ans seg res"
  shows "\<exists>r'. dl_step job ans r r'"
proof (cases "dr_workers r ! w")
  case WTake
  then show ?thesis using dl_step.take [OF assms(1) WTake] dl_step.empty [OF assms(1) WTake] by (cases "dr_work r") blast+
next
  case (WCheck i)
  then show ?thesis using dl_step.cancelled [OF assms(1) WCheck] dl_step.check [OF assms(1) WCheck] by (cases "dr_ctx r = None") blast+
next
  case (WFetch i)
  then show ?thesis using dl_step.fetch [OF assms(1) WFetch] assms(3) by blast
qed (use assms(1,2) in \<open>blast intro: dl_step.miss dl_step.writes dl_step.raise dl_step.note_size dl_step.mark\<close>)+

lemma run_ends:
  assumes "\<And>seg. \<exists>res. ans seg res"
  shows "\<exists>r'. (dl_step job ans)\<^sup>*\<^sup>* r r' \<and> (\<forall>pc \<in> set (dr_workers r'). pc = WExit)"
proof (induction "run_measure r" arbitrary: r rule: less_induct)
  case less
  show ?case
  proof (cases "\<forall>pc \<in> set (dr_workers r). pc = WExit")
    case False
    then obtain w where "w < length (dr_workers r)" "dr_workers r ! w \<noteq> WExit" by (auto simp: in_set_conv_nth)
    then obtain r' where r': "dl_step job ans r r'" using worker_moves assms by blast
    from less [OF dl_step_decreases [OF r']] r' show ?thesis by (meson converse_rtranclp_into_rtranclp)
  qed blast
qed

section \<open>Where files are written, and which\<close>

text \<open>Whatever the subject of a file says, it is written to a file of the output directory.\<close>

lemma file_confined:
  assumes "dir \<noteq> []" "47 \<notin> set (se_name env)" "se_name env \<noteq> []" "se_name env \<noteq> [46]" "se_name env \<noteq> [46, 46]"
  shows "Join dir (file_name env f) =
    (if rooted dir then 47 # path_join (path_elems dir @ [file_name env f]) else path_join (path_elems dir @ [file_name env f])) \<and> 47 \<notin> set (file_name env f)"
proof -
  have n: "47 \<notin> set (file_name env f)" "file_name env f \<noteq> []" "file_name env f \<noteq> [46]" "file_name env f \<noteq> [46, 46]"
    using assms(2-5) Base_no_slash [of "Filename f"] by (auto simp: file_name_def Let_def)
  then show ?thesis using Join_confined [OF assms(1) n] by blast
qed

text \<open>A download of all files that succeeds has a path for each; parity files that were not asked for are not reported.\<close>

lemma update_keys: "fst ` set (AList.update a b xs) = insert a (fst ` set xs)"
  by (simp add: dom_update)

lemma nzb_loop_covers:
  "nzb_loop env n dir k fs res ms s = (None, res', ms', s') \<Longrightarrow> Filename ` set fs \<union> fst ` set res \<subseteq> fst ` set res'"
proof (induction fs arbitrary: k res ms s)
  case (Cons f fs)
  obtain k' p ms1 s1 where "nzb_loop env n dir k' fs (AList.update (Filename f) p res) ms1 s1 = (None, res', ms', s')"
    using Cons.prems by (auto simp: Let_def split: option.splits if_splits sum.splits prod.splits)
  from Cons.IH [OF this] show ?case by (simp add: update_keys)
qed simp

lemma DownloadNZB_covers: "DownloadNZB u env n dir s = (None, res, ms, s') \<Longrightarrow> f \<in> set (files_to_download u n) \<Longrightarrow> Filename f \<in> fst ` set res"
  using nzb_loop_covers [of env n dir 0 "files_to_download u n" "[]" "[]" s res ms s'] by (auto simp: DownloadNZB_def split: if_splits)

lemma par2_loop_files: "par2_loop df sz dir fs res s = (res', s') \<Longrightarrow> fst ` set res' \<subseteq> Filename ` set fs \<union> fst ` set res"
proof (induction fs arbitrary: res s)
  case (Cons f fs)
  obtain res1 s1 where r: "par2_loop df sz dir fs res1 s1 = (res', s')" "res1 = res \<or> (\<exists>p. res1 = AList.update (Filename f) p res)"
    using Cons.prems by (auto simp: Let_def split: if_splits sum.splits prod.splits)
  have "fst ` set res1 \<subseteq> insert (Filename f) (fst ` set res)" using r(2) by (elim disjE exE) (simp_all add: update_keys subset_insertI)
  with Cons.IH [OF r(1)] show ?case unfolding list.set image_insert by blast
qed simp

section \<open>A run with one worker and one segment\<close>

lemma one_segment_run:
  assumes "dr_workers r = [WTake]" "dr_work r = [i]" "dr_ctx r = None" "ans (jb_segments job ! i) (Inr p)" "validatePartOffset p (jb_total job) = None"
  shows "\<exists>r'. (dl_step job ans)\<^sup>*\<^sup>* r r' \<and> dr_workers r' = [WExit] \<and> dr_work r' = [] \<and> dr_ctx r' = None \<and> dr_err r' = dr_err r \<and>
    dr_missing r' = dr_missing r \<and> dr_file r' = write_at (nat (Begin p - 1)) (Data p) (dr_file r) \<and> dr_maxEnd r' = max (dr_maxEnd r) (part_end p) \<and>
    dr_tracker r' = map_option (\<lambda>t. snd (MarkDone (jb_index job) (int i) now (NoteFileSize (jb_index job) (part_end p) t))) (dr_tracker r)"
proof -
  define r1 where "r1 = put_worker 0 (WCheck i) (r\<lparr>dr_work := []\<rparr>)"
  define r2 where "r2 = put_worker 0 (WFetch i) r1"
  define r3 where "r3 = put_worker 0 (WWrite i p) r2"
  define r4 where "r4 = put_worker 0 (WRaise i (part_end p)) (r3\<lparr>dr_file := write_at (nat (Begin p - 1)) (Data p) (dr_file r3)\<rparr>)"
  define r5 where "r5 = raise_end job i (part_end p) 0 r4"
  have 1: "dl_step job ans r r1" unfolding r1_def by (rule dl_step.take) (use assms in simp_all)
  have 2: "dl_step job ans r1 r2" unfolding r2_def by (rule dl_step.check) (use assms in \<open>simp_all add: r1_def\<close>)
  have "dl_step job ans r2 (put_worker 0 (fetched job i (Inr p)) r2)" by (rule dl_step.fetch) (use assms in \<open>simp_all add: r2_def r1_def\<close>)
  then have 3: "dl_step job ans r2 r3" using assms(5) by (simp add: r3_def fetched_def)
  have 4: "dl_step job ans r3 r4" unfolding r4_def by (rule dl_step.writes) (use assms in \<open>simp_all add: r3_def r2_def r1_def\<close>)
  have 5: "dl_step job ans r4 r5" unfolding r5_def by (rule dl_step.raise) (use assms in \<open>simp_all add: r4_def r3_def r2_def r1_def\<close>)
  have to5: "(dl_step job ans)\<^sup>*\<^sup>* r r5" using 1 2 3 4 5 by (meson converse_rtranclp_into_rtranclp rtranclp.rtrancl_refl)
  have at5: "dr_workers r5 = [if dr_tracker r = None then WTake else WNote i (part_end p)]" "dr_work r5 = []" "dr_ctx r5 = None" "dr_err r5 = dr_err r"
    "dr_missing r5 = dr_missing r" "dr_file r5 = write_at (nat (Begin p - 1)) (Data p) (dr_file r)" "dr_maxEnd r5 = max (dr_maxEnd r) (part_end p)"
    "dr_tracker r5 = dr_tracker r" using assms by (simp_all add: r5_def raise_end_def r4_def r3_def r2_def r1_def)
  show ?thesis
  proof (cases "dr_tracker r = None")
    case True
    have "dl_step job ans r5 (put_worker 0 WExit r5)" by (rule dl_step.empty) (use at5 True in simp_all)
    then show ?thesis using to5 at5 True by (intro exI [of _ "put_worker 0 WExit r5"]) (auto intro: rtranclp.rtrancl_into_rtrancl)
  next
    case False
    define r6 where "r6 = put_worker 0 (WMark i) (r5\<lparr>dr_tracker := map_option (NoteFileSize (jb_index job) (part_end p)) (dr_tracker r5)\<rparr>)"
    define r7 where "r7 = put_worker 0 WTake (r6\<lparr>dr_tracker := map_option (\<lambda>t. snd (MarkDone (jb_index job) (int i) now t)) (dr_tracker r6)\<rparr>)"
    have 6: "dl_step job ans r5 r6" unfolding r6_def by (rule dl_step.note_size) (use at5 False in simp_all)
    have 7: "dl_step job ans r6 r7" unfolding r7_def by (rule dl_step.mark) (use at5 False in \<open>simp_all add: r6_def\<close>)
    have 8: "dl_step job ans r7 (put_worker 0 WExit r7)" by (rule dl_step.empty) (use at5 False in \<open>simp_all add: r7_def r6_def\<close>)
    have "(dl_step job ans)\<^sup>*\<^sup>* r (put_worker 0 WExit r7)" using to5 6 7 8 by (meson rtranclp.rtrancl_into_rtrancl)
    then show ?thesis using at5 False by (intro exI [of _ "put_worker 0 WExit r7"]) (simp add: r7_def r6_def option.map_comp comp_def)
  qed
qed

section \<open>Properties\<close>

lemma start_job:
  assumes "DownloadFile_start env shuffle f idx dir t disk = Running job r"
  shows "jb_segments job = SortSegmentsByNumber shuffle (fl_Segments f)" "jb_index job = idx"
  using assms by (auto simp: DownloadFile_start_def DownloadFile_open_def Let_def split: if_splits option.splits)


text \<open>A file of two segments, three bytes long, of which the tracker may know the first.\<close>

definition posted_seg :: "int \<Rightarrow> segment" where
  "posted_seg k = \<lparr>sg_Bytes = 10, sg_Number = k, sg_MessageID = [of_int k]\<rparr>"

definition one_file :: "segment list \<Rightarrow> nzb_file" where
  "one_file segs = \<lparr>fl_Poster = [], fl_Date = 0, fl_Subject = str ''=a='', fl_Groups = [], fl_Segments = segs\<rparr>"

definition one_env :: start_env where
  "one_env = \<lparr>se_mkdir = True, se_open = True, se_create = True, se_prealloc = True, se_truncate = True, se_name = str ''u'', se_workers = 1, se_budget = 0\<rparr>"

definition one_tracker :: "nat \<Rightarrow> byte \<Rightarrow> int \<Rightarrow> int \<Rightarrow> tracker" where
  "one_tracker n b d k = \<lparr>fingerprint = replicate 32 0, tr_files = [\<lparr>segCount = n, completed = [b], doneCount = d, knownSize = k\<rparr>], dirty = False, markCount = 0, lastFlush = 0\<rparr>"

definition posted_part :: "int \<Rightarrow> bytes \<Rightarrow> part" where
  "posted_part b d = zero_part\<lparr>Begin := b, Data := d\<rparr>"

definition posted_ans :: "segment \<Rightarrow> seg_err + part \<Rightarrow> bool" where
  "posted_ans seg res \<longleftrightarrow> res = Inr (if sg_Number seg = 1 then posted_part 1 [1, 2] else posted_part 3 [3])"

definition one_job :: "segment list \<Rightarrow> dl_job" where
  "one_job segs = \<lparr>jb_name = str ''=a='', jb_path = str ''d/=a='', jb_segments = segs, jb_total = 10 * int (length segs), jb_index = 0, jb_budget = 0\<rparr>"

definition one_run :: "nat \<Rightarrow> bytes \<Rightarrow> tracker option \<Rightarrow> int \<Rightarrow> int \<Rightarrow> int \<Rightarrow> dl_run" where
  "one_run i c t k d n = \<lparr>dr_work = [i], dr_workers = [WTake], dr_file = c, dr_tracker = t, dr_maxEnd = k, dr_missing = [], dr_err = None,
     dr_downloaded = d, dr_segsDone = n, dr_ctx = None\<rparr>"

lemma one_start:
  "DownloadFile_start one_env id (one_file [posted_seg 1]) 0 (str ''d'') (Some (one_tracker 1 0 0 0)) None =
    Running (one_job [posted_seg 1]) (one_run 0 (replicate 10 0) (Some (one_tracker 1 0 0 0)) 0 0 0)"
  by code_simp

lemma lost_start:
  "DownloadFile_start one_env id (one_file [posted_seg 1, posted_seg 2]) 0 (str ''d'') (Some (one_tracker 2 1 1 2)) None =
    Running (one_job [posted_seg 1, posted_seg 2]) (one_run 1 (replicate 20 0) (Some (one_tracker 2 1 1 2)) 2 10 1)"
  by code_simp

lemma sample_trackers_ok: "tracker_ok (one_tracker 1 0 0 0)" "tracker_ok (one_tracker 2 1 1 2)"
  by code_simp+

lemma one_honest: "honest (one_job [posted_seg 1]) posted_ans [[1, 2]]"
  by (simp add: honest_def one_job_def posted_ans_def posted_seg_def posted_part_def seg_off_def)

lemma one_complete:
  "\<exists>r. (dl_step (one_job [posted_seg 1]) posted_ans)\<^sup>*\<^sup>* (one_run 0 (replicate 10 0) (Some (one_tracker 1 0 0 0)) 0 0 0) r \<and> dr_workers r = [WExit] \<and>
    dr_missing r = [] \<and> dr_err r = None \<and> dr_ctx r = None \<and> dr_file r = 1 # 2 # replicate 8 0 \<and> dr_maxEnd r = 2 \<and> dr_tracker r = Some (one_tracker 1 1 1 2\<lparr>dirty := True, markCount := 1\<rparr>)"
proof -
  let ?r = "one_run 0 (replicate 10 0) (Some (one_tracker 1 0 0 0)) 0 0 0"
  have v: "posted_ans (jb_segments (one_job [posted_seg 1]) ! 0) (Inr (posted_part 1 [1, 2]))"
    "validatePartOffset (posted_part 1 [1, 2]) (jb_total (one_job [posted_seg 1])) = None"
    by (simp add: posted_ans_def one_job_def posted_seg_def, code_simp)
  have w: "write_at (nat (Begin (posted_part 1 [1, 2]) - 1)) (Data (posted_part 1 [1, 2])) (dr_file ?r) = 1 # 2 # replicate 8 0" by code_simp
  have e: "max (dr_maxEnd ?r) (part_end (posted_part 1 [1, 2])) = 2" by code_simp
  have t: "snd (MarkDone 0 0 0 (NoteFileSize 0 (part_end (posted_part 1 [1, 2])) (one_tracker 1 0 0 0))) = one_tracker 1 1 1 2\<lparr>dirty := True, markCount := 1\<rparr>" by code_simp
  have "dr_workers ?r = [WTake]" "dr_work ?r = [0]" "dr_ctx ?r = None" "jb_index (one_job [posted_seg 1]) = 0" by (simp_all add: one_run_def one_job_def)
  from one_segment_run [where ans = posted_ans, OF this(1-3) v, of 0] this(4) w e t show ?thesis by (auto simp: one_run_def)
qed


text \<open>
  C38. The resume misses damage in two states of the disk that an interruption leaves. When the partly downloaded file has been
  removed, the segments that the tracker has marked are skipped all the same: a run that fetches the rest reports no missing
  segment and success, and the file has zeros where the marked segments belong. And when the daemon died after the last segment
  was marked but before the file was cut to its size, the next run skips the file as complete and reports it, with the
  pre-allocated zeros behind its end.
\<close>

theorem resume_misses_damage:
  "(DownloadFile_start one_env id (one_file [posted_seg 1, posted_seg 2]) 0 (str ''d'') (Some (one_tracker 2 1 1 2)) None =
      Running (one_job [posted_seg 1, posted_seg 2]) (one_run 1 (replicate 20 0) (Some (one_tracker 2 1 1 2)) 2 10 1) \<and>
    honest (one_job [posted_seg 1, posted_seg 2]) posted_ans [[1, 2], [3]] \<and>
    (\<exists>r. (dl_step (one_job [posted_seg 1, posted_seg 2]) posted_ans)\<^sup>*\<^sup>* (one_run 1 (replicate 20 0) (Some (one_tracker 2 1 1 2)) 2 10 1) r \<and>
      dr_workers r = [WExit] \<and> dr_missing r = [] \<and> DownloadFile_end (one_job [posted_seg 1, posted_seg 2]) True r = (Inr (str ''d/=a=''), [0, 0, 3]))) \<and>
   (\<exists>r t. DownloadFile_start one_env id (one_file [posted_seg 1]) 0 (str ''d'') (Some (one_tracker 1 0 0 0)) None =
       Running (one_job [posted_seg 1]) (one_run 0 (replicate 10 0) (Some (one_tracker 1 0 0 0)) 0 0 0) \<and>
     (dl_step (one_job [posted_seg 1]) posted_ans)\<^sup>*\<^sup>* (one_run 0 (replicate 10 0) (Some (one_tracker 1 0 0 0)) 0 0 0) r \<and> dr_tracker r = Some t \<and>
     DownloadFile_start one_env id (one_file [posted_seg 1]) 0 (str ''d'') (Some t) (Some (dr_file r)) =
       Finished (Inr (str ''d/=a='')) (Some t) (Some (1 # 2 # replicate 8 0)))"
proof (intro conjI)
  let ?j = "one_job [posted_seg 1, posted_seg 2]" and ?r = "one_run 1 (replicate 20 0) (Some (one_tracker 2 1 1 2)) 2 10 1"
  show "honest ?j posted_ans [[1, 2], [3]]"
    by (auto simp: honest_def one_job_def posted_ans_def posted_seg_def posted_part_def seg_off_def less_Suc_eq nth_Cons split: nat.splits)
  have v: "posted_ans (jb_segments ?j ! 1) (Inr (posted_part 3 [3]))" "validatePartOffset (posted_part 3 [3]) (jb_total ?j) = None"
    by (simp add: posted_ans_def one_job_def posted_seg_def, code_simp)
  have w: "write_at (nat (Begin (posted_part 3 [3]) - 1)) (Data (posted_part 3 [3])) (dr_file ?r) = 0 # 0 # 3 # replicate 17 0" by code_simp
  have e: "max (dr_maxEnd ?r) (part_end (posted_part 3 [3])) = 3" by code_simp
  have "dr_workers ?r = [WTake]" "dr_work ?r = [1]" "dr_ctx ?r = None" by (simp_all add: one_run_def)
  from one_segment_run [where ans = posted_ans, OF this v, of 0] w e obtain r where r: "(dl_step ?j posted_ans)\<^sup>*\<^sup>* ?r r" "dr_workers r = [WExit]" "dr_missing r = []" "dr_err r = None"
      "dr_ctx r = None" "dr_file r = 0 # 0 # 3 # replicate 17 0" "dr_maxEnd r = 3"
    by (auto simp: one_run_def)
  then have "DownloadFile_end ?j True r = (Inr (str ''d/=a=''), [0, 0, 3])"
    by (simp add: DownloadFile_end_def tailSegmentMissing_def truncate_to_def one_job_def)
  then show "\<exists>r. (dl_step ?j posted_ans)\<^sup>*\<^sup>* ?r r \<and> dr_workers r = [WExit] \<and> dr_missing r = [] \<and> DownloadFile_end ?j True r = (Inr (str ''d/=a=''), [0, 0, 3])"
    using r by blast
next
  let ?t = "one_tracker 1 1 1 2\<lparr>dirty := True, markCount := 1\<rparr>" and ?j = "one_job [posted_seg 1]" and ?r0 = "one_run 0 (replicate 10 0) (Some (one_tracker 1 0 0 0)) 0 0 0"
  have s: "DownloadFile_start one_env id (one_file [posted_seg 1]) 0 (str ''d'') (Some ?t) (Some (1 # 2 # replicate 8 0)) =
      Finished (Inr (str ''d/=a='')) (Some ?t) (Some (1 # 2 # replicate 8 0))" by code_simp
  obtain r where r: "(dl_step ?j posted_ans)\<^sup>*\<^sup>* ?r0 r" "dr_tracker r = Some ?t" "dr_file r = 1 # 2 # replicate 8 0" using one_complete by blast
  show "\<exists>r t. DownloadFile_start one_env id (one_file [posted_seg 1]) 0 (str ''d'') (Some (one_tracker 1 0 0 0)) None = Running ?j ?r0 \<and>
     (dl_step ?j posted_ans)\<^sup>*\<^sup>* ?r0 r \<and> dr_tracker r = Some t \<and>
     DownloadFile_start one_env id (one_file [posted_seg 1]) 0 (str ''d'') (Some t) (Some (dr_file r)) = Finished (Inr (str ''d/=a='')) (Some t) (Some (1 # 2 # replicate 8 0))"
    using one_start r s by (intro exI [of _ r] exI [of _ ?t]) simp
qed (rule lost_start)

end
